(* ===== verification/GoPrelude.thy ===== *)
theory GoPrelude
  imports Complex_Main "HOL-Library.Word" "HOL-Library.DAList" "HOL-Library.Monad_Syntax"
begin

text \<open>
  Shared vocabulary of the development: the machine types of the Go code, Go maps, range
  loops over maps, and the generic lemmas on them that every component uses.

  A Go map is an association list with unique keys (type \<open>alist\<close>), so every model is
  executable and the size of a map is the number of its keys. The order of the entries stands
  for the unspecified order of a Go \<open>range\<close> loop: lemmas about range loops hold for every
  entry order. A \<open>uint64\<close> is a 64-bit word, whose addition wraps as Go's does; an \<open>int64\<close>
  that is a Unix time in seconds is an \<open>int\<close> (times near the ends of the 64-bit range do not
  occur: the clock is the only source of them); a \<open>float64\<close> is a \<open>real\<close>.
  A run-time panic is \<open>None\<close>.
\<close>

named_theorems gomap \<open>lookup laws of Go maps\<close>
named_theorems preserve \<open>operations that keep an invariant\<close>

type_synonym byte = "8 word"
type_synonym u64 = "64 word"
type_synonym unix_time = int
type_synonym float64 = real
type_synonym ('k, 'v) gomap = "('k, 'v) alist"

abbreviation mget :: "('k, 'v) gomap \<Rightarrow> 'k \<Rightarrow> 'v option" where
  "mget \<equiv> DAList.lookup"

abbreviation mput :: "('k, 'v) gomap \<Rightarrow> 'k \<Rightarrow> 'v \<Rightarrow> ('k, 'v) gomap" where
  "mput m k v \<equiv> DAList.update k v m"

abbreviation mdel :: "('k, 'v) gomap \<Rightarrow> 'k \<Rightarrow> ('k, 'v) gomap" where
  "mdel m k \<equiv> DAList.delete k m"

abbreviation mempty :: "('k, 'v) gomap" where
  "mempty \<equiv> DAList.empty"

abbreviation mentries :: "('k, 'v) gomap \<Rightarrow> ('k \<times> 'v) list" where
  "mentries \<equiv> DAList.impl_of"

text \<open>A range loop that deletes the entries failing a test.\<close>

abbreviation mkeep :: "('k \<times> 'v \<Rightarrow> bool) \<Rightarrow> ('k, 'v) gomap \<Rightarrow> ('k, 'v) gomap" where
  "mkeep \<equiv> DAList.filter"

definition mlen :: "('k, 'v) gomap \<Rightarrow> nat" where
  "mlen m = length (mentries m)"

definition mkeys :: "('k, 'v) gomap \<Rightarrow> 'k list" where
  "mkeys m = map fst (mentries m)"

text \<open>The range loop: the body runs once per entry and updates a state.\<close>

definition mrange :: "('k \<Rightarrow> 'v \<Rightarrow> 's \<Rightarrow> 's) \<Rightarrow> ('k, 'v) gomap \<Rightarrow> 's \<Rightarrow> 's" where
  "mrange f m s = fold (\<lambda>(k, v). f k v) (mentries m) s"

text \<open>The membership test of a \<open>map[K]bool\<close> used as a set: an absent key reads as false.\<close>

definition mhas :: "('k, bool) gomap \<Rightarrow> 'k \<Rightarrow> bool" where
  "mhas m k = (mget m k = Some True)"

subsection \<open>Lookup laws\<close>

lemma mget_mput [gomap]: "mget (mput m k v) k' = (if k = k' then Some v else mget m k')"
  by (rule lookup_update)

lemma map_of_filter_distinct:
  "distinct (map fst m) \<Longrightarrow> map_of (List.filter P m) k =
     (case map_of m k of None \<Rightarrow> None | Some v \<Rightarrow> if P (k, v) then Some v else None)"
  by (induction m)
     (auto split: option.splits dest: map_of_SomeD intro: rev_image_eqI simp: map_of_eq_None_iff)

lemma mget_mkeep [gomap]:
  "mget (mkeep P m) k =
     (case mget m k of None \<Rightarrow> None | Some v \<Rightarrow> if P (k, v) then Some v else None)"
  by transfer (auto simp: map_of_filter_distinct)

lemma mget_mdel [gomap]: "mget (mdel m k) k' = (if k = k' then None else mget m k')"
  by simp

lemma mget_eq_map_of: "mget m = map_of (mentries m)"
  by (simp add: DAList.lookup.rep_eq)

lemma mentries_iff: "(k, v) \<in> set (mentries m) \<longleftrightarrow> mget m k = Some v"
  by (simp add: mget_eq_map_of)

lemma mentries_mempty [simp]: "mentries mempty = []"
  by (simp add: DAList.empty.rep_eq)

lemma mkeys_set [simp]: "set (mkeys m) = dom (mget m)"
  by (simp add: mkeys_def mget_eq_map_of dom_map_of_conv_image_fst)

lemma mkeys_distinct [simp]: "distinct (mkeys m)"
  by (simp add: mkeys_def)

lemma mlen_card: "mlen m = card (dom (mget m))"
proof -
  have "mlen m = length (mkeys m)" by (simp add: mlen_def mkeys_def)
  then show ?thesis using distinct_card [OF mkeys_distinct, of m] by simp
qed

lemma finite_dom_mget [simp, intro]: "finite (dom (mget m))"
  by (metis mkeys_set finite_set)

lemma dom_mget_mput [simp]: "dom (mget (mput m k v)) = insert k (dom (mget m))"
  by (auto simp: mget_mput dom_def)

lemma mlen_mempty [simp]: "mlen mempty = 0"
  by (simp add: mlen_def)

lemma mlen_mput: "mlen (mput m k v) = (if mget m k = None then Suc (mlen m) else mlen m)"
  by (auto simp: mlen_card domIff insert_absorb)

lemma mhas_mempty [simp]: "mhas mempty k = False"
  by (simp add: mhas_def)

lemma mhas_mput [gomap]: "mhas (mput m k b) k' = (if k = k' then b else mhas m k')"
  by (simp add: mhas_def mget_mput)

subsection \<open>Range loops\<close>

lemma mrange_copy_list:
  assumes "distinct (map fst xs)"
  shows "mget (fold (\<lambda>(k, v) acc. mput acc k (g k v)) xs acc) k =
    (case map_of xs k of Some v \<Rightarrow> Some (g k v) | None \<Rightarrow> mget acc k)"
  using assms
proof (induction xs arbitrary: acc)
  case (Cons x xs)
  then show ?case
    by (cases x) (auto simp: mget_mput map_of_eq_None_iff split: option.splits
        intro: rev_image_eqI dest: map_of_SomeD)
qed simp

lemma mget_mrange_copy [gomap]:
  "mget (mrange (\<lambda>k v acc. mput acc k (g k v)) m acc) k =
    (case mget m k of Some v \<Rightarrow> Some (g k v) | None \<Rightarrow> mget acc k)"
  using mrange_copy_list [of "mentries m" g acc k] by (simp add: mrange_def mget_eq_map_of)

lemma mrange_fill_list:
  assumes "distinct (map fst xs)"
  shows "mget (fold (\<lambda>(k, v) acc. if mget acc k = None then mput acc k (g k v) else acc) xs acc) k =
    (case mget acc k of Some w \<Rightarrow> Some w
     | None \<Rightarrow> (case map_of xs k of Some v \<Rightarrow> Some (g k v) | None \<Rightarrow> None))"
  using assms
proof (induction xs arbitrary: acc)
  case (Cons x xs)
  obtain a b where x: "x = (a, b)" by (cases x)
  with Cons.prems have "map_of xs a = None" by (auto simp: map_of_eq_None_iff)
  with Cons show ?case by (cases "a = k") (auto simp: x mget_mput split: option.splits)
qed (auto split: option.splits)

lemma mget_mrange_fill [gomap]:
  "mget (mrange (\<lambda>k v acc. if mget acc k = None then mput acc k (g k v) else acc) m acc) k =
    (case mget acc k of Some w \<Rightarrow> Some w
     | None \<Rightarrow> (case mget m k of Some v \<Rightarrow> Some (g k v) | None \<Rightarrow> None))"
  unfolding mrange_def mget_eq_map_of [of m] by (rule mrange_fill_list) simp

text \<open>Copying a map into a new one keeps it, entries and order alike.\<close>

lemma update_new: "k \<notin> fst ` set xs \<Longrightarrow> AList.update k v xs = xs @ [(k, v)]"
  by (induction xs) auto

lemma fold_copy_impl:
  "distinct (map fst (mentries acc) @ map fst xs) \<Longrightarrow>
     mentries (fold (\<lambda>(k, v) acc. mput acc k v) xs acc) = mentries acc @ xs"
proof (induction xs arbitrary: acc)
  case (Cons x xs)
  obtain k v where x: "x = (k, v)" by (cases x)
  have "mentries (mput acc k v) = mentries acc @ [(k, v)]"
    using Cons.prems x by (simp add: DAList.update.rep_eq update_new)
  then show ?case using Cons.IH [of "mput acc k v"] Cons.prems by (simp add: x)
qed simp

lemma mrange_copy_id [simp]: "mrange (\<lambda>k v acc. mput acc k v) m mempty = m"
proof -
  have "mentries (mrange (\<lambda>k v acc. mput acc k v) m mempty) = mentries m"
    unfolding mrange_def using fold_copy_impl [of mempty "mentries m"] by simp
  then show ?thesis by (simp add: DAList.impl_of_inject)
qed

text \<open>An invariant kept by the body is kept by the loop.\<close>

lemma mrange_invariant:
  assumes "P s" and "\<And>k v s. mget m k = Some v \<Longrightarrow> P s \<Longrightarrow> P (f k v s)"
  shows "P (mrange f m s)"
proof -
  have "P (fold (\<lambda>(k, v). f k v) xs s)" if "set xs \<subseteq> set (mentries m)" "P s" for xs s
    using that
  proof (induction xs arbitrary: s)
    case (Cons x xs)
    then show ?case using assms(2) by (cases x) (auto simp: mentries_iff)
  qed simp
  from this [of "mentries m" s] assms(1) show ?thesis by (simp add: mrange_def)
qed

subsection \<open>Sums over the values of a map\<close>

definition msum :: "('v \<Rightarrow> 'a::comm_monoid_add) \<Rightarrow> ('k, 'v) gomap \<Rightarrow> 'a" where
  "msum f m = sum_list (map (\<lambda>(k, v). f v) (mentries m))"

lemma msum_mempty [simp]: "msum f mempty = 0"
  by (simp add: msum_def)

lemma msum_alist_update:
  fixes f :: "'v \<Rightarrow> 'a::ab_group_add"
  assumes "distinct (map fst xs)"
  shows "sum_list (map (\<lambda>(k, v). f v) (AList.update k v xs)) =
    sum_list (map (\<lambda>(k, v). f v) xs) + f v
      - (case map_of xs k of None \<Rightarrow> 0 | Some w \<Rightarrow> f w)"
  using assms
proof (induction xs)
  case (Cons x xs)
  obtain k' v' where x: "x = (k', v')" by (cases x)
  show ?case
  proof (cases "k = k'")
    case True
    then show ?thesis by (simp add: x)
  next
    case False
    with Cons show ?thesis by (simp add: x algebra_simps)
  qed
qed simp

lemma msum_mput:
  fixes f :: "'v \<Rightarrow> 'a::ab_group_add"
  shows "msum f (mput m k v) = msum f m + f v
     - (case mget m k of None \<Rightarrow> 0 | Some w \<Rightarrow> f w)"
  using msum_alist_update [of "mentries m" f k v]
  by (simp add: msum_def DAList.update.rep_eq mget_eq_map_of)

lemma msum_eq_sum: "msum f m = (\<Sum>k\<in>dom (mget m). f (the (mget m k)))"
proof -
  have "msum f m = sum_list (map (\<lambda>k. f (the (mget m k))) (mkeys m))"
    unfolding msum_def mkeys_def
    by (simp add: comp_def case_prod_unfold cong: map_cong)
       (rule arg_cong [where f = sum_list], rule map_cong, auto simp: mentries_iff)
  also have "\<dots> = (\<Sum>k\<in>set (mkeys m). f (the (mget m k)))"
    by (rule sum_list_distinct_conv_sum_set) simp
  finally show ?thesis by simp
qed

text \<open>\<open>m[k]++\<close> on a \<open>map[string]uint64\<close>: an absent key reads as 0.\<close>

definition mincr :: "('k, u64) gomap \<Rightarrow> 'k \<Rightarrow> ('k, u64) gomap" where
  "mincr m k = mput m k ((case mget m k of None \<Rightarrow> 0 | Some n \<Rightarrow> n) + 1)"

lemma msum_mincr: "msum (\<lambda>v. v) (mincr m k) = msum (\<lambda>v. v) m + 1"
  by (simp add: mincr_def msum_mput split: option.splits)

subsection \<open>Extensional equality of maps\<close>

text \<open>Two Go maps are the same map when they agree on every key, whatever the entry order.\<close>

definition same_map :: "('k, 'v) gomap \<Rightarrow> ('k, 'v) gomap \<Rightarrow> bool" where
  "same_map m m' \<longleftrightarrow> mget m = mget m'"

lemma same_map_refl [simp]: "same_map m m"
  by (simp add: same_map_def)

lemma same_map_mlen: "same_map m m' \<Longrightarrow> mlen m = mlen m'"
  by (simp add: same_map_def mlen_card)

subsection \<open>Strings sets kept as lists\<close>

text \<open>\<open>containsStr\<close> and the append-if-absent idiom of the registries (nodes.go, observers.go).\<close>

definition containsStr :: "string list \<Rightarrow> string \<Rightarrow> bool" where
  "containsStr s v = (v \<in> set s)"

definition addStr :: "string list \<Rightarrow> string \<Rightarrow> string list" where
  "addStr s v = (if v \<noteq> '''' \<and> \<not> containsStr s v then s @ [v] else s)"

lemma set_addStr: "set (addStr s v) = set s \<union> (if v = '''' then {} else {v})"
  by (auto simp: addStr_def containsStr_def)

lemma distinct_addStr [preserve]: "distinct s \<Longrightarrow> distinct (addStr s v)"
  by (auto simp: addStr_def containsStr_def)

text \<open>A loop over a slice that updates the first matching element in place and returns; \<open>None\<close>
  when it runs to the end without a match.\<close>

fun update_first :: "('a \<Rightarrow> bool) \<Rightarrow> ('a \<Rightarrow> 'a) \<Rightarrow> 'a list \<Rightarrow> 'a list option" where
  "update_first P f [] = None"
| "update_first P f (x # xs) =
     (if P x then Some (f x # xs) else map_option (Cons x) (update_first P f xs))"

lemma update_first_None: "update_first P f xs = None \<longleftrightarrow> (\<forall>x\<in>set xs. \<not> P x)"
  by (induction xs) auto

lemma update_first_Some:
  "update_first P f xs = Some ys \<Longrightarrow>
     \<exists>us x vs. xs = us @ x # vs \<and> ys = us @ f x # vs \<and> P x \<and> (\<forall>u\<in>set us. \<not> P u)"
proof (induction xs arbitrary: ys)
  case (Cons x xs)
  show ?case
  proof (cases "P x")
    case True
    with Cons.prems show ?thesis by (intro exI [of _ "[]"]) auto
  next
    case False
    with Cons.prems obtain zs where zs: "update_first P f xs = Some zs" "ys = x # zs" by auto
    from Cons.IH [OF zs(1)] obtain us y vs where
      "xs = us @ y # vs \<and> zs = us @ f y # vs \<and> P y \<and> (\<forall>u\<in>set us. \<not> P u)" by blast
    with False zs(2) show ?thesis by (intro exI [of _ "x # us"]) auto
  qed
qed simp

lemma update_first_map:
  "update_first P f xs = Some ys \<Longrightarrow> (\<And>x. P x \<Longrightarrow> g (f x) = g x) \<Longrightarrow> map g ys = map g xs"
  by (induction xs arbitrary: ys) (auto split: if_splits)

lemma update_first_all:
  "update_first P f xs = Some ys \<Longrightarrow> \<forall>x\<in>set xs. Q x \<Longrightarrow> (\<And>x. P x \<Longrightarrow> Q x \<Longrightarrow> Q (f x))
     \<Longrightarrow> \<forall>y\<in>set ys. Q y"
  by (induction xs arbitrary: ys) (auto split: if_splits)

text \<open>Go's remainder truncates towards zero, so it has the sign of the dividend.\<close>

definition go_rem :: "int \<Rightarrow> int \<Rightarrow> int" where
  "go_rem a b = sgn a * (\<bar>a\<bar> mod \<bar>b\<bar>)"

definition go_div :: "int \<Rightarrow> int \<Rightarrow> int" where
  "go_div a b = sgn a * sgn b * (\<bar>a\<bar> div \<bar>b\<bar>)"

lemma go_rem_nonneg: "0 \<le> a \<Longrightarrow> 0 < b \<Longrightarrow> go_rem a b = a mod b"
  by (cases "a = 0") (auto simp: go_rem_def)

lemma go_div_nonneg: "0 \<le> a \<Longrightarrow> 0 < b \<Longrightarrow> go_div a b = a div b"
  by (cases "a = 0") (auto simp: go_div_def)

end
