(* ===== verification/RateWindow.thy ===== *)
theory RateWindow
  imports GoPrelude
begin

text \<open>
  The packets-per-minute ring of metrics.go (\<open>rateWindow\<close>): 300 one-second buckets indexed by
  the time modulo 300. \<open>rw_repr r ts\<close> says that the ring \<open>r\<close> represents the list \<open>ts\<close> of the
  times of all events so far; the operations refine the plain operations on that list.
\<close>

subsection \<open>State and operations\<close>

definition rateWindowSecs :: int where
  "rateWindowSecs = 300"

record rateWindow =
  buckets :: "u64 list"
  lastSec :: unix_time
  firstSec :: unix_time

definition new_rateWindow :: rateWindow where
  "new_rateWindow = \<lparr>buckets = replicate 300 0, lastSec = 0, firstSec = 0\<rparr>"

text \<open>\<open>s % rateWindowSecs\<close> as an array index: a negative remainder panics.\<close>

definition bucketIdx :: "unix_time \<Rightarrow> nat option" where
  "bucketIdx s = (let i = go_rem s rateWindowSecs in if i < 0 then None else Some (nat i))"

text \<open>The loop \<open>for s := r.lastSec + 1; s <= now; s++\<close>.\<close>

function zeroBuckets :: "unix_time \<Rightarrow> unix_time \<Rightarrow> u64 list \<Rightarrow> u64 list option" where
  "zeroBuckets s now bs =
     (if s \<le> now then
        (case bucketIdx s of None \<Rightarrow> None | Some i \<Rightarrow> zeroBuckets (s + 1) now (bs[i := 0]))
      else Some bs)"
  by pat_completeness auto
termination
  by (relation "measure (\<lambda>(s, now, bs). nat (now + 1 - s))") auto

declare zeroBuckets.simps [simp del]

definition rw_advance :: "unix_time \<Rightarrow> rateWindow \<Rightarrow> rateWindow option" where
  "rw_advance now r =
     (if lastSec r = 0 then Some (r\<lparr>lastSec := now\<rparr>)
      else if now \<le> lastSec r then Some r
      else let gap = now - lastSec r in
        do {
          bs \<leftarrow> (if gap \<ge> rateWindowSecs then Some (replicate 300 0)
                 else zeroBuckets (lastSec r + 1) now (buckets r));
          Some (r\<lparr>buckets := bs, lastSec := now\<rparr>)
        })"

definition rw_add :: "unix_time \<Rightarrow> rateWindow \<Rightarrow> rateWindow option" where
  "rw_add now r =
     do {
       r \<leftarrow> rw_advance now r;
       let r = (if firstSec r = 0 then r\<lparr>firstSec := now\<rparr> else r);
       i \<leftarrow> bucketIdx now;
       Some (r\<lparr>buckets := (buckets r)[i := buckets r ! i + 1]\<rparr>)
     }"

definition rw_perMin :: "unix_time \<Rightarrow> rateWindow \<Rightarrow> (float64 \<times> rateWindow) option" where
  "rw_perMin now r =
     do {
       r \<leftarrow> rw_advance now r;
       if firstSec r = 0 then Some (0, r)
       else
         let total = sum_list (buckets r);
             covered = now - firstSec r + 1;
             covered = (if covered > rateWindowSecs then rateWindowSecs else covered);
             covered = (if covered < 1 then 1 else covered)
         in Some (real (unat total) * 60 / real_of_int covered, r)
     }"

subsection \<open>The events a ring represents\<close>

definition rw_repr :: "rateWindow \<Rightarrow> unix_time list \<Rightarrow> bool" where
  "rw_repr r ts \<longleftrightarrow>
     length (buckets r) = 300 \<and> 0 \<le> lastSec r \<and> (\<forall>t\<in>set ts. 0 < t \<and> t \<le> lastSec r) \<and>
     firstSec r = (case ts of [] \<Rightarrow> 0 | t # _ \<Rightarrow> t) \<and>
     (\<forall>s. lastSec r - 300 < s \<and> s \<le> lastSec r
        \<longrightarrow> buckets r ! nat (s mod 300) = of_nat (count_list ts s))"

text \<open>The rate the window is meant to report: events of the last 300 seconds per minute.\<close>

definition rate_spec :: "unix_time \<Rightarrow> unix_time list \<Rightarrow> float64" where
  "rate_spec now ts =
     (case ts of [] \<Rightarrow> 0
      | t # _ \<Rightarrow> real (length (List.filter (\<lambda>x. now - 300 < x) ts)) * 60
           / real_of_int (max 1 (min 300 (now - t + 1))))"

lemma bucketIdx_nonneg: "0 \<le> s \<Longrightarrow> bucketIdx s = Some (nat (s mod 300))"
  by (simp add: bucketIdx_def rateWindowSecs_def go_rem_nonneg Let_def not_less)

lemma mod300_inj:
  assumes "s mod 300 = t mod (300 :: int)" and "\<bar>s - t\<bar> < 300"
  shows "s = t"
proof -
  from assms(1) have "300 dvd s - t" by (simp add: mod_eq_dvd_iff)
  then obtain k where k: "s - t = 300 * k" by (rule dvdE)
  from assms(2) have "- 300 < s - t" and "s - t < 300" by linarith+
  with k have "k = 0" by linarith
  with k show ?thesis by simp
qed

lemma idx_eq_iff:
  "\<bar>s - t\<bar> < 300 \<Longrightarrow> nat (s mod 300) = nat (t mod 300) \<longleftrightarrow> s = (t :: int)"
  using mod300_inj [of s t] by (auto simp: eq_nat_nat_iff)

lemma zeroBuckets_spec:
  assumes "0 \<le> s" and "length bs = 300" and "now < s + 300"
  shows "\<exists>bs'. zeroBuckets s now bs = Some bs' \<and> length bs' = 300 \<and>
    (\<forall>t. now - 300 < t \<and> t \<le> now \<longrightarrow>
       bs' ! nat (t mod 300) = (if s \<le> t then 0 else bs ! nat (t mod 300)))"
  using assms
proof (induction s now bs rule: zeroBuckets.induct)
  case (1 s now bs)
  show ?case
  proof (cases "s \<le> now")
    case True
    let ?bs = "bs[nat (s mod 300) := 0]"
    have step: "zeroBuckets s now bs = zeroBuckets (s + 1) now ?bs"
      using True "1.prems" by (subst zeroBuckets.simps) (simp add: bucketIdx_nonneg)
    have "\<exists>bs'. zeroBuckets (s + 1) now ?bs = Some bs' \<and> length bs' = 300 \<and>
       (\<forall>t. now - 300 < t \<and> t \<le> now \<longrightarrow>
          bs' ! nat (t mod 300) = (if s + 1 \<le> t then 0 else ?bs ! nat (t mod 300)))"
      using "1.IH" [OF True bucketIdx_nonneg] "1.prems" by simp
    then obtain bs' where bs': "zeroBuckets (s + 1) now ?bs = Some bs'" "length bs' = 300"
      and vals: "\<And>t. now - 300 < t \<Longrightarrow> t \<le> now \<Longrightarrow>
         bs' ! nat (t mod 300) = (if s + 1 \<le> t then 0 else ?bs ! nat (t mod 300))"
      by blast
    have "bs' ! nat (t mod 300) = (if s \<le> t then 0 else bs ! nat (t mod 300))"
      if "now - 300 < t" "t \<le> now" for t
    proof -
      have "nat (t mod 300) < 300" and "nat (s mod 300) < 300" by (simp_all add: nat_less_iff)
      moreover have "nat (s mod 300) = nat (t mod 300) \<longleftrightarrow> s = t"
        using that True "1.prems" by (intro idx_eq_iff) linarith
      ultimately show ?thesis
        using vals [OF that] "1.prems"(2) by (auto simp: nth_list_update)
    qed
    with step bs' show ?thesis by auto
  next
    case False
    with "1.prems" show ?thesis by (subst zeroBuckets.simps) auto
  qed
qed

lemma count_list_0_above: "\<forall>t\<in>set ts. t \<le> L \<Longrightarrow> L < s \<Longrightarrow> count_list ts (s :: int) = 0"
  by (metis count_list_0_iff not_le)

lemma rw_repr_new: "rw_repr new_rateWindow []"
proof -
  have "nat (s mod 300) < 300" for s :: int by (simp add: nat_less_iff)
  then show ?thesis by (simp add: rw_repr_def new_rateWindow_def nth_replicate)
qed

lemma rw_advance_repr:
  assumes rep: "rw_repr r ts" and now: "0 < now"
  shows "\<exists>r'. rw_advance now r = Some r' \<and> rw_repr r' ts \<and> lastSec r' = max (lastSec r) now
    \<and> firstSec r' = firstSec r"
proof -
  have len: "length (buckets r) = 300" and L0: "0 \<le> lastSec r"
    and ts: "\<And>t. t \<in> set ts \<Longrightarrow> 0 < t \<and> t \<le> lastSec r"
    and cnt: "\<And>s. lastSec r - 300 < s \<Longrightarrow> s \<le> lastSec r \<Longrightarrow>
       buckets r ! nat (s mod 300) = of_nat (count_list ts s)"
    using rep by (auto simp: rw_repr_def)
  have above: "count_list ts s = 0" if "lastSec r < s" for s
    using that ts by (intro count_list_0_above) auto
  consider (zero) "lastSec r = 0" | (old) "lastSec r \<noteq> 0" "now \<le> lastSec r"
    | (far) "lastSec r \<noteq> 0" "lastSec r < now" "300 \<le> now - lastSec r"
    | (near) "lastSec r \<noteq> 0" "lastSec r < now" "now - lastSec r < 300"
    by linarith
  then show ?thesis
  proof cases
    case zero
    have "t \<notin> set ts" for t using ts [of t] zero by auto
    then have "ts = []" by (cases ts) auto
    moreover have "buckets r ! nat (s mod 300) = 0" if "now - 300 < s" "s \<le> now" for s
    proof -
      let ?u = "- ((- s) mod 300)"
      have "?u mod 300 = s mod 300" by (simp add: mod_minus_eq)
      moreover have "- 300 < ?u" "?u \<le> 0" by (simp_all add: neg_mod_bound)
      ultimately show ?thesis using cnt [of ?u] zero \<open>ts = []\<close> by simp
    qed
    ultimately show ?thesis using zero now rep
      by (auto simp: rw_advance_def rw_repr_def)
  next
    case old
    with rep show ?thesis by (auto simp: rw_advance_def)
  next
    case far
    have "nat (s mod 300) < 300" for s :: int by (simp add: nat_less_iff)
    with far rep now above show ?thesis
      by (auto simp: rw_advance_def rw_repr_def rateWindowSecs_def nth_replicate
          intro: order_trans)
  next
    case near
    obtain bs' where bs': "zeroBuckets (lastSec r + 1) now (buckets r) = Some bs'"
        "length bs' = 300"
      and vals: "\<And>t. now - 300 < t \<Longrightarrow> t \<le> now \<Longrightarrow> bs' ! nat (t mod 300) =
        (if lastSec r + 1 \<le> t then 0 else buckets r ! nat (t mod 300))"
      using zeroBuckets_spec [of "lastSec r + 1" "buckets r" now] L0 len near by auto
    have "bs' ! nat (t mod 300) = of_nat (count_list ts t)" if "now - 300 < t" "t \<le> now" for t
      using vals [OF that] that near cnt [of t] above [of t] by (cases "lastSec r < t") auto
    with near bs' rep ts now show ?thesis
      by (fastforce simp: rw_advance_def rw_repr_def rateWindowSecs_def)
  qed
qed

lemma rw_add_repr:
  assumes rep: "rw_repr r ts" and now: "0 < now" and late: "lastSec r - 300 < now"
  shows "\<exists>r'. rw_add now r = Some r' \<and> rw_repr r' (ts @ [now]) \<and> lastSec r' = max (lastSec r) now"
proof -
  obtain r1 where r1: "rw_advance now r = Some r1" "rw_repr r1 ts"
      "lastSec r1 = max (lastSec r) now"
    using rw_advance_repr [OF rep now] by blast
  let ?i = "nat (now mod 300)"
  let ?bs = "(buckets r1)[?i := buckets r1 ! ?i + 1]"
  let ?r3 = "r1\<lparr>firstSec := if firstSec r1 = 0 then now else firstSec r1, buckets := ?bs\<rparr>"
  have i: "?i < 300" by (simp add: nat_less_iff)
  have len: "length (buckets r1) = 300"
    and cnt: "\<And>s. lastSec r1 - 300 < s \<Longrightarrow> s \<le> lastSec r1 \<Longrightarrow>
       buckets r1 ! nat (s mod 300) = of_nat (count_list ts s)"
    and ts: "\<forall>t\<in>set ts. 0 < t \<and> t \<le> lastSec r1"
    and first: "firstSec r1 = (case ts of [] \<Rightarrow> 0 | t # _ \<Rightarrow> t)"
    using r1(2) by (auto simp: rw_repr_def)
  have upto: "lastSec r1 - 300 < now" "now \<le> lastSec r1" using r1(3) late by linarith+
  have "?bs ! nat (s mod 300) = of_nat (count_list (ts @ [now]) s)"
    if "lastSec r1 - 300 < s" "s \<le> lastSec r1" for s
  proof (cases "now = s")
    case True
    then show ?thesis using upto cnt [of s] i len by simp
  next
    case False
    moreover have "?i = nat (s mod 300) \<longleftrightarrow> now = s" using that upto by (intro idx_eq_iff) linarith
    ultimately show ?thesis using that cnt [of s] by simp
  qed
  moreover have "firstSec ?r3 = (case ts @ [now] of [] \<Rightarrow> 0 | t # _ \<Rightarrow> t)"
    using first ts by (auto split: list.splits)
  ultimately have "rw_repr ?r3 (ts @ [now])"
    unfolding rw_repr_def using len ts upto now r1(3) by auto
  moreover have "rw_add now r = Some ?r3"
    using r1(1) now by (auto simp: rw_add_def bucketIdx_nonneg Let_def)
  ultimately show ?thesis using r1(3) by auto
qed

lemma sum_list_ring:
  fixes L :: int
  assumes "length (bs :: u64 list) = 300"
  shows "sum_list bs = (\<Sum>s\<in>{L - 299..L}. bs ! nat (s mod 300))"
proof -
  let ?f = "\<lambda>s :: int. nat (s mod 300)"
  have inj: "inj_on ?f {L - 299..L}"
    by (rule inj_onI) (auto simp: idx_eq_iff abs_if)
  have "?f ` {L - 299..L} \<subseteq> {..<300}" by (auto simp: nat_less_iff)
  moreover have "card (?f ` {L - 299..L}) = card {..<300 :: nat}" by (simp add: card_image inj)
  ultimately have "?f ` {L - 299..L} = {..<300}" by (intro card_subset_eq) auto
  with inj have "bij_betw ?f {L - 299..L} {..<300}" by (simp add: bij_betw_def)
  then have "(\<Sum>s\<in>{L - 299..L}. bs ! ?f s) = (\<Sum>i<300. bs ! i)"
    by (rule sum.reindex_bij_betw)
  then show ?thesis using assms by (simp add: sum_list_sum_nth atLeast0LessThan)
qed

lemma sum_count_list:
  "finite A \<Longrightarrow> (\<Sum>s\<in>A. count_list ts s) = length (List.filter (\<lambda>x. x \<in> A) ts)"
proof (induction ts)
  case (Cons x xs)
  have "count_list (x # xs) s = count_list xs s + (if s = x then 1 else 0)" for s by simp
  then have "(\<Sum>s\<in>A. count_list (x # xs) s)
      = (\<Sum>s\<in>A. count_list xs s) + (\<Sum>s\<in>A. if s = x then 1 else 0)"
    by (simp only: sum.distrib)
  then show ?case using Cons by simp
qed simp

text \<open>On every window whose last event is not in the future, \<open>perMin\<close> reports the rate of the
  represented events.\<close>

lemma rw_perMin_repr:
  assumes rep: "rw_repr r ts" and now: "0 < now" "lastSec r \<le> now" and few: "length ts < 2 ^ 64"
  shows "\<exists>r'. rw_perMin now r = Some (rate_spec now ts, r') \<and> rw_repr r' ts"
proof -
  obtain r1 where r1: "rw_advance now r = Some r1" "rw_repr r1 ts" "lastSec r1 = now"
    using rw_advance_repr [OF rep now(1)] now(2) by (auto simp: max_def split: if_splits)
  have ts: "\<And>t. t \<in> set ts \<Longrightarrow> 0 < t \<and> t \<le> now" using r1 by (auto simp: rw_repr_def)
  let ?recent = "List.filter (\<lambda>x. now - 300 < x) ts"
  have "sum_list (buckets r1) = (\<Sum>s\<in>{now - 299..now}. buckets r1 ! nat (s mod 300))"
    using r1(2) by (intro sum_list_ring) (simp add: rw_repr_def)
  also have "\<dots> = (\<Sum>s\<in>{now - 299..now}. of_nat (count_list ts s))"
    using r1(2,3) by (intro sum.cong) (auto simp: rw_repr_def)
  also have "\<dots> = of_nat (length (List.filter (\<lambda>x. x \<in> {now - 299..now}) ts))"
    by (simp only: sum_count_list finite_atLeastAtMost_int flip: of_nat_sum)
  also have "List.filter (\<lambda>x. x \<in> {now - 299..now}) ts = ?recent"
    using ts by (intro filter_cong) auto
  finally have sum: "sum_list (buckets r1) = of_nat (length ?recent)" .
  have "length ?recent < 2 ^ 64" using few length_filter_le [of _ ts] le_less_trans by blast
  then have total: "unat (sum_list (buckets r1)) = length ?recent"
    by (simp add: sum unat_of_nat)
  show ?thesis
  proof (cases ts)
    case Nil
    with r1 show ?thesis by (auto simp: rw_perMin_def rate_spec_def rw_repr_def)
  next
    case (Cons t ts')
    then have first: "firstSec r1 = t" "0 < t" using r1(2) ts by (auto simp: rw_repr_def)
    have "(let c = now - t + 1; c = (if c > 300 then 300 else c) in if c < 1 then 1 else c)
        = max 1 (min 300 (now - t + 1))"
      by (simp add: Let_def)
    have "real (unat (sum_list (buckets r1))) = real (length ?recent)" by (simp only: total)
    then have "rw_perMin now r = Some (rate_spec now ts, r1)"
      using first r1(1) Cons
      by (simp add: rw_perMin_def rate_spec_def rateWindowSecs_def Let_def
          del: of_nat_unat List.filter.simps)
    with r1(2) show ?thesis by blast
  qed
qed

text \<open>A run of additions at times that never fall 300 seconds behind.\<close>

fun rw_add_all :: "unix_time list \<Rightarrow> rateWindow \<Rightarrow> rateWindow option" where
  "rw_add_all [] r = Some r"
| "rw_add_all (t # ts) r = do { r \<leftarrow> rw_add t r; rw_add_all ts r }"

lemma rw_add_all_repr:
  assumes "rw_repr r ts" and "sorted us" and "\<forall>u\<in>set us. 0 < u \<and> lastSec r \<le> u"
  shows "\<exists>r'. rw_add_all us r = Some r' \<and> rw_repr r' (ts @ us) \<and>
    lastSec r' = (if us = [] then lastSec r else last us)"
  using assms
proof (induction us arbitrary: r ts)
  case (Cons u us)
  then obtain r1 where r1: "rw_add u r = Some r1" "rw_repr r1 (ts @ [u])" "lastSec r1 = u"
    using rw_add_repr [of r ts u] by fastforce
  then show ?case using Cons.IH [of r1 "ts @ [u]"] Cons.prems by auto
qed simp

lemma rw_advance_no_panic:
  "rw_repr r ts \<Longrightarrow> 0 < now \<Longrightarrow> rw_advance now r \<noteq> None"
  using rw_advance_repr [of r ts now] by auto

end
