(* ===== verification/DedupWindow.thy ===== *)
theory DedupWindow
  imports GoPrelude
begin

text \<open>
  The time-window deduplication cache shared by the counters (metrics.go) and the link registry
  (links.go): a map from keys to the time of their last sighting, refreshed on every sighting and
  swept of entries older than a window. The locale \<open>dedup_cache\<close> states the laws a cache obeys
  and derives what they buy: two sightings of one key that both count as new are more than a
  window apart.
\<close>

text \<open>The sweep loop: \<open>if now-ts > dedupWindow { delete(m, k) }\<close>.\<close>

definition expireOlder :: "unix_time \<Rightarrow> int \<Rightarrow> ('k, unix_time) gomap \<Rightarrow> ('k, unix_time) gomap" where
  "expireOlder now window m = mkeep (\<lambda>(k, ts). \<not> now - ts > window) m"

lemma mget_expireOlder [gomap]:
  "mget (expireOlder now window m) k =
     (case mget m k of None \<Rightarrow> None | Some ts \<Rightarrow> if now - ts > window then None else Some ts)"
  by (simp add: expireOlder_def mget_mkeep split: option.splits)

lemma dom_expireOlder: "dom (mget (expireOlder now window m)) \<subseteq> dom (mget m)"
  by (auto simp: mget_expireOlder split: option.splits if_splits)

lemma mlen_expireOlder_le: "mlen (expireOlder now window m) \<le> mlen m"
  by (simp add: mlen_card card_mono dom_expireOlder)

datatype 'k dedup_op = Touch 'k unix_time | Expire unix_time

primrec op_time :: "'k dedup_op \<Rightarrow> unix_time" where
  "op_time (Touch k t) = t"
| "op_time (Expire t) = t"

locale dedup_cache =
  fixes seen :: "'s \<Rightarrow> 'k \<Rightarrow> unix_time option"
    and touch :: "'k \<Rightarrow> unix_time \<Rightarrow> 's \<Rightarrow> 's"
    and expire :: "unix_time \<Rightarrow> int \<Rightarrow> 's \<Rightarrow> 's"
  assumes seen_touch: "seen (touch k t s) k' = (if k = k' then Some t else seen s k')"
    and seen_expire: "seen (expire now w s) k' =
      (case seen s k' of None \<Rightarrow> None | Some t \<Rightarrow> if now - t > w then None else Some t)"
begin

primrec apply_op :: "int \<Rightarrow> 'k dedup_op \<Rightarrow> 's \<Rightarrow> 's" where
  "apply_op w (Touch k t) s = touch k t s"
| "apply_op w (Expire now) s = expire now w s"

primrec counted :: "int \<Rightarrow> 'k \<Rightarrow> 'k dedup_op list \<Rightarrow> 's \<Rightarrow> unix_time list" where
  "counted w k [] s = []"
| "counted w k (x # xs) s =
     (case x of Touch k' t \<Rightarrow> if k' = k \<and> seen s k = None then [t] else [] | Expire _ \<Rightarrow> [])
     @ counted w k xs (apply_op w x s)"

lemma counted_times: "t \<in> set (counted w k ops s) \<Longrightarrow> t \<in> set (map op_time ops)"
  by (induction ops arbitrary: s) (auto split: dedup_op.splits if_splits)

lemma counted_after_sighting:
  assumes "seen s k = Some t0" and "sorted (map op_time ops)"
    and "\<And>x. x \<in> set ops \<Longrightarrow> t0 \<le> op_time x" and "t \<in> set (counted w k ops s)" and "0 \<le> w"
  shows "t0 + w < t"
  using assms
proof (induction ops arbitrary: s t0)
  case (Cons x ops)
  have le: "op_time x \<le> t" if "t \<in> set (counted w k ops s')" for s'
    using Cons.prems(2) counted_times [OF that] by auto
  show ?case
  proof (cases x)
    case (Touch k' u)
    show ?thesis
    proof (cases "k' = k")
      case True
      with Touch Cons.prems have "u + w < t"
        by (intro Cons.IH [of "touch k u s"]) (auto simp: seen_touch)
      then show ?thesis using Cons.prems(3) [of x] Touch by simp
    next
      case False
      with Touch Cons.prems show ?thesis
        by (intro Cons.IH [of "touch k' u s"]) (auto simp: seen_touch)
    qed
  next
    case (Expire now)
    have inc: "t \<in> set (counted w k ops (expire now w s))" using Cons.prems(4) Expire by simp
    show ?thesis
    proof (cases "now - t0 > w")
      case True
      then show ?thesis using le [OF inc] Expire by simp
    next
      case False
      with Expire Cons.prems inc show ?thesis
        by (intro Cons.IH [of "expire now w s"]) (auto simp: seen_expire)
    qed
  qed
qed simp

lemma counted_spaced:
  assumes "sorted (map op_time ops)" and "0 \<le> w"
  shows "sorted_wrt (\<lambda>t u. t + w < u) (counted w k ops s)"
  using assms
proof (induction ops arbitrary: s)
  case (Cons x ops)
  then have rest: "sorted_wrt (\<lambda>t u. t + w < u) (counted w k ops (apply_op w x s))" by simp
  show ?case
  proof (cases x)
    case (Touch k' t)
    have "t + w < u" if "k' = k" "u \<in> set (counted w k ops (touch k t s))" for u
      using that Cons.prems Touch
      by (intro counted_after_sighting [of "touch k t s" k t ops u w]) (auto simp: seen_touch)
    with rest Touch show ?thesis by auto
  next
    case (Expire now)
    with rest show ?thesis by simp
  qed
qed simp

end

text \<open>The caches of the code are such caches: a Go map with \<open>m[k] = now\<close> and the sweep loop.\<close>

interpretation cache: dedup_cache mget "\<lambda>k t m. mput m k t" expireOlder
  by unfold_locales (simp_all add: mget_mput mget_expireOlder)

text \<open>A cache spread over several maps is seen through its lookup function.\<close>

definition flat_touch :: "'k \<Rightarrow> unix_time \<Rightarrow> ('k \<Rightarrow> unix_time option) \<Rightarrow> 'k \<Rightarrow> unix_time option" where
  "flat_touch k t s = s(k \<mapsto> t)"

definition flat_expire :: "unix_time \<Rightarrow> int \<Rightarrow> ('k \<Rightarrow> unix_time option) \<Rightarrow> 'k \<Rightarrow> unix_time option" where
  "flat_expire now w s k = (case s k of None \<Rightarrow> None | Some t \<Rightarrow> if now - t > w then None else Some t)"

definition flat_seen :: "('k \<Rightarrow> unix_time option) \<Rightarrow> 'k \<Rightarrow> unix_time option" where
  "flat_seen s k = (case s k of None \<Rightarrow> None | Some t \<Rightarrow> Some t)"

lemma flat_seen_apply: "flat_seen s k = s k"
  by (simp add: flat_seen_def split: option.splits)

interpretation flat: dedup_cache flat_seen flat_touch flat_expire
  by unfold_locales (simp_all add: flat_seen_apply flat_touch_def flat_expire_def)

end
