(* ===== verification/GoStrings.thy ===== *)
theory GoStrings
  imports GoPrelude "HOL-Library.Char_ord" "HOL-Library.List_Lexorder"
begin

text \<open>
  The parts of Go's packages \<open>strings\<close>, \<open>strconv\<close>, \<open>bytes\<close> and \<open>encoding/hex\<close> the code
  calls. A Go string is a list of bytes (\<open>string\<close>), and \<open><\<close> on it is the bytewise
  lexicographic order of Go. Case mapping and white space are those of ASCII: the hashes, keys
  and identifiers the code normalises are ASCII, and a byte of 128 or more is left as it is.
\<close>

subsection \<open>Case, white space, search\<close>

definition lower_char :: "char \<Rightarrow> char" where
  "lower_char c = (if 65 \<le> (of_char c :: nat) \<and> (of_char c :: nat) \<le> 90
     then char_of ((of_char c :: nat) + 32) else c)"

definition upper_char :: "char \<Rightarrow> char" where
  "upper_char c = (if 97 \<le> (of_char c :: nat) \<and> (of_char c :: nat) \<le> 122
     then char_of ((of_char c :: nat) - 32) else c)"

definition to_lower :: "string \<Rightarrow> string" where
  "to_lower s = map lower_char s"

definition to_upper :: "string \<Rightarrow> string" where
  "to_upper s = map upper_char s"

definition is_space :: "char \<Rightarrow> bool" where
  "is_space c = ((of_char c :: nat) \<in> {9, 10, 11, 12, 13, 32})"

definition trim_right :: "string \<Rightarrow> string" where
  "trim_right s = rev (dropWhile is_space (rev s))"

definition trim_space :: "string \<Rightarrow> string" where
  "trim_space s = trim_right (dropWhile is_space s)"

definition equal_fold :: "string \<Rightarrow> string \<Rightarrow> bool" where
  "equal_fold s t = (to_lower s = to_lower t)"

definition has_prefix :: "string \<Rightarrow> string \<Rightarrow> bool" where
  "has_prefix s p = (take (length p) s = p)"

fun contains_sub :: "string \<Rightarrow> string \<Rightarrow> bool" where
  "contains_sub [] p = (p = [])"
| "contains_sub (c # s) p = (has_prefix (c # s) p \<or> contains_sub s p)"

text \<open>\<open>strings.ToLower(strings.TrimSpace(s))\<close>, the normal form of hashes and keys.\<close>

definition canon :: "string \<Rightarrow> string" where
  "canon s = to_lower (trim_space s)"

lemma of_char_char_of_nat [simp]: "n < 256 \<Longrightarrow> (of_char (char_of (n :: nat) :: char) :: nat) = n"
  by (simp add: of_char_of)

lemma of_char_lt_256 [simp]: "(of_char (c :: char) :: nat) < 256"
  by (metis char_of_char mod_less_divisor of_char_of zero_less_numeral)

lemma lower_char_idem [simp]: "lower_char (lower_char c) = lower_char c"
  by (auto simp: lower_char_def)

lemma is_space_lower_char [simp]: "is_space (lower_char c) = is_space c"
  by (auto simp: lower_char_def is_space_def)

lemma to_lower_Nil [simp]: "to_lower [] = []"
  by (simp add: to_lower_def)

lemma length_to_lower [simp]: "length (to_lower s) = length s"
  by (simp add: to_lower_def)

lemma to_lower_idem [simp]: "to_lower (to_lower s) = to_lower s"
  by (simp add: to_lower_def)

lemma to_lower_eq_Nil [simp]: "to_lower s = [] \<longleftrightarrow> s = []"
  by (simp add: to_lower_def)

lemma dropWhile_to_lower: "dropWhile is_space (to_lower s) = to_lower (dropWhile is_space s)"
  by (induction s) (auto simp: to_lower_def)

lemma trim_space_to_lower: "trim_space (to_lower s) = to_lower (trim_space s)"
  by (simp add: trim_space_def trim_right_def dropWhile_to_lower)
     (simp add: to_lower_def rev_map dropWhile_to_lower [unfolded to_lower_def])

lemma dropWhile_trim_right:
  assumes "dropWhile is_space s = s"
  shows "dropWhile is_space (trim_right s) = trim_right s"
proof (cases s)
  case (Cons c t)
  with assms have c: "\<not> is_space c"
    by (metis hd_dropWhile list.discI list.sel(1))
  have "trim_right s = rev (dropWhile is_space (rev t @ [c]))" by (simp add: trim_right_def Cons)
  also have "\<dots> = c # trim_right t"
    using c by (auto simp: trim_right_def dropWhile_append)
  finally show ?thesis using c by simp
qed (simp add: trim_right_def)

lemma trim_space_idem [simp]: "trim_space (trim_space s) = trim_space s"
proof -
  have "dropWhile is_space (trim_space s) = trim_space s"
    unfolding trim_space_def by (rule dropWhile_trim_right) simp
  then show ?thesis by (simp add: trim_space_def) (simp add: trim_right_def)
qed

lemma canon_idem [simp]: "canon (canon s) = canon s"
  by (simp add: canon_def trim_space_to_lower)

lemma canon_Nil [simp]: "canon [] = []"
  by (simp add: canon_def trim_space_def trim_right_def)

subsection \<open>Splitting\<close>

text \<open>\<open>strings.Split\<close> and \<open>strings.SplitN(s, sep, 2)\<close> for a one-byte separator.\<close>

fun split_on :: "char \<Rightarrow> string \<Rightarrow> string list" where
  "split_on c [] = [[]]"
| "split_on c (x # xs) =
     (if x = c then [] # split_on c xs
      else case split_on c xs of [] \<Rightarrow> [[x]] | p # ps \<Rightarrow> (x # p) # ps)"

definition splitn2 :: "char \<Rightarrow> string \<Rightarrow> string list" where
  "splitn2 c s = (if c \<in> set s
     then [takeWhile (\<lambda>x. x \<noteq> c) s, tl (dropWhile (\<lambda>x. x \<noteq> c) s)] else [s])"

lemma split_on_not_Nil [simp]: "split_on c s \<noteq> []"
  by (cases s) (auto split: list.splits)

lemma splitn2_join: "c \<notin> set a \<Longrightarrow> splitn2 c (a @ c # b) = [a, b]"
  by (induction a) (auto simp: splitn2_def)

subsection \<open>Decimal numbers\<close>

text \<open>\<open>strconv.Atoi\<close> with a 64-bit \<open>int\<close>: an optional sign, then at least one digit; a value
  out of range is an error.\<close>

definition digit_val :: "char \<Rightarrow> int option" where
  "digit_val c = (let n = (of_char c :: nat) in
     if 48 \<le> n \<and> n \<le> 57 then Some (int n - 48) else None)"

fun digits_val :: "int \<Rightarrow> string \<Rightarrow> int option" where
  "digits_val acc [] = Some acc"
| "digits_val acc (c # s) =
     (case digit_val c of None \<Rightarrow> None | Some d \<Rightarrow> digits_val (10 * acc + d) s)"

definition atoi :: "string \<Rightarrow> int option" where
  "atoi s = (let (neg, ds) = (case s of [] \<Rightarrow> (False, [])
       | c # t \<Rightarrow> if c = CHR ''-'' then (True, t) else if c = CHR ''+'' then (False, t)
          else (False, s))
     in if ds = [] then None
        else case digits_val 0 ds of None \<Rightarrow> None
          | Some n \<Rightarrow> let v = (if neg then - n else n) in
              if - (2 ^ 63) \<le> v \<and> v < 2 ^ 63 then Some v else None)"

subsection \<open>Hexadecimal\<close>

definition from_hex_char :: "char \<Rightarrow> nat option" where
  "from_hex_char c = (let n = (of_char c :: nat) in
     if 48 \<le> n \<and> n \<le> 57 then Some (n - 48)
     else if 97 \<le> n \<and> n \<le> 102 then Some (n - 87)
     else if 65 \<le> n \<and> n \<le> 70 then Some (n - 55)
     else None)"

definition hex_digit :: "nat \<Rightarrow> char" where
  "hex_digit n = (if n < 10 then char_of (48 + n) else char_of (87 + n))"

fun hex_decode :: "string \<Rightarrow> byte list option" where
  "hex_decode [] = Some []"
| "hex_decode [c] = None"
| "hex_decode (c # d # s) =
     (case (from_hex_char c, from_hex_char d, hex_decode s) of
        (Some a, Some b, Some bs) \<Rightarrow> Some (of_nat (16 * a + b) # bs)
      | _ \<Rightarrow> None)"

fun hex_encode :: "byte list \<Rightarrow> string" where
  "hex_encode [] = []"
| "hex_encode (b # bs) = hex_digit (unat b div 16) # hex_digit (unat b mod 16) # hex_encode bs"

lemma from_hex_digit: "n < 16 \<Longrightarrow> from_hex_char (hex_digit n) = Some n"
  by (auto simp: from_hex_char_def hex_digit_def Let_def)

lemma hex_digit_lower: "n < 16 \<Longrightarrow> lower_char (hex_digit n) = hex_digit n"
  by (auto simp: lower_char_def hex_digit_def)

lemma from_hex_char_lt: "from_hex_char c = Some n \<Longrightarrow> n < 16"
  by (auto simp: from_hex_char_def Let_def split: if_splits)

lemma hex_digit_from: "from_hex_char c = Some n \<Longrightarrow> hex_digit n = lower_char c"
  by (auto simp: from_hex_char_def hex_digit_def lower_char_def Let_def split: if_splits)

lemma byte_lt_256 [simp]: "unat (b :: byte) < 256"
  using unsigned_less [of b] by simp

lemma length_hex_encode [simp]: "length (hex_encode bs) = 2 * length bs"
  by (induction bs) auto

lemma hex_decode_encode [simp]: "hex_decode (hex_encode bs) = Some bs"
proof (induction bs)
  case (Cons b bs)
  have "unat b div 16 < 16" and "unat b mod 16 < 16"
    using byte_lt_256 [of b] by (simp_all add: less_mult_imp_div_less)
  then show ?case using Cons by (simp add: from_hex_digit)
qed simp

lemma hex_encode_decode: "hex_decode s = Some bs \<Longrightarrow> hex_encode bs = to_lower s"
proof (induction s arbitrary: bs rule: hex_decode.induct)
  case (3 c d s)
  from "3.prems" obtain a b bs' where dec: "from_hex_char c = Some a" "from_hex_char d = Some b"
      "hex_decode s = Some bs'" "bs = of_nat (16 * a + b) # bs'"
    by (auto split: option.splits)
  then have lt: "a < 16" "b < 16" by (simp_all add: from_hex_char_lt)
  then have "unat (of_nat (16 * a + b) :: byte) = 16 * a + b"
    by (simp add: unat_of_nat del: of_nat_add of_nat_mult)
  then show ?case using dec lt "3.IH" by (simp add: hex_digit_from to_lower_def)
qed auto

lemma hex_decode_length: "hex_decode s = Some bs \<Longrightarrow> length s = 2 * length bs"
  by (induction s arbitrary: bs rule: hex_decode.induct) (auto split: option.splits)

lemma to_lower_hex_encode [simp]: "to_lower (hex_encode bs) = hex_encode bs"
  by (metis hex_decode_encode hex_encode_decode)

lemma hex_encode_inject [simp]: "hex_encode a = hex_encode b \<longleftrightarrow> a = b"
  by (metis hex_decode_encode option.inject)

lemma not_space_hex_encode: "c \<in> set (hex_encode bs) \<Longrightarrow> \<not> is_space c"
proof (induction bs)
  case (Cons b bs)
  have "\<not> is_space (hex_digit n)" if "n < 16" for n
    using that by (auto simp: hex_digit_def is_space_def)
  moreover have "unat b div 16 < 16" and "unat b mod 16 < 16"
    using byte_lt_256 [of b] by (simp_all add: less_mult_imp_div_less)
  ultimately show ?case using Cons by auto
qed simp

lemma trim_space_no_space:
  assumes "\<And>c. c \<in> set s \<Longrightarrow> \<not> is_space c"
  shows "trim_space s = s"
proof -
  have "dropWhile is_space s = s" using assms by (simp add: dropWhile_eq_self_iff)
  moreover have "dropWhile is_space (rev s) = rev s"
    using assms by (metis dropWhile_eq_self_iff hd_in_set set_rev)
  ultimately show ?thesis by (simp add: trim_space_def trim_right_def)
qed

lemma canon_hex_encode [simp]: "canon (hex_encode bs) = hex_encode bs"
  by (simp add: canon_def trim_space_no_space not_space_hex_encode)

end
