(* ===== verification/PacketMetrics.thy ===== *)
theory PacketMetrics
  imports RateWindow DedupWindow GoStrings "HOL-Library.Multiset"
begin

text \<open>
  The packet counter of metrics.go: one \<open>Counter\<close> per analyzer and per network. \<open>Observe\<close>
  deduplicates unique packets by content hash and observations by (observer, hash), \<open>sweep\<close>
  ages the maps out, \<open>Snapshot\<close>, \<open>Export\<close> and \<open>Restore\<close> are its views and its durable form.
  The result \<open>None\<close> of an operation is a run-time panic, which only a negative clock can cause.
\<close>

subsection \<open>State\<close>

record ObserverStat =
  os_Name :: string
  os_FirstSeen :: unix_time
  os_LastSeen :: unix_time
  os_Observations :: u64

record Event =
  ev_Hash :: string
  ev_ObserverID :: string
  ev_ObserverName :: string
  ev_PayloadType :: string
  ev_Nodes :: "string list"
  ev_At :: unix_time

record Counter =
  c_observations :: u64
  c_unique :: u64
  c_seenHash :: "(string, unix_time) gomap"
  c_seenObs :: "(string, unix_time) gomap"
  c_observers :: "(string, ObserverStat) gomap"
  c_nodes :: "(string, unix_time) gomap"
  c_payloadTypes :: "(string, u64) gomap"
  c_rate :: rateWindow
  c_lastPacket :: unix_time

definition newCounter :: Counter where
  "newCounter = \<lparr>c_observations = 0, c_unique = 0, c_seenHash = mempty, c_seenObs = mempty,
     c_observers = mempty, c_nodes = mempty, c_payloadTypes = mempty,
     c_rate = new_rateWindow, c_lastPacket = 0\<rparr>"

subsection \<open>Observe\<close>

definition noteNode :: "unix_time \<Rightarrow> string \<Rightarrow> (string, unix_time) gomap \<Rightarrow> (string, unix_time) gomap" where
  "noteNode t pk m = (if pk \<noteq> '''' then mput m (to_lower pk) t else m)"

definition noteObserver :: "Event \<Rightarrow> bool \<Rightarrow> (string, ObserverStat) gomap \<Rightarrow> (string, ObserverStat) gomap" where
  "noteObserver ev obsSeen obs =
     (let st = (case mget obs (ev_ObserverID ev) of Some st \<Rightarrow> st
          | None \<Rightarrow> \<lparr>os_Name = ev_ObserverName ev, os_FirstSeen = ev_At ev, os_LastSeen = 0,
                     os_Observations = 0\<rparr>);
          st = (if ev_ObserverName ev \<noteq> '''' then st\<lparr>os_Name := ev_ObserverName ev\<rparr> else st);
          st = st\<lparr>os_LastSeen := ev_At ev\<rparr>;
          st = (if obsSeen then st else st\<lparr>os_Observations := os_Observations st + 1\<rparr>)
      in mput obs (ev_ObserverID ev) st)"

definition obsKey :: "Event \<Rightarrow> string" where
  "obsKey ev = ev_ObserverID ev @ ''|'' @ ev_Hash ev"

definition counter_Observe :: "Event \<Rightarrow> Counter \<Rightarrow> Counter option" where
  "counter_Observe ev c =
     (let t = ev_At ev;
          c = c\<lparr>c_lastPacket := t\<rparr>;
          c = c\<lparr>c_nodes := fold (noteNode t) (ev_Nodes ev) (c_nodes c)\<rparr>;
          c = c\<lparr>c_nodes := noteNode t (ev_ObserverID ev) (c_nodes c)\<rparr>;
          obsSeen = (mget (c_seenObs c) (obsKey ev) \<noteq> None);
          c = c\<lparr>c_seenObs := mput (c_seenObs c) (obsKey ev) t\<rparr>;
          c = (if ev_ObserverID ev \<noteq> ''''
               then c\<lparr>c_observers := noteObserver ev obsSeen (c_observers c)\<rparr> else c);
          c = (if obsSeen then c else c\<lparr>c_observations := c_observations c + 1\<rparr>)
      in if ev_Hash ev = '''' then Some c
         else do {
           c \<leftarrow> (case mget (c_seenHash c) (ev_Hash ev) of
                   Some _ \<Rightarrow> Some c
                 | None \<Rightarrow> do {
                     r \<leftarrow> rw_add t (c_rate c);
                     let c = c\<lparr>c_unique := c_unique c + 1, c_rate := r\<rparr>;
                     Some (if ev_PayloadType ev \<noteq> ''''
                           then c\<lparr>c_payloadTypes := mincr (c_payloadTypes c) (ev_PayloadType ev)\<rparr>
                           else c)
                   });
           Some (c\<lparr>c_seenHash := mput (c_seenHash c) (ev_Hash ev) t\<rparr>)
         })"

subsection \<open>sweep\<close>

definition counter_sweep :: "unix_time \<Rightarrow> int \<Rightarrow> int \<Rightarrow> Counter \<Rightarrow> Counter" where
  "counter_sweep now dedupWindow observerTTL c =
     c\<lparr>c_seenHash := expireOlder now dedupWindow (c_seenHash c),
       c_seenObs := expireOlder now dedupWindow (c_seenObs c),
       c_observers := mkeep (\<lambda>(id, st). \<not> now - os_LastSeen st > observerTTL) (c_observers c),
       c_nodes := expireOlder now observerTTL (c_nodes c)\<rparr>"

subsection \<open>Snapshot, Export, Restore\<close>

text \<open>The conversion \<open>int64(f)\<close> truncates towards zero.\<close>

definition go_int64 :: "float64 \<Rightarrow> int" where
  "go_int64 f = (if 0 \<le> f then \<lfloor>f\<rfloor> else \<lceil>f\<rceil>)"

definition round2 :: "float64 \<Rightarrow> float64" where
  "round2 f = real_of_int (go_int64 (f * 100 + 0.5)) / 100"

record CounterSnapshot =
  cs_Observations :: u64
  cs_UniquePackets :: u64
  cs_Observers :: nat
  cs_Nodes :: nat
  cs_PktPerMin :: float64
  cs_PayloadTypes :: "(string, u64) gomap"
  cs_LastPacketAt :: unix_time

definition counter_Snapshot :: "unix_time \<Rightarrow> Counter \<Rightarrow> (CounterSnapshot \<times> Counter) option" where
  "counter_Snapshot now c =
     do {
       let pts = mrange (\<lambda>k v acc. mput acc k v) (c_payloadTypes c) mempty;
       (perMin, r) \<leftarrow> rw_perMin now (c_rate c);
       Some (\<lparr>cs_Observations = c_observations c, cs_UniquePackets = c_unique c,
              cs_Observers = mlen (c_observers c), cs_Nodes = mlen (c_nodes c),
              cs_PktPerMin = round2 perMin, cs_PayloadTypes = pts,
              cs_LastPacketAt = c_lastPacket c\<rparr>, c\<lparr>c_rate := r\<rparr>)
     }"

record CounterState =
  st_Observations :: u64
  st_UniquePackets :: u64
  st_LastPacketAt :: unix_time
  st_PayloadTypes :: "(string, u64) gomap"
  st_Observers :: "(string, unix_time) gomap"
  st_Nodes :: "(string, unix_time) gomap"

definition counter_Export :: "Counter \<Rightarrow> CounterState" where
  "counter_Export c =
     \<lparr>st_Observations = c_observations c, st_UniquePackets = c_unique c,
      st_LastPacketAt = c_lastPacket c,
      st_PayloadTypes = mrange (\<lambda>k v acc. mput acc k v) (c_payloadTypes c) mempty,
      st_Observers = mrange (\<lambda>id st acc. mput acc id (os_LastSeen st)) (c_observers c) mempty,
      st_Nodes = mrange (\<lambda>id ts acc. mput acc id ts) (c_nodes c) mempty\<rparr>"

definition counter_Restore :: "CounterState \<Rightarrow> Counter \<Rightarrow> Counter" where
  "counter_Restore st c =
     c\<lparr>c_observations := st_Observations st,
       c_unique := st_UniquePackets st,
       c_lastPacket := (if st_LastPacketAt st > c_lastPacket c then st_LastPacketAt st
                        else c_lastPacket c),
       c_payloadTypes := mrange (\<lambda>k v acc. mput acc k v) (st_PayloadTypes st) (c_payloadTypes c),
       c_observers := mrange (\<lambda>id ts acc. if mget acc id = None
            then mput acc id \<lparr>os_Name = '''', os_FirstSeen = ts, os_LastSeen = ts,
                              os_Observations = 0\<rparr> else acc)
          (st_Observers st) (c_observers c),
       c_nodes := mrange (\<lambda>id ts acc. mput acc id ts) (st_Nodes st) (c_nodes c)\<rparr>"

subsection \<open>What one call does\<close>

definition fresh_hash :: "Event \<Rightarrow> Counter \<Rightarrow> bool" where
  "fresh_hash ev c \<longleftrightarrow> ev_Hash ev \<noteq> '''' \<and> mget (c_seenHash c) (ev_Hash ev) = None"

definition fresh_obs :: "Event \<Rightarrow> Counter \<Rightarrow> bool" where
  "fresh_obs ev c \<longleftrightarrow> mget (c_seenObs c) (obsKey ev) = None"

lemma counter_Observe_cases:
  "counter_Observe ev c =
     (case (if fresh_hash ev c then rw_add (ev_At ev) (c_rate c) else Some (c_rate c)) of
        None \<Rightarrow> None
      | Some r \<Rightarrow> Some (c\<lparr>
          c_lastPacket := ev_At ev,
          c_nodes := noteNode (ev_At ev) (ev_ObserverID ev)
             (fold (noteNode (ev_At ev)) (ev_Nodes ev) (c_nodes c)),
          c_seenObs := mput (c_seenObs c) (obsKey ev) (ev_At ev),
          c_observers := (if ev_ObserverID ev = '''' then c_observers c
             else noteObserver ev (\<not> fresh_obs ev c) (c_observers c)),
          c_observations := c_observations c + (if fresh_obs ev c then 1 else 0),
          c_unique := c_unique c + (if fresh_hash ev c then 1 else 0),
          c_payloadTypes := (if fresh_hash ev c \<and> ev_PayloadType ev \<noteq> ''''
             then mincr (c_payloadTypes c) (ev_PayloadType ev) else c_payloadTypes c),
          c_rate := r,
          c_seenHash := (if ev_Hash ev = '''' then c_seenHash c
             else mput (c_seenHash c) (ev_Hash ev) (ev_At ev))\<rparr>))"
  by (cases "ev_Hash ev = ''''"; cases "mget (c_seenHash c) (ev_Hash ev)";
      cases "mget (c_seenObs c) (obsKey ev)"; cases "ev_ObserverID ev = ''''";
      cases "rw_add (ev_At ev) (c_rate c)"; cases "ev_PayloadType ev = ''''")
     (simp_all add: counter_Observe_def fresh_hash_def fresh_obs_def Let_def)

lemma counter_Observe_Some:
  assumes "counter_Observe ev c = Some c'"
  shows "c_unique c' = c_unique c + (if fresh_hash ev c then 1 else 0)"
    and "c_observations c' = c_observations c + (if fresh_obs ev c then 1 else 0)"
    and "c_seenHash c' = (if ev_Hash ev = '''' then c_seenHash c
           else mput (c_seenHash c) (ev_Hash ev) (ev_At ev))"
    and "c_seenObs c' = mput (c_seenObs c) (obsKey ev) (ev_At ev)"
    and "c_lastPacket c' = ev_At ev"
    and "c_payloadTypes c' = (if fresh_hash ev c \<and> ev_PayloadType ev \<noteq> ''''
             then mincr (c_payloadTypes c) (ev_PayloadType ev) else c_payloadTypes c)"
    and "c_observers c' = (if ev_ObserverID ev = '''' then c_observers c
             else noteObserver ev (\<not> fresh_obs ev c) (c_observers c))"
    and "if fresh_hash ev c then rw_add (ev_At ev) (c_rate c) = Some (c_rate c')
         else c_rate c' = c_rate c"
  using assms by (auto simp: counter_Observe_cases split: option.splits if_splits)

lemmas counter_Observe_counts = counter_Observe_Some(1-4)

lemma msum_noteObserver:
  "msum os_Observations (noteObserver ev obsSeen m) =
     msum os_Observations m + (if obsSeen then 0 else 1)"
  by (auto simp: noteObserver_def Let_def msum_mput split: option.splits)

subsection \<open>Runs of calls\<close>

datatype counterOp = Observe Event | Sweep unix_time

primrec cop_time :: "counterOp \<Rightarrow> unix_time" where
  "cop_time (Observe ev) = ev_At ev"
| "cop_time (Sweep now) = now"

primrec counter_step :: "int \<Rightarrow> int \<Rightarrow> counterOp \<Rightarrow> Counter \<Rightarrow> Counter option" where
  "counter_step w ttl (Observe ev) c = counter_Observe ev c"
| "counter_step w ttl (Sweep now) c = Some (counter_sweep now w ttl c)"

primrec counter_run :: "int \<Rightarrow> int \<Rightarrow> counterOp list \<Rightarrow> Counter \<Rightarrow> Counter option" where
  "counter_run w ttl [] c = Some c"
| "counter_run w ttl (x # xs) c = do { c \<leftarrow> counter_step w ttl x c; counter_run w ttl xs c }"

primrec observe_all :: "Event list \<Rightarrow> Counter \<Rightarrow> Counter option" where
  "observe_all [] c = Some c"
| "observe_all (ev # evs) c = do { c \<leftarrow> counter_Observe ev c; observe_all evs c }"

text \<open>The times at which a packet of hash \<open>h\<close> raised the unique-packet count.\<close>

primrec unique_times :: "int \<Rightarrow> int \<Rightarrow> string \<Rightarrow> counterOp list \<Rightarrow> Counter \<Rightarrow> unix_time list" where
  "unique_times w ttl h [] c = []"
| "unique_times w ttl h (x # xs) c =
     (case counter_step w ttl x c of None \<Rightarrow> []
      | Some c' \<Rightarrow>
          (case x of Observe ev \<Rightarrow> if ev_Hash ev = h \<and> c_unique c' \<noteq> c_unique c then [ev_At ev] else []
           | Sweep _ \<Rightarrow> [])
          @ unique_times w ttl h xs c')"

primrec hash_ops :: "counterOp \<Rightarrow> string dedup_op list" where
  "hash_ops (Observe ev) = (if ev_Hash ev = '''' then [] else [Touch (ev_Hash ev) (ev_At ev)])"
| "hash_ops (Sweep now) = [Expire now]"

lemma unique_times_cache:
  "\<exists>rest. cache.counted w h (concat (map hash_ops ops)) (c_seenHash c)
     = unique_times w ttl h ops c @ rest"
proof (induction ops arbitrary: c)
  case (Cons x ops)
  show ?case
  proof (cases "counter_step w ttl x c")
    case None
    then show ?thesis by simp
  next
    case (Some c')
    from Cons.IH [of c'] obtain rest where
      rest: "cache.counted w h (concat (map hash_ops ops)) (c_seenHash c')
        = unique_times w ttl h ops c' @ rest" by blast
    show ?thesis
    proof (cases x)
      case (Observe ev)
      with Some have "counter_Observe ev c = Some c'" by simp
      note eff = counter_Observe_Some [OF this]
      show ?thesis
        using rest eff(1,3) Some Observe by (auto simp: fresh_hash_def)
    next
      case (Sweep now)
      with Some rest show ?thesis by (auto simp: counter_sweep_def)
    qed
  qed
qed simp

lemma sorted_hash_ops:
  "sorted (map cop_time ops) \<Longrightarrow> sorted (map op_time (concat (map hash_ops ops)))"
proof (induction ops)
  case (Cons x ops)
  have "op_time y = cop_time z" if "y \<in> set (hash_ops z)" for y z
    using that by (cases z) (auto split: if_splits)
  with Cons show ?case by (cases x) fastforce+
qed simp

text \<open>The times of the first sighting of each hash of a list of events, in order.\<close>

primrec first_times :: "string set \<Rightarrow> Event list \<Rightarrow> unix_time list" where
  "first_times S [] = []"
| "first_times S (ev # evs) =
     (if ev_Hash ev \<noteq> '''' \<and> ev_Hash ev \<notin> S then [ev_At ev] else [])
     @ first_times (insert (ev_Hash ev) S) evs"

lemma length_first_times: "length (first_times S evs) \<le> length evs"
  by (induction evs arbitrary: S) (auto intro: le_SucI)

lemma first_times_subset: "set (first_times S evs) \<subseteq> ev_At ` set evs"
  by (induction evs arbitrary: S) auto

lemma first_times_Nil: "first_times (insert '''' S) evs = first_times S evs"
proof (induction evs arbitrary: S)
  case (Cons ev evs)
  show ?case using Cons [of "insert (ev_Hash ev) S"] by (simp add: insert_commute)
qed simp

text \<open>A counter whose counts agree with its deduplication maps.\<close>

definition counts_agree :: "Counter \<Rightarrow> bool" where
  "counts_agree c \<longleftrightarrow> c_unique c = of_nat (mlen (c_seenHash c)) \<and>
     c_observations c = of_nat (mlen (c_seenObs c))"

lemma counts_agree_Observe [preserve]:
  "counter_Observe ev c = Some c' \<Longrightarrow> counts_agree c \<Longrightarrow> counts_agree c'"
  by (auto simp: counts_agree_def counter_Observe_counts fresh_hash_def fresh_obs_def mlen_mput)

lemma counter_Observe_total:
  assumes "rw_repr (c_rate c) ts" and "0 < ev_At ev" and "lastSec (c_rate c) \<le> ev_At ev"
  shows "\<exists>c'. counter_Observe ev c = Some c' \<and>
    rw_repr (c_rate c') (ts @ (if fresh_hash ev c then [ev_At ev] else [])) \<and>
    lastSec (c_rate c') \<le> ev_At ev"
proof (cases "fresh_hash ev c")
  case True
  obtain r where "rw_add (ev_At ev) (c_rate c) = Some r" "rw_repr r (ts @ [ev_At ev])"
      "lastSec r = ev_At ev"
    using rw_add_repr [OF assms(1,2)] assms(3) by (auto simp: max_def split: if_splits)
  with True show ?thesis by (simp add: counter_Observe_cases)
next
  case False
  with assms show ?thesis by (simp add: counter_Observe_cases)
qed

lemma observe_all_spec:
  assumes "rw_repr (c_rate c) ts" and "sorted (map ev_At evs)"
    and "\<forall>ev\<in>set evs. 0 < ev_At ev \<and> lastSec (c_rate c) \<le> ev_At ev"
    and "counts_agree c" and "'''' \<notin> dom (mget (c_seenHash c))"
  shows "\<exists>c'. observe_all evs c = Some c' \<and> counts_agree c' \<and>
    dom (mget (c_seenHash c')) = dom (mget (c_seenHash c)) \<union> (ev_Hash ` set evs - {''''}) \<and>
    dom (mget (c_seenObs c')) = dom (mget (c_seenObs c)) \<union> obsKey ` set evs \<and>
    rw_repr (c_rate c') (ts @ first_times (dom (mget (c_seenHash c))) evs) \<and>
    (\<forall>t. lastSec (c_rate c) \<le> t \<and> (\<forall>ev\<in>set evs. ev_At ev \<le> t) \<longrightarrow> lastSec (c_rate c') \<le> t)"
  using assms
proof (induction evs arbitrary: c ts)
  case (Cons ev evs)
  let ?ts = "ts @ (if fresh_hash ev c then [ev_At ev] else [])"
  obtain c1 where c1: "counter_Observe ev c = Some c1" "rw_repr (c_rate c1) ?ts"
      "lastSec (c_rate c1) \<le> ev_At ev"
    using counter_Observe_total [OF Cons.prems(1)] Cons.prems(3) by auto
  note eff = counter_Observe_Some [OF c1(1)]
  have dom1: "dom (mget (c_seenHash c1)) = dom (mget (c_seenHash c)) \<union> ({ev_Hash ev} - {''''})"
    using eff(3) by auto
  have "ev_At ev \<le> ev_At e" if "e \<in> set evs" for e using Cons.prems(2) that by simp
  then have late: "\<forall>e\<in>set evs. 0 < ev_At e \<and> lastSec (c_rate c1) \<le> ev_At e"
    using Cons.prems(3) c1(3) by (meson list.set_intros(2) order_trans)
  have "'''' \<notin> dom (mget (c_seenHash c1))" using dom1 Cons.prems(5) by auto
  from Cons.IH [OF c1(2) _ late counts_agree_Observe [OF c1(1) Cons.prems(4)] this] Cons.prems(2)
  obtain c' where c': "observe_all evs c1 = Some c'" "counts_agree c'"
    and h': "dom (mget (c_seenHash c')) = dom (mget (c_seenHash c1)) \<union> (ev_Hash ` set evs - {''''})"
    and o': "dom (mget (c_seenObs c')) = dom (mget (c_seenObs c1)) \<union> obsKey ` set evs"
    and r': "rw_repr (c_rate c') (?ts @ first_times (dom (mget (c_seenHash c1))) evs)"
    and l': "\<And>t. lastSec (c_rate c1) \<le> t \<Longrightarrow> (\<forall>e\<in>set evs. ev_At e \<le> t) \<Longrightarrow> lastSec (c_rate c') \<le> t"
    by auto
  have "first_times (dom (mget (c_seenHash c1))) evs =
      first_times (insert (ev_Hash ev) (dom (mget (c_seenHash c)))) evs"
    using dom1 first_times_Nil by (cases "ev_Hash ev = ''''") auto
  then have times: "?ts @ first_times (dom (mget (c_seenHash c1))) evs =
      ts @ first_times (dom (mget (c_seenHash c))) (ev # evs)"
    by (auto simp: fresh_hash_def domIff)
  have "lastSec (c_rate c') \<le> t" if "\<forall>e\<in>set (ev # evs). ev_At e \<le> t" for t
    using that c1(3) by (intro l') auto
  with c' c1(1) h' o' r' times dom1 eff(4) show ?case by auto
qed auto

lemma newCounter_simps [simp]:
  "c_seenHash newCounter = mempty" "c_seenObs newCounter = mempty" "c_unique newCounter = 0"
  "c_observations newCounter = 0" "c_payloadTypes newCounter = mempty"
  "c_observers newCounter = mempty" "c_nodes newCounter = mempty" "c_lastPacket newCounter = 0"
  "c_rate newCounter = new_rateWindow"
  by (simp_all add: newCounter_def)

lemma lastSec_new [simp]: "lastSec new_rateWindow = 0"
  by (simp add: new_rateWindow_def)

lemma dom_mget_mempty [simp]: "dom (mget mempty) = {}"
  by auto

lemmas observe_all_new =
  observe_all_spec [of newCounter "[]", simplified, OF rw_repr_new, simplified]

subsection \<open>Properties of the counter\<close>

text \<open>A packet is counted as unique at most once per deduplication window: over any run of
  \<open>Observe\<close> and \<open>sweep\<close> calls in time order, the times at which packets of one content hash
  raise the unique-packet count are more than \<open>dedupWindow\<close> seconds apart.\<close>

theorem unique_once_per_window:
  assumes "sorted (map cop_time ops)" and "0 \<le> dedupWindow"
  shows "sorted_wrt (\<lambda>t u. t + dedupWindow < u) (unique_times dedupWindow ttl h ops c)"
proof -
  obtain rest where "cache.counted dedupWindow h (concat (map hash_ops ops)) (c_seenHash c)
      = unique_times dedupWindow ttl h ops c @ rest"
    using unique_times_cache by blast
  then show ?thesis
    using cache.counted_spaced [OF sorted_hash_ops [OF assms(1)] assms(2), of h "c_seenHash c"]
    by (simp add: sorted_wrt_append)
qed

definition ex_ev :: "string \<Rightarrow> string \<Rightarrow> unix_time \<Rightarrow> Event" where
  "ex_ev h obs t = \<lparr>ev_Hash = h, ev_ObserverID = obs, ev_ObserverName = '''',
     ev_PayloadType = ''ADVERT'', ev_Nodes = [], ev_At = t\<rparr>"

text \<open>Two-layer deduplication. Observing any packets at positive, non-decreasing times from a
  fresh counter never panics, counts as unique packets exactly the distinct non-empty content
  hashes, and as observations exactly the distinct (observer, hash) pairs.\<close>

theorem observe_counts_distinct:
  assumes "sorted (map ev_At evs)" and "\<forall>ev\<in>set evs. 0 < ev_At ev"
  shows "\<exists>c. observe_all evs newCounter = Some c \<and>
    c_unique c = of_nat (card (ev_Hash ` set evs - {''''})) \<and>
    c_observations c = of_nat (card (obsKey ` set evs))"
  using observe_all_new [of evs] assms
  by (fastforce simp: counts_agree_def mlen_card)


lemma payload_gap_step:
  assumes "counter_step w ttl x c = Some c'"
    and "\<And>ev. x = Observe ev \<Longrightarrow> ev_PayloadType ev \<noteq> ''''"
  shows "c_unique c' - msum (\<lambda>v. v) (c_payloadTypes c') = c_unique c - msum (\<lambda>v. v) (c_payloadTypes c)"
proof (cases x)
  case (Observe ev)
  with assms(1) have "counter_Observe ev c = Some c'" by simp
  then show ?thesis using assms(2) Observe
    by (simp add: counter_Observe_Some msum_mincr)
next
  case (Sweep now)
  with assms(1) show ?thesis by (auto simp: counter_sweep_def)
qed

text \<open>The payload-type breakdown partitions the unique packets: as long as every packet
  carries a payload type, the breakdown's counts sum to the unique-packet count after any run of
  \<open>Observe\<close> and \<open>sweep\<close> calls.\<close>

theorem payload_types_partition:
  assumes "counter_run w ttl ops newCounter = Some c"
    and "\<forall>ev. Observe ev \<in> set ops \<longrightarrow> ev_PayloadType ev \<noteq> ''''"
  shows "msum (\<lambda>v. v) (c_payloadTypes c) = c_unique c"
proof -
  have "c_unique c' - msum (\<lambda>v. v) (c_payloadTypes c') = c_unique c0 - msum (\<lambda>v. v) (c_payloadTypes c0)"
    if "counter_run w ttl xs c0 = Some c'" "set xs \<subseteq> set ops" for xs c0 c'
    using that
  proof (induction xs arbitrary: c0)
    case (Cons x xs)
    then obtain c1 where "counter_step w ttl x c0 = Some c1" "counter_run w ttl xs c1 = Some c'"
      by (auto split: Option.bind_splits)
    then show ?case using Cons payload_gap_step [of w ttl x c0 c1] assms(2) by auto
  qed simp
  from this [OF assms(1)] show ?thesis by simp
qed

lemma observers_gap_step:
  assumes "counter_Observe ev c = Some c'" and "ev_ObserverID ev \<noteq> ''''"
  shows "c_observations c' - msum os_Observations (c_observers c')
    = c_observations c - msum os_Observations (c_observers c)"
  using assms by (simp add: counter_Observe_Some msum_noteObserver)

text \<open>Every counted observation is attributed to one observer: over any packets that name
  their observer, the per-observer observation counts sum to the counter's observations.\<close>

theorem observer_counts_partition:
  assumes "observe_all evs newCounter = Some c" and "\<forall>ev\<in>set evs. ev_ObserverID ev \<noteq> ''''"
  shows "msum os_Observations (c_observers c) = c_observations c"
proof -
  have "c_observations c' - msum os_Observations (c_observers c')
      = c_observations c0 - msum os_Observations (c_observers c0)"
    if "observe_all xs c0 = Some c'" "set xs \<subseteq> set evs" for xs c0 c'
    using that
  proof (induction xs arbitrary: c0)
    case (Cons x xs)
    then obtain c1 where "counter_Observe x c0 = Some c1" "observe_all xs c1 = Some c'"
      by (auto split: Option.bind_splits)
    then show ?case using Cons observers_gap_step [of x c0 c1] assms(2) by auto
  qed simp
  from this [OF assms(1)] show ?thesis by simp
qed

text \<open>\<open>sweep\<close> forgets exactly what is stale: a hash or observation entry stays iff it was seen
  within the deduplication window, an observer or node iff it was active within the observer TTL;
  the totals, the payload breakdown, the rate window and the last packet time do not change.\<close>

theorem counter_sweep_exact:
  "(mget (c_seenHash (counter_sweep now w ttl c)) h = Some t
      \<longleftrightarrow> mget (c_seenHash c) h = Some t \<and> now - t \<le> w) \<and>
   (mget (c_seenObs (counter_sweep now w ttl c)) k = Some t
      \<longleftrightarrow> mget (c_seenObs c) k = Some t \<and> now - t \<le> w) \<and>
   (mget (c_observers (counter_sweep now w ttl c)) i = Some st
      \<longleftrightarrow> mget (c_observers c) i = Some st \<and> now - os_LastSeen st \<le> ttl) \<and>
   (mget (c_nodes (counter_sweep now w ttl c)) n = Some t
      \<longleftrightarrow> mget (c_nodes c) n = Some t \<and> now - t \<le> ttl) \<and>
   c_unique (counter_sweep now w ttl c) = c_unique c \<and>
   c_observations (counter_sweep now w ttl c) = c_observations c \<and>
   c_payloadTypes (counter_sweep now w ttl c) = c_payloadTypes c \<and>
   c_rate (counter_sweep now w ttl c) = c_rate c \<and>
   c_lastPacket (counter_sweep now w ttl c) = c_lastPacket c"
  by (auto simp: counter_sweep_def mget_expireOlder mget_mkeep split: option.splits if_splits)

text \<open>Two durable states are the same when their totals and their maps are.\<close>

definition same_state :: "CounterState \<Rightarrow> CounterState \<Rightarrow> bool" where
  "same_state s t \<longleftrightarrow> st_Observations s = st_Observations t \<and> st_UniquePackets s = st_UniquePackets t \<and>
     st_LastPacketAt s = st_LastPacketAt t \<and> same_map (st_PayloadTypes s) (st_PayloadTypes t) \<and>
     same_map (st_Observers s) (st_Observers t) \<and> same_map (st_Nodes s) (st_Nodes t)"

lemma same_mapI: "(\<And>k. mget m k = mget m' k) \<Longrightarrow> same_map m m'"
  by (auto simp: same_map_def)

lemma mget_Export:
  "mget (st_PayloadTypes (counter_Export c)) k = mget (c_payloadTypes c) k"
  "mget (st_Observers (counter_Export c)) k = map_option os_LastSeen (mget (c_observers c) k)"
  "mget (st_Nodes (counter_Export c)) k = mget (c_nodes c) k"
  by (simp_all add: counter_Export_def mget_mrange_copy split: option.splits)

lemma mget_Restore:
  "mget (c_payloadTypes (counter_Restore st c)) k =
     (case mget (st_PayloadTypes st) k of Some v \<Rightarrow> Some v | None \<Rightarrow> mget (c_payloadTypes c) k)"
  "mget (c_observers (counter_Restore st c)) k =
     (case mget (c_observers c) k of Some v \<Rightarrow> Some v
      | None \<Rightarrow> map_option (\<lambda>ts. \<lparr>os_Name = '''', os_FirstSeen = ts, os_LastSeen = ts,
                   os_Observations = 0\<rparr>) (mget (st_Observers st) k))"
  "mget (c_nodes (counter_Restore st c)) k =
     (case mget (st_Nodes st) k of Some v \<Rightarrow> Some v | None \<Rightarrow> mget (c_nodes c) k)"
  by (simp_all add: counter_Restore_def mget_mrange_copy
      mget_mrange_fill [where g = "\<lambda>id ts. \<lparr>os_Name = '''', os_FirstSeen = ts, os_LastSeen = ts,
         os_Observations = 0\<rparr>"] split: option.splits)

text \<open>Persistence round trip: exporting a counter and restoring the export into a fresh
  counter, as a restart does, gives back the same durable state.\<close>

theorem export_restore_roundtrip:
  assumes "0 \<le> c_lastPacket c"
  shows "same_state (counter_Export (counter_Restore (counter_Export c) newCounter)) (counter_Export c)"
  unfolding same_state_def
proof (intro conjI same_mapI)
  let ?c = "counter_Restore (counter_Export c) newCounter"
  show "st_Observations (counter_Export ?c) = st_Observations (counter_Export c)"
    and "st_UniquePackets (counter_Export ?c) = st_UniquePackets (counter_Export c)"
    and "st_LastPacketAt (counter_Export ?c) = st_LastPacketAt (counter_Export c)"
    using assms by (simp_all add: counter_Export_def counter_Restore_def)
qed (simp_all add: mget_Export mget_Restore option.map_comp comp_def option.case_eq_if option.map_sel
     option.expand)

text \<open>\<open>round2\<close> rounds non-negative values to the nearest hundredth, but every negative value
  that already has two decimals, such as an SNR of -3 dB, is returned one hundredth too high.\<close>

theorem round2_negative_off_by_one:
  "round2 (real_of_int k / 100) = (if 0 \<le> k then real_of_int k / 100 else real_of_int (k + 1) / 100)"
proof -
  have "go_int64 (real_of_int k + 1 / 2) = (if 0 \<le> k then k else k + 1)"
    by (auto simp: go_int64_def floor_eq_iff ceiling_eq_iff)
  then show ?thesis by (simp add: round2_def)
qed

subsection \<open>Witnesses\<close>

definition ex_run :: "counterOp list" where
  "ex_run = [Observe (ex_ev ''ab'' ''o1'' 5), Observe (ex_ev ''ab'' ''o2'' 6), Sweep 100,
     Observe (ex_ev ''ab'' ''o1'' 101)]"

definition ex_evs :: "Event list" where
  "ex_evs = [ex_ev ''ab'' ''o1'' 5, ex_ev ''ab'' ''o2'' 6, ex_ev ''cd'' ''o1'' 7]"

lemma unique_once_per_window_witness:
  "unique_times 60 600 ''ab'' ex_run newCounter = [5, 101] \<and>
   sorted_wrt (\<lambda>t u. t + 60 < u) (unique_times 60 600 ''ab'' ex_run newCounter)"
proof
  show "unique_times 60 600 ''ab'' ex_run newCounter = [5, 101]" by code_simp
  show "sorted_wrt (\<lambda>t u. t + 60 < u) (unique_times 60 600 ''ab'' ex_run newCounter)"
    by (rule unique_once_per_window) (simp_all add: ex_run_def ex_ev_def)
qed

lemma observe_counts_distinct_witness:
  "\<exists>c. observe_all ex_evs newCounter = Some c \<and>
    c_unique c = of_nat (card (ev_Hash ` set ex_evs - {''''})) \<and>
    c_observations c = of_nat (card (obsKey ` set ex_evs))"
  by (rule observe_counts_distinct) (simp_all add: ex_evs_def ex_ev_def)


lemma payload_types_partition_witness:
  "\<exists>c. counter_run 60 600 ex_run newCounter = Some c \<and>
     msum (\<lambda>v. v) (c_payloadTypes c) = c_unique c"
proof -
  have "counter_run 60 600 ex_run newCounter \<noteq> None" by code_simp
  then obtain c where c: "counter_run 60 600 ex_run newCounter = Some c" by blast
  moreover have "msum (\<lambda>v. v) (c_payloadTypes c) = c_unique c"
    by (rule payload_types_partition [OF c]) (simp add: ex_run_def ex_ev_def)
  ultimately show ?thesis by blast
qed

lemma ex_evs_run: "\<exists>c. observe_all ex_evs newCounter = Some c \<and> c_lastPacket c = 7"
proof -
  have "map_option c_lastPacket (observe_all ex_evs newCounter) = Some 7" by code_simp
  then show ?thesis by auto
qed

lemma observer_counts_partition_witness:
  "\<exists>c. observe_all ex_evs newCounter = Some c \<and>
      msum os_Observations (c_observers c) = c_observations c"
proof -
  obtain c where c: "observe_all ex_evs newCounter = Some c" using ex_evs_run by blast
  moreover have "msum os_Observations (c_observers c) = c_observations c"
    by (rule observer_counts_partition [OF c]) (simp add: ex_evs_def ex_ev_def)
  ultimately show ?thesis by blast
qed

lemma export_restore_roundtrip_witness:
  "\<exists>c. observe_all ex_evs newCounter = Some c \<and>
     same_state (counter_Export (counter_Restore (counter_Export c) newCounter)) (counter_Export c)"
proof -
  obtain c where "observe_all ex_evs newCounter = Some c" "c_lastPacket c = 7"
    using ex_evs_run by blast
  moreover from this have "same_state (counter_Export (counter_Restore (counter_Export c) newCounter))
      (counter_Export c)" by (intro export_restore_roundtrip) simp
  ultimately show ?thesis by blast
qed

end
