(* ===== verification/LinkKeys.thy ===== *)
theory LinkKeys
  imports GoStrings
begin

text \<open>
  Node public keys and the canonical keys of undirected links (links.go): a \<open>pubKey\<close> is a list
  of 32 bytes, a \<open>linkKey\<close> the 64 bytes of the two keys with the smaller first. The lemmas
  show that the key of a link determines its two endpoints, whatever their order and spelling.
\<close>

type_synonym pubKey = "byte list"
type_synonym linkKey = "byte list"
type_synonym directedKey = "byte list"

definition normalizePub :: "string \<Rightarrow> pubKey option" where
  "normalizePub s = (let s = canon s in if length s \<noteq> 64 then None else hex_decode s)"

definition canonicalKey :: "pubKey \<Rightarrow> pubKey \<Rightarrow> linkKey option" where
  "canonicalKey a b = (if a = b then None else if a \<le> b then Some (a @ b) else Some (b @ a))"

definition key_nodeA :: "linkKey \<Rightarrow> string" where
  "key_nodeA k = hex_encode (take 32 k)"

definition key_nodeB :: "linkKey \<Rightarrow> string" where
  "key_nodeB k = hex_encode (drop 32 k)"

definition keyFromPair :: "string \<Rightarrow> string \<Rightarrow> linkKey option" where
  "keyFromPair a b = do { ka \<leftarrow> normalizePub a; kb \<leftarrow> normalizePub b; canonicalKey ka kb }"

text \<open>The keys \<open>canonicalKey\<close> builds from 32-byte public keys.\<close>

definition valid_key :: "linkKey \<Rightarrow> bool" where
  "valid_key k \<longleftrightarrow> length k = 64 \<and> take 32 k < drop 32 k"

subsection \<open>Public keys\<close>

lemma normalizePub_length: "normalizePub s = Some k \<Longrightarrow> length k = 32"
  by (auto simp: normalizePub_def Let_def dest: hex_decode_length split: if_splits)

lemma normalizePub_encode: "normalizePub s = Some k \<Longrightarrow> hex_encode k = canon s"
  using hex_encode_decode [of "canon s" k]
  by (auto simp: normalizePub_def Let_def canon_def split: if_splits)

lemma normalizePub_hex [simp]: "length k = 32 \<Longrightarrow> normalizePub (hex_encode k) = Some k"
  by (simp add: normalizePub_def)

lemma normalizePub_canon [simp]: "normalizePub (canon s) = normalizePub s"
  by (simp add: normalizePub_def)

lemma normalizePub_eq:
  assumes "normalizePub s = Some k" and "normalizePub t = Some k'"
  shows "k = k' \<longleftrightarrow> canon s = canon t"
  using normalizePub_encode [OF assms(1)] normalizePub_encode [OF assms(2)]
  by (metis hex_encode_inject)

lemma normalizePub_Nil [simp]: "normalizePub [] = None"
  by (simp add: normalizePub_def)

subsection \<open>Link keys\<close>

lemma canonicalKey_commute: "canonicalKey a b = canonicalKey b a"
  by (auto simp: canonicalKey_def)

lemma canonicalKey_None [simp]: "canonicalKey a b = None \<longleftrightarrow> a = b"
  by (simp add: canonicalKey_def)

lemma canonicalKey_self [simp]: "canonicalKey a a = None"
  by simp

lemma canonicalKey_neq: "canonicalKey a b = Some k \<Longrightarrow> a \<noteq> b"
  by (auto simp: canonicalKey_def)

lemma canonicalKey_ends:
  assumes "canonicalKey a b = Some k" and "length a = 32" and "length b = 32"
  shows "take 32 k = min a b" and "drop 32 k = max a b"
  using assms by (auto simp: canonicalKey_def min_def max_def split: if_splits)

lemma canonicalKey_valid:
  assumes "canonicalKey a b = Some k" and "length a = 32" and "length b = 32"
  shows "valid_key k"
  using assms by (auto simp: canonicalKey_def valid_key_def order_le_less split: if_splits)

lemma canonicalKey_split: "valid_key k \<Longrightarrow> canonicalKey (take 32 k) (drop 32 k) = Some k"
  by (auto simp: valid_key_def canonicalKey_def)

lemma canonicalKey_ends_set:
  assumes "canonicalKey a b = Some k" and "length a = 32" and "length b = 32"
  shows "{take 32 k, drop 32 k} = {a, b}"
  using canonicalKey_ends [OF assms] by (auto simp: min_def max_def)

lemma canonicalKey_inject:
  assumes "length a = 32" "length b = 32" "length c = 32" "length d = 32" "a \<noteq> b"
  shows "canonicalKey a b = canonicalKey c d \<longleftrightarrow> {a, b} = {c, d}"
proof
  assume eq: "canonicalKey a b = canonicalKey c d"
  with assms obtain k where "canonicalKey a b = Some k" "canonicalKey c d = Some k"
    by (metis canonicalKey_None option.exhaust)
  then show "{a, b} = {c, d}" using canonicalKey_ends_set assms by metis
next
  assume "{a, b} = {c, d}"
  then show "canonicalKey a b = canonicalKey c d"
    by (auto simp: doubleton_eq_iff canonicalKey_commute)
qed

lemma keyFromPair_valid: "keyFromPair a b = Some k \<Longrightarrow> valid_key k"
  by (auto simp: keyFromPair_def split: Option.bind_splits
      intro: canonicalKey_valid dest: normalizePub_length)

text \<open>A link key is the identity of an undirected pair of nodes: two pairs of hex keys give the
  same link key exactly when they name the same two nodes, in either order and in any letter case
  or surrounding white space.\<close>

theorem link_key_identity:
  assumes "keyFromPair a b \<noteq> None" and "keyFromPair c d \<noteq> None"
  shows "keyFromPair a b = keyFromPair c d \<longleftrightarrow> {canon a, canon b} = {canon c, canon d}"
proof -
  obtain ka kb where ab: "normalizePub a = Some ka" "normalizePub b = Some kb" "ka \<noteq> kb"
      "keyFromPair a b = canonicalKey ka kb"
    using assms(1) by (auto simp: keyFromPair_def dest: canonicalKey_neq split: Option.bind_splits)
  obtain kc kd where cd: "normalizePub c = Some kc" "normalizePub d = Some kd"
      "keyFromPair c d = canonicalKey kc kd"
    using assms(2) by (auto simp: keyFromPair_def split: Option.bind_splits)
  note len = normalizePub_length [OF ab(1)] normalizePub_length [OF ab(2)]
    normalizePub_length [OF cd(1)] normalizePub_length [OF cd(2)]
  note eqs = normalizePub_eq [OF ab(1) cd(1)] normalizePub_eq [OF ab(1) cd(2)]
    normalizePub_eq [OF ab(2) cd(1)] normalizePub_eq [OF ab(2) cd(2)]
  show ?thesis
    unfolding ab(4) cd(3) canonicalKey_inject [OF len ab(3)] doubleton_eq_iff eqs ..
qed

lemma keyFromPair_nodes:
  assumes "valid_key k"
  shows "keyFromPair (key_nodeA k) (key_nodeB k) = Some k"
    and "keyFromPair (key_nodeB k) (key_nodeA k) = Some k"
  using canonicalKey_split [OF assms] assms canonicalKey_commute [of "take 32 k" "drop 32 k"]
  by (auto simp: keyFromPair_def key_nodeA_def key_nodeB_def valid_key_def)

text \<open>A stored link is found again under the key rebuilt from its two endpoint strings, as
  \<open>Restore\<close> does, and a self-link has no key.\<close>

theorem key_pair_roundtrip:
  "(valid_key k \<longrightarrow> keyFromPair (key_nodeA k) (key_nodeB k) = Some k
      \<and> keyFromPair (key_nodeB k) (key_nodeA k) = Some k) \<and> keyFromPair s s = None"
  by (simp add: keyFromPair_nodes) (auto simp: keyFromPair_def split: Option.bind_splits)

subsection \<open>Witnesses\<close>

definition ex_node :: "byte \<Rightarrow> pubKey" where
  "ex_node b = replicate 32 b"

definition ex_pub :: "byte \<Rightarrow> string" where
  "ex_pub b = hex_encode (ex_node b)"

definition ex_key :: linkKey where
  "ex_key = ex_node 170 @ ex_node 187"

lemma ex_node_length [simp]: "length (ex_node b) = 32"
  by (simp add: ex_node_def)

lemma ex_node_eq [simp]: "ex_node a = ex_node b \<longleftrightarrow> a = b"
  by (auto simp: ex_node_def)

lemma ex_node_less: "a < b \<Longrightarrow> ex_node a < ex_node b"
  by (simp add: ex_node_def numeral_eq_Suc)

lemma normalizePub_ex [simp]: "normalizePub (ex_pub b) = Some (ex_node b)"
  by (simp add: ex_pub_def)

lemma canonicalKey_ex [simp]:
  "canonicalKey (ex_node 170) (ex_node 187) = Some ex_key"
  "canonicalKey (ex_node 187) (ex_node 170) = Some ex_key"
  using ex_node_less [of 170 187] by (auto simp: canonicalKey_def ex_key_def)

lemma valid_ex_key [simp]: "valid_key ex_key"
  by (rule canonicalKey_valid [OF canonicalKey_ex(1)]) simp_all

lemma link_key_identity_witness:
  "keyFromPair (ex_pub 170) (ex_pub 187) = keyFromPair (ex_pub 187) (ex_pub 170)
    \<longleftrightarrow> {canon (ex_pub 170), canon (ex_pub 187)} = {canon (ex_pub 187), canon (ex_pub 170)}"
  by (rule link_key_identity) (simp_all add: keyFromPair_def)

lemma key_pair_roundtrip_witness:
  "keyFromPair (key_nodeA ex_key) (key_nodeB ex_key) = Some ex_key"
  using key_pair_roundtrip [of ex_key "[]"] by simp

end
