(* ===== verification/Geo.thy ===== *)
theory Geo
  imports GoPrelude
begin

text \<open>
  The great-circle distance \<open>haversineKM\<close> of mapquery.go, which the link registry uses to detect
  movement, the map and search endpoints to filter and rank by distance. Real arithmetic stands
  for float64: the lemmas show that both square roots are taken of numbers between 0 and 1, so no NaN
  arises in exact arithmetic, and that the result is a symmetric, bounded, non-negative distance.
\<close>

definition toRad :: "float64 \<Rightarrow> float64" where
  "toRad v = v * pi / 180"

text \<open>\<open>math.Atan2\<close>.\<close>

definition go_atan2 :: "float64 \<Rightarrow> float64 \<Rightarrow> float64" where
  "go_atan2 y x =
     (if x > 0 then arctan (y / x)
      else if x < 0 then (if y \<ge> 0 then arctan (y / x) + pi else arctan (y / x) - pi)
      else if y > 0 then pi / 2 else if y < 0 then - (pi / 2) else 0)"

definition earthKM :: float64 where
  "earthKM = 6371.0088"

definition hav_a :: "float64 \<Rightarrow> float64 \<Rightarrow> float64 \<Rightarrow> float64 \<Rightarrow> float64" where
  "hav_a lat1 lon1 lat2 lon2 =
     (let dLat = toRad (lat2 - lat1); dLon = toRad (lon2 - lon1);
          l1 = toRad lat1; l2 = toRad lat2
      in sin (dLat / 2) * sin (dLat / 2) + cos l1 * cos l2 * sin (dLon / 2) * sin (dLon / 2))"

definition haversineKM :: "float64 \<Rightarrow> float64 \<Rightarrow> float64 \<Rightarrow> float64 \<Rightarrow> float64" where
  "haversineKM lat1 lon1 lat2 lon2 =
     (let a = hav_a lat1 lon1 lat2 lon2
      in earthKM * 2 * go_atan2 (sqrt a) (sqrt (1 - a)))"

lemma sin_half_sq: "sin (x / 2) * sin (x / 2) = (1 - cos x) / 2" for x :: real
  using cos_double_sin [of "x / 2"] by (simp add: power2_eq_square)

lemma unit_vector: "(cos a * cos u)\<^sup>2 + (cos a * sin u)\<^sup>2 + (sin a)\<^sup>2 = 1" for a u :: real
proof -
  have "(cos a * cos u)\<^sup>2 + (cos a * sin u)\<^sup>2 = (cos a)\<^sup>2 * ((cos u)\<^sup>2 + (sin u)\<^sup>2)"
    by (simp only: power_mult_distrib distrib_left)
  then show ?thesis by simp
qed

text \<open>The haversine term is a quarter of a squared chord length: with the unit vectors of the
  two points, \<open>a = |p1 - p2|\<^sup>2 / 4\<close>.\<close>

lemma hav_a_chord:
  "4 * hav_a lat1 lon1 lat2 lon2 =
     (cos (toRad lat1) * cos (toRad lon1) - cos (toRad lat2) * cos (toRad lon2))\<^sup>2
   + (cos (toRad lat1) * sin (toRad lon1) - cos (toRad lat2) * sin (toRad lon2))\<^sup>2
   + (sin (toRad lat1) - sin (toRad lat2))\<^sup>2"
proof -
  let ?a = "toRad lat1" and ?b = "toRad lat2" and ?u = "toRad lon1" and ?v = "toRad lon2"
  have d: "toRad (lat2 - lat1) = ?b - ?a" "toRad (lon2 - lon1) = ?v - ?u"
    by (simp_all add: toRad_def field_simps)
  have "4 * hav_a lat1 lon1 lat2 lon2 =
      2 * (1 - cos (?b - ?a)) + 2 * (cos ?a * cos ?b) * (1 - cos (?v - ?u))"
    by (simp add: hav_a_def Let_def d sin_half_sq mult.assoc)
  also have "\<dots> = 2 - 2 * sin ?a * sin ?b - 2 * cos ?a * cos ?b * (cos ?u * cos ?v + sin ?u * sin ?v)"
    by (simp add: cos_diff algebra_simps)
  also have "\<dots> = 1 + 1 - 2 * (cos ?a * cos ?u * (cos ?b * cos ?v))
      - 2 * (cos ?a * sin ?u * (cos ?b * sin ?v)) - 2 * (sin ?a * sin ?b)"
    by (simp add: algebra_simps)
  also have "\<dots> = ((cos ?a * cos ?u)\<^sup>2 + (cos ?a * sin ?u)\<^sup>2 + (sin ?a)\<^sup>2)
      + ((cos ?b * cos ?v)\<^sup>2 + (cos ?b * sin ?v)\<^sup>2 + (sin ?b)\<^sup>2)
      - 2 * (cos ?a * cos ?u * (cos ?b * cos ?v))
      - 2 * (cos ?a * sin ?u * (cos ?b * sin ?v)) - 2 * (sin ?a * sin ?b)"
    by (simp only: unit_vector)
  also have "\<dots> = (cos ?a * cos ?u - cos ?b * cos ?v)\<^sup>2
      + (cos ?a * sin ?u - cos ?b * sin ?v)\<^sup>2 + (sin ?a - sin ?b)\<^sup>2"
    by (simp add: power2_diff)
  finally show ?thesis .
qed

lemma hav_a_antichord:
  "4 * (1 - hav_a lat1 lon1 lat2 lon2) =
     (cos (toRad lat1) * cos (toRad lon1) + cos (toRad lat2) * cos (toRad lon2))\<^sup>2
   + (cos (toRad lat1) * sin (toRad lon1) + cos (toRad lat2) * sin (toRad lon2))\<^sup>2
   + (sin (toRad lat1) + sin (toRad lat2))\<^sup>2"
  using hav_a_chord [of lat1 lon1 lat2 lon2] unit_vector [of "toRad lat1" "toRad lon1"]
    unit_vector [of "toRad lat2" "toRad lon2"]
  unfolding power2_sum power2_diff right_diff_distrib by linarith

lemma hav_a_range: "0 \<le> hav_a lat1 lon1 lat2 lon2" "hav_a lat1 lon1 lat2 lon2 \<le> 1"
proof -
  have "0 \<le> 4 * hav_a lat1 lon1 lat2 lon2" unfolding hav_a_chord by simp
  then show "0 \<le> hav_a lat1 lon1 lat2 lon2" by simp
  have "0 \<le> 4 * (1 - hav_a lat1 lon1 lat2 lon2)" unfolding hav_a_antichord by simp
  then show "hav_a lat1 lon1 lat2 lon2 \<le> 1" by simp
qed

lemma hav_a_sym: "hav_a lat1 lon1 lat2 lon2 = hav_a lat2 lon2 lat1 lon1"
proof -
  have "4 * hav_a lat1 lon1 lat2 lon2 = 4 * hav_a lat2 lon2 lat1 lon1"
    unfolding hav_a_chord by (simp add: power2_commute)
  then show ?thesis by simp
qed

lemma go_atan2_quadrant:
  assumes "0 \<le> y" and "0 \<le> x"
  shows "0 \<le> go_atan2 y x" and "go_atan2 y x \<le> pi / 2"
  using assms arctan_ubound [of "y / x"] by (auto simp: go_atan2_def)

lemma haversineKM_same [simp]: "haversineKM lat lon lat lon = 0"
  by (simp add: haversineKM_def hav_a_def Let_def toRad_def go_atan2_def)

text \<open>\<open>haversineKM\<close> is a symmetric distance: it is the same in both directions, never negative,
  never more than half the Earth's circumference, 0 from a point to itself, and its square roots
  are taken of numbers between 0 and 1, whatever the coordinates.\<close>

theorem haversine_distance:
  "haversineKM lat1 lon1 lat2 lon2 = haversineKM lat2 lon2 lat1 lon1 \<and>
   0 \<le> haversineKM lat1 lon1 lat2 lon2 \<and> haversineKM lat1 lon1 lat2 lon2 \<le> earthKM * pi \<and>
   haversineKM lat1 lon1 lat1 lon1 = 0 \<and>
   0 \<le> hav_a lat1 lon1 lat2 lon2 \<and> hav_a lat1 lon1 lat2 lon2 \<le> 1"
proof -
  let ?t = "go_atan2 (sqrt (hav_a lat1 lon1 lat2 lon2)) (sqrt (1 - hav_a lat1 lon1 lat2 lon2))"
  have "0 \<le> ?t" and "?t \<le> pi / 2"
    using hav_a_range [of lat1 lon1 lat2 lon2] by (intro go_atan2_quadrant; simp)+
  then show ?thesis
    using hav_a_range [of lat1 lon1 lat2 lon2] hav_a_sym [of lat1 lon1 lat2 lon2]
    by (auto simp: haversineKM_def Let_def earthKM_def)
qed

end
