(* ===== verification/LinkRecords.thy ===== *)
theory LinkRecords
  imports LinkKeys Geo
begin

text \<open>
  One aggregated link (links.go): the record, the per-network associations, the position
  segments, the decaying activity score and the capped SNR histories, with the operations on a
  single record. \<open>link_ok\<close> is the invariant of a stored record; every operation keeps it.
\<close>

subsection \<open>Data\<close>

definition defaultLinkHalfLife :: float64 where
  "defaultLinkHalfLife = 24 * 60 * 60"

definition linkSNRHistoryLimit :: nat where
  "linkSNRHistoryLimit = 5"

definition linkPosEpsilonKM :: float64 where
  "linkPosEpsilonKM = 1"

record linkNetwork =
  n_NetworkID :: string
  n_FirstSeen :: unix_time
  n_LastSeen :: unix_time
  n_PacketCount :: u64
  n_DirAB :: u64
  n_DirBA :: u64
  n_LastHashAB :: string
  n_LastHashBA :: string
  n_LowConfidenceCount :: u64

record linkPosSegment =
  sg_LatA :: float64
  sg_LonA :: float64
  sg_LatB :: float64
  sg_LonB :: float64
  sg_FirstSeen :: unix_time
  sg_LastSeen :: unix_time
  sg_PacketCount :: u64

record LinkRecord =
  l_Key :: linkKey
  l_NodeA :: string
  l_NodeB :: string
  l_PacketCount :: u64
  l_FirstSeen :: unix_time
  l_LastSeen :: unix_time
  l_Score :: float64
  l_ScoreUpdatedAt :: unix_time
  l_Networks :: "linkNetwork list"
  l_DirAB :: u64
  l_DirBA :: u64
  l_LastHashAB :: string
  l_LastHashBA :: string
  l_SNRsAB :: "float64 list"
  l_SNRsBA :: "float64 list"
  l_LowConfidenceCount :: u64
  l_SourceCounts :: "(string, u64) gomap"
  l_HasPos :: bool
  l_LatA :: float64
  l_LonA :: float64
  l_LatB :: float64
  l_LonB :: float64
  l_SegFirstSeen :: unix_time
  l_SegPacketCount :: u64
  l_Segments :: "linkPosSegment list"
  l_dirty :: bool

text \<open>The record \<open>observeLink\<close> creates on the first sighting of a link; the other fields are zero
  values. A nil \<open>SourceCounts\<close> map is the empty map: the code makes one before its first write.\<close>

definition new_link :: "linkKey \<Rightarrow> unix_time \<Rightarrow> LinkRecord" where
  "new_link k now = \<lparr>l_Key = k, l_NodeA = key_nodeA k, l_NodeB = key_nodeB k, l_PacketCount = 0,
     l_FirstSeen = now, l_LastSeen = 0, l_Score = 0, l_ScoreUpdatedAt = now, l_Networks = [],
     l_DirAB = 0, l_DirBA = 0, l_LastHashAB = '''', l_LastHashBA = '''', l_SNRsAB = [],
     l_SNRsBA = [], l_LowConfidenceCount = 0, l_SourceCounts = mempty, l_HasPos = False,
     l_LatA = 0, l_LonA = 0, l_LatB = 0, l_LonB = 0, l_SegFirstSeen = 0, l_SegPacketCount = 0,
     l_Segments = [], l_dirty = False\<rparr>"

record linkObs =
  o_key :: linkKey
  o_fromIsA :: bool
  o_hash :: string
  o_networkID :: string
  o_routeType :: string
  o_now :: unix_time
  o_hasPos :: bool
  o_latA :: float64
  o_lonA :: float64
  o_latB :: float64
  o_lonB :: float64
  o_snr :: float64
  o_hasSNR :: bool
  o_lowConf :: bool

subsection \<open>Networks\<close>

definition addNetwork :: "string \<Rightarrow> unix_time \<Rightarrow> LinkRecord \<Rightarrow> LinkRecord" where
  "addNetwork networkID now rec =
     (case update_first (\<lambda>n. n_NetworkID n = networkID) (\<lambda>n. n\<lparr>n_LastSeen := now\<rparr>) (l_Networks rec) of
        Some ns \<Rightarrow> rec\<lparr>l_Networks := ns\<rparr>
      | None \<Rightarrow> rec\<lparr>l_Networks := l_Networks rec @
          [\<lparr>n_NetworkID = networkID, n_FirstSeen = now, n_LastSeen = now, n_PacketCount = 0,
            n_DirAB = 0, n_DirBA = 0, n_LastHashAB = '''', n_LastHashBA = '''',
            n_LowConfidenceCount = 0\<rparr>]\<rparr>)"

definition count_one_network :: "linkObs \<Rightarrow> linkNetwork \<Rightarrow> linkNetwork" where
  "count_one_network ob n =
     (let n = n\<lparr>n_PacketCount := n_PacketCount n + 1\<rparr>;
          n = (if o_fromIsA ob
               then n\<lparr>n_DirAB := n_DirAB n + 1, n_LastHashAB := o_hash ob\<rparr>
               else n\<lparr>n_DirBA := n_DirBA n + 1, n_LastHashBA := o_hash ob\<rparr>)
      in if o_lowConf ob then n\<lparr>n_LowConfidenceCount := n_LowConfidenceCount n + 1\<rparr> else n)"

definition countNetwork :: "linkObs \<Rightarrow> LinkRecord \<Rightarrow> LinkRecord" where
  "countNetwork ob rec =
     (case update_first (\<lambda>n. n_NetworkID n = o_networkID ob) (count_one_network ob) (l_Networks rec) of
        Some ns \<Rightarrow> rec\<lparr>l_Networks := ns\<rparr> | None \<Rightarrow> rec)"

subsection \<open>Position segments\<close>

definition current_segment :: "LinkRecord \<Rightarrow> linkPosSegment" where
  "current_segment rec = \<lparr>sg_LatA = l_LatA rec, sg_LonA = l_LonA rec, sg_LatB = l_LatB rec,
     sg_LonB = l_LonB rec, sg_FirstSeen = l_SegFirstSeen rec, sg_LastSeen = l_LastSeen rec,
     sg_PacketCount = l_SegPacketCount rec\<rparr>"

definition open_segment :: "float64 \<Rightarrow> float64 \<Rightarrow> float64 \<Rightarrow> float64 \<Rightarrow> unix_time \<Rightarrow> LinkRecord \<Rightarrow> LinkRecord" where
  "open_segment latA lonA latB lonB now rec = rec\<lparr>l_LatA := latA, l_LonA := lonA, l_LatB := latB,
     l_LonB := lonB, l_SegFirstSeen := now, l_SegPacketCount := 1\<rparr>"

definition endpoint_moved :: "float64 \<Rightarrow> float64 \<Rightarrow> float64 \<Rightarrow> float64 \<Rightarrow> LinkRecord \<Rightarrow> bool" where
  "endpoint_moved latA lonA latB lonB rec \<longleftrightarrow>
     haversineKM (l_LatA rec) (l_LonA rec) latA lonA > linkPosEpsilonKM \<or>
     haversineKM (l_LatB rec) (l_LonB rec) latB lonB > linkPosEpsilonKM"

definition updatePosition ::
  "float64 \<Rightarrow> float64 \<Rightarrow> float64 \<Rightarrow> float64 \<Rightarrow> unix_time \<Rightarrow> LinkRecord \<Rightarrow> LinkRecord" where
  "updatePosition latA lonA latB lonB now rec =
     (if \<not> l_HasPos rec then open_segment latA lonA latB lonB now (rec\<lparr>l_HasPos := True\<rparr>)
      else if endpoint_moved latA lonA latB lonB rec
      then open_segment latA lonA latB lonB now
             (rec\<lparr>l_Segments := l_Segments rec @ [current_segment rec]\<rparr>)
      else rec\<lparr>l_SegPacketCount := l_SegPacketCount rec + 1\<rparr>)"

subsection \<open>Score\<close>

definition decayedScore :: "float64 \<Rightarrow> unix_time \<Rightarrow> unix_time \<Rightarrow> float64 \<Rightarrow> float64" where
  "decayedScore score updatedAt now halfLife =
     (if halfLife \<le> 0 \<or> updatedAt = 0 then score
      else let dt = now - updatedAt in
        if dt > 0 then score * (2 powr (- (real_of_int dt / halfLife))) else score)"

definition decayScore :: "unix_time \<Rightarrow> float64 \<Rightarrow> LinkRecord \<Rightarrow> LinkRecord" where
  "decayScore now halfLife rec =
     (if l_ScoreUpdatedAt rec = 0 \<or> halfLife \<le> 0 then rec\<lparr>l_ScoreUpdatedAt := now\<rparr>
      else let dt = now - l_ScoreUpdatedAt rec;
        rec = (if dt > 0 then rec\<lparr>l_Score := l_Score rec * (2 powr (- (real_of_int dt / halfLife)))\<rparr>
               else rec)
      in rec\<lparr>l_ScoreUpdatedAt := now\<rparr>)"

definition combinedScore :: "float64 \<Rightarrow> unix_time \<Rightarrow> float64 \<Rightarrow> unix_time \<Rightarrow> float64 \<Rightarrow> float64" where
  "combinedScore a aAt b bAt halfLife =
     (if bAt > aAt then decayedScore a aAt bAt halfLife + b
      else a + decayedScore b bAt aAt halfLife)"

subsection \<open>SNR histories, quality\<close>

definition appendCappedFloat :: "float64 list \<Rightarrow> float64 \<Rightarrow> nat \<Rightarrow> float64 list" where
  "appendCappedFloat vals v limit =
     (let vals = vals @ [v] in if length vals \<le> limit then vals else drop (length vals - limit) vals)"

definition appendCappedFloats :: "float64 list \<Rightarrow> float64 list \<Rightarrow> nat \<Rightarrow> float64 list" where
  "appendCappedFloats vals add limit = fold (\<lambda>v vals. appendCappedFloat vals v limit) add vals"

definition mergeSNRHistory :: "float64 list \<Rightarrow> float64 list \<Rightarrow> bool \<Rightarrow> float64 list" where
  "mergeSNRHistory existing restored restoredNewer =
     (if restoredNewer then appendCappedFloats existing restored linkSNRHistoryLimit
      else let vals = restored @ existing in
        if length vals \<le> linkSNRHistoryLimit then vals
        else drop (length vals - linkSNRHistoryLimit) vals)"

definition linkQuality :: "u64 \<Rightarrow> u64 \<Rightarrow> string" where
  "linkQuality packetCount lowConfidence =
     (if packetCount = 0 then ''unknown''
      else if lowConfidence = 0 then ''high''
      else if lowConfidence \<ge> packetCount then ''low''
      else ''mixed'')"

definition copyCounts :: "(string, u64) gomap \<Rightarrow> (string, u64) gomap" where
  "copyCounts m = (if mlen m = 0 then mempty else mrange (\<lambda>k v acc. mput acc k v) m mempty)"

subsection \<open>Counting one event\<close>

text \<open>The part of \<open>observeLink\<close> that runs for a (hash, link, direction) not seen in the window.\<close>

definition count_event :: "float64 \<Rightarrow> linkObs \<Rightarrow> LinkRecord \<Rightarrow> LinkRecord" where
  "count_event halfLife ob rec =
     (let rec = (if o_hasPos ob then updatePosition (o_latA ob) (o_lonA ob) (o_latB ob) (o_lonB ob) (o_now ob) rec
                 else rec);
          rec = rec\<lparr>l_PacketCount := l_PacketCount rec + 1\<rparr>;
          rec = rec\<lparr>l_LastSeen := o_now ob\<rparr>;
          rec = decayScore (o_now ob) halfLife rec;
          rec = rec\<lparr>l_Score := l_Score rec + 1\<rparr>;
          rec = (if o_lowConf ob then rec\<lparr>l_LowConfidenceCount := l_LowConfidenceCount rec + 1\<rparr> else rec);
          rec = (if o_fromIsA ob
            then let rec = rec\<lparr>l_DirAB := l_DirAB rec + 1, l_LastHashAB := o_hash ob\<rparr> in
              if o_hasSNR ob
              then rec\<lparr>l_SNRsAB := appendCappedFloat (l_SNRsAB rec) (o_snr ob) linkSNRHistoryLimit\<rparr> else rec
            else let rec = rec\<lparr>l_DirBA := l_DirBA rec + 1, l_LastHashBA := o_hash ob\<rparr> in
              if o_hasSNR ob
              then rec\<lparr>l_SNRsBA := appendCappedFloat (l_SNRsBA rec) (o_snr ob) linkSNRHistoryLimit\<rparr> else rec);
          rt = (if o_routeType ob = '''' then ''unknown'' else o_routeType ob)
      in rec\<lparr>l_SourceCounts := mincr (l_SourceCounts rec) rt, l_dirty := True\<rparr>)"

subsection \<open>The invariant of a stored link\<close>

definition network_ok :: "linkNetwork \<Rightarrow> bool" where
  "network_ok n \<longleftrightarrow> n_DirAB n + n_DirBA n = n_PacketCount n"

definition networks_ok :: "linkNetwork list \<Rightarrow> bool" where
  "networks_ok ns \<longleftrightarrow> distinct (map n_NetworkID ns) \<and> '''' \<notin> set (map n_NetworkID ns) \<and>
     (\<forall>n\<in>set ns. network_ok n)"

definition link_ok :: "LinkRecord \<Rightarrow> bool" where
  "link_ok rec \<longleftrightarrow>
     valid_key (l_Key rec) \<and> l_NodeA rec = key_nodeA (l_Key rec) \<and> l_NodeB rec = key_nodeB (l_Key rec) \<and>
     l_DirAB rec + l_DirBA rec = l_PacketCount rec \<and>
     msum (\<lambda>v. v) (l_SourceCounts rec) = l_PacketCount rec \<and>
     length (l_SNRsAB rec) \<le> linkSNRHistoryLimit \<and> length (l_SNRsBA rec) \<le> linkSNRHistoryLimit \<and>
     networks_ok (l_Networks rec)"

lemma link_ok_new [preserve]: "valid_key k \<Longrightarrow> link_ok (new_link k now)"
  by (simp add: link_ok_def new_link_def networks_ok_def)

lemma link_ok_dirty [simp]: "link_ok (rec\<lparr>l_dirty := b\<rparr>) = link_ok rec"
  by (simp add: link_ok_def)

lemma link_ok_Networks: "link_ok rec \<Longrightarrow> networks_ok ns \<Longrightarrow> link_ok (rec\<lparr>l_Networks := ns\<rparr>)"
  by (simp add: link_ok_def)

lemma networks_ok_update:
  assumes "update_first P f ns = Some ns'" and "networks_ok ns"
    and "\<And>n. n_NetworkID (f n) = n_NetworkID n" and "\<And>n. network_ok n \<Longrightarrow> network_ok (f n)"
  shows "networks_ok ns'"
  using update_first_map [OF assms(1), of n_NetworkID] update_first_all [OF assms(1), of network_ok]
    assms(2-4) by (simp add: networks_ok_def)

lemma addNetwork_Networks:
  "l_Networks (addNetwork i now rec) =
     (case update_first (\<lambda>n. n_NetworkID n = i) (\<lambda>n. n\<lparr>n_LastSeen := now\<rparr>) (l_Networks rec) of
        Some ns \<Rightarrow> ns
      | None \<Rightarrow> l_Networks rec @
          [\<lparr>n_NetworkID = i, n_FirstSeen = now, n_LastSeen = now, n_PacketCount = 0, n_DirAB = 0,
            n_DirBA = 0, n_LastHashAB = '''', n_LastHashBA = '''', n_LowConfidenceCount = 0\<rparr>])"
  by (simp add: addNetwork_def split: option.splits)

lemma addNetwork_eq: "addNetwork i now rec = rec\<lparr>l_Networks := l_Networks (addNetwork i now rec)\<rparr>"
  by (simp add: addNetwork_def split: option.splits)

lemma link_ok_addNetwork [preserve]:
  assumes "link_ok rec" and "i \<noteq> ''''"
  shows "link_ok (addNetwork i now rec)"
proof -
  have "networks_ok (l_Networks rec)" using assms(1) by (simp add: link_ok_def)
  then have "networks_ok (l_Networks (addNetwork i now rec))"
    using assms(2)
    by (auto simp: addNetwork_Networks network_ok_def update_first_None intro: networks_ok_update
        split: option.splits) (auto simp: networks_ok_def network_ok_def)
  then show ?thesis using link_ok_Networks [OF assms(1)] by (subst addNetwork_eq) blast
qed

lemma countNetwork_eq: "countNetwork ob rec = rec\<lparr>l_Networks := l_Networks (countNetwork ob rec)\<rparr>"
  by (simp add: countNetwork_def split: option.splits)

lemma count_one_network_simps [simp]:
  "n_NetworkID (count_one_network ob n) = n_NetworkID n"
  "n_FirstSeen (count_one_network ob n) = n_FirstSeen n"
  "n_LastSeen (count_one_network ob n) = n_LastSeen n"
  "n_PacketCount (count_one_network ob n) = n_PacketCount n + 1"
  "network_ok (count_one_network ob n) = network_ok n"
  by (auto simp: count_one_network_def network_ok_def Let_def algebra_simps)

lemma link_ok_countNetwork [preserve]:
  assumes "link_ok rec"
  shows "link_ok (countNetwork ob rec)"
proof -
  have "networks_ok (l_Networks rec)" using assms by (simp add: link_ok_def)
  then have "networks_ok (l_Networks (countNetwork ob rec))"
    by (auto simp: countNetwork_def intro: networks_ok_update split: option.splits)
  then show ?thesis using link_ok_Networks [OF assms] by (subst countNetwork_eq) blast
qed

lemma updatePosition_simps [simp]:
  "l_Key (updatePosition a b c d now rec) = l_Key rec"
  "l_NodeA (updatePosition a b c d now rec) = l_NodeA rec"
  "l_NodeB (updatePosition a b c d now rec) = l_NodeB rec"
  "l_PacketCount (updatePosition a b c d now rec) = l_PacketCount rec"
  "l_FirstSeen (updatePosition a b c d now rec) = l_FirstSeen rec"
  "l_LastSeen (updatePosition a b c d now rec) = l_LastSeen rec"
  "l_Score (updatePosition a b c d now rec) = l_Score rec"
  "l_ScoreUpdatedAt (updatePosition a b c d now rec) = l_ScoreUpdatedAt rec"
  "l_Networks (updatePosition a b c d now rec) = l_Networks rec"
  "l_DirAB (updatePosition a b c d now rec) = l_DirAB rec"
  "l_DirBA (updatePosition a b c d now rec) = l_DirBA rec"
  "l_SNRsAB (updatePosition a b c d now rec) = l_SNRsAB rec"
  "l_SNRsBA (updatePosition a b c d now rec) = l_SNRsBA rec"
  "l_LowConfidenceCount (updatePosition a b c d now rec) = l_LowConfidenceCount rec"
  "l_SourceCounts (updatePosition a b c d now rec) = l_SourceCounts rec"
  by (simp_all add: updatePosition_def open_segment_def)

lemma decayScore_eq:
  "decayScore now hl rec =
     rec\<lparr>l_Score := decayedScore (l_Score rec) (l_ScoreUpdatedAt rec) now hl, l_ScoreUpdatedAt := now\<rparr>"
  by (simp add: decayScore_def decayedScore_def Let_def)

lemma appendCappedFloat_eq:
  "appendCappedFloat vals v limit = drop (Suc (length vals) - limit) (vals @ [v])"
  by (simp add: appendCappedFloat_def Let_def)

lemma length_appendCappedFloat [simp]:
  "length (appendCappedFloat vals v limit) = min (Suc (length vals)) limit"
  by (auto simp: appendCappedFloat_def Let_def)

lemma count_event_simps [simp]:
  "l_Key (count_event hl ob rec) = l_Key rec"
  "l_NodeA (count_event hl ob rec) = l_NodeA rec"
  "l_NodeB (count_event hl ob rec) = l_NodeB rec"
  "l_PacketCount (count_event hl ob rec) = l_PacketCount rec + 1"
  "l_FirstSeen (count_event hl ob rec) = l_FirstSeen rec"
  "l_LastSeen (count_event hl ob rec) = o_now ob"
  "l_Score (count_event hl ob rec) = decayedScore (l_Score rec) (l_ScoreUpdatedAt rec) (o_now ob) hl + 1"
  "l_ScoreUpdatedAt (count_event hl ob rec) = o_now ob"
  "l_Networks (count_event hl ob rec) = l_Networks rec"
  "l_DirAB (count_event hl ob rec) = l_DirAB rec + (if o_fromIsA ob then 1 else 0)"
  "l_DirBA (count_event hl ob rec) = l_DirBA rec + (if o_fromIsA ob then 0 else 1)"
  "l_SNRsAB (count_event hl ob rec) = (if o_fromIsA ob \<and> o_hasSNR ob
     then appendCappedFloat (l_SNRsAB rec) (o_snr ob) linkSNRHistoryLimit else l_SNRsAB rec)"
  "l_SNRsBA (count_event hl ob rec) = (if \<not> o_fromIsA ob \<and> o_hasSNR ob
     then appendCappedFloat (l_SNRsBA rec) (o_snr ob) linkSNRHistoryLimit else l_SNRsBA rec)"
  "l_SourceCounts (count_event hl ob rec) = mincr (l_SourceCounts rec)
     (if o_routeType ob = '''' then ''unknown'' else o_routeType ob)"
  "l_dirty (count_event hl ob rec) = True"
  by (simp_all add: count_event_def decayScore_eq Let_def)

lemma link_ok_count_event [preserve]: "link_ok rec \<Longrightarrow> link_ok (count_event hl ob rec)"
  by (simp add: link_ok_def msum_mincr algebra_simps)

subsection \<open>SNR histories keep the newest values\<close>

definition last_n :: "nat \<Rightarrow> 'a list \<Rightarrow> 'a list" where
  "last_n n xs = drop (length xs - n) xs"

lemma appendCappedFloat_last_n: "appendCappedFloat vals v limit = last_n limit (vals @ [v])"
  by (simp add: appendCappedFloat_eq last_n_def)

lemma last_n_append_last_n: "last_n n (last_n n xs @ ys) = last_n n (xs @ ys)"
  by (cases "n \<le> length xs") (auto simp: last_n_def add.commute)

lemma last_n_idem: "length xs \<le> n \<Longrightarrow> last_n n xs = xs"
  by (simp add: last_n_def)

lemma appendCappedFloats_last_n:
  "length vals \<le> limit \<Longrightarrow> appendCappedFloats vals add limit = last_n limit (vals @ add)"
proof (induction add arbitrary: vals)
  case (Cons v add)
  have "appendCappedFloats vals (v # add) limit = appendCappedFloats (last_n limit (vals @ [v])) add limit"
    by (simp add: appendCappedFloats_def appendCappedFloat_last_n)
  also have "\<dots> = last_n limit (last_n limit (vals @ [v]) @ add)"
    by (rule Cons.IH) (simp add: last_n_def)
  finally show ?case by (simp add: last_n_append_last_n)
qed (simp add: appendCappedFloats_def last_n_idem)

text \<open>Merging the SNR history of a restored link with that of the live one keeps the newest five
  values of the two put together, the newer link's values last.\<close>

theorem mergeSNRHistory_newest_five:
  assumes "length existing \<le> linkSNRHistoryLimit"
  shows "mergeSNRHistory existing restored restoredNewer =
     last_n 5 (if restoredNewer then existing @ restored else restored @ existing)"
  using assms
  by (simp add: mergeSNRHistory_def appendCappedFloats_last_n linkSNRHistoryLimit_def)
     (auto simp: last_n_def Let_def linkSNRHistoryLimit_def)

lemma length_mergeSNRHistory [preserve]:
  "length existing \<le> linkSNRHistoryLimit \<Longrightarrow>
     length (mergeSNRHistory existing restored newer) \<le> linkSNRHistoryLimit"
  by (cases newer) (auto simp: mergeSNRHistory_def appendCappedFloats_last_n last_n_def Let_def)

lemma mergeSNRHistory_newest_five_witness:
  "mergeSNRHistory [1, 2, 3, 4] [5, 6] True = [2, 3, 4, 5, 6]"
  using mergeSNRHistory_newest_five [of "[1, 2, 3, 4]" "[5, 6]" True]
  by (simp add: linkSNRHistoryLimit_def last_n_def)

subsection \<open>The score is a sum of decaying events\<close>

definition decay :: "float64 \<Rightarrow> int \<Rightarrow> float64" where
  "decay halfLife dt = 2 powr (- (real_of_int dt / halfLife))"

lemma decay_0 [simp]: "decay hl 0 = 1"
  by (simp add: decay_def)

lemma decay_pos [simp]: "0 < decay hl dt"
  by (simp add: decay_def)

lemma decay_add: "decay hl a * decay hl b = decay hl (a + b)"
  by (simp add: decay_def powr_add [symmetric] add_divide_distrib)

lemma decayedScore_decay:
  "0 < hl \<Longrightarrow> u \<noteq> 0 \<Longrightarrow> u \<le> now \<Longrightarrow> decayedScore s u now hl = s * decay hl (now - u)"
  by (auto simp: decayedScore_def decay_def Let_def)

definition decay_sum :: "float64 \<Rightarrow> unix_time list \<Rightarrow> unix_time \<Rightarrow> float64" where
  "decay_sum hl ts now = sum_list (map (\<lambda>t. decay hl (now - t)) ts)"

lemma decay_sum_Nil [simp]: "decay_sum hl [] now = 0"
  by (simp add: decay_sum_def)

lemma decay_sum_snoc [simp]: "decay_sum hl (ts @ [t]) now = decay_sum hl ts now + decay hl (now - t)"
  by (simp add: decay_sum_def)

lemma decay_sum_shift: "decay_sum hl ts u * decay hl (now - u) = decay_sum hl ts now"
  by (induction ts) (simp_all add: decay_sum_def distrib_right decay_add)

lemma decayedScore_sum:
  "0 < hl \<Longrightarrow> u \<noteq> 0 \<Longrightarrow> u \<le> now \<Longrightarrow> decayedScore (decay_sum hl ts u) u now hl = decay_sum hl ts now"
  by (simp add: decayedScore_decay decay_sum_shift)

text \<open>A record whose score is the decayed sum of the counted events \<open>ts\<close>.\<close>

definition score_repr :: "float64 \<Rightarrow> LinkRecord \<Rightarrow> unix_time list \<Rightarrow> bool" where
  "score_repr hl rec ts \<longleftrightarrow> l_Score rec = decay_sum hl ts (l_ScoreUpdatedAt rec) \<and>
     0 < l_ScoreUpdatedAt rec \<and> l_PacketCount rec = of_nat (length ts)"

lemma score_repr_new: "0 < now \<Longrightarrow> score_repr hl (new_link k now) []"
  by (simp add: score_repr_def new_link_def)

lemma score_repr_count_event:
  assumes "score_repr hl rec ts" and "0 < hl" and "l_ScoreUpdatedAt rec \<le> o_now ob"
  shows "score_repr hl (count_event hl ob rec) (ts @ [o_now ob])"
  using assms by (simp add: score_repr_def decayedScore_sum)

text \<open>The activity score halves every half-life, never grows with time, and decaying in two
  steps equals decaying in one: reading the score at any time does not depend on when it was
  stored.\<close>

theorem decayed_score_laws:
  assumes "0 < halfLife" and "0 < u" and "u \<le> v" and "v \<le> w" and "0 \<le> s"
  shows "decayedScore (decayedScore s u v halfLife) v w halfLife = decayedScore s u w halfLife \<and>
    decayedScore s u w halfLife \<le> decayedScore s u v halfLife \<and>
    (real_of_int (w - u) = halfLife \<longrightarrow> decayedScore s u w halfLife = s / 2)"
proof -
  have "u \<noteq> 0" "v \<noteq> 0" using assms by auto
  then have w: "decayedScore s u w halfLife = s * decay halfLife (w - u)"
    and v: "decayedScore s u v halfLife = s * decay halfLife (v - u)"
    using assms by (auto intro: decayedScore_decay)
  have "decay halfLife (w - u) \<le> decay halfLife (v - u)"
    unfolding decay_def using assms by (intro powr_mono) (auto intro: divide_right_mono)
  then have "decayedScore s u w halfLife \<le> decayedScore s u v halfLife"
    unfolding w v using assms(5) by (rule mult_left_mono)
  moreover have "decay halfLife (v - u) * decay halfLife (w - v) = decay halfLife (w - u)"
    by (simp add: decay_add)
  then have "decayedScore (decayedScore s u v halfLife) v w halfLife = decayedScore s u w halfLife"
    using assms \<open>v \<noteq> 0\<close> by (simp add: v w decayedScore_decay)
  moreover have "decayedScore s u w halfLife = s / 2" if "real_of_int (w - u) = halfLife"
    using that assms(1) unfolding w decay_def by (simp add: powr_minus_divide)
  ultimately show ?thesis by blast
qed

lemma combined_score_laws:
  assumes "0 < halfLife" and "0 < aAt" and "0 < bAt" and "aAt \<le> now" and "bAt \<le> now"
  shows "combinedScore a aAt b bAt halfLife = combinedScore b bAt a aAt halfLife \<and>
    decayedScore (combinedScore a aAt b bAt halfLife) (max aAt bAt) now halfLife
      = decayedScore a aAt now halfLife + decayedScore b bAt now halfLife"
proof
  have same: "decayedScore x t t halfLife = x" for x t
    by (simp add: decayedScore_def)
  show "combinedScore a aAt b bAt halfLife = combinedScore b bAt a aAt halfLife"
    by (cases aAt bAt rule: linorder_cases) (simp_all add: combinedScore_def same)
  have "decay halfLife (bAt - aAt) * decay halfLife (now - bAt) = decay halfLife (now - aAt)"
    "decay halfLife (aAt - bAt) * decay halfLife (now - aAt) = decay halfLife (now - bAt)"
    by (simp_all add: decay_add)
  then show "decayedScore (combinedScore a aAt b bAt halfLife) (max aAt bAt) now halfLife
      = decayedScore a aAt now halfLife + decayedScore b bAt now halfLife"
    using assms by (auto simp: combinedScore_def decayedScore_decay max_def distrib_right mult.assoc)
qed

lemma decayed_score_laws_witness:
  "decayedScore (decayedScore 8 100 150 86400) 150 86500 86400 = decayedScore 8 100 86500 86400 \<and>
   decayedScore 8 100 86500 86400 \<le> decayedScore 8 100 150 86400 \<and>
   decayedScore 8 100 86500 86400 = 4"
  using decayed_score_laws [of 86400 100 150 86500 8] by simp

end
