(* ===== verification/LinkRegistry.thy ===== *)
theory LinkRegistry
  imports LinkRecords DedupWindow
begin

text \<open>
  The sharded registry of observed links (links.go): 64 shards, each with its map of links and
  its two deduplication caches, the walk \<open>ObservePathCtx\<close> over a resolved path, \<open>observeLink\<close>
  and \<open>sweep\<close>. Each shard operation holds the shard's lock, so it is one atomic step. The
  lemmas \<open>lookup_*\<close> show that the shards refine one flat registry indexed by link key.
\<close>

subsection \<open>State\<close>

record linkDedupKey =
  dk_hash :: string
  dk_key :: linkKey
  dk_fromIsA :: bool

record linkNetworkDedupKey =
  nk_hash :: string
  nk_key :: linkKey
  nk_fromIsA :: bool
  nk_networkID :: string

record linkShard =
  sh_links :: "(linkKey, LinkRecord) gomap"
  sh_dedup :: "(linkDedupKey, unix_time) gomap"
  sh_netDedup :: "(linkNetworkDedupKey, unix_time) gomap"

text \<open>The edges and the cached adjacency snapshot of route.go, a field of the registry.\<close>

record routeEdge =
  e_to :: pubKey
  e_packetCount :: u64
  e_recentActivity :: float64
  e_firstSeen :: unix_time
  e_lastSeen :: unix_time
  e_networks :: "string list"
  e_cost :: float64

record routeAdjacency =
  ra_builtAt :: unix_time
  ra_graph :: "(pubKey, routeEdge list) gomap"

record LinkRegistry =
  r_shards :: "linkShard list"
  r_halfLife :: float64
  r_routeAdj :: "routeAdjacency option"

definition linkShards :: nat where
  "linkShards = 64"

definition newLinkRegistry :: "float64 \<Rightarrow> LinkRegistry" where
  "newLinkRegistry halfLifeSeconds =
     \<lparr>r_shards = replicate linkShards \<lparr>sh_links = mempty, sh_dedup = mempty, sh_netDedup = mempty\<rparr>,
      r_halfLife = (if halfLifeSeconds \<le> 0 then defaultLinkHalfLife else halfLifeSeconds),
      r_routeAdj = None\<rparr>"

text \<open>\<open>shardFor\<close>: the index of the shard that holds a key.\<close>

definition shardIndex :: "linkKey \<Rightarrow> nat" where
  "shardIndex k = (unat (k ! 0) * 256 + unat (k ! 1)) mod linkShards"

definition shardFor :: "LinkRegistry \<Rightarrow> linkKey \<Rightarrow> linkShard" where
  "shardFor r k = r_shards r ! shardIndex k"

definition setShard :: "linkKey \<Rightarrow> linkShard \<Rightarrow> LinkRegistry \<Rightarrow> LinkRegistry" where
  "setShard k sh r = r\<lparr>r_shards := (r_shards r)[shardIndex k := sh]\<rparr>"

subsection \<open>observeLink and sweep\<close>

definition obs_dedup_key :: "linkObs \<Rightarrow> linkDedupKey" where
  "obs_dedup_key ob = \<lparr>dk_hash = o_hash ob, dk_key = o_key ob, dk_fromIsA = o_fromIsA ob\<rparr>"

definition obs_net_key :: "linkObs \<Rightarrow> linkNetworkDedupKey" where
  "obs_net_key ob = \<lparr>nk_hash = o_hash ob, nk_key = o_key ob, nk_fromIsA = o_fromIsA ob,
     nk_networkID = o_networkID ob\<rparr>"

definition observeLink :: "linkObs \<Rightarrow> LinkRegistry \<Rightarrow> LinkRegistry" where
  "observeLink ob r =
     (let sh = shardFor r (o_key ob);
          rec = (case mget (sh_links sh) (o_key ob) of Some rec \<Rightarrow> rec
                 | None \<Rightarrow> new_link (o_key ob) (o_now ob));
          (rec, netDedup) =
            (if o_networkID ob \<noteq> ''''
             then let rec = (addNetwork (o_networkID ob) (o_now ob) rec)\<lparr>l_dirty := True\<rparr>;
                      netDedup = mput (sh_netDedup sh) (obs_net_key ob) (o_now ob)
                  in (case mget (sh_netDedup sh) (obs_net_key ob) of
                        Some _ \<Rightarrow> (rec, netDedup)
                      | None \<Rightarrow> ((countNetwork ob rec)\<lparr>l_dirty := True\<rparr>, netDedup))
             else (rec, sh_netDedup sh));
          rec = (case mget (sh_dedup sh) (obs_dedup_key ob) of
                   Some _ \<Rightarrow> rec
                 | None \<Rightarrow> count_event (r_halfLife r) ob rec)
      in setShard (o_key ob)
           \<lparr>sh_links = mput (sh_links sh) (o_key ob) rec,
            sh_dedup = mput (sh_dedup sh) (obs_dedup_key ob) (o_now ob),
            sh_netDedup = netDedup\<rparr> r)"

definition registry_sweep :: "unix_time \<Rightarrow> int \<Rightarrow> LinkRegistry \<Rightarrow> LinkRegistry" where
  "registry_sweep now dedupWindow r =
     r\<lparr>r_shards := map (\<lambda>sh. sh\<lparr>sh_dedup := expireOlder now dedupWindow (sh_dedup sh),
                               sh_netDedup := expireOlder now dedupWindow (sh_netDedup sh)\<rparr>) (r_shards r)\<rparr>"

subsection \<open>ObservePathCtx\<close>

record PathObservation =
  p_Hash :: string
  p_NetworkID :: string
  p_RouteType :: string
  p_Path :: "string list"
  p_LowConfidence :: bool
  p_SNRs :: "float64 list"
  p_Now :: unix_time
  p_PosOf :: "(string \<Rightarrow> (float64 \<times> float64) option) option"

definition setPositions ::
  "(string \<Rightarrow> (float64 \<times> float64) option) option \<Rightarrow> string \<Rightarrow> string \<Rightarrow> linkObs \<Rightarrow> linkObs" where
  "setPositions posOf fromHex toHex ob =
     (case posOf of None \<Rightarrow> ob
      | Some f \<Rightarrow> (case (f fromHex, f toHex) of
          (Some (fLat, fLon), Some (tLat, tLon)) \<Rightarrow>
            (if o_fromIsA ob
             then ob\<lparr>o_hasPos := True, o_latA := fLat, o_lonA := fLon, o_latB := tLat, o_lonB := tLon\<rparr>
             else ob\<lparr>o_hasPos := True, o_latA := tLat, o_lonA := tLon, o_latB := fLat, o_lonB := fLon\<rparr>)
        | _ \<Rightarrow> ob))"

text \<open>The local variables of the walk; \<open>w_out\<close> is the state the calls of \<open>observeLink\<close> update.\<close>

record 's walk =
  w_prev :: pubKey
  w_prevHex :: string
  w_havePrev :: bool
  w_prevRaw :: string
  w_hop :: nat
  w_seen :: "directedKey list"
  w_out :: 's

definition hop_obs :: "PathObservation \<Rightarrow> string \<Rightarrow> linkKey \<Rightarrow> pubKey \<Rightarrow> string \<Rightarrow> string \<Rightarrow> nat \<Rightarrow> linkObs" where
  "hop_obs p hash key prev prevHex raw hop =
     (let ob = \<lparr>o_key = key, o_fromIsA = (take 32 key = prev), o_hash = hash,
            o_networkID = p_NetworkID p, o_routeType = p_RouteType p, o_now = p_Now p,
            o_hasPos = False, o_latA = 0, o_lonA = 0, o_latB = 0, o_lonB = 0, o_snr = 0,
            o_hasSNR = False, o_lowConf = p_LowConfidence p\<rparr>;
          ob = setPositions (p_PosOf p) prevHex raw ob
      in if hop < length (p_SNRs p) then ob\<lparr>o_snr := p_SNRs p ! hop, o_hasSNR := True\<rparr> else ob)"

definition path_step ::
  "(linkObs \<Rightarrow> 's \<Rightarrow> 's) \<Rightarrow> PathObservation \<Rightarrow> string \<Rightarrow> string \<Rightarrow> 's walk \<Rightarrow> 's walk" where
  "path_step sink p hash raw w =
     (let raw = canon raw in
      if raw = '''' then w
      else if w_havePrev w \<and> raw = w_prevRaw w then w
      else case normalizePub raw of
        None \<Rightarrow> w\<lparr>w_havePrev := False, w_prevRaw := raw\<rparr>
      | Some cur \<Rightarrow>
          let w = (if w_havePrev w
                   then case canonicalKey (w_prev w) cur of
                          None \<Rightarrow> w
                        | Some key \<Rightarrow>
                            let dir = w_prev w @ cur in
                            if dir \<in> set (w_seen w) then w
                            else w\<lparr>w_seen := w_seen w @ [dir],
                                   w_out := sink (hop_obs p hash key (w_prev w) (w_prevHex w) raw (w_hop w))
                                              (w_out w)\<rparr>
                   else w)
          in w\<lparr>w_prev := cur, w_prevHex := raw, w_prevRaw := raw, w_havePrev := True,
               w_hop := w_hop w + 1\<rparr>)"

definition walk_start :: "'s \<Rightarrow> 's walk" where
  "walk_start s = \<lparr>w_prev = replicate 32 0, w_prevHex = '''', w_havePrev = False, w_prevRaw = '''',
     w_hop = 0, w_seen = [], w_out = s\<rparr>"

definition ObservePathCtx :: "PathObservation \<Rightarrow> LinkRegistry \<Rightarrow> LinkRegistry" where
  "ObservePathCtx p r =
     (let hash = canon (p_Hash p) in
      if hash = '''' \<or> length (p_Path p) < 2 then r
      else w_out (fold (path_step observeLink p hash) (p_Path p) (walk_start r)))"

definition ObservePath :: "string \<Rightarrow> string \<Rightarrow> string list \<Rightarrow> unix_time \<Rightarrow> LinkRegistry \<Rightarrow> LinkRegistry" where
  "ObservePath hash networkID path now =
     ObservePathCtx \<lparr>p_Hash = hash, p_NetworkID = networkID, p_RouteType = '''', p_Path = path,
       p_LowConfidence = False, p_SNRs = [], p_Now = now, p_PosOf = None\<rparr>"

subsection \<open>linkCount\<close>

definition linkCount :: "LinkRegistry \<Rightarrow> nat" where
  "linkCount r = sum_list (map (\<lambda>sh. mlen (sh_links sh)) (r_shards r))"

subsection \<open>The flat view of the shards\<close>

definition lookup_link :: "LinkRegistry \<Rightarrow> linkKey \<Rightarrow> LinkRecord option" where
  "lookup_link r k = mget (sh_links (shardFor r k)) k"

definition lookup_dedup :: "LinkRegistry \<Rightarrow> linkDedupKey \<Rightarrow> unix_time option" where
  "lookup_dedup r dk = mget (sh_dedup (shardFor r (dk_key dk))) dk"

definition lookup_netDedup :: "LinkRegistry \<Rightarrow> linkNetworkDedupKey \<Rightarrow> unix_time option" where
  "lookup_netDedup r nk = mget (sh_netDedup (shardFor r (nk_key nk))) nk"

text \<open>The invariant: 64 shards, a positive half-life, and every stored record is well-formed, under
  its own key and in the shard of its key.\<close>

definition registry_ok :: "LinkRegistry \<Rightarrow> bool" where
  "registry_ok r \<longleftrightarrow> length (r_shards r) = linkShards \<and> 0 < r_halfLife r \<and>
     (\<forall>i<linkShards. \<forall>k rec. mget (sh_links (r_shards r ! i)) k = Some rec \<longrightarrow>
        shardIndex k = i \<and> l_Key rec = k \<and> link_ok rec)"

lemma shardIndex_less [simp]: "shardIndex k < linkShards"
  by (simp add: shardIndex_def linkShards_def)

lemma shardFor_setShard:
  "length (r_shards r) = linkShards \<Longrightarrow>
     shardFor (setShard k sh r) k' = (if shardIndex k' = shardIndex k then sh else shardFor r k')"
  by (simp add: shardFor_def setShard_def)

lemma registry_ok_len [dest]: "registry_ok r \<Longrightarrow> length (r_shards r) = linkShards"
  by (simp add: registry_ok_def)

lemma registry_ok_shard:
  "registry_ok r \<Longrightarrow> mget (sh_links (shardFor r k0)) k = Some rec \<Longrightarrow>
     shardIndex k = shardIndex k0 \<and> l_Key rec = k \<and> link_ok rec"
  unfolding registry_ok_def shardFor_def using shardIndex_less by blast

lemma registry_ok_lookup:
  "registry_ok r \<Longrightarrow> lookup_link r k = Some rec \<Longrightarrow> l_Key rec = k \<and> link_ok rec"
  using registry_ok_shard by (auto simp: lookup_link_def)

lemma registry_ok_new [preserve]: "registry_ok (newLinkRegistry hl)"
  by (simp add: registry_ok_def newLinkRegistry_def defaultLinkHalfLife_def)

lemma lookup_new [simp]:
  "lookup_link (newLinkRegistry hl) k = None"
  "lookup_dedup (newLinkRegistry hl) dk = None"
  "lookup_netDedup (newLinkRegistry hl) nk = None"
  by (simp_all add: lookup_link_def lookup_dedup_def lookup_netDedup_def shardFor_def newLinkRegistry_def)

text \<open>The new record of an observed link, from the old one and the two deduplication answers.\<close>

definition observed_link :: "float64 \<Rightarrow> bool \<Rightarrow> bool \<Rightarrow> linkObs \<Rightarrow> LinkRecord option \<Rightarrow> LinkRecord" where
  "observed_link hl netSeen seen ob old =
     (let rec = (case old of Some rec \<Rightarrow> rec | None \<Rightarrow> new_link (o_key ob) (o_now ob));
          rec = (if o_networkID ob \<noteq> ''''
                 then let rec = (addNetwork (o_networkID ob) (o_now ob) rec)\<lparr>l_dirty := True\<rparr>
                      in if netSeen then rec else (countNetwork ob rec)\<lparr>l_dirty := True\<rparr>
                 else rec)
      in if seen then rec else count_event hl ob rec)"

abbreviation counted_already :: "LinkRegistry \<Rightarrow> linkObs \<Rightarrow> bool" where
  "counted_already r ob \<equiv> lookup_dedup r (obs_dedup_key ob) \<noteq> None"

definition new_record :: "LinkRegistry \<Rightarrow> linkObs \<Rightarrow> LinkRecord" where
  "new_record r ob = observed_link (r_halfLife r) (lookup_netDedup r (obs_net_key ob) \<noteq> None)
     (counted_already r ob) ob (lookup_link r (o_key ob))"

lemma observeLink_eq:
  "observeLink ob r = setShard (o_key ob)
     \<lparr>sh_links = mput (sh_links (shardFor r (o_key ob))) (o_key ob) (new_record r ob),
      sh_dedup = mput (sh_dedup (shardFor r (o_key ob))) (obs_dedup_key ob) (o_now ob),
      sh_netDedup = (if o_networkID ob = '''' then sh_netDedup (shardFor r (o_key ob))
         else mput (sh_netDedup (shardFor r (o_key ob))) (obs_net_key ob) (o_now ob))\<rparr> r"
  by (simp add: observeLink_def new_record_def observed_link_def lookup_link_def lookup_dedup_def
      lookup_netDedup_def obs_dedup_key_def obs_net_key_def Let_def split: option.splits)

lemma lookup_link_observeLink:
  assumes "length (r_shards r) = linkShards"
  shows "lookup_link (observeLink ob r) k =
     (if k = o_key ob then Some (new_record r ob) else lookup_link r k)"
  using assms unfolding observeLink_eq
  by (auto simp: lookup_link_def shardFor_setShard mget_mput) (simp_all add: shardFor_def)

lemma lookup_dedup_observeLink:
  assumes "length (r_shards r) = linkShards"
  shows "lookup_dedup (observeLink ob r) dk =
     (if obs_dedup_key ob = dk then Some (o_now ob) else lookup_dedup r dk)"
  using assms unfolding observeLink_eq
  by (auto simp: lookup_dedup_def shardFor_setShard mget_mput obs_dedup_key_def)
     (simp_all add: shardFor_def)

lemma observeLink_simps [simp]:
  "r_halfLife (observeLink ob r) = r_halfLife r"
  "length (r_shards (observeLink ob r)) = length (r_shards r)"
  "r_routeAdj (observeLink ob r) = r_routeAdj r"
  by (simp_all add: observeLink_eq setShard_def)

lemma observed_link_ok:
  assumes "case old of None \<Rightarrow> valid_key (o_key ob) | Some rec \<Rightarrow> link_ok rec"
  shows "link_ok (observed_link hl netSeen seen ob old)"
proof -
  let ?rec = "case old of Some rec \<Rightarrow> rec | None \<Rightarrow> new_link (o_key ob) (o_now ob)"
  have "link_ok ?rec" using assms by (auto intro: link_ok_new split: option.splits)
  then show ?thesis
    by (auto simp: observed_link_def Let_def intro!: link_ok_count_event link_ok_countNetwork
        link_ok_addNetwork)
qed

lemma observed_link_Key:
  "l_Key (observed_link hl netSeen seen ob old) = (case old of None \<Rightarrow> o_key ob | Some rec \<Rightarrow> l_Key rec)"
proof -
  have [simp]: "l_Key (addNetwork i now rec) = l_Key rec" for i now rec
    by (subst addNetwork_eq) simp
  have [simp]: "l_Key (countNetwork ob rec) = l_Key rec" for rec
    by (subst countNetwork_eq) simp
  show ?thesis by (simp add: observed_link_def Let_def new_link_def split: option.splits)
qed

lemma registry_ok_setShard:
  assumes "registry_ok r"
    and "\<And>k' rec. mget (sh_links sh) k' = Some rec \<Longrightarrow>
           shardIndex k' = shardIndex k \<and> l_Key rec = k' \<and> link_ok rec"
  shows "registry_ok (setShard k sh r)"
  using assms by (auto simp: registry_ok_def setShard_def nth_list_update)

lemma registry_ok_observeLink [preserve]:
  assumes ok: "registry_ok r" and "valid_key (o_key ob)"
  shows "registry_ok (observeLink ob r)"
proof -
  have "link_ok (new_record r ob) \<and> l_Key (new_record r ob) = o_key ob"
    unfolding new_record_def observed_link_Key using assms registry_ok_lookup [OF ok]
    by (auto intro!: observed_link_ok split: option.splits)
  moreover have "shardIndex k = shardIndex (o_key ob) \<and> l_Key rec = k \<and> link_ok rec"
    if "mget (sh_links (shardFor r (o_key ob))) k = Some rec" for k rec
    using registry_ok_shard [OF ok that] .
  ultimately show ?thesis
    unfolding observeLink_eq
    by (intro registry_ok_setShard [OF ok]) (auto simp: mget_mput split: if_splits)
qed

lemma registry_sweep_simps:
  assumes "length (r_shards r) = linkShards"
  shows "lookup_link (registry_sweep now w r) k = lookup_link r k"
    and "lookup_dedup (registry_sweep now w r) dk =
      (case lookup_dedup r dk of None \<Rightarrow> None | Some t \<Rightarrow> if now - t > w then None else Some t)"
    and "lookup_netDedup (registry_sweep now w r) nk =
      (case lookup_netDedup r nk of None \<Rightarrow> None | Some t \<Rightarrow> if now - t > w then None else Some t)"
    and "length (r_shards (registry_sweep now w r)) = linkShards"
    and "r_halfLife (registry_sweep now w r) = r_halfLife r"
  using assms by (simp_all add: registry_sweep_def lookup_link_def lookup_dedup_def
      lookup_netDedup_def shardFor_def mget_expireOlder)

lemma registry_ok_sweep [preserve]: "registry_ok r \<Longrightarrow> registry_ok (registry_sweep now w r)"
  by (auto simp: registry_ok_def registry_sweep_def)

end
