(* ===== verification/MinHeap.thy ===== *)
theory MinHeap
  imports LinkRegistry "HOL-Library.Multiset"
begin

text \<open>
  The hand-rolled binary min-heap of route.go: a slice in heap order with \<open>push\<close> (append and sift
  up) and \<open>pop\<close> (move the last entry to the root and sift down). The locale \<open>prio_queue\<close> is the
  interface the Dijkstra search relies on, and the heap is an instance of it.
\<close>

record pqItem =
  pq_node :: pubKey
  pq_cost :: float64

definition swap_items :: "nat \<Rightarrow> nat \<Rightarrow> 'a list \<Rightarrow> 'a list" where
  "swap_items i j a = a[i := a ! j, j := a ! i]"

fun sift_up :: "pqItem list \<Rightarrow> nat \<Rightarrow> pqItem list" where
  "sift_up a i =
     (if i = 0 then a
      else let parent = (i - 1) div 2 in
        if pq_cost (a ! parent) \<le> pq_cost (a ! i) then a
        else sift_up (swap_items parent i a) parent)"

definition heap_push :: "pqItem list \<Rightarrow> pqItem \<Rightarrow> pqItem list" where
  "heap_push h it = (let a = h @ [it] in sift_up a (length a - 1))"

definition smallest_child :: "pqItem list \<Rightarrow> nat \<Rightarrow> nat" where
  "smallest_child a i =
     (let l = 2 * i + 1; r = 2 * i + 2; s = i;
          s = (if l < length a \<and> pq_cost (a ! l) < pq_cost (a ! s) then l else s)
      in if r < length a \<and> pq_cost (a ! r) < pq_cost (a ! s) then r else s)"

lemma smallest_child_bounds:
  "smallest_child a i \<noteq> i \<Longrightarrow> i < smallest_child a i \<and> smallest_child a i < length a"
  by (auto simp: smallest_child_def Let_def split: if_splits)

function sift_down :: "pqItem list \<Rightarrow> nat \<Rightarrow> pqItem list" where
  "sift_down a i =
     (let s = smallest_child a i in if s = i then a else sift_down (swap_items i s a) s)"
  by auto
termination
  by (relation "measure (\<lambda>(a, i). length a - i)")
     (use smallest_child_bounds in \<open>fastforce simp: swap_items_def\<close>)+

text \<open>\<open>pop\<close> on an empty slice would panic; the search pops only while the heap is not empty.\<close>

definition heap_pop :: "pqItem list \<Rightarrow> (pqItem \<times> pqItem list) option" where
  "heap_pop h = (if h = [] then None
     else let n = length h; top = h ! 0; a = take (n - 1) (h[0 := h ! (n - 1)])
       in Some (top, sift_down a 0))"

declare sift_up.simps [simp del] sift_down.simps [simp del]

lemma length_sift_down [simp]: "length (sift_down a i) = length a"
proof (induction a i rule: sift_down.induct)
  case (1 a i)
  then show ?case by (subst sift_down.simps) (simp add: Let_def swap_items_def)
qed

lemma heap_pop_length: "heap_pop h = Some (x, h') \<Longrightarrow> length h = Suc (length h')"
  by (auto simp: heap_pop_def Let_def split: if_splits)

subsection \<open>The interface\<close>

locale prio_queue =
  fixes items :: "'q \<Rightarrow> 'i multiset"
    and cost :: "'i \<Rightarrow> float64"
    and push :: "'q \<Rightarrow> 'i \<Rightarrow> 'q"
    and pop :: "'q \<Rightarrow> ('i \<times> 'q) option"
    and inv :: "'q \<Rightarrow> bool"
  assumes items_push: "inv q \<Longrightarrow> items (push q x) = add_mset x (items q) \<and> inv (push q x)"
    and pop_None: "inv q \<Longrightarrow> pop q = None \<longleftrightarrow> items q = {#}"
    and pop_Some: "inv q \<Longrightarrow> pop q = Some (x, q') \<Longrightarrow>
      items q = add_mset x (items q') \<and> inv q' \<and> (\<forall>y \<in># items q. cost x \<le> cost y)"
begin

lemma pop_cases:
  assumes "inv q"
  obtains "pop q = None" "items q = {#}"
    | x q' where "pop q = Some (x, q')" "items q = add_mset x (items q')" "inv q'"
        "\<And>y. y \<in># items q \<Longrightarrow> cost x \<le> cost y"
proof (cases "pop q")
  case None
  then show ?thesis using that(1) pop_None [OF assms] by simp
next
  case (Some p)
  obtain x q' where p: "p = (x, q')" by (cases p)
  note law = pop_Some [OF assms Some [unfolded p]]
  show ?thesis
  proof (rule that(2))
    show "pop q = Some (x, q')" using Some p by simp
    show "items q = add_mset x (items q')" using law by (rule conjunct1)
    show "inv q'" using law by blast
    show "cost x \<le> cost y" if "y \<in># items q" for y using law that by blast
  qed
qed

lemma set_push: "inv q \<Longrightarrow> set_mset (items (push q x)) = insert x (set_mset (items q))"
  using items_push by simp

lemma size_pop: "inv q \<Longrightarrow> pop q = Some (x, q') \<Longrightarrow> size (items q) = Suc (size (items q'))"
  using pop_Some by simp

end

subsection \<open>The heap keeps its order and its items\<close>

definition par :: "nat \<Rightarrow> nat" where
  "par j = (j - 1) div 2"

definition heap_ok :: "pqItem list \<Rightarrow> bool" where
  "heap_ok a \<longleftrightarrow> (\<forall>j<length a. 0 < j \<longrightarrow> pq_cost (a ! par j) \<le> pq_cost (a ! j))"

lemma par_less: "0 < j \<Longrightarrow> par j < j"
  by (simp add: par_def)

lemma par_children: "par k = i \<and> 0 < k \<longleftrightarrow> k = 2 * i + 1 \<or> k = 2 * i + 2"
  by (auto simp: par_def)

lemma length_swap [simp]: "length (swap_items i j a) = length a"
  by (simp add: swap_items_def)

lemma mset_swap_items [simp]: "i < length a \<Longrightarrow> j < length a \<Longrightarrow> mset (swap_items i j a) = mset a"
  unfolding swap_items_def by (rule mset_swap)

lemma cost_swap:
  "i < length a \<Longrightarrow> j < length a \<Longrightarrow>
     pq_cost (swap_items i j a ! k) = (if k = j then pq_cost (a ! i) else if k = i then pq_cost (a ! j)
       else pq_cost (a ! k))"
  by (simp add: swap_items_def nth_list_update)

text \<open>Heap order everywhere but between entry \<open>i\<close> and its parent.\<close>

definition up_ok :: "pqItem list \<Rightarrow> nat \<Rightarrow> bool" where
  "up_ok a i \<longleftrightarrow> i < length a \<and>
     (\<forall>j<length a. 0 < j \<and> j \<noteq> i \<longrightarrow> pq_cost (a ! par j) \<le> pq_cost (a ! j)) \<and>
     (\<forall>k<length a. 0 < k \<and> par k = i \<and> 0 < i \<longrightarrow> pq_cost (a ! par i) \<le> pq_cost (a ! k))"

lemma up_ok_swap:
  assumes ok: "up_ok a i" and i: "0 < i" and lt: "\<not> pq_cost (a ! par i) \<le> pq_cost (a ! i)"
  shows "up_ok (swap_items (par i) i a) (par i)"
proof -
  let ?p = "par i" and ?b = "swap_items (par i) i a"
  have p: "?p < i" "?p < length a" "i < length a"
    using par_less [OF i] ok by (auto simp: up_ok_def)
  have ord: "\<And>j. j < length a \<Longrightarrow> 0 < j \<Longrightarrow> j \<noteq> i \<Longrightarrow> pq_cost (a ! par j) \<le> pq_cost (a ! j)"
    and kids: "\<And>k. k < length a \<Longrightarrow> 0 < k \<Longrightarrow> par k = i \<Longrightarrow> pq_cost (a ! ?p) \<le> pq_cost (a ! k)"
    using ok i unfolding up_ok_def by blast+
  note c = cost_swap [OF p(2,3)]
  show ?thesis unfolding up_ok_def
  proof (intro conjI allI impI)
    show "?p < length ?b" using p by simp
  next
    fix j assume j: "j < length ?b" "0 < j \<and> j \<noteq> ?p"
    show "pq_cost (?b ! par j) \<le> pq_cost (?b ! j)"
    proof (cases "j = i")
      case True
      then show ?thesis using lt p(1) by (simp add: c)
    next
      case False
      then have "pq_cost (a ! par j) \<le> pq_cost (a ! j)" using ord j by simp
      moreover have "pq_cost (a ! ?p) \<le> pq_cost (a ! j)" if "par j = i" using kids that j by simp
      ultimately show ?thesis using False j lt by (auto simp: c)
    qed
  next
    fix k assume k: "k < length ?b" "0 < k \<and> par k = ?p \<and> 0 < ?p"
    have "par ?p < ?p" using k by (intro par_less) simp
    then have pp: "pq_cost (?b ! par ?p) = pq_cost (a ! par ?p)" using p(1) by (simp add: c)
    have "pq_cost (a ! par ?p) \<le> pq_cost (a ! ?p)" using ord [of ?p] k p by simp
    moreover have "pq_cost (a ! ?p) \<le> pq_cost (a ! k)" if "k \<noteq> i" using ord [of k] that k by simp
    moreover have "k \<noteq> ?p" using k par_less [of k] by auto
    ultimately show "pq_cost (?b ! par ?p) \<le> pq_cost (?b ! k)"
      unfolding pp using p(1) by (cases "k = i") (auto simp: c)
  qed
qed

lemma sift_up_ok: "up_ok a i \<Longrightarrow> heap_ok (sift_up a i) \<and> mset (sift_up a i) = mset a"
proof (induction a i rule: sift_up.induct)
  case (1 a i)
  show ?case
  proof (cases "i = 0 \<or> pq_cost (a ! par i) \<le> pq_cost (a ! i)")
    case True
    then have "sift_up a i = a" by (subst sift_up.simps) (auto simp: par_def Let_def)
    then show ?thesis using True "1.prems" unfolding up_ok_def heap_ok_def by auto
  next
    case False
    then have "sift_up a i = sift_up (swap_items (par i) i a) (par i)"
      by (subst sift_up.simps) (auto simp: par_def Let_def)
    moreover have "up_ok (swap_items (par i) i a) (par i)" using up_ok_swap "1.prems" False by blast
    moreover have "mset (swap_items (par i) i a) = mset a"
      using "1.prems" par_less [of i] False by (intro mset_swap_items) (auto simp: up_ok_def)
    ultimately show ?thesis using "1.IH" [OF _ refl] False by (simp add: par_def)
  qed
qed

lemma heap_push_ok: "heap_ok h \<Longrightarrow> heap_ok (heap_push h it) \<and> mset (heap_push h it) = add_mset it (mset h)"
proof -
  assume ok: "heap_ok h"
  have "pq_cost ((h @ [it]) ! par j) \<le> pq_cost ((h @ [it]) ! j)" if "j < length h" "0 < j" for j
    using that ok par_less [of j] by (simp add: nth_append heap_ok_def)
  moreover have "\<not> (par k = length h \<and> 0 < k)" if "k < Suc (length h)" for k
    using that par_less [of k] by (cases "0 < k") auto
  ultimately have "up_ok (h @ [it]) (length h)" by (auto simp: up_ok_def less_Suc_eq)
  from sift_up_ok [OF this] show ?thesis by (simp add: heap_push_def)
qed

text \<open>Heap order everywhere but between entry \<open>i\<close> and its children.\<close>

definition down_ok :: "pqItem list \<Rightarrow> nat \<Rightarrow> bool" where
  "down_ok a i \<longleftrightarrow>
     (\<forall>j<length a. 0 < j \<and> par j \<noteq> i \<longrightarrow> pq_cost (a ! par j) \<le> pq_cost (a ! j)) \<and>
     (\<forall>k<length a. 0 < k \<and> par k = i \<and> 0 < i \<longrightarrow> pq_cost (a ! par i) \<le> pq_cost (a ! k))"

lemma smallest_child_spec:
  assumes "s = smallest_child a i"
  shows "k < length a \<Longrightarrow> 0 < k \<Longrightarrow> par k = i \<Longrightarrow> pq_cost (a ! s) \<le> pq_cost (a ! k)"
    and "s \<noteq> i \<Longrightarrow> 0 < s \<and> par s = i \<and> s < length a \<and> pq_cost (a ! s) < pq_cost (a ! i)"
proof -
  let ?l = "2 * i + 1" and ?r = "2 * i + 2"
  define t where "t = (if ?l < length a \<and> pq_cost (a ! ?l) < pq_cost (a ! i) then ?l else i)"
  have s: "s = (if ?r < length a \<and> pq_cost (a ! ?r) < pq_cost (a ! t) then ?r else t)"
    unfolding assms smallest_child_def Let_def t_def ..
  have t: "?l < length a \<Longrightarrow> pq_cost (a ! t) \<le> pq_cost (a ! ?l)" "pq_cost (a ! t) \<le> pq_cost (a ! i)"
    "t \<noteq> i \<Longrightarrow> t = ?l \<and> pq_cost (a ! t) < pq_cost (a ! i)"
    unfolding t_def by (auto split: if_splits)
  have st: "pq_cost (a ! s) \<le> pq_cost (a ! t)" "?r < length a \<Longrightarrow> pq_cost (a ! s) \<le> pq_cost (a ! ?r)"
    "s \<noteq> t \<Longrightarrow> s = ?r \<and> pq_cost (a ! s) < pq_cost (a ! t)"
    unfolding s by (auto split: if_splits)
  show "k < length a \<Longrightarrow> 0 < k \<Longrightarrow> par k = i \<Longrightarrow> pq_cost (a ! s) \<le> pq_cost (a ! k)"
    using par_children [of k i] t(1) st(1,2) by force
  show "s \<noteq> i \<Longrightarrow> 0 < s \<and> par s = i \<and> s < length a \<and> pq_cost (a ! s) < pq_cost (a ! i)"
    using par_children [of s i] t(2,3) st(1,3) smallest_child_bounds [of a i] assms by fastforce
qed

lemma down_ok_swap:
  assumes ok: "down_ok a i" and s: "s = smallest_child a i" "s \<noteq> i" and i: "i < length a"
  shows "down_ok (swap_items i s a) s"
proof -
  note sp = smallest_child_spec(2) [OF s(1) s(2)]
  have ord: "\<And>j. j < length a \<Longrightarrow> 0 < j \<Longrightarrow> par j \<noteq> i \<Longrightarrow> pq_cost (a ! par j) \<le> pq_cost (a ! j)"
    and kids: "\<And>k. k < length a \<Longrightarrow> 0 < k \<Longrightarrow> par k = i \<Longrightarrow> 0 < i \<Longrightarrow> pq_cost (a ! par i) \<le> pq_cost (a ! k)"
    using ok unfolding down_ok_def by blast+
  have c: "pq_cost (swap_items i s a ! k) = (if k = s then pq_cost (a ! i) else if k = i then pq_cost (a ! s)
      else pq_cost (a ! k))" for k
    using sp i by (intro cost_swap) simp_all
  show ?thesis unfolding down_ok_def
  proof (intro conjI allI impI)
    fix j assume j: "j < length (swap_items i s a)" "0 < j \<and> par j \<noteq> s"
    consider "j = s" | "j = i" "j \<noteq> s" | "par j = i" "j \<noteq> s" "j \<noteq> i" | "par j \<noteq> i" "j \<noteq> s" "j \<noteq> i" by blast
    then show "pq_cost (swap_items i s a ! par j) \<le> pq_cost (swap_items i s a ! j)"
    proof cases
      case 1
      then show ?thesis using sp s(2) by (simp add: c)
    next
      case 2
      then have "par i < i" using j par_less [of i] by simp
      then show ?thesis using 2 j kids [of s] sp by (simp add: c)
    next
      case 3
      then show ?thesis using j smallest_child_spec(1) [OF s(1), of j] by (simp add: c)
    next
      case 4
      then show ?thesis using j ord [of j] by (simp add: c)
    qed
  next
    fix k assume k: "k < length (swap_items i s a)" "0 < k \<and> par k = s \<and> 0 < s"
    then have "k \<noteq> s" "k \<noteq> i" using par_less [of k] par_less [of s] sp by auto
    moreover have "pq_cost (a ! par k) \<le> pq_cost (a ! k)" using k s(2) ord [of k] by simp
    ultimately show "pq_cost (swap_items i s a ! par s) \<le> pq_cost (swap_items i s a ! k)"
      using k sp s(2) by (simp add: c)
  qed
qed

lemma sift_down_ok:
  "down_ok a i \<Longrightarrow> i < length a \<Longrightarrow> heap_ok (sift_down a i) \<and> mset (sift_down a i) = mset a"
proof (induction a i rule: sift_down.induct)
  case (1 a i)
  let ?s = "smallest_child a i"
  show ?case
  proof (cases "?s = i")
    case True
    then have "sift_down a i = a" by (subst sift_down.simps) simp
    moreover have "pq_cost (a ! par j) \<le> pq_cost (a ! j)" if "j < length a" "0 < j" for j
      using that "1.prems"(1) smallest_child_spec(1) [OF refl, of j a i] True
      unfolding down_ok_def by (cases "par j = i") auto
    ultimately show ?thesis by (simp add: heap_ok_def)
  next
    case False
    note sp = smallest_child_spec(2) [OF refl False]
    have "sift_down a i = sift_down (swap_items i ?s a) ?s"
      using False by (subst sift_down.simps) (simp add: Let_def)
    moreover have "mset (swap_items i ?s a) = mset a" using sp "1.prems" by (intro mset_swap_items) auto
    ultimately show ?thesis
      using "1.IH" [OF refl False down_ok_swap [OF "1.prems"(1) refl False "1.prems"(2)]] sp by simp
  qed
qed

lemma heap_root_min:
  assumes "heap_ok a" and "j < length a"
  shows "pq_cost (a ! 0) \<le> pq_cost (a ! j)"
  using assms(2)
proof (induction j rule: less_induct)
  case (less j)
  show ?case
  proof (cases "j = 0")
    case False
    then have "pq_cost (a ! 0) \<le> pq_cost (a ! par j)" using less par_less [of j] by simp
    also have "\<dots> \<le> pq_cost (a ! j)" using assms(1) less.prems False by (simp add: heap_ok_def)
    finally show ?thesis .
  qed simp
qed

lemma heap_pop_ok:
  assumes ok: "heap_ok h" and pop: "heap_pop h = Some (x, h')"
  shows "mset h = add_mset x (mset h') \<and> heap_ok h' \<and> (\<forall>y\<in>set h. pq_cost x \<le> pq_cost y)"
proof -
  from pop have ne: "h \<noteq> []" and x: "x = h ! 0"
    and h': "h' = sift_down (take (length h - 1) (h[0 := h ! (length h - 1)])) 0"
    by (auto simp: heap_pop_def Let_def split: if_splits)
  let ?a = "take (length h - 1) (h[0 := h ! (length h - 1)])"
  have min: "\<forall>y\<in>set h. pq_cost x \<le> pq_cost y"
    using heap_root_min [OF ok] x by (metis in_set_conv_nth)
  have la: "length ?a = length h - 1" by simp
  have nth: "?a ! j = h ! j" if "0 < j" "j < length h - 1" for j using that by simp
  have ms: "mset h = add_mset x (mset ?a)"
  proof (cases h rule: rev_cases)
    case (snoc ys y)
    then show ?thesis using x by (cases ys) (simp_all add: nth_append)
  qed (use ne in simp)
  have "heap_ok h' \<and> mset h' = mset ?a"
  proof (cases "length h = 1")
    case True
    then have "?a = []" by simp
    moreover have "sift_down [] 0 = []" by (subst sift_down.simps) (simp add: smallest_child_def)
    ultimately have "h' = []" unfolding h' by (simp only:)
    with \<open>?a = []\<close> show ?thesis by (simp add: heap_ok_def)
  next
    case False
    then have len: "0 < length ?a" using ne by (cases h) auto
    have "pq_cost (?a ! par j) \<le> pq_cost (?a ! j)" if "j < length ?a" "0 < j" "par j \<noteq> 0" for j
    proof -
      have "pq_cost (h ! par j) \<le> pq_cost (h ! j)" using that ok la by (simp add: heap_ok_def)
      then show ?thesis using that par_less [of j] la by (simp add: nth)
    qed
    then have "down_ok ?a 0" unfolding down_ok_def by blast
    from sift_down_ok [OF this len] show ?thesis unfolding h' .
  qed
  then show ?thesis using ms min by simp
qed

interpretation heap: prio_queue mset pq_cost heap_push heap_pop heap_ok
proof unfold_locales
  fix q x q'
  assume ok: "heap_ok q"
  show "mset (heap_push q x) = add_mset x (mset q) \<and> heap_ok (heap_push q x)"
    using heap_push_ok [OF ok] by simp
  show "(heap_pop q = None) = (mset q = {#})" by (simp add: heap_pop_def Let_def)
  assume "heap_pop q = Some (x, q')"
  from heap_pop_ok [OF ok this]
  show "mset q = add_mset x (mset q') \<and> heap_ok q' \<and> (\<forall>y\<in>#mset q. pq_cost x \<le> pq_cost y)"
    unfolding set_mset_mset .
qed

text \<open>The heap is a priority queue: starting from an empty heap, after any pushes, popping returns
  an entry of least cost, and the pushed entries come out exactly once each.\<close>

theorem heap_is_priority_queue:
  "mset (fold (\<lambda>it h. heap_push h it) its []) = mset its \<and>
   (case heap_pop (fold (\<lambda>it h. heap_push h it) its []) of
      None \<Rightarrow> its = []
    | Some (x, h') \<Rightarrow> mset its = add_mset x (mset h') \<and> heap_ok h' \<and> (\<forall>y\<in>set its. pq_cost x \<le> pq_cost y))"
proof -
  have "heap_ok (fold (\<lambda>it h. heap_push h it) its h) \<and>
      mset (fold (\<lambda>it h. heap_push h it) its h) = mset h + mset its" if "heap_ok h" for h
    using that by (induction its arbitrary: h) (simp_all add: heap_push_ok)
  from this [of "[]"] have h: "heap_ok (fold (\<lambda>it h. heap_push h it) its [])"
    "mset (fold (\<lambda>it h. heap_push h it) its []) = mset its" by (auto simp: heap_ok_def)
  have set: "set (fold (\<lambda>it h. heap_push h it) its []) = set its" using h(2) mset_eq_setD by blast
  show ?thesis using h set by (cases rule: heap.pop_cases [OF h(1)]) auto
qed

lemma heap_is_priority_queue_witness:
  "\<exists>x h'. heap_pop (heap_push (heap_push [] \<lparr>pq_node = ex_node 1, pq_cost = 5\<rparr>) \<lparr>pq_node = ex_node 2, pq_cost = 3\<rparr>)
     = Some (x, h') \<and> pq_cost x \<le> 3"
proof -
  let ?its = "[\<lparr>pq_node = ex_node 1, pq_cost = 5\<rparr>, \<lparr>pq_node = ex_node 2, pq_cost = 3\<rparr>]"
  show ?thesis using heap_is_priority_queue [of ?its] by (auto split: option.splits)
qed

end
