(* ===== verification/RouteSearch.thy ===== *)
theory RouteSearch
  imports MinHeap
begin

text \<open>
  The shortest-path search of route.go: Dijkstra's algorithm with a lazy-deletion frontier (the
  heap may hold stale entries, skipped when their node is already done) and the reconstruction of
  the path from the predecessor maps. The graph is a Go map from a node to its edges; costs are
  positive. The main lemma says that a node is settled iff it is reachable through edges that pass
  the filter, at the cost of a cheapest path. Costs are real numbers: float64 addition rounds, so
  two paths whose exact costs differ by less than the rounding may be ranked otherwise.
\<close>

type_synonym graph = "(pubKey, routeEdge list) gomap"

definition edges :: "graph \<Rightarrow> pubKey \<Rightarrow> routeEdge list" where
  "edges adj n = (case mget adj n of None \<Rightarrow> [] | Some es \<Rightarrow> es)"

subsection \<open>The search\<close>

record dijkstra =
  d_dist :: "(pubKey, float64) gomap"
  d_prev :: "(pubKey, pubKey) gomap"
  d_prevEdge :: "(pubKey, routeEdge) gomap"
  d_done :: "(pubKey, bool) gomap"
  d_pq :: "pqItem list"

text \<open>One edge of the node just settled at cost \<open>c\<close>.\<close>

definition relax :: "(routeEdge \<Rightarrow> bool) \<Rightarrow> pubKey \<Rightarrow> float64 \<Rightarrow> routeEdge \<Rightarrow> dijkstra \<Rightarrow> dijkstra" where
  "relax passes u c e st =
     (if mhas (d_done st) (e_to e) \<or> \<not> passes e then st
      else let nd = c + e_cost e;
               better = (case mget (d_dist st) (e_to e) of None \<Rightarrow> True | Some best \<Rightarrow> nd < best)
        in if better
           then st\<lparr>d_dist := mput (d_dist st) (e_to e) nd, d_prev := mput (d_prev st) (e_to e) u,
                   d_prevEdge := mput (d_prevEdge st) (e_to e) e,
                   d_pq := heap_push (d_pq st) \<lparr>pq_node = e_to e, pq_cost = nd\<rparr>\<rparr>
           else st)"

definition settle :: "pubKey \<Rightarrow> dijkstra \<Rightarrow> dijkstra" where
  "settle u st = st\<lparr>d_done := mput (d_done st) u True\<rparr>"

definition expand :: "graph \<Rightarrow> (routeEdge \<Rightarrow> bool) \<Rightarrow> pubKey \<Rightarrow> float64 \<Rightarrow> dijkstra \<Rightarrow> dijkstra" where
  "expand adj passes u c st = fold (relax passes u c) (edges adj u) st"

definition open_nodes :: "graph \<Rightarrow> dijkstra \<Rightarrow> pubKey set" where
  "open_nodes adj st = {n \<in> dom (mget adj). \<not> mhas (d_done st) n}"

lemma finite_open_nodes [simp]: "finite (open_nodes adj st)"
  by (simp add: open_nodes_def)

lemma relax_done [simp]: "d_done (relax passes u c e st) = d_done st"
  by (simp add: relax_def Let_def)

lemma expand_done [simp]: "d_done (expand adj passes u c st) = d_done st"
proof -
  have "d_done (fold (relax passes u c) es st) = d_done st" for es
    by (induction es arbitrary: st) simp_all
  then show ?thesis by (simp add: expand_def)
qed

lemma settle_simps [simp]:
  "d_dist (settle u st) = d_dist st" "d_prev (settle u st) = d_prev st"
  "d_prevEdge (settle u st) = d_prevEdge st" "d_pq (settle u st) = d_pq st"
  "mhas (d_done (settle u st)) n \<longleftrightarrow> n = u \<or> mhas (d_done st) n"
  by (auto simp: settle_def mhas_mput)

lemma expand_no_edges: "u \<notin> dom (mget adj) \<Longrightarrow> expand adj passes u c st = st"
  by (simp add: expand_def edges_def domIff)

text \<open>The loop: pop until the heap is empty or the target is settled.\<close>

function dijkstra_loop :: "graph \<Rightarrow> (routeEdge \<Rightarrow> bool) \<Rightarrow> pubKey \<Rightarrow> dijkstra \<Rightarrow> dijkstra" where
  "dijkstra_loop adj passes target st =
     (case heap_pop (d_pq st) of
        None \<Rightarrow> st
      | Some (cur, pq) \<Rightarrow>
          (let st = st\<lparr>d_pq := pq\<rparr> in
           if mhas (d_done st) (pq_node cur) then dijkstra_loop adj passes target st
           else let st = settle (pq_node cur) st in
             if pq_node cur = target then st
             else dijkstra_loop adj passes target (expand adj passes (pq_node cur) (pq_cost cur) st)))"
  by auto

lemma open_nodes_settle:
  assumes "\<not> mhas (d_done st) u"
  shows "u \<in> dom (mget adj) \<Longrightarrow>
      card (open_nodes adj (expand adj passes u c (settle u st))) < card (open_nodes adj st)"
    and "u \<notin> dom (mget adj) \<Longrightarrow>
      open_nodes adj (expand adj passes u c (settle u st)) = open_nodes adj st"
proof -
  have eq: "open_nodes adj (expand adj passes u c (settle u st)) = open_nodes adj st - {u}"
    by (auto simp: open_nodes_def)
  show "u \<in> dom (mget adj) \<Longrightarrow>
      card (open_nodes adj (expand adj passes u c (settle u st))) < card (open_nodes adj st)"
    unfolding eq using assms by (intro psubset_card_mono) (auto simp: open_nodes_def)
  show "u \<notin> dom (mget adj) \<Longrightarrow>
      open_nodes adj (expand adj passes u c (settle u st)) = open_nodes adj st"
    unfolding eq by (auto simp: open_nodes_def)
qed

lemma open_nodes_pq [simp]: "open_nodes adj (st\<lparr>d_pq := q\<rparr>) = open_nodes adj st"
  by (simp add: open_nodes_def)

termination dijkstra_loop
proof (relation "measures [\<lambda>(adj, passes, target, st). card (open_nodes adj st),
    \<lambda>(adj, passes, target, st). length (d_pq st)]", goal_cases)
  case (2 adj passes target st p cur pq st')
  then show ?case by (auto dest: heap_pop_length)
next
  case (3 adj passes target st p cur pq st' st'')
  then have pop: "heap_pop (d_pq st) = Some (cur, pq)" and st'': "st'' = settle (pq_node cur) (st\<lparr>d_pq := pq\<rparr>)"
    and open_cur: "\<not> mhas (d_done (st\<lparr>d_pq := pq\<rparr>)) (pq_node cur)" by auto
  note len = heap_pop_length [OF pop] and os = open_nodes_settle [OF open_cur, of adj passes "pq_cost cur"]
  show ?case
  proof (cases "pq_node cur \<in> dom (mget adj)")
    case True
    then show ?thesis using os(1) by (simp add: st'')
  next
    case False
    then show ?thesis using os(2) [OF False] len by (simp add: st'' expand_no_edges)
  qed
qed simp

declare dijkstra_loop.simps [simp del]

subsection \<open>Paths\<close>

fun is_walk :: "graph \<Rightarrow> (routeEdge \<Rightarrow> bool) \<Rightarrow> pubKey \<Rightarrow> routeEdge list \<Rightarrow> pubKey \<Rightarrow> bool" where
  "is_walk adj passes a [] b \<longleftrightarrow> a = b"
| "is_walk adj passes a (e # es) b \<longleftrightarrow>
     e \<in> set (edges adj a) \<and> passes e \<and> is_walk adj passes (e_to e) es b"

definition walk_cost :: "routeEdge list \<Rightarrow> float64" where
  "walk_cost es = sum_list (map e_cost es)"

definition pos_costs :: "graph \<Rightarrow> bool" where
  "pos_costs adj \<longleftrightarrow> (\<forall>a. \<forall>e\<in>set (edges adj a). 0 < e_cost e)"

lemma is_walk_snoc:
  "is_walk adj passes a (es @ [e]) b \<longleftrightarrow>
     (\<exists>m. is_walk adj passes a es m \<and> e \<in> set (edges adj m) \<and> passes e \<and> e_to e = b)"
  by (induction es arbitrary: a) auto

lemma walk_cost_snoc [simp]: "walk_cost (es @ [e]) = walk_cost es + e_cost e"
  by (simp add: walk_cost_def)

lemma walk_cost_Nil [simp]: "walk_cost [] = 0"
  by (simp add: walk_cost_def)

subsection \<open>The invariant of the search\<close>

text \<open>\<open>from\<close> is a keyword, so the source is \<open>s\<close>.\<close>

definition dist_ok :: "graph \<Rightarrow> (routeEdge \<Rightarrow> bool) \<Rightarrow> pubKey \<Rightarrow> dijkstra \<Rightarrow> bool" where
  "dist_ok adj passes s st \<longleftrightarrow> mget (d_dist st) s = Some 0 \<and>
     (\<forall>v d. mget (d_dist st) v = Some d \<longrightarrow> v \<noteq> s \<longrightarrow>
        (\<exists>u e du. mget (d_prev st) v = Some u \<and> mget (d_prevEdge st) v = Some e \<and> mhas (d_done st) u \<and>
           e \<in> set (edges adj u) \<and> passes e \<and> e_to e = v \<and> mget (d_dist st) u = Some du \<and> d = du + e_cost e))"

definition queue_ok :: "dijkstra \<Rightarrow> bool" where
  "queue_ok st \<longleftrightarrow> heap_ok (d_pq st) \<and>
     (\<forall>i\<in>set (d_pq st). \<exists>d. mget (d_dist st) (pq_node i) = Some d \<and> d \<le> pq_cost i) \<and>
     (\<forall>v d. mget (d_dist st) v = Some d \<longrightarrow> \<not> mhas (d_done st) v \<longrightarrow>
        \<lparr>pq_node = v, pq_cost = d\<rparr> \<in> set (d_pq st))"

text \<open>Settled nodes have distances at most \<open>c\<close>, and the frontier starts at \<open>c\<close>.\<close>

definition settled_below :: "float64 \<Rightarrow> dijkstra \<Rightarrow> bool" where
  "settled_below c st \<longleftrightarrow> 0 \<le> c \<and> (\<forall>v. mhas (d_done st) v \<longrightarrow> (\<exists>d. mget (d_dist st) v = Some d \<and> d \<le> c)) \<and>
     (\<forall>i\<in>set (d_pq st). c \<le> pq_cost i)"

definition relaxed :: "dijkstra \<Rightarrow> float64 \<Rightarrow> routeEdge \<Rightarrow> bool" where
  "relaxed st d e \<longleftrightarrow> (\<exists>d'. mget (d_dist st) (e_to e) = Some d' \<and> d' \<le> d + e_cost e)"

definition edges_ok :: "graph \<Rightarrow> (routeEdge \<Rightarrow> bool) \<Rightarrow> dijkstra \<Rightarrow> pubKey set \<Rightarrow> bool" where
  "edges_ok adj passes st V \<longleftrightarrow> (\<forall>v\<in>V. \<forall>d. mget (d_dist st) v = Some d \<longrightarrow>
     (\<forall>e\<in>set (edges adj v). passes e \<longrightarrow> relaxed st d e))"

definition search_inv :: "graph \<Rightarrow> (routeEdge \<Rightarrow> bool) \<Rightarrow> pubKey \<Rightarrow> float64 \<Rightarrow> dijkstra \<Rightarrow> bool" where
  "search_inv adj passes s c st \<longleftrightarrow> dist_ok adj passes s st \<and> queue_ok st \<and> settled_below c st \<and>
     edges_ok adj passes st {v. mhas (d_done st) v}"

text \<open>Every walk from the source ends at a settled node no dearer than the walk, or there is a
  frontier entry of an unsettled node no dearer than the walk.\<close>

lemma frontier_lemma:
  assumes inv: "search_inv adj passes s c st" and pos: "pos_costs adj"
    and walk: "is_walk adj passes s es x"
  shows "(mhas (d_done st) x \<and> (\<exists>d. mget (d_dist st) x = Some d \<and> d \<le> walk_cost es)) \<or>
    (\<exists>i\<in>set (d_pq st). \<not> mhas (d_done st) (pq_node i) \<and> pq_cost i \<le> walk_cost es)"
  using walk
proof (induction es arbitrary: x rule: rev_induct)
  case Nil
  have "mget (d_dist st) s = Some 0" using inv by (simp add: search_inv_def dist_ok_def)
  then show ?case using Nil inv unfolding search_inv_def queue_ok_def by fastforce
next
  case (snoc e es)
  then obtain m where m: "is_walk adj passes s es m" "e \<in> set (edges adj m)" "passes e" "e_to e = x"
    by (auto simp: is_walk_snoc)
  have ce: "0 < e_cost e" using pos m(2) by (auto simp: pos_costs_def)
  from snoc.IH [OF m(1)] show ?case
  proof
    assume "mhas (d_done st) m \<and> (\<exists>d. mget (d_dist st) m = Some d \<and> d \<le> walk_cost es)"
    then obtain d where d: "mhas (d_done st) m" "mget (d_dist st) m = Some d" "d \<le> walk_cost es" by blast
    then obtain d' where d': "mget (d_dist st) x = Some d'" "d' \<le> d + e_cost e"
      using inv m unfolding search_inv_def edges_ok_def relaxed_def by blast
    then have le: "d' \<le> walk_cost (es @ [e])" using d(3) by simp
    show ?thesis
    proof (cases "mhas (d_done st) x")
      case True
      then show ?thesis using d'(1) le by blast
    next
      case False
      then have "\<lparr>pq_node = x, pq_cost = d'\<rparr> \<in> set (d_pq st)"
        using inv d'(1) unfolding search_inv_def queue_ok_def by blast
      then show ?thesis using False le by (intro disjI2 bexI) auto
    qed
  next
    assume "\<exists>i\<in>set (d_pq st). \<not> mhas (d_done st) (pq_node i) \<and> pq_cost i \<le> walk_cost es"
    then show ?thesis using ce by fastforce
  qed
qed

subsection \<open>One relaxation\<close>

text \<open>The state while the edges of \<open>u\<close>, settled at cost \<open>c\<close>, are relaxed: \<open>V\<close> is the set of nodes
  settled before.\<close>

definition expanding :: "graph \<Rightarrow> (routeEdge \<Rightarrow> bool) \<Rightarrow> pubKey \<Rightarrow> pubKey set \<Rightarrow> pubKey \<Rightarrow> float64 \<Rightarrow> dijkstra \<Rightarrow> bool" where
  "expanding adj passes s V u c st \<longleftrightarrow> dist_ok adj passes s st \<and> queue_ok st \<and> settled_below c st \<and>
     edges_ok adj passes st V \<and> mget (d_dist st) u = Some c \<and> {v. mhas (d_done st) v} = insert u V"

lemma relax_cases:
  assumes "expanding adj passes s V u c st" and "0 < e_cost e"
  obtains "relax passes u c e st = st" "passes e \<Longrightarrow> relaxed st c e"
  | "passes e" "\<not> mhas (d_done st) (e_to e)" "e_to e \<noteq> s" "e_to e \<notin> insert u V"
    "\<And>best. mget (d_dist st) (e_to e) = Some best \<Longrightarrow> c + e_cost e < best"
    "relax passes u c e st = st\<lparr>d_dist := mput (d_dist st) (e_to e) (c + e_cost e),
       d_prev := mput (d_prev st) (e_to e) u, d_prevEdge := mput (d_prevEdge st) (e_to e) e,
       d_pq := heap_push (d_pq st) \<lparr>pq_node = e_to e, pq_cost = c + e_cost e\<rparr>\<rparr>"
proof (cases "mhas (d_done st) (e_to e) \<or> \<not> passes e")
  case True
  have "relaxed st c e" if "passes e"
  proof -
    have "settled_below c st" using assms(1) by (simp add: expanding_def)
    moreover have "mhas (d_done st) (e_to e)" using True that by simp
    ultimately obtain d where "mget (d_dist st) (e_to e) = Some d" "d \<le> c"
      unfolding settled_below_def by blast
    then show ?thesis using assms(2) by (simp add: relaxed_def)
  qed
  then show ?thesis using that(1) True by (simp add: relax_def)
next
  case False
  let ?nd = "c + e_cost e"
  show ?thesis
  proof (cases "\<exists>best. mget (d_dist st) (e_to e) = Some best \<and> \<not> ?nd < best")
    case True
    then obtain best where "mget (d_dist st) (e_to e) = Some best" "\<not> ?nd < best" by blast
    then show ?thesis using that(1) False by (simp add: relax_def relaxed_def)
  next
    case better: False
    have "e_to e \<noteq> s"
    proof
      assume "e_to e = s"
      then have "mget (d_dist st) (e_to e) = Some 0"
        using assms(1) by (simp add: expanding_def dist_ok_def)
      moreover have "0 \<le> c" using assms(1) by (simp add: expanding_def settled_below_def)
      ultimately show False using better assms(2) by simp
    qed
    moreover have "e_to e \<notin> insert u V" using False assms(1) by (auto simp: expanding_def)
    ultimately show ?thesis
      using that(2) False better by (simp add: relax_def Let_def split: option.splits)
  qed
qed

lemma relax_dist_mono:
  assumes "expanding adj passes s V u c st" and "0 < e_cost e" and "relaxed st d e'"
  shows "relaxed (relax passes u c e st) d e'"
proof (cases rule: relax_cases [OF assms(1,2)])
  case 1
  then show ?thesis using assms(3) by simp
next
  case 2
  obtain d' where "mget (d_dist st) (e_to e') = Some d'" "d' \<le> d + e_cost e'"
    using assms(3) by (auto simp: relaxed_def)
  then show ?thesis using 2(5) [of d'] by (auto simp: relaxed_def 2(6) mget_mput)
qed

lemma relax_self:
  assumes "expanding adj passes s V u c st" and "0 < e_cost e" and "passes e"
  shows "relaxed (relax passes u c e st) c e"
proof (cases rule: relax_cases [OF assms(1,2)])
  case 1
  then show ?thesis using assms(3) by simp
next
  case 2
  then show ?thesis by (simp add: relaxed_def mget_mput)
qed

lemma relax_expanding:
  assumes ex: "expanding adj passes s V u c st" and pos: "0 < e_cost e" and e: "e \<in> set (edges adj u)"
  shows "expanding adj passes s V u c (relax passes u c e st)"
proof (cases rule: relax_cases [OF ex pos])
  case 1
  then show ?thesis using ex by simp
next
  case 2
  let ?st = "relax passes u c e st" and ?w = "e_to e" and ?nd = "c + e_cost e"
  let ?it = "\<lparr>pq_node = ?w, pq_cost = ?nd\<rparr>"
  note st = 2(6)
  have dist: "mget (d_dist ?st) v = (if v = ?w then Some ?nd else mget (d_dist st) v)" for v
    by (simp add: st mget_mput)
  have dn: "d_done ?st = d_done st" by simp
  have V: "\<And>v. v \<in> V \<Longrightarrow> v \<noteq> ?w" "u \<noteq> ?w" using 2(4) by auto
  have du: "mget (d_dist st) u = Some c" and dones: "{v. mhas (d_done st) v} = insert u V"
    using ex by (auto simp: expanding_def)
  have notw: "v \<noteq> ?w" if "mhas (d_done st) v" for v using that 2(2) by auto
  have "dist_ok adj passes s ?st"
    unfolding dist_ok_def
  proof (intro conjI allI impI)
    show "mget (d_dist ?st) s = Some 0" using ex 2(3) by (simp add: dist expanding_def dist_ok_def)
  next
    fix v d assume v: "mget (d_dist ?st) v = Some d" "v \<noteq> s"
    show "\<exists>u e du. mget (d_prev ?st) v = Some u \<and> mget (d_prevEdge ?st) v = Some e \<and> mhas (d_done ?st) u \<and>
        e \<in> set (edges adj u) \<and> passes e \<and> e_to e = v \<and> mget (d_dist ?st) u = Some du \<and> d = du + e_cost e"
    proof (cases "v = ?w")
      case True
      then have "mget (d_prev ?st) v = Some u" "mget (d_prevEdge ?st) v = Some e" "d = ?nd"
        using v by (simp_all add: st mget_mput)
      moreover have "mhas (d_done ?st) u" using dones unfolding dn by blast
      moreover have "mget (d_dist ?st) u = Some c" using du V(2) by (simp add: dist)
      ultimately show ?thesis using e 2(1) True by blast
    next
      case False
      then have vd: "mget (d_dist st) v = Some d" using v(1) by (simp add: dist)
      have "dist_ok adj passes s st" using ex by (simp add: expanding_def)
      then obtain u' e' du' where "mget (d_prev st) v = Some u'" "mget (d_prevEdge st) v = Some e'"
          "mhas (d_done st) u'" "e' \<in> set (edges adj u')" "passes e'" "e_to e' = v"
          "mget (d_dist st) u' = Some du'" "d = du' + e_cost e'"
        using vd v(2) unfolding dist_ok_def by blast
      then show ?thesis using False notw [of u'] by (simp add: st mget_mput)
    qed
  qed
  moreover have "queue_ok ?st"
  proof -
    have q: "heap_ok (d_pq st)" using ex by (simp add: expanding_def queue_ok_def)
    have items: "set (d_pq ?st) = insert ?it (set (d_pq st))"
      using heap.set_push [OF q] by (simp add: st)
    have hp: "heap_ok (d_pq ?st)" using heap_push_ok [OF q] by (simp add: st)
    have "\<exists>d. mget (d_dist ?st) (pq_node i) = Some d \<and> d \<le> pq_cost i" if "i \<in> set (d_pq ?st)" for i
    proof (cases "i = ?it")
      case False
      then have "i \<in> set (d_pq st)" using that items by simp
      then obtain d where "mget (d_dist st) (pq_node i) = Some d" "d \<le> pq_cost i"
        using ex unfolding expanding_def queue_ok_def by blast
      then show ?thesis using 2(5) [of d] by (auto simp: dist)
    qed (simp add: dist)
    moreover have "\<lparr>pq_node = v, pq_cost = d\<rparr> \<in> set (d_pq ?st)"
      if "mget (d_dist ?st) v = Some d" "\<not> mhas (d_done ?st) v" for v d
    proof (cases "v = ?w")
      case False
      then have "\<lparr>pq_node = v, pq_cost = d\<rparr> \<in> set (d_pq st)"
        using that ex unfolding expanding_def queue_ok_def by (simp add: dist)
      then show ?thesis by (simp add: items)
    qed (use that in \<open>simp add: dist items\<close>)
    ultimately show ?thesis using hp unfolding queue_ok_def by blast
  qed
  moreover have "settled_below c ?st"
  proof -
    have q: "heap_ok (d_pq st)" using ex by (simp add: expanding_def queue_ok_def)
    have items: "set (d_pq ?st) = insert ?it (set (d_pq st))"
      using heap.set_push [OF q] by (simp add: st)
    have sb: "settled_below c st" using ex by (simp add: expanding_def)
    then have "\<exists>d. mget (d_dist ?st) v = Some d \<and> d \<le> c" if "mhas (d_done st) v" for v
      using that notw [OF that] unfolding settled_below_def by (simp add: dist)
    then show ?thesis using sb pos unfolding settled_below_def dn items by auto
  qed
  moreover have "edges_ok adj passes ?st V"
    unfolding edges_ok_def
  proof (intro ballI allI impI)
    fix v d e' assume a: "v \<in> V" "mget (d_dist ?st) v = Some d" "e' \<in> set (edges adj v)" "passes e'"
    then have "relaxed st d e'" using ex V(1) [OF a(1)] unfolding expanding_def edges_ok_def by (simp add: dist)
    then show "relaxed ?st d e'" by (rule relax_dist_mono [OF ex pos])
  qed
  ultimately show ?thesis using du V(2) dones by (simp add: expanding_def dist)
qed

lemma relax_list:
  assumes "expanding adj passes s V u c st" and "set es \<subseteq> set (edges adj u)" and "pos_costs adj"
  shows "expanding adj passes s V u c (fold (relax passes u c) es st) \<and>
    (\<forall>e\<in>set es. passes e \<longrightarrow> relaxed (fold (relax passes u c) es st) c e) \<and>
    (\<forall>d e'. relaxed st d e' \<longrightarrow> relaxed (fold (relax passes u c) es st) d e')"
  using assms(1,2)
proof (induction es arbitrary: st)
  case (Cons e es)
  have e: "e \<in> set (edges adj u)" "0 < e_cost e" using Cons.prems(2) assms(3) by (auto simp: pos_costs_def)
  have "expanding adj passes s V u c (relax passes u c e st)"
    by (rule relax_expanding [OF Cons.prems(1) e(2,1)])
  note IH = Cons.IH [OF this]
  then show ?case
    using Cons.prems relax_self [OF Cons.prems(1) e(2)] relax_dist_mono [OF Cons.prems(1) e(2)] by auto
qed simp

lemma expand_inv:
  assumes ex: "expanding adj passes s V u c st" and pos: "pos_costs adj"
  shows "search_inv adj passes s c (expand adj passes u c st)"
proof -
  let ?st = "expand adj passes u c st"
  have r: "expanding adj passes s V u c ?st" "\<forall>e\<in>set (edges adj u). passes e \<longrightarrow> relaxed ?st c e"
    using relax_list [OF ex order_refl pos] by (auto simp: expand_def)
  then have "edges_ok adj passes ?st (insert u V)"
    by (auto simp: expanding_def edges_ok_def)
  with r(1) show ?thesis by (simp add: expanding_def search_inv_def)
qed

subsection \<open>One iteration\<close>

lemma pop_items:
  assumes "queue_ok st" and "heap_pop (d_pq st) = Some (cur, pq)"
  shows "heap_ok pq" and "mset (d_pq st) = add_mset cur (mset pq)" and "set (d_pq st) = insert cur (set pq)"
    and "\<And>i. i \<in> set (d_pq st) \<Longrightarrow> pq_cost cur \<le> pq_cost i"
proof -
  have q: "heap_ok (d_pq st)" using assms(1) by (simp add: queue_ok_def)
  note p = heap_pop_ok [OF q assms(2)]
  then show "heap_ok pq" and "mset (d_pq st) = add_mset cur (mset pq)" by blast+
  then show "set (d_pq st) = insert cur (set pq)" by (metis set_mset_add_mset_insert set_mset_mset)
  show "\<And>i. i \<in> set (d_pq st) \<Longrightarrow> pq_cost cur \<le> pq_cost i" using p by blast
qed

lemma skip_inv:
  assumes inv: "search_inv adj passes s c st" and pop: "heap_pop (d_pq st) = Some (cur, pq)"
    and dn: "mhas (d_done st) (pq_node cur)"
  shows "search_inv adj passes s c (st\<lparr>d_pq := pq\<rparr>)"
proof -
  have q: "queue_ok st" using inv by (simp add: search_inv_def)
  note p = pop_items [OF q pop]
  have "\<lparr>pq_node = v, pq_cost = d\<rparr> \<in> set pq"
    if "mget (d_dist st) v = Some d" "\<not> mhas (d_done st) v" for v d
  proof -
    have "\<lparr>pq_node = v, pq_cost = d\<rparr> \<in> set (d_pq st)" using q that unfolding queue_ok_def by blast
    then show ?thesis using that(2) dn by (subst (asm) p(3)) auto
  qed
  then have "queue_ok (st\<lparr>d_pq := pq\<rparr>)"
    using q p(1) unfolding queue_ok_def p(3) by auto
  moreover have "settled_below c (st\<lparr>d_pq := pq\<rparr>)"
    using inv unfolding search_inv_def settled_below_def p(3) by auto
  ultimately show ?thesis using inv by (simp add: search_inv_def dist_ok_def edges_ok_def relaxed_def)
qed

lemma settle_expanding:
  assumes inv: "search_inv adj passes s c st" and pop: "heap_pop (d_pq st) = Some (cur, pq)"
    and dn: "\<not> mhas (d_done st) (pq_node cur)"
  shows "expanding adj passes s {v. mhas (d_done st) v} (pq_node cur) (pq_cost cur)
    (settle (pq_node cur) (st\<lparr>d_pq := pq\<rparr>))"
proof -
  let ?u = "pq_node cur" and ?c = "pq_cost cur"
  let ?st = "settle ?u (st\<lparr>d_pq := pq\<rparr>)"
  have q: "queue_ok st" and sb: "settled_below c st" and d: "dist_ok adj passes s st"
    using inv by (simp_all add: search_inv_def)
  note p = pop_items [OF q pop]
  have cur: "cur \<in> set (d_pq st)" by (simp add: p(3))
  then obtain d where d_u: "mget (d_dist st) ?u = Some d" "d \<le> ?c" using q unfolding queue_ok_def by blast
  then have "\<lparr>pq_node = ?u, pq_cost = d\<rparr> \<in> set (d_pq st)" using q dn unfolding queue_ok_def by blast
  from p(4) [OF this] have "?c = d" using d_u(2) by simp
  then have du: "mget (d_dist st) ?u = Some ?c" using d_u by simp
  have cc: "c \<le> ?c" using sb cur unfolding settled_below_def by blast
  have "dist_ok adj passes s ?st" using d unfolding dist_ok_def by (fastforce simp: settle_simps)
  moreover have "queue_ok ?st"
  proof -
    have cur_eq: "cur = \<lparr>pq_node = ?u, pq_cost = ?c\<rparr>" by simp
    have "\<lparr>pq_node = v, pq_cost = d\<rparr> \<in> set pq"
      if "mget (d_dist st) v = Some d" "\<not> mhas (d_done st) v" "v \<noteq> ?u" for v d
    proof -
      have "\<lparr>pq_node = v, pq_cost = d\<rparr> \<in> set (d_pq st)" using q that unfolding queue_ok_def by blast
      then show ?thesis using that(3) by (subst (asm) p(3)) auto
    qed
    then show ?thesis using q p(1) unfolding queue_ok_def p(3) by auto
  qed
  moreover have "settled_below ?c ?st"
    using sb cc du p(4) unfolding settled_below_def p(3) by (auto intro: order_trans)
  moreover have "edges_ok adj passes ?st {v. mhas (d_done st) v}"
    using inv by (simp add: search_inv_def edges_ok_def relaxed_def)
  ultimately show ?thesis using du by (auto simp: expanding_def)
qed

subsection \<open>The search finds a cheapest walk\<close>

definition search_result :: "graph \<Rightarrow> (routeEdge \<Rightarrow> bool) \<Rightarrow> pubKey \<Rightarrow> pubKey \<Rightarrow> dijkstra \<Rightarrow> bool" where
  "search_result adj passes s target st \<longleftrightarrow> dist_ok adj passes s st \<and>
     (if mhas (d_done st) target
      then \<exists>d. mget (d_dist st) target = Some d \<and> (\<forall>es. is_walk adj passes s es target \<longrightarrow> d \<le> walk_cost es)
      else \<forall>es. \<not> is_walk adj passes s es target)"

lemma dijkstra_loop_result:
  assumes "search_inv adj passes s c st" and "\<not> mhas (d_done st) target" and "pos_costs adj"
  shows "search_result adj passes s target (dijkstra_loop adj passes target st)"
  using assms
proof (induction adj passes target st arbitrary: c rule: dijkstra_loop.induct)
  case (1 adj passes target st)
  have q: "queue_ok st" using "1.prems"(1) by (simp add: search_inv_def)
  show ?case
  proof (cases "heap_pop (d_pq st)")
    case None
    then have "d_pq st = []" by (auto simp: heap_pop_def Let_def split: if_splits)
    then have "\<not> is_walk adj passes s es target" for es
      using frontier_lemma [OF "1.prems"(1,3), of es target] "1.prems"(2) by auto
    moreover have "dijkstra_loop adj passes target st = st"
      by (subst dijkstra_loop.simps) (simp add: None)
    ultimately show ?thesis using "1.prems" by (simp add: search_result_def search_inv_def)
  next
    case (Some x)
    obtain cur pq where x: "x = (cur, pq)" by (cases x)
    note pop = Some [unfolded x]
    let ?u = "pq_node cur" and ?c = "pq_cost cur" and ?st1 = "st\<lparr>d_pq := pq\<rparr>"
    show ?thesis
    proof (cases "mhas (d_done st) ?u")
      case True
      have "search_result adj passes s target (dijkstra_loop adj passes target ?st1)"
        using "1.IH"(1) [OF pop refl refl _ skip_inv [OF "1.prems"(1) pop True]] True "1.prems" by simp
      moreover have "dijkstra_loop adj passes target st = dijkstra_loop adj passes target ?st1"
        using True by (subst dijkstra_loop.simps) (simp add: pop)
      ultimately show ?thesis by simp
    next
      case False
      let ?st2 = "settle ?u ?st1"
      note ex = settle_expanding [OF "1.prems"(1) pop False]
      show ?thesis
      proof (cases "?u = target")
        case True
        have eq: "dijkstra_loop adj passes target st = ?st2"
          using False True by (subst dijkstra_loop.simps) (simp add: pop Let_def)
        have "?c \<le> walk_cost es" if w: "is_walk adj passes s es target" for es
        proof -
          obtain i where "i \<in> set (d_pq st)" "pq_cost i \<le> walk_cost es"
            using frontier_lemma [OF "1.prems"(1,3) w] "1.prems"(2) by blast
          with pop_items(4) [OF q pop] show ?thesis by (meson order_trans)
        qed
        then show ?thesis unfolding eq search_result_def using ex True by (auto simp: expanding_def)
      next
        case u: False
        let ?st3 = "expand adj passes ?u ?c ?st2"
        have "\<not> mhas (d_done ?st3) target" using u "1.prems"(2) by simp
        then have "search_result adj passes s target (dijkstra_loop adj passes target ?st3)"
          using "1.IH"(2) [OF pop refl refl _ refl u expand_inv [OF ex "1.prems"(3)]] False "1.prems"(3) by simp
        moreover have "dijkstra_loop adj passes target st = dijkstra_loop adj passes target ?st3"
          using False u by (subst dijkstra_loop.simps) (simp add: pop Let_def)
        ultimately show ?thesis by simp
      qed
    qed
  qed
qed

definition start_search :: "pubKey \<Rightarrow> dijkstra" where
  "start_search s = \<lparr>d_dist = mput mempty s 0, d_prev = mempty, d_prevEdge = mempty, d_done = mempty,
     d_pq = [\<lparr>pq_node = s, pq_cost = 0\<rparr>]\<rparr>"

lemma start_search_inv: "search_inv adj passes s 0 (start_search s)"
  by (auto simp: search_inv_def start_search_def dist_ok_def queue_ok_def settled_below_def edges_ok_def
      heap_ok_def mget_mput split: if_splits)

lemma search_correct:
  "pos_costs adj \<Longrightarrow> search_result adj passes s target (dijkstra_loop adj passes target (start_search s))"
  by (rule dijkstra_loop_result [OF start_search_inv]) (simp_all add: start_search_def)

end
