(* ===== verification/LinkWalk.thy ===== *)
theory LinkWalk
  imports LinkRegistry
begin

text \<open>
  What the walk of \<open>ObservePathCtx\<close> (links.go) records: the list \<open>path_obs\<close> of observations it
  emits, the proof that running the walk is applying \<open>observeLink\<close> to that list in order, and the
  properties of the list and of runs of the registry.
\<close>

subsection \<open>The emitted observations\<close>

definition path_obs :: "PathObservation \<Rightarrow> linkObs list" where
  "path_obs p = (let hash = canon (p_Hash p) in
     if hash = '''' \<or> length (p_Path p) < 2 then []
     else w_out (fold (path_step (\<lambda>ob obs. obs @ [ob]) p hash) (p_Path p) (walk_start [])))"

definition walk_rel :: "(linkObs \<Rightarrow> 's \<Rightarrow> 's) \<Rightarrow> 's \<Rightarrow> 's walk \<Rightarrow> linkObs list walk \<Rightarrow> bool" where
  "walk_rel sink s w v \<longleftrightarrow> w_prev w = w_prev v \<and> w_prevHex w = w_prevHex v \<and>
     w_havePrev w = w_havePrev v \<and> w_prevRaw w = w_prevRaw v \<and> w_hop w = w_hop v \<and>
     w_seen w = w_seen v \<and> w_out w = fold sink (w_out v) s"

lemma path_step_rel:
  assumes "walk_rel sink s w v"
  shows "walk_rel sink s (path_step sink p h raw w) (path_step (\<lambda>ob obs. obs @ [ob]) p h raw v)"
  using assms by (auto simp: walk_rel_def path_step_def Let_def split: option.splits)

lemma path_steps_rel:
  "walk_rel sink s w v \<Longrightarrow>
     walk_rel sink s (fold (path_step sink p h) path w)
       (fold (path_step (\<lambda>ob obs. obs @ [ob]) p h) path v)"
  by (induction path arbitrary: w v) (simp_all add: path_step_rel)

lemma ObservePathCtx_path_obs: "ObservePathCtx p r = fold observeLink (path_obs p) r"
proof -
  have "walk_rel observeLink r (walk_start r) (walk_start [])"
    by (simp add: walk_rel_def walk_start_def)
  from path_steps_rel [OF this, of p "canon (p_Hash p)" "p_Path p"] show ?thesis
    by (auto simp: ObservePathCtx_def path_obs_def Let_def walk_rel_def)
qed

subsection \<open>Adjacency\<close>

fun consec :: "'a list \<Rightarrow> ('a \<times> 'a) list" where
  "consec (x # y # zs) = (x, y) # consec (y # zs)"
| "consec zs = []"

lemma consec_snoc: "consec (xs @ [y]) = (if xs = [] then [] else consec xs @ [(last xs, y)])"
  by (induction xs rule: consec.induct) auto

lemma length_consec [simp]: "length (consec xs) = length xs - 1"
  by (induction xs rule: consec.induct) auto

lemma nth_consec: "Suc i < length xs \<Longrightarrow> consec xs ! i = (xs ! i, xs ! Suc i)"
  by (induction xs arbitrary: i rule: consec.induct) (auto simp: nth_Cons split: nat.splits)

text \<open>The entries of a resolved path the walk looks at, normalised.\<close>

definition path_entries :: "string list \<Rightarrow> string list" where
  "path_entries path = filter (\<lambda>s. s \<noteq> '''') (map canon path)"

text \<open>The directed node pairs of adjacent entries that are both valid keys.\<close>

definition adjacent_nodes :: "string list \<Rightarrow> (pubKey \<times> pubKey) set" where
  "adjacent_nodes es = {(a, b). a \<noteq> b \<and>
     (\<exists>x y. (x, y) \<in> set (consec es) \<and> normalizePub x = Some a \<and> normalizePub y = Some b)}"

definition obs_from :: "linkObs \<Rightarrow> pubKey" where
  "obs_from ob = (if o_fromIsA ob then take 32 (o_key ob) else drop 32 (o_key ob))"

definition obs_to :: "linkObs \<Rightarrow> pubKey" where
  "obs_to ob = (if o_fromIsA ob then drop 32 (o_key ob) else take 32 (o_key ob))"

lemma setPositions_simps [simp]:
  "o_key (setPositions f x y ob) = o_key ob" "o_fromIsA (setPositions f x y ob) = o_fromIsA ob"
  "o_hash (setPositions f x y ob) = o_hash ob" "o_networkID (setPositions f x y ob) = o_networkID ob"
  "o_now (setPositions f x y ob) = o_now ob" "o_snr (setPositions f x y ob) = o_snr ob"
  "o_hasSNR (setPositions f x y ob) = o_hasSNR ob" "o_routeType (setPositions f x y ob) = o_routeType ob"
  "o_lowConf (setPositions f x y ob) = o_lowConf ob"
  by (auto simp: setPositions_def split: option.splits)

lemma hop_obs_simps [simp]:
  "o_key (hop_obs p h k pv ph raw n) = k" "o_fromIsA (hop_obs p h k pv ph raw n) = (take 32 k = pv)"
  "o_hash (hop_obs p h k pv ph raw n) = h" "o_networkID (hop_obs p h k pv ph raw n) = p_NetworkID p"
  "o_now (hop_obs p h k pv ph raw n) = p_Now p" "o_routeType (hop_obs p h k pv ph raw n) = p_RouteType p"
  "o_lowConf (hop_obs p h k pv ph raw n) = p_LowConfidence p"
  "o_hasSNR (hop_obs p h k pv ph raw n) \<longleftrightarrow> n < length (p_SNRs p)"
  "n < length (p_SNRs p) \<Longrightarrow> o_snr (hop_obs p h k pv ph raw n) = p_SNRs p ! n"
  by (auto simp: hop_obs_def Let_def)

lemma hop_obs_ends:
  assumes "canonicalKey a b = Some k" "length a = 32" "length b = 32"
  shows "obs_from (hop_obs p h k a ph raw n) = a" "obs_to (hop_obs p h k a ph raw n) = b"
  using canonicalKey_ends [OF assms] canonicalKey_neq [OF assms(1)]
  by (auto simp: obs_from_def obs_to_def min_def max_def)

text \<open>The invariant of the walk after the entries \<open>es\<close>.\<close>

definition obs_wf :: "PathObservation \<Rightarrow> string \<Rightarrow> linkObs \<Rightarrow> bool" where
  "obs_wf p h ob \<longleftrightarrow> canonicalKey (obs_from ob) (obs_to ob) = Some (o_key ob) \<and> valid_key (o_key ob) \<and>
     o_hash ob = h \<and> o_networkID ob = p_NetworkID p \<and> o_now ob = p_Now p \<and>
     o_routeType ob = p_RouteType p \<and> o_lowConf ob = p_LowConfidence p"

definition walk_inv :: "PathObservation \<Rightarrow> string \<Rightarrow> string list \<Rightarrow> linkObs list walk \<Rightarrow> bool" where
  "walk_inv p h es v \<longleftrightarrow>
     (w_havePrev v \<longleftrightarrow> es \<noteq> [] \<and> normalizePub (last es) \<noteq> None) \<and>
     (w_havePrev v \<longrightarrow> normalizePub (last es) = Some (w_prev v)) \<and>
     (es \<noteq> [] \<longrightarrow> w_prevRaw v = last es) \<and>
     w_seen v = map (\<lambda>ob. obs_from ob @ obs_to ob) (w_out v) \<and> distinct (w_seen v) \<and>
     set (w_seen v) = (\<lambda>(a, b). a @ b) ` adjacent_nodes es \<and>
     (\<forall>ob\<in>set (w_out v). obs_wf p h ob)"

lemma adjacent_nodes_snoc:
  "adjacent_nodes (es @ [e]) = adjacent_nodes es \<union>
     {(a, b). a \<noteq> b \<and> es \<noteq> [] \<and> normalizePub (last es) = Some a \<and> normalizePub e = Some b}"
  by (auto simp: adjacent_nodes_def consec_snoc split: if_splits)

lemma walk_inv_start: "walk_inv p h [] (walk_start [])"
  by (simp add: walk_inv_def walk_start_def adjacent_nodes_def)

lemma walk_inv_step:
  assumes inv: "walk_inv p h es v" and nonempty: "canon raw \<noteq> ''''"
  shows "walk_inv p h (es @ [canon raw]) (path_step (\<lambda>ob obs. obs @ [ob]) p h raw v)"
proof (cases "normalizePub (canon raw)")
  case None
  then have "\<not> (w_havePrev v \<and> canon raw = w_prevRaw v)"
    using inv by (auto simp: walk_inv_def simp del: normalizePub_canon)
  then have step: "path_step (\<lambda>ob obs. obs @ [ob]) p h raw v =
      v\<lparr>w_havePrev := False, w_prevRaw := canon raw\<rparr>"
    using None nonempty by (simp add: path_step_def Let_def)
  have "adjacent_nodes (es @ [canon raw]) = adjacent_nodes es"
    using None by (auto simp: adjacent_nodes_snoc)
  then show ?thesis using inv None unfolding step by (clarsimp simp: walk_inv_def)
next
  case (Some cur)
  have len: "length cur = 32" using Some by (rule normalizePub_length)
  show ?thesis
  proof (cases "w_havePrev v \<and> w_prev v \<noteq> cur")
    case True
    then have prev: "normalizePub (last es) = Some (w_prev v)" "es \<noteq> []"
      using inv by (auto simp: walk_inv_def)
    then have lenp: "length (w_prev v) = 32" by (intro normalizePub_length)
    from True obtain key where key: "canonicalKey (w_prev v) cur = Some key"
      by (metis canonicalKey_None option.exhaust)
    have ends: "obs_from (hop_obs p h key (w_prev v) ph raw' n) = w_prev v"
      "obs_to (hop_obs p h key (w_prev v) ph raw' n) = cur" for ph raw' n
      using hop_obs_ends [OF key lenp len] by auto
    have wf: "obs_wf p h (hop_obs p h key (w_prev v) ph raw' n)" for ph raw' n
      using key canonicalKey_valid [OF key lenp len] by (simp add: obs_wf_def ends)
    have "w_prevRaw v \<noteq> canon raw" using True prev Some inv by (auto simp: walk_inv_def)
    then have step: "path_step (\<lambda>ob obs. obs @ [ob]) p h raw v =
        (if w_prev v @ cur \<in> set (w_seen v) then v
         else v\<lparr>w_seen := w_seen v @ [w_prev v @ cur],
                w_out := w_out v @ [hop_obs p h key (w_prev v) (w_prevHex v) (canon raw) (w_hop v)]\<rparr>)
        \<lparr>w_prev := cur, w_prevHex := canon raw, w_prevRaw := canon raw, w_havePrev := True,
         w_hop := w_hop v + 1\<rparr>"
      using True Some key nonempty by (simp add: path_step_def Let_def)
    have "adjacent_nodes (es @ [canon raw]) = insert (w_prev v, cur) (adjacent_nodes es)"
      using True prev Some by (auto simp: adjacent_nodes_snoc)
    then show ?thesis using inv Some unfolding step
      by (clarsimp simp: walk_inv_def ends wf insert_absorb)
  next
    case False
    then have "adjacent_nodes (es @ [canon raw]) = adjacent_nodes es"
      using inv Some by (auto simp: walk_inv_def adjacent_nodes_snoc)
    moreover have "path_step (\<lambda>ob obs. obs @ [ob]) p h raw v =
        (if w_havePrev v \<and> canon raw = w_prevRaw v then v
         else v\<lparr>w_prev := cur, w_prevHex := canon raw, w_prevRaw := canon raw, w_havePrev := True,
         w_hop := w_hop v + 1\<rparr>)"
      using False Some nonempty by (auto simp: path_step_def Let_def)
    ultimately show ?thesis using inv Some False by (clarsimp simp: walk_inv_def)
  qed
qed

lemma walk_inv_steps:
  "walk_inv p h es v \<Longrightarrow>
     walk_inv p h (es @ path_entries path) (fold (path_step (\<lambda>ob obs. obs @ [ob]) p h) path v)"
proof (induction path arbitrary: es v)
  case (Cons raw path)
  show ?case
  proof (cases "canon raw = ''''")
    case True
    with Cons show ?thesis by (simp add: path_entries_def path_step_def)
  next
    case False
    from Cons.IH [OF walk_inv_step [OF Cons.prems False]] False show ?thesis
      by (simp add: path_entries_def)
  qed
qed (simp add: path_entries_def)

lemma path_obs_inv:
  assumes "canon (p_Hash p) \<noteq> ''''" and "2 \<le> length (p_Path p)"
  shows "\<exists>v. walk_inv p (canon (p_Hash p)) (path_entries (p_Path p)) v \<and> path_obs p = w_out v"
  using walk_inv_steps [OF walk_inv_start, of p "canon (p_Hash p)" "p_Path p"] assms
  by (auto simp: path_obs_def Let_def)

lemma path_obs_wf: "ob \<in> set (path_obs p) \<Longrightarrow> obs_wf p (canon (p_Hash p)) ob"
proof -
  assume ob: "ob \<in> set (path_obs p)"
  then have "canon (p_Hash p) \<noteq> ''''" "2 \<le> length (p_Path p)"
    by (auto simp: path_obs_def Let_def split: if_splits)
  from path_obs_inv [OF this] ob show ?thesis by (auto simp: walk_inv_def)
qed

subsection \<open>Runs of atomic steps\<close>

text \<open>Collectors run concurrently, but every step on a shard holds its lock: any interleaving of
  their \<open>ObservePathCtx\<close> calls and of the sweeper is a list of these steps.\<close>

datatype linkOp = ObsLink linkObs | SweepLinks unix_time

primrec lop_time :: "linkOp \<Rightarrow> unix_time" where
  "lop_time (ObsLink ob) = o_now ob"
| "lop_time (SweepLinks now) = now"

primrec link_step :: "int \<Rightarrow> linkOp \<Rightarrow> LinkRegistry \<Rightarrow> LinkRegistry" where
  "link_step w (ObsLink ob) r = observeLink ob r"
| "link_step w (SweepLinks now) r = registry_sweep now w r"

primrec link_run :: "int \<Rightarrow> linkOp list \<Rightarrow> LinkRegistry \<Rightarrow> LinkRegistry" where
  "link_run w [] r = r"
| "link_run w (x # xs) r = link_run w xs (link_step w x r)"

lemma link_run_append: "link_run w (xs @ ys) r = link_run w ys (link_run w xs r)"
  by (induction xs arbitrary: r) auto

lemma link_run_observe: "link_run w (map ObsLink obs) r = fold observeLink obs r"
  by (induction obs arbitrary: r) simp_all

lemma link_run_paths: "link_run w (map ObsLink (path_obs p)) r = ObservePathCtx p r"
  by (simp add: ObservePathCtx_path_obs link_run_observe)

definition packets :: "LinkRegistry \<Rightarrow> linkKey \<Rightarrow> u64" where
  "packets r k = (case lookup_link r k of None \<Rightarrow> 0 | Some rec \<Rightarrow> l_PacketCount rec)"

text \<open>The times at which the packet count of a link rises, for one deduplication key and for all.\<close>

primrec event_times :: "int \<Rightarrow> (linkDedupKey \<Rightarrow> bool) \<Rightarrow> linkKey \<Rightarrow> linkOp list \<Rightarrow> LinkRegistry \<Rightarrow> unix_time list" where
  "event_times w P k [] r = []"
| "event_times w P k (x # xs) r =
     (let r' = link_step w x r in
      (case x of ObsLink ob \<Rightarrow> if P (obs_dedup_key ob) \<and> packets r' k \<noteq> packets r k then [o_now ob] else []
       | SweepLinks _ \<Rightarrow> []) @ event_times w P k xs r')"

lemma obs_dedup_key_key [simp]: "dk_key (obs_dedup_key ob) = o_key ob"
  by (simp add: obs_dedup_key_def)

lemma new_record_PacketCount:
  "l_PacketCount (new_record r ob) = packets r (o_key ob) + (if counted_already r ob then 0 else 1)"
proof -
  have [simp]: "l_PacketCount (addNetwork i now rec) = l_PacketCount rec" for i now rec
    by (subst addNetwork_eq) simp
  have [simp]: "l_PacketCount (countNetwork ob rec) = l_PacketCount rec" for rec
    by (subst countNetwork_eq) simp
  show ?thesis
    by (auto simp: new_record_def observed_link_def Let_def packets_def new_link_def split: option.splits)
qed

lemma packets_observeLink:
  "length (r_shards r) = linkShards \<Longrightarrow> packets (observeLink ob r) k =
     packets r k + (if k = o_key ob \<and> \<not> counted_already r ob then 1 else 0)"
  using new_record_PacketCount [of r ob] by (auto simp: packets_def lookup_link_observeLink)

text \<open>The deduplication entries of the registry form one cache, whatever the shard they live in.\<close>

primrec dedup_ops :: "linkOp \<Rightarrow> linkDedupKey dedup_op list" where
  "dedup_ops (ObsLink ob) = [Touch (obs_dedup_key ob) (o_now ob)]"
| "dedup_ops (SweepLinks now) = [Expire now]"

lemma lookup_dedup_fun:
  assumes "length (r_shards r) = linkShards"
  shows "lookup_dedup (observeLink ob r) = flat_touch (obs_dedup_key ob) (o_now ob) (lookup_dedup r)"
    and "lookup_dedup (registry_sweep now w r) = flat_expire now w (lookup_dedup r)"
  using assms
  by (auto simp: lookup_dedup_observeLink registry_sweep_simps flat_touch_def flat_expire_def)

lemma event_times_cache:
  assumes "length (r_shards r) = linkShards"
  shows "event_times w (\<lambda>d. d = dk) (dk_key dk) ops r
    = flat.counted w dk (concat (map dedup_ops ops)) (lookup_dedup r)"
  using assms
proof (induction ops arbitrary: r)
  case (Cons x ops)
  show ?case
  proof (cases x)
    case (ObsLink ob)
    then show ?thesis
      using Cons flat_seen_apply [of "lookup_dedup r" dk]
      by (auto simp: lookup_dedup_fun packets_observeLink Let_def)
  next
    case (SweepLinks now)
    then show ?thesis
      using Cons by (simp add: lookup_dedup_fun registry_sweep_simps Let_def)
  qed
qed simp

lemma sorted_dedup_ops:
  "sorted (map lop_time ops) \<Longrightarrow> sorted (map op_time (concat (map dedup_ops ops)))"
proof -
  have "map op_time (concat (map dedup_ops ops)) = map lop_time ops"
  proof (induction ops)
    case (Cons x ops)
    then show ?case by (cases x) auto
  qed simp
  then show "sorted (map lop_time ops) \<Longrightarrow> ?thesis" by simp
qed

text \<open>Global deduplication of link events: over any interleaving of path observations and sweeps in
  time order, across all observers and networks, the times at which one packet hash raises the
  packet count of one link in one direction are more than the deduplication window apart.\<close>

theorem link_event_once_per_window:
  assumes "length (r_shards r) = linkShards" and "sorted (map lop_time ops)" and "0 \<le> dedupWindow"
  shows "sorted_wrt (\<lambda>t u. t + dedupWindow < u)
    (event_times dedupWindow (\<lambda>d. d = dk) (dk_key dk) ops r)"
  unfolding event_times_cache [OF assms(1)]
  by (rule flat.counted_spaced [OF sorted_dedup_ops [OF assms(2)] assms(3)])


subsection \<open>SNR attribution\<close>

text \<open>The walk over a path of valid keys without repeats: one observation per hop, in order.\<close>

definition clean_path :: "pubKey list \<Rightarrow> bool" where
  "clean_path ns \<longleftrightarrow> (\<forall>n\<in>set ns. length n = 32) \<and> (\<forall>(a, b)\<in>set (consec ns). a \<noteq> b) \<and>
     distinct (consec ns)"

lemma clean_path_snoc:
  "clean_path (ns @ [n]) \<Longrightarrow> clean_path ns \<and> length n = 32 \<and>
     (ns \<noteq> [] \<longrightarrow> last ns \<noteq> n \<and> (last ns, n) \<notin> set (consec ns))"
  by (auto simp: clean_path_def consec_snoc split: if_splits)

definition clean_walk :: "PathObservation \<Rightarrow> pubKey list \<Rightarrow> linkObs list walk \<Rightarrow> bool" where
  "clean_walk p ns v \<longleftrightarrow> w_hop v = length ns \<and> w_havePrev v = (ns \<noteq> []) \<and>
     (ns \<noteq> [] \<longrightarrow> w_prev v = last ns \<and> w_prevRaw v = hex_encode (last ns)) \<and>
     w_seen v = map (\<lambda>(a, b). a @ b) (consec ns) \<and>
     length (w_out v) = length ns - 1 \<and>
     (\<forall>i. Suc i < length ns \<longrightarrow> obs_from (w_out v ! i) = ns ! i \<and> obs_to (w_out v ! i) = ns ! Suc i \<and>
        (o_hasSNR (w_out v ! i) \<longleftrightarrow> Suc i < length (p_SNRs p)) \<and>
        (Suc i < length (p_SNRs p) \<longrightarrow> o_snr (w_out v ! i) = p_SNRs p ! Suc i))"

lemma clean_walk_step:
  assumes inv: "clean_walk p ns v" and clean: "clean_path (ns @ [n])"
  shows "clean_walk p (ns @ [n]) (path_step (\<lambda>ob obs. obs @ [ob]) p h (hex_encode n) v)"
proof -
  have c: "clean_path ns" "length n = 32"
    "ns \<noteq> [] \<Longrightarrow> last ns \<noteq> n \<and> (last ns, n) \<notin> set (consec ns)"
    using clean_path_snoc [OF clean] by auto
  have ne: "hex_encode n \<noteq> ''''" using c(2) by (cases n) auto
  let ?s = "path_step (\<lambda>ob obs. obs @ [ob]) p h (hex_encode n) v"
  show ?thesis
  proof (cases "ns = []")
    case True
    then have "?s = v\<lparr>w_prev := n, w_prevHex := hex_encode n, w_prevRaw := hex_encode n,
        w_havePrev := True, w_hop := w_hop v + 1\<rparr>"
      using inv c ne by (simp add: path_step_def Let_def clean_walk_def)
    with True inv show ?thesis by (simp add: clean_walk_def)
  next
    case False
    let ?p = "last ns"
    have lens: "\<And>x. x \<in> set ns \<Longrightarrow> length x = 32" using c(1) by (simp add: clean_path_def)
    then have lp: "length ?p = 32" using False by simp
    obtain key where key: "canonicalKey ?p n = Some key"
      using c(3) [OF False] by (metis canonicalKey_None option.exhaust)
    have prev: "w_havePrev v" "w_prev v = ?p" "w_prevRaw v = hex_encode ?p"
      using inv False by (auto simp: clean_walk_def)
    have "length a = 32" if "(a, b) \<in> set (consec ns)" for a b
      using that lens by (induction ns rule: consec.induct) auto
    then have new: "?p @ n \<notin> set (w_seen v)"
      using inv c(3) [OF False] lp by (auto simp: clean_walk_def)
    let ?ob = "hop_obs p h key ?p (w_prevHex v) (hex_encode n) (length ns)"
    have step: "?s = v\<lparr>w_seen := w_seen v @ [?p @ n], w_out := w_out v @ [?ob], w_prev := n,
        w_prevHex := hex_encode n, w_prevRaw := hex_encode n, w_havePrev := True,
        w_hop := w_hop v + 1\<rparr>"
      using inv c(2) key prev new ne False c(3) [OF False] not_sym [of "last ns" n]
      by (simp add: path_step_def Let_def clean_walk_def)
    have ends: "obs_from ?ob = ?p" "obs_to ?ob = n"
      using hop_obs_ends [OF key lp c(2)] by auto
    have len: "length (w_out v) = length ns - 1" using inv by (simp add: clean_walk_def)
    have hop: "obs_from (w_out ?s ! i) = (ns @ [n]) ! i \<and> obs_to (w_out ?s ! i) = (ns @ [n]) ! Suc i \<and>
        (o_hasSNR (w_out ?s ! i) \<longleftrightarrow> Suc i < length (p_SNRs p)) \<and>
        (Suc i < length (p_SNRs p) \<longrightarrow> o_snr (w_out ?s ! i) = p_SNRs p ! Suc i)"
      if "Suc i < length (ns @ [n])" for i
    proof (cases "Suc i = length ns")
      case True
      then have "i = length ns - 1" by simp
      moreover have "ns ! (length ns - 1) = ?p" using False by (simp add: last_conv_nth)
      ultimately show ?thesis unfolding step using len ends False True
        by (auto simp: nth_append hop_obs_simps)
    next
      case less: False
      then have "Suc i < length ns" and "i < length ns - 1" using that by auto
      then show ?thesis unfolding step using inv len by (simp add: nth_append clean_walk_def)
    qed
    show ?thesis unfolding clean_walk_def using hop inv False
      by (simp add: step consec_snoc) (simp add: clean_walk_def)
  qed
qed

lemma clean_walk_path:
  "clean_path ns \<Longrightarrow> clean_walk p ns
     (fold (path_step (\<lambda>ob obs. obs @ [ob]) p h) (map hex_encode ns) (walk_start []))"
proof (induction ns rule: rev_induct)
  case Nil
  then show ?case by (simp add: clean_walk_def walk_start_def)
next
  case (snoc n ns)
  then show ?case using clean_walk_step [OF _ snoc.prems] clean_path_snoc [OF snoc.prems] by simp
qed

text \<open>For a TRACE packet whose path is fully resolved, each hop gets its own SNR: over a path of
  valid node keys in which neighbours differ and no directed hop repeats (a return trace crosses a
  link once per direction), the i-th observation is the hop from node i to node i+1 and carries
  \<open>SNRs[i+1]\<close>, when the packet has that many.\<close>

theorem hop_snr_attribution:
  assumes "clean_path ns" and "2 \<le> length ns" and "p_Path p = map hex_encode ns"
    and "canon (p_Hash p) \<noteq> ''''"
  shows "length (path_obs p) = length ns - 1 \<and>
    (\<forall>i. Suc i < length ns \<longrightarrow>
       obs_from (path_obs p ! i) = ns ! i \<and> obs_to (path_obs p ! i) = ns ! Suc i \<and>
       (o_hasSNR (path_obs p ! i) \<longleftrightarrow> Suc i < length (p_SNRs p)) \<and>
       (Suc i < length (p_SNRs p) \<longrightarrow> o_snr (path_obs p ! i) = p_SNRs p ! Suc i))"
  using clean_walk_path [OF assms(1), of p "canon (p_Hash p)"] assms(2-4)
  by (auto simp: path_obs_def Let_def clean_walk_def)

text \<open>The SNR index counts accepted nodes, not path positions: after an entry that is no node
  key, the link from \<open>Path[1]\<close> to \<open>Path[2]\<close> gets \<open>SNRs[1]\<close> instead of the \<open>SNRs[2]\<close> that the
  comment of \<open>PathObservation\<close> gives it.\<close>

theorem snr_shifts_after_invalid_entry:
  assumes "normalizePub bad = None" and "canon bad \<noteq> ''''" and "canon (p_Hash p) \<noteq> ''''"
    and "length a = 32" and "length b = 32" and "a \<noteq> b"
    and "p_Path p = [bad, hex_encode a, hex_encode b]" and "p_SNRs p = [s0, s1, s2]"
  shows "\<exists>ob. path_obs p = [ob] \<and> obs_from ob = a \<and> obs_to ob = b \<and> o_snr ob = s1"
proof -
  obtain key where key: "canonicalKey a b = Some key"
    using assms(6) by (metis canonicalKey_None option.exhaust)
  have ne: "a \<noteq> []" "b \<noteq> []" using assms(4,5) by auto
  have enc: "hex_encode a \<noteq> ''''" "hex_encode b \<noteq> ''''"
    using ne by (metis length_0_conv length_hex_encode mult_eq_0_iff zero_neq_numeral)+
  show ?thesis
    using assms key ne enc hop_obs_ends [OF key assms(4,5)]
    by (simp add: path_obs_def Let_def path_step_def walk_start_def)
qed

text \<open>A blank entry, a hop that could not be resolved, does not break adjacency: the nodes on its
  two sides are recorded as a direct link, although they were not adjacent in the path.\<close>

theorem blank_entry_bridges:
  assumes "canon (p_Hash p) \<noteq> ''''" and "length a = 32" and "length b = 32" and "a \<noteq> b"
    and "p_Path p = [hex_encode a, '''', hex_encode b]"
  shows "map (\<lambda>ob. (obs_from ob, obs_to ob)) (path_obs p) = [(a, b)]"
proof -
  obtain key where key: "canonicalKey a b = Some key"
    using assms(4) by (metis canonicalKey_None option.exhaust)
  have ne: "a \<noteq> []" "b \<noteq> []" using assms(2,3) by auto
  have enc: "hex_encode a \<noteq> ''''" "hex_encode b \<noteq> ''''"
    using ne by (metis length_0_conv length_hex_encode mult_eq_0_iff zero_neq_numeral)+
  show ?thesis
    using assms key ne enc hop_obs_ends [OF key assms(2,3)]
    by (simp add: path_obs_def Let_def path_step_def walk_start_def)
qed

subsection \<open>The activity score over a run\<close>

definition score_state :: "LinkRegistry \<Rightarrow> linkKey \<Rightarrow> unix_time list \<Rightarrow> unix_time \<Rightarrow> bool" where
  "score_state r k ts t \<longleftrightarrow> (case lookup_link r k of None \<Rightarrow> ts = []
     | Some rec \<Rightarrow> score_repr (r_halfLife r) rec ts \<and> l_ScoreUpdatedAt rec \<le> t)"

lemma score_repr_networks:
  "score_repr hl (rec\<lparr>l_Networks := ns\<rparr>) ts = score_repr hl rec ts"
  "score_repr hl (rec\<lparr>l_dirty := b\<rparr>) ts = score_repr hl rec ts"
  by (simp_all add: score_repr_def)

lemma score_repr_addNetwork: "score_repr hl (addNetwork i now rec) ts = score_repr hl rec ts"
  "l_ScoreUpdatedAt (addNetwork i now rec) = l_ScoreUpdatedAt rec"
  by (subst addNetwork_eq, simp add: score_repr_networks)+

lemma score_repr_countNetwork: "score_repr hl (countNetwork ob rec) ts = score_repr hl rec ts"
  "l_ScoreUpdatedAt (countNetwork ob rec) = l_ScoreUpdatedAt rec"
  by (subst countNetwork_eq, simp add: score_repr_networks)+

lemma score_state_observeLink:
  assumes ok: "registry_ok r" and st: "score_state r k ts t" and "t \<le> o_now ob" "0 < o_now ob"
  shows "score_state (observeLink ob r) k
     (ts @ (if k = o_key ob \<and> \<not> counted_already r ob then [o_now ob] else [])) (o_now ob)"
proof (cases "k = o_key ob")
  case False
  then show ?thesis using assms
    by (auto simp: score_state_def lookup_link_observeLink split: option.splits)
next
  case True
  let ?hl = "r_halfLife r"
  let ?old = "case lookup_link r k of Some rec \<Rightarrow> rec | None \<Rightarrow> new_link (o_key ob) (o_now ob)"
  have hl: "0 < ?hl" using ok by (simp add: registry_ok_def)
  have old: "score_repr ?hl ?old ts \<and> l_ScoreUpdatedAt ?old \<le> o_now ob"
    using st assms(3,4) by (auto simp: score_state_def score_repr_new split: option.splits)
      (simp add: new_link_def)
  have "score_repr ?hl (new_record r ob) (ts @ (if counted_already r ob then [] else [o_now ob])) \<and>
      l_ScoreUpdatedAt (new_record r ob) \<le> o_now ob"
    using old hl True unfolding new_record_def observed_link_def Let_def
    by (auto simp: score_repr_networks score_repr_addNetwork score_repr_countNetwork
        intro!: score_repr_count_event)
  with True ok show ?thesis by (auto simp: score_state_def lookup_link_observeLink)
qed

lemma score_state_run:
  assumes "registry_ok r" and "score_state r k ts t" and "sorted (map lop_time ops)"
    and "\<forall>x\<in>set ops. t \<le> lop_time x \<and> 0 < lop_time x" and "\<forall>x\<in>set ops. lop_time x \<le> now" and "t \<le> now"
    and "\<forall>ob. ObsLink ob \<in> set ops \<longrightarrow> valid_key (o_key ob)"
  shows "score_state (link_run w ops r) k (ts @ event_times w (\<lambda>_. True) k ops r) now \<and>
    r_halfLife (link_run w ops r) = r_halfLife r"
  using assms
proof (induction ops arbitrary: r ts t)
  case Nil
  then show ?case by (auto simp: score_state_def split: option.splits)
next
  case (Cons x ops)
  have later: "\<forall>y\<in>set ops. lop_time x \<le> lop_time y" using Cons.prems(3) by simp
  show ?case
  proof (cases x)
    case (ObsLink ob)
    let ?ts = "if k = o_key ob \<and> \<not> counted_already r ob then [o_now ob] else []"
    have st: "score_state (observeLink ob r) k (ts @ ?ts) (o_now ob)"
      using Cons.prems ObsLink by (intro score_state_observeLink [OF Cons.prems(1,2)]) auto
    have "registry_ok (observeLink ob r)"
      using Cons.prems ObsLink by (intro registry_ok_observeLink) auto
    from Cons.IH [OF this st] later ObsLink Cons.prems
    show ?thesis by (auto simp: packets_observeLink registry_ok_len Let_def)
  next
    case (SweepLinks t')
    have len: "length (r_shards r) = linkShards" using Cons.prems(1) by auto
    have "score_state (registry_sweep t' w r) k ts t"
      using Cons.prems(2) by (simp add: score_state_def registry_sweep_simps [OF len] split: option.splits)
    from Cons.IH [OF registry_ok_sweep [OF Cons.prems(1)] this] SweepLinks Cons.prems
    show ?thesis by (simp add: registry_sweep_simps [OF len] Let_def)
  qed
qed

text \<open>C27: The recent-activity score is what it claims to be: after any interleaving of observations
  and sweeps in time order from an empty registry, the score of a link read at a later time is the
  sum over its counted events of one decayed by the half-life, and its packet count is their number.\<close>

theorem link_activity_is_decayed_sum:
  assumes "sorted (map lop_time ops)" and "\<forall>x\<in>set ops. 0 < lop_time x \<and> lop_time x \<le> now" and "0 < now"
    and "\<forall>ob. ObsLink ob \<in> set ops \<longrightarrow> valid_key (o_key ob)"
    and "lookup_link (link_run w ops (newLinkRegistry hl)) k = Some rec"
  shows "decayedScore (l_Score rec) (l_ScoreUpdatedAt rec) now (r_halfLife (newLinkRegistry hl)) =
      decay_sum (r_halfLife (newLinkRegistry hl)) (event_times w (\<lambda>_. True) k ops (newLinkRegistry hl)) now \<and>
    l_PacketCount rec = of_nat (length (event_times w (\<lambda>_. True) k ops (newLinkRegistry hl)))"
proof -
  let ?r = "newLinkRegistry hl"
  have "score_state ?r k [] 0" by (simp add: score_state_def)
  with score_state_run [OF registry_ok_new this assms(1), of now w] assms(2-4)
  have st: "score_state (link_run w ops ?r) k (event_times w (\<lambda>_. True) k ops ?r) now"
    and hl: "r_halfLife (link_run w ops ?r) = r_halfLife ?r" by (auto simp: less_imp_le)
  have "0 < r_halfLife ?r" by (simp add: newLinkRegistry_def defaultLinkHalfLife_def)
  with st hl assms(5) show ?thesis
    by (auto simp: score_state_def score_repr_def intro!: decayedScore_sum)
qed

subsection \<open>Witnesses\<close>

definition ex_ob :: "string \<Rightarrow> bool \<Rightarrow> unix_time \<Rightarrow> linkObs" where
  "ex_ob h dir t = \<lparr>o_key = ex_key, o_fromIsA = dir, o_hash = h, o_networkID = ''net'',
     o_routeType = ''flood'', o_now = t, o_hasPos = False, o_latA = 0, o_lonA = 0, o_latB = 0,
     o_lonB = 0, o_snr = 0, o_hasSNR = False, o_lowConf = False\<rparr>"

definition ex_ops :: "linkOp list" where
  "ex_ops = [ObsLink (ex_ob ''aa'' True 10), ObsLink (ex_ob ''aa'' True 20), SweepLinks 100,
     ObsLink (ex_ob ''aa'' True 110)]"

lemma link_event_once_per_window_witness:
  "sorted_wrt (\<lambda>t u. t + 60 < u)
    (event_times 60 (\<lambda>d. d = obs_dedup_key (ex_ob ''aa'' True 10)) (dk_key (obs_dedup_key (ex_ob ''aa'' True 10)))
       ex_ops (newLinkRegistry 0))"
  by (rule link_event_once_per_window) (simp_all add: newLinkRegistry_def ex_ops_def ex_ob_def)

definition ex_path :: "string list \<Rightarrow> float64 list \<Rightarrow> PathObservation" where
  "ex_path path snrs = \<lparr>p_Hash = ''ab'', p_NetworkID = ''net'', p_RouteType = ''flood'', p_Path = path,
     p_LowConfidence = False, p_SNRs = snrs, p_Now = 10, p_PosOf = None\<rparr>"

lemma canon_ex [simp]: "canon ''ab'' = ''ab''" "canon ''zz'' = ''zz''"
  by code_simp+


lemma hop_snr_attribution_witness:
  "length (path_obs (ex_path (map hex_encode [ex_node 1, ex_node 2, ex_node 1]) [5, 6, 7])) = 2 \<and>
   o_snr (path_obs (ex_path (map hex_encode [ex_node 1, ex_node 2, ex_node 1]) [5, 6, 7]) ! 1) = 7"
proof -
  have "clean_path [ex_node 1, ex_node 2, ex_node 1]" by (simp add: clean_path_def)
  from hop_snr_attribution [OF this, of "ex_path (map hex_encode [ex_node 1, ex_node 2, ex_node 1]) [5, 6, 7]"]
  show ?thesis by (simp add: ex_path_def)
qed

lemma snr_shifts_after_invalid_entry_witness:
  "\<exists>ob. path_obs (ex_path [''zz'', ex_pub 1, ex_pub 2] [5, 6, 7]) = [ob] \<and> obs_from ob = ex_node 1 \<and>
     obs_to ob = ex_node 2 \<and> o_snr ob = 6"
  by (rule snr_shifts_after_invalid_entry [where bad = "''zz''" and ?s0.0 = 5 and ?s2.0 = 7])
     (simp_all add: ex_path_def ex_pub_def normalizePub_def)

lemma blank_entry_bridges_witness:
  "map (\<lambda>ob. (obs_from ob, obs_to ob)) (path_obs (ex_path [ex_pub 1, '''', ex_pub 2] []))
     = [(ex_node 1, ex_node 2)]"
  by (rule blank_entry_bridges) (simp_all add: ex_path_def ex_pub_def)

lemma link_activity_is_decayed_sum_witness:
  "\<exists>rec. lookup_link (link_run 60 ex_ops (newLinkRegistry 0)) ex_key = Some rec \<and>
     decayedScore (l_Score rec) (l_ScoreUpdatedAt rec) 200 (r_halfLife (newLinkRegistry 0)) =
      decay_sum (r_halfLife (newLinkRegistry 0)) (event_times 60 (\<lambda>_. True) ex_key ex_ops (newLinkRegistry 0)) 200"
proof -
  have k: "o_key (ex_ob h d t) = ex_key" for h d t by (simp add: ex_ob_def)
  have "lookup_link (link_run 60 ex_ops (newLinkRegistry 0)) ex_key \<noteq> None"
    by (simp add: ex_ops_def lookup_link_observeLink k registry_sweep_simps)
       (simp add: newLinkRegistry_def lookup_link_observeLink k registry_sweep_def)
  then obtain rec where "lookup_link (link_run 60 ex_ops (newLinkRegistry 0)) ex_key = Some rec" by blast
  with link_activity_is_decayed_sum [OF _ _ _ _ this, of 200] show ?thesis
    by (simp add: ex_ops_def k) (simp add: ex_ob_def)
qed

end
