(* ===== verification/FlushLoop.thy ===== *)
theory FlushLoop
  imports GoPrelude
begin

text \<open>
  The write-behind persistence loop of main.go (the node, link and observer flushes run by
  \<open>runFlushLoop\<close>): take the dirty records, save them, and put them back on an error. The database
  is a map from keys to saved records: a successful save upserts the batch, a failed one (its
  transaction rolled back) changes nothing. The locale \<open>flush_queue\<close> states what a registry
  promises (\<open>TakeDirty\<close> hands out and clears exactly the dirty records, \<open>Requeue\<close> marks them
  again, an update marks what it changes) and derives that no update is lost, whatever the order
  of updates, failed saves and successful saves.
\<close>

text \<open>The events of a run: an update of the registry by a collector, the \<open>TakeDirty\<close> that starts
  a flush, and the result of its save.\<close>

datatype 'u flushOp = Update 'u | Take | SaveOk | SaveFail

record ('s, 'k, 'v) flushState =
  fs_reg :: 's
  fs_db :: "'k \<Rightarrow> 'v option"
  fs_batch :: "'v list"

definition db_save :: "('v \<Rightarrow> 'k) \<Rightarrow> 'v list \<Rightarrow> ('k \<Rightarrow> 'v option) \<Rightarrow> 'k \<Rightarrow> 'v option" where
  "db_save key b db = fold (\<lambda>v db. db(key v \<mapsto> v)) b db"

text \<open>One flush runs at a time: a \<open>Take\<close> while a batch is being saved does not happen.\<close>

fun flush_step ::
  "('u \<Rightarrow> 's \<Rightarrow> 's) \<Rightarrow> ('s \<Rightarrow> 'v list \<times> 's) \<Rightarrow> ('v list \<Rightarrow> 's \<Rightarrow> 's) \<Rightarrow> ('v \<Rightarrow> 'k) \<Rightarrow> 'u flushOp \<Rightarrow>
   ('s, 'k, 'v) flushState \<Rightarrow> ('s, 'k, 'v) flushState" where
  "flush_step upd grab requeue key (Update u) st = st\<lparr>fs_reg := upd u (fs_reg st)\<rparr>"
| "flush_step upd grab requeue key Take st =
     (if fs_batch st = [] then st\<lparr>fs_reg := snd (grab (fs_reg st)), fs_batch := fst (grab (fs_reg st))\<rparr>
      else st)"
| "flush_step upd grab requeue key SaveOk st =
     st\<lparr>fs_db := db_save key (fs_batch st) (fs_db st), fs_batch := []\<rparr>"
| "flush_step upd grab requeue key SaveFail st =
     st\<lparr>fs_reg := requeue (fs_batch st) (fs_reg st), fs_batch := []\<rparr>"

primrec flush_run ::
  "('u \<Rightarrow> 's \<Rightarrow> 's) \<Rightarrow> ('s \<Rightarrow> 'v list \<times> 's) \<Rightarrow> ('v list \<Rightarrow> 's \<Rightarrow> 's) \<Rightarrow> ('v \<Rightarrow> 'k) \<Rightarrow> 'u flushOp list \<Rightarrow>
   ('s, 'k, 'v) flushState \<Rightarrow> ('s, 'k, 'v) flushState" where
  "flush_run upd grab requeue key [] st = st"
| "flush_run upd grab requeue key (x # xs) st =
     flush_run upd grab requeue key xs (flush_step upd grab requeue key x st)"

lemma db_save_other: "k \<notin> key ` set b \<Longrightarrow> db_save key b db k = db k"
  by (induction b arbitrary: db) (simp_all add: db_save_def)

lemma db_save_batch:
  assumes "\<And>v v'. v \<in> set b \<Longrightarrow> v' \<in> set b \<Longrightarrow> key v = key v' \<Longrightarrow> v = v'" and "v \<in> set b"
  shows "db_save key b db (key v) = Some v"
  using assms
proof (induction b arbitrary: db)
  case (Cons x b)
  have step: "db_save key (x # b) db = db_save key b (db(key x \<mapsto> x))" by (simp add: db_save_def)
  show ?case
  proof (cases "key v \<in> key ` set b")
    case True
    then obtain v' where "v' \<in> set b" "key v = key v'" by blast
    moreover from this have "v = v'" using Cons.prems by simp
    ultimately show ?thesis unfolding step using Cons.prems(1) by (intro Cons.IH) auto
  next
    case False
    then have "v = x" using Cons.prems(2) by auto
    then show ?thesis unfolding step using db_save_other [OF False] by simp
  qed
qed simp

lemma db_save_origin: "db_save key b db k = Some v \<Longrightarrow> (v \<in> set b \<and> key v = k) \<or> db k = Some v"
proof (induction b arbitrary: db)
  case (Cons x b)
  have "db_save key b (db(key x \<mapsto> x)) k = Some v" using Cons.prems by (simp add: db_save_def)
  from Cons.IH [OF this] show ?case by (auto split: if_splits)
qed (simp add: db_save_def)

locale flush_queue =
  fixes val :: "'s \<Rightarrow> 'k \<Rightarrow> 'v option"
    and dirty :: "'s \<Rightarrow> 'k \<Rightarrow> bool"
    and key :: "'v \<Rightarrow> 'k"
    and grab :: "'s \<Rightarrow> 'v list \<times> 's"
    and requeue :: "'v list \<Rightarrow> 's \<Rightarrow> 's"
    and upd :: "'u \<Rightarrow> 's \<Rightarrow> 's"
    and inv :: "'s \<Rightarrow> bool"
    and allowed :: "'u \<Rightarrow> bool"
    and row_ok :: "'v \<Rightarrow> bool"
  assumes key: "inv s \<Longrightarrow> val s k = Some v \<Longrightarrow> key v = k"
    and val_ok: "inv s \<Longrightarrow> val s k = Some v \<Longrightarrow> row_ok v"
    and grab_reg: "inv s \<Longrightarrow> inv (snd (grab s)) \<and> val (snd (grab s)) = val s \<and> \<not> dirty (snd (grab s)) k"
    and grab_batch: "inv s \<Longrightarrow> v \<in> set (fst (grab s)) \<longleftrightarrow> val s (key v) = Some v \<and> dirty s (key v)"
    and requeue: "inv s \<Longrightarrow> inv (requeue b s) \<and> val (requeue b s) = val s"
    and requeue_dirty: "inv s \<Longrightarrow> dirty (requeue b s) k \<longleftrightarrow>
      dirty s k \<or> (k \<in> key ` set b \<and> val s k \<noteq> None)"
    and upd_inv: "inv s \<Longrightarrow> allowed u \<Longrightarrow> inv (upd u s)"
    and upd_dirty: "inv s \<Longrightarrow> allowed u \<Longrightarrow>
      dirty (upd u s) k \<or> (val (upd u s) k = val s k \<and> \<not> dirty s k)"
begin

abbreviation step :: "'u flushOp \<Rightarrow> ('s, 'k, 'v) flushState \<Rightarrow> ('s, 'k, 'v) flushState" where
  "step \<equiv> flush_step upd grab requeue key"

abbreviation run :: "'u flushOp list \<Rightarrow> ('s, 'k, 'v) flushState \<Rightarrow> ('s, 'k, 'v) flushState" where
  "run \<equiv> flush_run upd grab requeue key"

text \<open>Every record is dirty, in the batch with its present value, or in the database with it.\<close>

definition no_loss :: "('s, 'k, 'v) flushState \<Rightarrow> bool" where
  "no_loss st \<longleftrightarrow> inv (fs_reg st) \<and>
     (\<forall>k v. val (fs_reg st) k = Some v \<longrightarrow> dirty (fs_reg st) k \<or> v \<in> set (fs_batch st) \<or>
        (fs_db st k = Some v \<and> k \<notin> key ` set (fs_batch st))) \<and>
     (\<forall>v v'. v \<in> set (fs_batch st) \<longrightarrow> v' \<in> set (fs_batch st) \<longrightarrow> key v = key v' \<longrightarrow> v = v')"

text \<open>Every row of the database and of the batch is well-formed and under its own key.\<close>

definition rows_ok :: "('s, 'k, 'v) flushState \<Rightarrow> bool" where
  "rows_ok st \<longleftrightarrow> (\<forall>k v. fs_db st k = Some v \<longrightarrow> key v = k \<and> row_ok v) \<and>
     (\<forall>v\<in>set (fs_batch st). row_ok v)"

lemma no_lossI:
  assumes "inv (fs_reg st)"
    and "\<And>k v. val (fs_reg st) k = Some v \<Longrightarrow> \<not> dirty (fs_reg st) k \<Longrightarrow> v \<notin> set (fs_batch st) \<Longrightarrow>
      fs_db st k = Some v \<and> k \<notin> key ` set (fs_batch st)"
    and "\<And>v v'. v \<in> set (fs_batch st) \<Longrightarrow> v' \<in> set (fs_batch st) \<Longrightarrow> key v = key v' \<Longrightarrow> v = v'"
  shows "no_loss st"
  unfolding no_loss_def using assms by blast

lemma no_lossD:
  assumes "no_loss st"
  shows "inv (fs_reg st)"
    and "val (fs_reg st) k = Some v \<Longrightarrow> \<not> dirty (fs_reg st) k \<Longrightarrow> v \<notin> set (fs_batch st) \<Longrightarrow>
      fs_db st k = Some v \<and> k \<notin> key ` set (fs_batch st)"
    and "v \<in> set (fs_batch st) \<Longrightarrow> v' \<in> set (fs_batch st) \<Longrightarrow> key v = key v' \<Longrightarrow> v = v'"
  using assms unfolding no_loss_def by blast+

lemma no_loss_step:
  assumes nl: "no_loss st" and ok: "\<And>u. x = Update u \<Longrightarrow> allowed u"
  shows "no_loss (step x st)"
proof (cases x)
  case (Update u)
  note ud = upd_dirty [OF no_lossD(1) [OF nl] ok [OF Update]]
  show ?thesis
  proof (rule no_lossI)
    show "inv (fs_reg (step x st))"
      using upd_inv [OF no_lossD(1) [OF nl] ok [OF Update]] by (simp add: Update)
    fix k v
    assume "val (fs_reg (step x st)) k = Some v" "\<not> dirty (fs_reg (step x st)) k"
      and "v \<notin> set (fs_batch (step x st))"
    then show "fs_db (step x st) k = Some v \<and> k \<notin> key ` set (fs_batch (step x st))"
      using ud [of k] no_lossD(2) [OF nl, of k v] by (simp add: Update)
  qed (use no_lossD(3) [OF nl] in \<open>simp add: Update\<close>)
next
  case Take
  show ?thesis
  proof (cases "fs_batch st = []")
    case True
    note inv = no_lossD(1) [OF nl]
    have st: "fs_reg (step x st) = snd (grab (fs_reg st))" "fs_batch (step x st) = fst (grab (fs_reg st))"
      "fs_db (step x st) = fs_db st" using True by (simp_all add: Take)
    show ?thesis
    proof (rule no_lossI)
      show "inv (fs_reg (step x st))" using grab_reg [OF inv] by (simp add: st)
      fix k v
      assume v: "val (fs_reg (step x st)) k = Some v" and "v \<notin> set (fs_batch (step x st))"
      then have vk: "val (fs_reg st) k = Some v" "key v = k"
        using grab_reg [OF inv] key [OF inv] by (simp_all add: st)
      with \<open>v \<notin> _\<close> have nd: "\<not> dirty (fs_reg st) k"
        using grab_batch [OF inv, of v] by (simp add: st)
      then have "fs_db st k = Some v" using no_lossD(2) [OF nl vk(1)] True by simp
      moreover have "k \<notin> key ` set (fst (grab (fs_reg st)))"
        using grab_batch [OF inv] nd by blast
      ultimately show "fs_db (step x st) k = Some v \<and> k \<notin> key ` set (fs_batch (step x st))"
        by (simp add: st)
    next
      fix v v'
      assume "v \<in> set (fs_batch (step x st))" "v' \<in> set (fs_batch (step x st))" "key v = key v'"
      then show "v = v'" using grab_batch [OF inv, of v] grab_batch [OF inv, of v'] by (simp add: st)
    qed
  qed (simp add: Take nl)
next
  case SaveOk
  have st: "fs_reg (step x st) = fs_reg st" "fs_batch (step x st) = []"
    "fs_db (step x st) = db_save key (fs_batch st) (fs_db st)" by (simp_all add: SaveOk)
  show ?thesis
  proof (rule no_lossI)
    show "inv (fs_reg (step x st))" using no_lossD(1) [OF nl] by (simp add: st)
    fix k v
    assume v: "val (fs_reg (step x st)) k = Some v" "\<not> dirty (fs_reg (step x st)) k"
    have "db_save key (fs_batch st) (fs_db st) k = Some v"
    proof (cases "v \<in> set (fs_batch st)")
      case True
      moreover have "key v = k" using key [OF no_lossD(1) [OF nl]] v by (simp add: st)
      ultimately show ?thesis
        using db_save_batch [of "fs_batch st" key v] no_lossD(3) [OF nl] by blast
    next
      case False
      then have "fs_db st k = Some v" "k \<notin> key ` set (fs_batch st)"
        using no_lossD(2) [OF nl] v by (auto simp: st)
      then show ?thesis
        by (simp add: db_save_other)
    qed
    then show "fs_db (step x st) k = Some v \<and> k \<notin> key ` set (fs_batch (step x st))" by (simp add: st)
  qed (simp add: st)
next
  case SaveFail
  note inv = no_lossD(1) [OF nl]
  have st: "fs_reg (step x st) = requeue (fs_batch st) (fs_reg st)" "fs_batch (step x st) = []"
    "fs_db (step x st) = fs_db st" by (simp_all add: SaveFail)
  show ?thesis
  proof (rule no_lossI)
    show "inv (fs_reg (step x st))" using requeue [OF inv] by (simp add: st)
    fix k v
    assume "val (fs_reg (step x st)) k = Some v" "\<not> dirty (fs_reg (step x st)) k"
    then have v: "val (fs_reg st) k = Some v" "\<not> dirty (fs_reg st) k" "k \<notin> key ` set (fs_batch st)"
      using requeue [OF inv] requeue_dirty [OF inv] by (auto simp: st)
    moreover have "v \<notin> set (fs_batch st)" using v key [OF inv v(1)] by blast
    ultimately have "fs_db st k = Some v" using no_lossD(2) [OF nl] by blast
    then show "fs_db (step x st) k = Some v \<and> k \<notin> key ` set (fs_batch (step x st))" by (simp add: st)
  qed (simp add: st)
qed

lemma no_loss_run:
  "no_loss st \<Longrightarrow> (\<And>u. Update u \<in> set ops \<Longrightarrow> allowed u) \<Longrightarrow> no_loss (run ops st)"
proof (induction ops arbitrary: st)
  case (Cons x ops)
  then show ?case using no_loss_step [of st x] by simp
qed simp

lemma rows_ok_step:
  assumes "inv (fs_reg st)" and "rows_ok st"
  shows "rows_ok (step x st)"
proof (cases x)
  case Take
  have "row_ok v" if "v \<in> set (fst (grab (fs_reg st)))" for v
    using that grab_batch [OF assms(1), of v] val_ok [OF assms(1)] by auto
  then show ?thesis using Take assms(2) by (simp add: rows_ok_def)
next
  case SaveOk
  have "key v = k \<and> row_ok v" if "db_save key (fs_batch st) (fs_db st) k = Some v" for k v
    using db_save_origin [OF that] assms(2) unfolding rows_ok_def by blast
  then show ?thesis using SaveOk by (simp add: rows_ok_def)
qed (use assms(2) in \<open>simp_all add: rows_ok_def\<close>)

lemma rows_ok_run:
  "no_loss st \<Longrightarrow> rows_ok st \<Longrightarrow> (\<And>u. Update u \<in> set ops \<Longrightarrow> allowed u) \<Longrightarrow> rows_ok (run ops st)"
proof (induction ops arbitrary: st)
  case (Cons x ops)
  then show ?case using no_loss_step [of st x] rows_ok_step [of st x] by (simp add: no_loss_def)
qed simp

text \<open>After a successful flush the database holds every record of the registry.\<close>

lemma flushed:
  assumes "no_loss st" and "\<And>u. Update u \<in> set ops \<Longrightarrow> allowed u"
    and "fs_batch (run ops st) = []" and "val (fs_reg (run ops st)) k = Some v"
  shows "fs_db (step SaveOk (step Take (run ops st))) k = Some v"
proof -
  let ?s = "run ops st" and ?e = "step SaveOk (step Take (run ops st))"
  have nl: "no_loss ?s" by (rule no_loss_run [OF assms(1,2)])
  note inv = no_lossD(1) [OF nl]
  have "no_loss ?e" using nl by (intro no_loss_step) auto
  moreover have "val (fs_reg ?e) k = Some v" "\<not> dirty (fs_reg ?e) k" "fs_batch ?e = []"
    using grab_reg [OF inv] assms(3,4) by simp_all
  ultimately show ?thesis using no_lossD(2) [of ?e k v] by simp
qed

text \<open>A loader that reads the whole table back finds that record under its key.\<close>

lemma flushed_row:
  assumes "no_loss st0" and "\<And>u. Update u \<in> set ops \<Longrightarrow> allowed u"
    and "fs_batch (run ops st0) = []"
    and "\<And>v. v \<in> set rows \<longleftrightarrow> fs_db (step SaveOk (step Take (run ops st0))) (key v) = Some v"
    and "distinct (map key rows)" and v: "val (fs_reg (run ops st0)) k = Some v"
  shows "find (\<lambda>v. key v = k) rows = Some v"
proof -
  have nl: "no_loss (run ops st0)" using assms(1,2) by (rule no_loss_run)
  have kv: "key v = k" by (rule key [OF no_lossD(1) [OF nl] v])
  then have "v \<in> set rows" using flushed [OF assms(1-3) v] assms(4) by simp
  then show ?thesis using assms(5) unfolding kv [symmetric]
    by (induction rows) (auto simp: image_iff)
qed

text \<open>Where updates never remove a record, nothing is stored or being saved that is not live.\<close>

definition covered :: "('s, 'k, 'v) flushState \<Rightarrow> bool" where
  "covered st \<longleftrightarrow> (\<forall>k. fs_db st k \<noteq> None \<or> k \<in> key ` set (fs_batch st) \<longrightarrow> val (fs_reg st) k \<noteq> None)"

lemma covered_step:
  assumes inv: "inv (fs_reg st)" and cov: "covered st"
    and grows: "\<And>u k. x = Update u \<Longrightarrow> val (fs_reg st) k \<noteq> None \<Longrightarrow> val (upd u (fs_reg st)) k \<noteq> None"
  shows "covered (step x st)"
proof (cases x)
  case (Update u)
  then show ?thesis using cov grows by (auto simp: covered_def)
next
  case Take
  have "val (fs_reg st) (key v) \<noteq> None" if "v \<in> set (fst (grab (fs_reg st)))" for v
    using that grab_batch [OF inv, of v] by simp
  then show ?thesis using cov grab_reg [OF inv] Take by (fastforce simp: covered_def)
next
  case SaveOk
  have "fs_db st k \<noteq> None \<or> k \<in> key ` set (fs_batch st)" if "db_save key (fs_batch st) (fs_db st) k \<noteq> None" for k
    using that db_save_origin by fastforce
  then show ?thesis using cov unfolding SaveOk covered_def by (simp del: not_None_eq)
next
  case SaveFail
  then show ?thesis using cov requeue [OF inv] by (simp add: covered_def)
qed

lemma covered_run:
  "no_loss st \<Longrightarrow> covered st \<Longrightarrow> (\<And>u. Update u \<in> set ops \<Longrightarrow> allowed u) \<Longrightarrow>
   (\<And>u s k. val s k \<noteq> None \<Longrightarrow> val (upd u s) k \<noteq> None) \<Longrightarrow> covered (run ops st)"
proof (induction ops arbitrary: st)
  case (Cons x ops)
  then show ?case using no_loss_step [of st x] covered_step [of st x] by (simp add: no_loss_def)
qed simp

end

end
