(* ===== verification/LinkPersist.thy ===== *)
theory LinkPersist
  imports LinkWalk FlushLoop
begin

text \<open>
  Persistence of the link registry (links.go): \<open>TakeDirty\<close>, \<open>Requeue\<close>, \<open>Restore\<close> and the merge of a
  restored link into a live one. The registry is interpreted as a \<open>flush_queue\<close>, so the flush
  loop of main.go loses no link update, and a restart from the saved rows gives the links back.
\<close>

subsection \<open>TakeDirty and Requeue\<close>

text \<open>The deep copy of a record: copying slices is the identity on values.\<close>

definition copyLink :: "LinkRecord \<Rightarrow> LinkRecord" where
  "copyLink rec = rec\<lparr>l_SourceCounts := copyCounts (l_SourceCounts rec)\<rparr>"

definition takeLink ::
  "linkKey \<Rightarrow> LinkRecord \<Rightarrow> LinkRecord list \<times> linkShard \<Rightarrow> LinkRecord list \<times> linkShard" where
  "takeLink k rec = (\<lambda>(out, sh).
     if \<not> l_dirty rec then (out, sh)
     else (out @ [copyLink rec], sh\<lparr>sh_links := mput (sh_links sh) k (rec\<lparr>l_dirty := False\<rparr>)\<rparr>))"

definition takeShard :: "linkShard \<Rightarrow> LinkRecord list \<times> linkShard" where
  "takeShard sh = mrange takeLink (sh_links sh) ([], sh)"

definition links_TakeDirty :: "LinkRegistry \<Rightarrow> LinkRecord list \<times> LinkRegistry" where
  "links_TakeDirty r =
     (concat (map (fst \<circ> takeShard) (r_shards r)), r\<lparr>r_shards := map (snd \<circ> takeShard) (r_shards r)\<rparr>)"

definition requeueLink :: "LinkRecord \<Rightarrow> LinkRegistry \<Rightarrow> LinkRegistry" where
  "requeueLink x r =
     (let sh = shardFor r (l_Key x) in
      case mget (sh_links sh) (l_Key x) of None \<Rightarrow> r
      | Some rec \<Rightarrow> setShard (l_Key x) (sh\<lparr>sh_links := mput (sh_links sh) (l_Key x) (rec\<lparr>l_dirty := True\<rparr>)\<rparr>) r)"

definition links_Requeue :: "LinkRecord list \<Rightarrow> LinkRegistry \<Rightarrow> LinkRegistry" where
  "links_Requeue records r = fold requeueLink records r"

subsection \<open>Restore\<close>

definition merge_one_network :: "linkNetwork \<Rightarrow> linkNetwork \<Rightarrow> linkNetwork" where
  "merge_one_network n x =
     (let existingLast = n_LastSeen x;
          x = (if n_FirstSeen x = 0 \<or> (n_FirstSeen n > 0 \<and> n_FirstSeen n < n_FirstSeen x)
               then x\<lparr>n_FirstSeen := n_FirstSeen n\<rparr> else x);
          x = (if n_LastSeen n > n_LastSeen x then x\<lparr>n_LastSeen := n_LastSeen n\<rparr> else x);
          x = x\<lparr>n_PacketCount := n_PacketCount x + n_PacketCount n, n_DirAB := n_DirAB x + n_DirAB n,
                n_DirBA := n_DirBA x + n_DirBA n,
                n_LowConfidenceCount := n_LowConfidenceCount x + n_LowConfidenceCount n\<rparr>
      in if n_LastSeen n \<ge> existingLast
         then let x = (if n_LastHashAB n \<noteq> '''' then x\<lparr>n_LastHashAB := n_LastHashAB n\<rparr> else x)
              in if n_LastHashBA n \<noteq> '''' then x\<lparr>n_LastHashBA := n_LastHashBA n\<rparr> else x
         else x)"

definition mergeNetwork :: "linkNetwork \<Rightarrow> LinkRecord \<Rightarrow> LinkRecord" where
  "mergeNetwork n rec =
     (case update_first (\<lambda>x. n_NetworkID x = n_NetworkID n) (merge_one_network n) (l_Networks rec) of
        Some ns \<Rightarrow> rec\<lparr>l_Networks := ns\<rparr>
      | None \<Rightarrow> rec\<lparr>l_Networks := l_Networks rec @ [n]\<rparr>)"

definition mergeCounts :: "(string, u64) gomap \<Rightarrow> (string, u64) gomap \<Rightarrow> (string, u64) gomap" where
  "mergeCounts existing restored =
     mrange (\<lambda>k v acc. mput acc k ((case mget acc k of None \<Rightarrow> 0 | Some n \<Rightarrow> n) + v)) restored existing"

text \<open>The four parts of \<open>mergeRestoredLink\<close>, in the order the code runs them: totals, times and score;
  the last hashes; the histories; the position segments.\<close>

definition mergeTotals :: "float64 \<Rightarrow> LinkRecord \<Rightarrow> LinkRecord \<Rightarrow> LinkRecord" where
  "mergeTotals halfLife restored ex =
     (let ex = ex\<lparr>l_PacketCount := l_PacketCount ex + l_PacketCount restored,
                  l_DirAB := l_DirAB ex + l_DirAB restored, l_DirBA := l_DirBA ex + l_DirBA restored,
                  l_LowConfidenceCount := l_LowConfidenceCount ex + l_LowConfidenceCount restored\<rparr>;
          ex = ex\<lparr>l_FirstSeen :=
                  (if l_FirstSeen ex = 0 \<or> (l_FirstSeen restored > 0 \<and> l_FirstSeen restored < l_FirstSeen ex)
                   then l_FirstSeen restored else l_FirstSeen ex),
                  l_LastSeen :=
                  (if l_LastSeen restored > l_LastSeen ex then l_LastSeen restored else l_LastSeen ex)\<rparr>;
          ex = ex\<lparr>l_Score := combinedScore (l_Score ex) (l_ScoreUpdatedAt ex) (l_Score restored)
                               (l_ScoreUpdatedAt restored) halfLife\<rparr>
      in ex\<lparr>l_ScoreUpdatedAt := (if l_ScoreUpdatedAt restored > l_ScoreUpdatedAt ex
                then l_ScoreUpdatedAt restored else l_ScoreUpdatedAt ex)\<rparr>)"

definition mergeHashes :: "LinkRecord \<Rightarrow> LinkRecord \<Rightarrow> LinkRecord" where
  "mergeHashes restored ex = ex
     \<lparr>l_LastHashAB := (if l_LastHashAB restored \<noteq> '''' then l_LastHashAB restored else l_LastHashAB ex),
      l_LastHashBA := (if l_LastHashBA restored \<noteq> '''' then l_LastHashBA restored else l_LastHashBA ex)\<rparr>"

definition mergeHistories :: "bool \<Rightarrow> LinkRecord \<Rightarrow> LinkRecord \<Rightarrow> LinkRecord" where
  "mergeHistories restoredNewer restored ex = ex
     \<lparr>l_SNRsAB := mergeSNRHistory (l_SNRsAB ex) (l_SNRsAB restored) restoredNewer,
      l_SNRsBA := mergeSNRHistory (l_SNRsBA ex) (l_SNRsBA restored) restoredNewer,
      l_SourceCounts := mergeCounts (l_SourceCounts ex) (l_SourceCounts restored)\<rparr>"

definition mergeGeometry :: "LinkRecord \<Rightarrow> LinkRecord \<Rightarrow> LinkRecord" where
  "mergeGeometry restored ex =
     (let ex = ex\<lparr>l_Segments := l_Segments ex @ l_Segments restored\<rparr>;
          ex = (if l_HasPos restored then ex\<lparr>l_Segments := l_Segments ex @ [current_segment restored]\<rparr> else ex)
      in if \<not> l_HasPos ex \<and> l_HasPos restored
         then ex\<lparr>l_HasPos := True, l_LatA := l_LatA restored, l_LonA := l_LonA restored,
                 l_LatB := l_LatB restored, l_LonB := l_LonB restored,
                 l_SegFirstSeen := l_SegFirstSeen restored,
                 l_SegPacketCount := l_SegPacketCount restored,
                 l_Segments := butlast (l_Segments ex)\<rparr>
         else ex)"

definition mergeRestoredLink :: "float64 \<Rightarrow> LinkRecord \<Rightarrow> LinkRecord \<Rightarrow> LinkRecord" where
  "mergeRestoredLink halfLife restored ex =
     (let existingLast = l_LastSeen ex;
          restoredNewer = (l_LastSeen restored \<ge> existingLast);
          ex = mergeTotals halfLife restored ex;
          ex = fold mergeNetwork (l_Networks restored) ex;
          ex = (if restoredNewer then mergeHashes restored ex else ex);
          ex = mergeHistories restoredNewer restored ex
      in mergeGeometry restored ex)"

definition rekey :: "linkKey \<Rightarrow> LinkRecord \<Rightarrow> LinkRecord" where
  "rekey key rec = rec\<lparr>l_Key := key, l_NodeA := key_nodeA key, l_NodeB := key_nodeB key, l_dirty := False\<rparr>"

definition restoreLink :: "LinkRecord \<Rightarrow> LinkRegistry \<Rightarrow> LinkRegistry" where
  "restoreLink rec r =
     (case keyFromPair (l_NodeA rec) (l_NodeB rec) of None \<Rightarrow> r
      | Some key \<Rightarrow>
          let rec = rekey key rec; sh = shardFor r key in
          setShard key (sh\<lparr>sh_links := mput (sh_links sh) key
            (case mget (sh_links sh) key of Some ex \<Rightarrow> mergeRestoredLink (r_halfLife r) rec ex
             | None \<Rightarrow> rec)\<rparr>) r)"

definition links_Restore :: "LinkRecord list \<Rightarrow> LinkRegistry \<Rightarrow> LinkRegistry" where
  "links_Restore records r = (fold restoreLink records r)\<lparr>r_routeAdj := None\<rparr>"

subsection \<open>Lookups after TakeDirty and Requeue\<close>

abbreviation clean :: "LinkRecord \<Rightarrow> LinkRecord" where
  "clean rec \<equiv> rec\<lparr>l_dirty := False\<rparr>"

lemma copyCounts_id [simp]: "copyCounts m = m"
proof -
  have "mempty = m" if "mlen m = 0"
    using that by (simp add: mlen_def flip: DAList.impl_of_inject)
  then show ?thesis by (auto simp: copyCounts_def)
qed

lemma copyLink_id [simp]: "copyLink rec = rec"
  by (simp add: copyLink_def)

lemma takeShard_list:
  assumes "distinct (map fst xs)" and "res = fold (\<lambda>(k, rec). takeLink k rec) xs (out, sh)"
  shows "fst res = out @ filter l_dirty (map snd xs) \<and>
    mget (sh_links (snd res)) k = (case map_of xs k of
        Some rec \<Rightarrow> if l_dirty rec then Some (clean rec) else mget (sh_links sh) k
      | None \<Rightarrow> mget (sh_links sh) k) \<and>
    sh_dedup (snd res) = sh_dedup sh \<and> sh_netDedup (snd res) = sh_netDedup sh"
  using assms
proof (induction xs arbitrary: out sh)
  case (Cons x xs)
  obtain k' rec where x: "x = (k', rec)" by (cases x)
  have "map_of xs k' = None" using Cons.prems x by (simp add: map_of_eq_None_iff)
  then show ?case
    using Cons.IH Cons.prems
    by (cases "l_dirty rec") (auto simp: x mget_mput takeLink_def split: option.splits)
qed simp

lemma takeShard_eq:
  "fst (takeShard sh) = filter l_dirty (map snd (mentries (sh_links sh)))"
  "mget (sh_links (snd (takeShard sh))) k = map_option clean (mget (sh_links sh) k)"
  "sh_dedup (snd (takeShard sh)) = sh_dedup sh" "sh_netDedup (snd (takeShard sh)) = sh_netDedup sh"
  using takeShard_list [OF _ refl, of "mentries (sh_links sh)" "[]" sh k]
  by (auto simp: takeShard_def mrange_def mget_eq_map_of split: option.splits)

definition dirty_link :: "LinkRegistry \<Rightarrow> linkKey \<Rightarrow> bool" where
  "dirty_link r k = (case lookup_link r k of None \<Rightarrow> False | Some rec \<Rightarrow> l_dirty rec)"

text \<open>What is saved of a record: everything but its dirty flag.\<close>

definition link_val :: "LinkRegistry \<Rightarrow> linkKey \<Rightarrow> LinkRecord option" where
  "link_val r k = map_option clean (lookup_link r k)"

lemma lookup_TakeDirty:
  "length (r_shards r) = linkShards \<Longrightarrow>
     lookup_link (snd (links_TakeDirty r)) k = map_option clean (lookup_link r k)"
  by (simp add: links_TakeDirty_def lookup_link_def shardFor_def takeShard_eq)

text \<open>All stored links, shard by shard.\<close>

definition all_links :: "LinkRegistry \<Rightarrow> (linkKey \<times> LinkRecord) list" where
  "all_links r = concat (map (\<lambda>sh. mentries (sh_links sh)) (r_shards r))"

lemma all_links_iff:
  assumes "registry_ok r"
  shows "(k, rec) \<in> set (all_links r) \<longleftrightarrow> lookup_link r k = Some rec"
proof
  assume "(k, rec) \<in> set (all_links r)"
  then obtain sh where "sh \<in> set (r_shards r)" "mget (sh_links sh) k = Some rec"
    by (auto simp: all_links_def mentries_iff)
  then obtain i where "i < linkShards" "mget (sh_links (r_shards r ! i)) k = Some rec"
    using assms by (auto simp: registry_ok_def in_set_conv_nth)
  moreover from this have "shardIndex k = i" using assms by (auto simp: registry_ok_def)
  ultimately show "lookup_link r k = Some rec" by (simp add: lookup_link_def shardFor_def)
next
  assume l: "lookup_link r k = Some rec"
  then have "shardFor r k \<in> set (r_shards r)"
    using assms by (simp add: shardFor_def registry_ok_def)
  with l show "(k, rec) \<in> set (all_links r)"
    by (auto simp: all_links_def lookup_link_def mentries_iff)
qed

lemma TakeDirty_records:
  assumes "registry_ok r"
  shows "rec \<in> set (fst (links_TakeDirty r)) \<longleftrightarrow> l_dirty rec \<and> lookup_link r (l_Key rec) = Some rec"
proof -
  have "rec \<in> set (fst (links_TakeDirty r)) \<longleftrightarrow> l_dirty rec \<and> rec \<in> snd ` set (all_links r)"
    by (auto simp: links_TakeDirty_def takeShard_eq all_links_def)
  also have "\<dots> \<longleftrightarrow> l_dirty rec \<and> (\<exists>k. lookup_link r k = Some rec)"
    using all_links_iff [OF assms] by force
  also have "\<dots> \<longleftrightarrow> l_dirty rec \<and> lookup_link r (l_Key rec) = Some rec"
    using registry_ok_lookup [OF assms] by blast
  finally show ?thesis .
qed

text \<open>Replacing one record in its shard, as \<open>Requeue\<close> and \<open>Restore\<close> do.\<close>

definition setLink :: "linkKey \<Rightarrow> LinkRecord \<Rightarrow> LinkRegistry \<Rightarrow> LinkRegistry" where
  "setLink k rec r = setShard k ((shardFor r k)\<lparr>sh_links := mput (sh_links (shardFor r k)) k rec\<rparr>) r"

lemma lookup_setLink:
  assumes "length (r_shards r) = linkShards"
  shows "lookup_link (setLink k rec r) k' = (if k' = k then Some rec else lookup_link r k')"
    and "lookup_dedup (setLink k rec r) dk = lookup_dedup r dk"
    and "length (r_shards (setLink k rec r)) = linkShards"
    and "r_halfLife (setLink k rec r) = r_halfLife r"
  using assms
  by (auto simp: setLink_def lookup_link_def lookup_dedup_def shardFor_setShard mget_mput)
     (auto simp: setShard_def shardFor_def)

lemma registry_ok_setLink:
  assumes "registry_ok r" and "l_Key rec = k" and "link_ok rec"
  shows "registry_ok (setLink k rec r)"
  unfolding setLink_def
  by (rule registry_ok_setShard [OF assms(1)])
     (use assms registry_ok_shard [OF assms(1)] in \<open>auto simp: mget_mput split: if_splits\<close>)

lemma requeueLink_eq:
  "requeueLink x r = (case lookup_link r (l_Key x) of None \<Rightarrow> r
     | Some rec \<Rightarrow> setLink (l_Key x) (rec\<lparr>l_dirty := True\<rparr>) r)"
  by (simp add: requeueLink_def setLink_def lookup_link_def Let_def split: option.splits)

lemma restoreLink_eq:
  "restoreLink rec r = (case keyFromPair (l_NodeA rec) (l_NodeB rec) of None \<Rightarrow> r
     | Some key \<Rightarrow> setLink key (case lookup_link r key of None \<Rightarrow> rekey key rec
         | Some ex \<Rightarrow> mergeRestoredLink (r_halfLife r) (rekey key rec) ex) r)"
  by (simp add: restoreLink_def setLink_def lookup_link_def Let_def split: option.splits)

text \<open>The invariant of the running registry: besides \<open>registry_ok\<close>, a link with a deduplication
  entry exists, since links are never removed.\<close>

definition links_inv :: "LinkRegistry \<Rightarrow> bool" where
  "links_inv r \<longleftrightarrow> registry_ok r \<and> (\<forall>dk. lookup_dedup r dk \<noteq> None \<longrightarrow> lookup_link r (dk_key dk) \<noteq> None)"

lemma links_inv_len: "links_inv r \<Longrightarrow> length (r_shards r) = linkShards"
  by (auto simp: links_inv_def)

lemma links_inv_new: "links_inv (newLinkRegistry hl)"
  by (simp add: links_inv_def registry_ok_new)

lemma links_inv_setLink:
  "links_inv r \<Longrightarrow> l_Key rec = k \<Longrightarrow> link_ok rec \<Longrightarrow> links_inv (setLink k rec r)"
  by (auto simp: links_inv_def lookup_setLink registry_ok_len intro: registry_ok_setLink)

lemma requeueLink_laws:
  assumes "links_inv r"
  shows "links_inv (requeueLink x r) \<and> link_val (requeueLink x r) = link_val r \<and>
    (dirty_link (requeueLink x r) k \<longleftrightarrow> dirty_link r k \<or> (k = l_Key x \<and> link_val r k \<noteq> None))"
proof (cases "lookup_link r (l_Key x)")
  case None
  then show ?thesis using assms by (auto simp: requeueLink_eq link_val_def)
next
  case (Some rec)
  have "l_Key rec = l_Key x \<and> link_ok rec"
    using assms Some registry_ok_lookup by (auto simp: links_inv_def)
  with Some assms show ?thesis
    by (auto simp: requeueLink_eq link_val_def dirty_link_def lookup_setLink links_inv_len
        intro!: links_inv_setLink)
qed

lemma links_Requeue_laws:
  assumes "links_inv r"
  shows "links_inv (links_Requeue b r) \<and> link_val (links_Requeue b r) = link_val r \<and>
    (dirty_link (links_Requeue b r) k \<longleftrightarrow> dirty_link r k \<or> (k \<in> l_Key ` set b \<and> link_val r k \<noteq> None))"
  using assms
proof (induction b arbitrary: r)
  case (Cons x b)
  note q = requeueLink_laws [OF Cons.prems]
  have "links_Requeue (x # b) r = links_Requeue b (requeueLink x r)" by (simp add: links_Requeue_def)
  then show ?case using Cons.IH [of "requeueLink x r"] q [of x k] by auto
qed (simp add: links_Requeue_def)

definition links_grab :: "LinkRegistry \<Rightarrow> LinkRecord list \<times> LinkRegistry" where
  "links_grab r = (map clean (fst (links_TakeDirty r)), snd (links_TakeDirty r))"

lemma links_inv_TakeDirty:
  assumes "links_inv r"
  shows "links_inv (snd (links_TakeDirty r))"
proof -
  have "registry_ok (snd (links_TakeDirty r))"
    using assms by (auto simp: links_inv_def registry_ok_def links_TakeDirty_def takeShard_eq)
  moreover have "lookup_dedup (snd (links_TakeDirty r)) dk = lookup_dedup r dk" for dk
    using links_inv_len [OF assms]
    by (simp add: links_TakeDirty_def lookup_dedup_def shardFor_def takeShard_eq)
  ultimately show ?thesis
    using assms links_inv_len [OF assms] by (simp add: links_inv_def lookup_TakeDirty)
qed

lemma l_dirty_observed: "o_networkID ob \<noteq> '''' \<or> \<not> seen \<Longrightarrow> l_dirty (observed_link hl netSeen seen ob old)"
  by (auto simp: observed_link_def Let_def)

lemma links_inv_observeLink:
  assumes "links_inv r" and "valid_key (o_key ob)"
  shows "links_inv (observeLink ob r)"
  using assms
  by (auto simp: links_inv_def lookup_dedup_observeLink lookup_link_observeLink registry_ok_len
      intro: registry_ok_observeLink)

lemma links_inv_sweep: "links_inv r \<Longrightarrow> links_inv (registry_sweep now w r)"
  using links_inv_len [of r]
  by (auto simp: links_inv_def registry_sweep_simps registry_ok_sweep split: option.splits if_splits)

definition linkOp_ok :: "linkOp \<Rightarrow> bool" where
  "linkOp_ok x = (case x of ObsLink ob \<Rightarrow> valid_key (o_key ob) | SweepLinks _ \<Rightarrow> True)"

text \<open>An observation that changes a record marks it: a duplicate without a network changes nothing.\<close>

lemma observeLink_dirty:
  assumes "links_inv r"
  shows "dirty_link (observeLink ob r) k \<or>
    (link_val (observeLink ob r) k = link_val r k \<and> \<not> dirty_link r k)"
proof (cases "k = o_key ob \<and> (o_networkID ob = '''' \<and> counted_already r ob)")
  case True
  then have "lookup_link r k \<noteq> None" using assms by (auto simp: links_inv_def)
  then have "new_record r ob = the (lookup_link r k)"
    using True by (auto simp: new_record_def observed_link_def Let_def)
  then show ?thesis using True links_inv_len [OF assms] \<open>lookup_link r k \<noteq> None\<close>
    by (auto simp: dirty_link_def link_val_def lookup_link_observeLink)
next
  case False
  then show ?thesis
    using links_inv_len [OF assms] l_dirty_observed [of ob "counted_already r ob"]
    by (auto simp: dirty_link_def link_val_def lookup_link_observeLink new_record_def split: option.splits)
qed

interpretation link_flush: flush_queue link_val dirty_link l_Key links_grab links_Requeue "link_step w"
    links_inv linkOp_ok link_ok
  for w
proof unfold_locales
  fix s k v b u
  assume inv: "links_inv s"
  then have ok: "registry_ok s" and len: "length (r_shards s) = linkShards"
    by (simp_all add: links_inv_def links_inv_len)
  show "link_val s k = Some v \<Longrightarrow> l_Key v = k" and "link_val s k = Some v \<Longrightarrow> link_ok v"
    using registry_ok_lookup [OF ok] by (auto simp: link_val_def)
  show "links_inv (snd (links_grab s)) \<and> link_val (snd (links_grab s)) = link_val s \<and>
      \<not> dirty_link (snd (links_grab s)) k"
    using links_inv_TakeDirty [OF inv] lookup_TakeDirty [OF len]
    by (auto simp: links_grab_def link_val_def dirty_link_def option.map_comp comp_def split: option.splits)
  show "(v \<in> set (fst (links_grab s))) = (link_val s (l_Key v) = Some v \<and> dirty_link s (l_Key v))"
    using TakeDirty_records [OF ok]
    by (auto simp: links_grab_def link_val_def dirty_link_def image_iff split: option.splits)
  show "links_inv (links_Requeue b s) \<and> link_val (links_Requeue b s) = link_val s"
    and "dirty_link (links_Requeue b s) k = (dirty_link s k \<or> (k \<in> l_Key ` set b \<and> link_val s k \<noteq> None))"
    using links_Requeue_laws [OF inv] by auto
  show "linkOp_ok u \<Longrightarrow> links_inv (link_step w u s)"
    using inv by (cases u) (auto simp: linkOp_ok_def links_inv_observeLink links_inv_sweep)
  show "linkOp_ok u \<Longrightarrow> dirty_link (link_step w u s) k \<or>
      (link_val (link_step w u s) k = link_val s k \<and> \<not> dirty_link s k)"
    using observeLink_dirty [OF inv]
    by (cases u) (auto simp: dirty_link_def link_val_def registry_sweep_simps [OF len])
qed

subsection \<open>Merging a restored link\<close>

text \<open>What a saved row must satisfy: the invariant except for the key, which \<open>Restore\<close> rebuilds.\<close>

definition row_ok :: "LinkRecord \<Rightarrow> bool" where
  "row_ok rec \<longleftrightarrow> l_DirAB rec + l_DirBA rec = l_PacketCount rec \<and>
     msum (\<lambda>v. v) (l_SourceCounts rec) = l_PacketCount rec \<and>
     length (l_SNRsAB rec) \<le> linkSNRHistoryLimit \<and> length (l_SNRsBA rec) \<le> linkSNRHistoryLimit \<and>
     networks_ok (l_Networks rec)"

lemma link_ok_rekey: "row_ok rec \<Longrightarrow> valid_key k \<Longrightarrow> link_ok (rekey k rec)"
  by (simp add: row_ok_def link_ok_def rekey_def)

lemma link_ok_row_ok: "link_ok rec \<Longrightarrow> row_ok rec"
  by (simp add: row_ok_def link_ok_def)

lemma merge_one_network_simps [simp]:
  "n_NetworkID (merge_one_network n x) = n_NetworkID x"
  "n_PacketCount (merge_one_network n x) = n_PacketCount x + n_PacketCount n"
  "n_DirAB (merge_one_network n x) = n_DirAB x + n_DirAB n"
  "n_DirBA (merge_one_network n x) = n_DirBA x + n_DirBA n"
  by (simp_all add: merge_one_network_def Let_def)

lemma mergeNetwork_eq: "mergeNetwork n rec = rec\<lparr>l_Networks := l_Networks (mergeNetwork n rec)\<rparr>"
  by (simp add: mergeNetwork_def split: option.splits)

lemma networks_ok_mergeNetwork:
  assumes "networks_ok (l_Networks rec)" and "network_ok n" and "n_NetworkID n \<noteq> ''''"
  shows "networks_ok (l_Networks (mergeNetwork n rec))"
proof (cases "update_first (\<lambda>x. n_NetworkID x = n_NetworkID n) (merge_one_network n) (l_Networks rec)")
  case None
  then have "mergeNetwork n rec = rec\<lparr>l_Networks := l_Networks rec @ [n]\<rparr>"
    by (simp add: mergeNetwork_def)
  moreover have "\<forall>x\<in>set (l_Networks rec). n_NetworkID x \<noteq> n_NetworkID n"
    using None by (simp add: update_first_None)
  ultimately show ?thesis using assms by (auto simp: networks_ok_def)
next
  case (Some ns)
  have "networks_ok ns"
    by (rule networks_ok_update [OF Some assms(1)])
       (use assms(2) in \<open>auto simp: network_ok_def algebra_simps\<close>)
  then show ?thesis by (simp add: mergeNetwork_def Some)
qed

lemma mergeNetworks_eq:
  "fold mergeNetwork ns rec = rec\<lparr>l_Networks := l_Networks (fold mergeNetwork ns rec)\<rparr>"
proof (induction ns arbitrary: rec)
  case (Cons n ns)
  have "fold mergeNetwork (n # ns) rec = fold mergeNetwork ns (mergeNetwork n rec)" by simp
  also have "\<dots> = (mergeNetwork n rec)\<lparr>l_Networks := l_Networks (fold mergeNetwork ns (mergeNetwork n rec))\<rparr>"
    by (rule Cons.IH)
  also have "\<dots> = rec\<lparr>l_Networks := l_Networks (fold mergeNetwork (n # ns) rec)\<rparr>"
    by (subst (1) mergeNetwork_eq) simp
  finally show ?case .
qed simp

lemma networks_ok_mergeNetworks:
  "networks_ok (l_Networks rec) \<Longrightarrow> (\<forall>n\<in>set ns. network_ok n \<and> n_NetworkID n \<noteq> '''') \<Longrightarrow>
     networks_ok (l_Networks (fold mergeNetwork ns rec))"
  by (induction ns arbitrary: rec) (simp_all add: networks_ok_mergeNetwork)

lemma mergeNetworks_simps [simp]:
  "l_Key (fold mergeNetwork ns rec) = l_Key rec" "l_NodeA (fold mergeNetwork ns rec) = l_NodeA rec"
  "l_NodeB (fold mergeNetwork ns rec) = l_NodeB rec"
  "l_PacketCount (fold mergeNetwork ns rec) = l_PacketCount rec"
  "l_FirstSeen (fold mergeNetwork ns rec) = l_FirstSeen rec"
  "l_LastSeen (fold mergeNetwork ns rec) = l_LastSeen rec"
  "l_Score (fold mergeNetwork ns rec) = l_Score rec"
  "l_ScoreUpdatedAt (fold mergeNetwork ns rec) = l_ScoreUpdatedAt rec"
  "l_DirAB (fold mergeNetwork ns rec) = l_DirAB rec" "l_DirBA (fold mergeNetwork ns rec) = l_DirBA rec"
  "l_SNRsAB (fold mergeNetwork ns rec) = l_SNRsAB rec" "l_SNRsBA (fold mergeNetwork ns rec) = l_SNRsBA rec"
  "l_SourceCounts (fold mergeNetwork ns rec) = l_SourceCounts rec"
  "l_Segments (fold mergeNetwork ns rec) = l_Segments rec"
  "l_HasPos (fold mergeNetwork ns rec) = l_HasPos rec" "l_dirty (fold mergeNetwork ns rec) = l_dirty rec"
  by (subst mergeNetworks_eq, simp)+

lemma msum_mergeCounts: "msum (\<lambda>v. v) (mergeCounts m m') = msum (\<lambda>v. v) m + msum (\<lambda>v. v) m'"
proof -
  have "msum (\<lambda>v. v) (fold (\<lambda>(k, v) acc. mput acc k ((case mget acc k of None \<Rightarrow> 0 | Some n \<Rightarrow> n) + v)) xs m)
      = msum (\<lambda>v. v) m + sum_list (map snd xs)" for xs and m :: "(string, u64) gomap"
  proof (induction xs arbitrary: m)
    case (Cons x xs)
    then show ?case by (cases x) (simp add: msum_mput algebra_simps split: option.splits)
  qed simp
  from this [of "mentries m'" m] show ?thesis
    by (simp add: mergeCounts_def mrange_def msum_def case_prod_unfold)
qed

lemma mergeTotals_simps [simp]:
  "l_Key (mergeTotals hl rec ex) = l_Key ex" "l_NodeA (mergeTotals hl rec ex) = l_NodeA ex"
  "l_NodeB (mergeTotals hl rec ex) = l_NodeB ex"
  "l_PacketCount (mergeTotals hl rec ex) = l_PacketCount ex + l_PacketCount rec"
  "l_DirAB (mergeTotals hl rec ex) = l_DirAB ex + l_DirAB rec"
  "l_DirBA (mergeTotals hl rec ex) = l_DirBA ex + l_DirBA rec"
  "l_LastSeen (mergeTotals hl rec ex) = max (l_LastSeen ex) (l_LastSeen rec)"
  "l_Score (mergeTotals hl rec ex) =
     combinedScore (l_Score ex) (l_ScoreUpdatedAt ex) (l_Score rec) (l_ScoreUpdatedAt rec) hl"
  "l_ScoreUpdatedAt (mergeTotals hl rec ex) = max (l_ScoreUpdatedAt ex) (l_ScoreUpdatedAt rec)"
  "l_SourceCounts (mergeTotals hl rec ex) = l_SourceCounts ex"
  "l_SNRsAB (mergeTotals hl rec ex) = l_SNRsAB ex" "l_SNRsBA (mergeTotals hl rec ex) = l_SNRsBA ex"
  "l_Networks (mergeTotals hl rec ex) = l_Networks ex" "l_dirty (mergeTotals hl rec ex) = l_dirty ex"
  by (simp_all add: mergeTotals_def Let_def max_def)

lemma mergeGeometry_simps [simp]:
  "l_Key (mergeGeometry rec ex) = l_Key ex" "l_NodeA (mergeGeometry rec ex) = l_NodeA ex"
  "l_NodeB (mergeGeometry rec ex) = l_NodeB ex"
  "l_PacketCount (mergeGeometry rec ex) = l_PacketCount ex"
  "l_DirAB (mergeGeometry rec ex) = l_DirAB ex" "l_DirBA (mergeGeometry rec ex) = l_DirBA ex"
  "l_LastSeen (mergeGeometry rec ex) = l_LastSeen ex" "l_Score (mergeGeometry rec ex) = l_Score ex"
  "l_ScoreUpdatedAt (mergeGeometry rec ex) = l_ScoreUpdatedAt ex"
  "l_SourceCounts (mergeGeometry rec ex) = l_SourceCounts ex"
  "l_SNRsAB (mergeGeometry rec ex) = l_SNRsAB ex" "l_SNRsBA (mergeGeometry rec ex) = l_SNRsBA ex"
  "l_Networks (mergeGeometry rec ex) = l_Networks ex" "l_dirty (mergeGeometry rec ex) = l_dirty ex"
  by (simp_all add: mergeGeometry_def Let_def)

lemma mergeRestoredLink_simps [simp]:
  "l_Key (mergeRestoredLink hl rec ex) = l_Key ex"
  "l_NodeA (mergeRestoredLink hl rec ex) = l_NodeA ex" "l_NodeB (mergeRestoredLink hl rec ex) = l_NodeB ex"
  "l_PacketCount (mergeRestoredLink hl rec ex) = l_PacketCount ex + l_PacketCount rec"
  "l_DirAB (mergeRestoredLink hl rec ex) = l_DirAB ex + l_DirAB rec"
  "l_DirBA (mergeRestoredLink hl rec ex) = l_DirBA ex + l_DirBA rec"
  "l_LastSeen (mergeRestoredLink hl rec ex) = max (l_LastSeen ex) (l_LastSeen rec)"
  "l_Score (mergeRestoredLink hl rec ex) =
     combinedScore (l_Score ex) (l_ScoreUpdatedAt ex) (l_Score rec) (l_ScoreUpdatedAt rec) hl"
  "l_ScoreUpdatedAt (mergeRestoredLink hl rec ex) = max (l_ScoreUpdatedAt ex) (l_ScoreUpdatedAt rec)"
  "l_SourceCounts (mergeRestoredLink hl rec ex) = mergeCounts (l_SourceCounts ex) (l_SourceCounts rec)"
  "l_SNRsAB (mergeRestoredLink hl rec ex) =
     mergeSNRHistory (l_SNRsAB ex) (l_SNRsAB rec) (l_LastSeen rec \<ge> l_LastSeen ex)"
  "l_SNRsBA (mergeRestoredLink hl rec ex) =
     mergeSNRHistory (l_SNRsBA ex) (l_SNRsBA rec) (l_LastSeen rec \<ge> l_LastSeen ex)"
  "l_dirty (mergeRestoredLink hl rec ex) = l_dirty ex"
  by (simp_all add: mergeRestoredLink_def mergeHashes_def mergeHistories_def Let_def)

lemma l_Networks_merge:
  "l_Networks (mergeRestoredLink hl rec ex) = l_Networks (fold mergeNetwork (l_Networks rec) (mergeTotals hl rec ex))"
  by (simp add: mergeRestoredLink_def mergeHashes_def mergeHistories_def Let_def)

lemma link_ok_merge [preserve]:
  assumes "link_ok ex" and "row_ok rec"
  shows "link_ok (mergeRestoredLink hl rec ex)"
proof -
  have "networks_ok (l_Networks (mergeRestoredLink hl rec ex))"
    unfolding l_Networks_merge using assms
    by (intro networks_ok_mergeNetworks) (auto simp: link_ok_def row_ok_def networks_ok_def image_iff)
  moreover have swap: "(l_DirAB ex + l_DirAB rec) + (l_DirBA ex + l_DirBA rec)
      = (l_DirAB ex + l_DirBA ex) + (l_DirAB rec + l_DirBA rec)" by (simp add: algebra_simps)
  have "(l_DirAB ex + l_DirAB rec) + (l_DirBA ex + l_DirBA rec) = l_PacketCount ex + l_PacketCount rec"
    unfolding swap using assms by (simp add: link_ok_def row_ok_def)
  ultimately show ?thesis
    using assms by (simp add: link_ok_def row_ok_def msum_mergeCounts length_mergeSNRHistory)
qed

lemma restoreLink_inv:
  assumes "links_inv r" and "row_ok rec"
  shows "links_inv (restoreLink rec r) \<and> r_halfLife (restoreLink rec r) = r_halfLife r"
proof (cases "keyFromPair (l_NodeA rec) (l_NodeB rec)")
  case None
  with assms show ?thesis by (simp add: restoreLink_eq)
next
  case (Some key)
  note vk = keyFromPair_valid [OF Some]
  let ?new = "case lookup_link r key of None \<Rightarrow> rekey key rec
    | Some ex \<Rightarrow> mergeRestoredLink (r_halfLife r) (rekey key rec) ex"
  have "row_ok (rekey key rec)" using assms(2) by (simp add: row_ok_def rekey_def)
  then have "l_Key ?new = key \<and> link_ok ?new"
    using assms registry_ok_lookup [of r key] link_ok_rekey [OF assms(2) vk]
    by (auto simp: links_inv_def rekey_def link_ok_merge split: option.splits)
  then show ?thesis using assms(1) Some
    by (auto simp: restoreLink_eq lookup_setLink links_inv_len intro!: links_inv_setLink)
qed

lemma links_inv_routeAdj [simp]: "links_inv (r\<lparr>r_routeAdj := x\<rparr>) = links_inv r"
  by (simp add: links_inv_def registry_ok_def lookup_dedup_def lookup_link_def shardFor_def)

lemma lookup_routeAdj [simp]:
  "lookup_link (r\<lparr>r_routeAdj := x\<rparr>) k = lookup_link r k"
  "lookup_dedup (r\<lparr>r_routeAdj := x\<rparr>) dk = lookup_dedup r dk"
  by (simp_all add: lookup_link_def lookup_dedup_def shardFor_def)

lemma links_Restore_inv [preserve]:
  "links_inv r \<Longrightarrow> (\<forall>rec\<in>set rows. row_ok rec) \<Longrightarrow> links_inv (links_Restore rows r)"
proof -
  have "links_inv r \<Longrightarrow> (\<forall>rec\<in>set rows. row_ok rec) \<Longrightarrow> links_inv (fold restoreLink rows r)"
    by (induction rows arbitrary: r) (simp_all add: restoreLink_inv)
  then show "links_inv r \<Longrightarrow> (\<forall>rec\<in>set rows. row_ok rec) \<Longrightarrow> ?thesis" by (simp add: links_Restore_def)
qed

subsection \<open>Restart\<close>

lemma keyFromPair_link_ok: "link_ok rec \<Longrightarrow> keyFromPair (l_NodeA rec) (l_NodeB rec) = Some (l_Key rec)"
  using keyFromPair_nodes by (simp add: link_ok_def)

lemma rekey_link_ok: "link_ok rec \<Longrightarrow> rekey (l_Key rec) rec = clean rec"
  by (simp add: link_ok_def rekey_def)

lemma lookup_restore_rows:
  assumes "links_inv r" and "\<forall>rec\<in>set rows. link_ok rec" and "distinct (map l_Key rows)"
    and "\<forall>rec\<in>set rows. lookup_link r (l_Key rec) = None"
  shows "lookup_link (fold restoreLink rows r) k =
    (case find (\<lambda>rec. l_Key rec = k) rows of Some rec \<Rightarrow> Some (clean rec) | None \<Rightarrow> lookup_link r k)"
  using assms
proof (induction rows arbitrary: r)
  case (Cons rec rows)
  have step: "restoreLink rec r = setLink (l_Key rec) (clean rec) r"
    using Cons.prems by (simp add: restoreLink_eq keyFromPair_link_ok rekey_link_ok)
  have inv: "links_inv (restoreLink rec r)"
    using restoreLink_inv [OF Cons.prems(1)] Cons.prems(2) by (simp add: link_ok_row_ok)
  have look: "lookup_link (restoreLink rec r) k' = (if k' = l_Key rec then Some (clean rec) else lookup_link r k')" for k'
    unfolding step using links_inv_len [OF Cons.prems(1)] by (simp add: lookup_setLink)
  have "lookup_link (fold restoreLink rows (restoreLink rec r)) k =
      (case find (\<lambda>rec. l_Key rec = k) rows of Some rec \<Rightarrow> Some (clean rec)
       | None \<Rightarrow> lookup_link (restoreLink rec r) k)"
  proof (rule Cons.IH [OF inv])
    show "\<forall>rec\<in>set rows. link_ok rec" "distinct (map l_Key rows)" using Cons.prems by simp_all
    have "l_Key rec' \<noteq> l_Key rec" if "rec' \<in> set rows" for rec'
      using that Cons.prems(3) by (auto simp: image_iff)
    then show "\<forall>rec'\<in>set rows. lookup_link (restoreLink rec r) (l_Key rec') = None"
      using Cons.prems(4) by (simp add: look)
  qed
  moreover have "find (\<lambda>x. l_Key x = k) rows = None" if "l_Key rec = k"
    using that Cons.prems(3) by (auto simp: find_None_iff image_iff)
  ultimately show ?case by (auto simp: look split: option.splits)
qed simp

subsection \<open>Properties\<close>

text \<open>Every operation that changes the registry, in any order.\<close>

datatype regOp = Links linkOp | Restored "LinkRecord list" | Taken | Requeued "LinkRecord list"

primrec reg_step :: "int \<Rightarrow> regOp \<Rightarrow> LinkRegistry \<Rightarrow> LinkRegistry" where
  "reg_step w (Links x) r = link_step w x r"
| "reg_step w (Restored rows) r = links_Restore rows r"
| "reg_step w Taken r = snd (links_TakeDirty r)"
| "reg_step w (Requeued b) r = links_Requeue b r"

definition reg_run :: "int \<Rightarrow> regOp list \<Rightarrow> LinkRegistry \<Rightarrow> LinkRegistry" where
  "reg_run w ops r = fold (reg_step w) ops r"

definition regOp_ok :: "regOp \<Rightarrow> bool" where
  "regOp_ok x = (case x of Links y \<Rightarrow> linkOp_ok y | Restored rows \<Rightarrow> (\<forall>rec\<in>set rows. row_ok rec) | _ \<Rightarrow> True)"

lemma links_inv_reg_run:
  "links_inv r \<Longrightarrow> (\<forall>x\<in>set ops. regOp_ok x) \<Longrightarrow> links_inv (reg_run w ops r)"
proof -
  have step: "links_inv (reg_step w x r)" if "links_inv r" "regOp_ok x" for x r
  proof (cases x)
    case (Links y)
    then show ?thesis using that by (cases y)
      (auto simp: regOp_ok_def linkOp_ok_def links_inv_observeLink links_inv_sweep)
  qed (use that links_Restore_inv links_inv_TakeDirty links_Requeue_laws
       in \<open>auto simp: regOp_ok_def\<close>)
  show "links_inv r \<Longrightarrow> (\<forall>x\<in>set ops. regOp_ok x) \<Longrightarrow> ?thesis"
    unfolding reg_run_def by (induction ops arbitrary: r) (simp_all add: step)
qed

text \<open>C7: Stored links stay consistent: after any sequence of observations, sweeps, restores, flushes
  and requeues, a stored link is filed under its own canonical key with its endpoints in canonical
  order, its two directional counts and its per-source counts both sum to its packet count, it keeps
  at most five SNRs per direction, its networks are distinct, and each network's directional counts
  sum to the network's packet count.\<close>

theorem stored_links_consistent:
  assumes "\<forall>x\<in>set ops. regOp_ok x"
    and "lookup_link (reg_run w ops (newLinkRegistry hl)) k = Some rec"
  shows "l_Key rec = k \<and> valid_key k \<and> l_NodeA rec = key_nodeA k \<and> l_NodeB rec = key_nodeB k \<and>
    l_DirAB rec + l_DirBA rec = l_PacketCount rec \<and>
    msum (\<lambda>v. v) (l_SourceCounts rec) = l_PacketCount rec \<and>
    length (l_SNRsAB rec) \<le> 5 \<and> length (l_SNRsBA rec) \<le> 5 \<and>
    distinct (map n_NetworkID (l_Networks rec)) \<and>
    (\<forall>n\<in>set (l_Networks rec). n_DirAB n + n_DirBA n = n_PacketCount n)"
proof -
  have "registry_ok (reg_run w ops (newLinkRegistry hl))"
    using links_inv_reg_run [OF links_inv_new assms(1)] by (simp add: links_inv_def)
  from registry_ok_lookup [OF this assms(2)] show ?thesis
    by (auto simp: link_ok_def networks_ok_def network_ok_def linkSNRHistoryLimit_def)
qed


text \<open>Merging a restored link into a live one that was observed before the restore finished adds
  the counts in each direction and per source, keeps the later times, and the merged score decays to
  the sum of the two scores; the result is independent of which side came first.\<close>

theorem merge_restored_totals:
  assumes "0 < hl" and "0 < l_ScoreUpdatedAt ex" and "0 < l_ScoreUpdatedAt rec"
    and "l_ScoreUpdatedAt ex \<le> now" and "l_ScoreUpdatedAt rec \<le> now"
  shows "l_PacketCount (mergeRestoredLink hl rec ex) = l_PacketCount ex + l_PacketCount rec \<and>
    l_DirAB (mergeRestoredLink hl rec ex) = l_DirAB ex + l_DirAB rec \<and>
    l_DirBA (mergeRestoredLink hl rec ex) = l_DirBA ex + l_DirBA rec \<and>
    l_LastSeen (mergeRestoredLink hl rec ex) = max (l_LastSeen ex) (l_LastSeen rec) \<and>
    decayedScore (l_Score (mergeRestoredLink hl rec ex)) (l_ScoreUpdatedAt (mergeRestoredLink hl rec ex)) now hl
      = decayedScore (l_Score ex) (l_ScoreUpdatedAt ex) now hl
        + decayedScore (l_Score rec) (l_ScoreUpdatedAt rec) now hl \<and>
    l_Score (mergeRestoredLink hl rec ex) = l_Score (mergeRestoredLink hl ex rec)"
proof -
  let ?a = "l_Score ex" and ?at = "l_ScoreUpdatedAt ex" and ?b = "l_Score rec" and ?bt = "l_ScoreUpdatedAt rec"
  have "combinedScore ?a ?at ?b ?bt hl = combinedScore ?b ?bt ?a ?at hl"
    and "decayedScore (combinedScore ?a ?at ?b ?bt hl) (max ?at ?bt) now hl
      = decayedScore ?a ?at now hl + decayedScore ?b ?bt now hl"
    using combined_score_laws [OF assms, of ?a ?b] by (rule conjunct1, rule conjunct2)
  then show ?thesis unfolding mergeRestoredLink_simps by (intro conjI refl)
qed

subsection \<open>Witnesses\<close>

definition ex_row :: LinkRecord where
  "ex_row = count_event 60 (ex_ob ''aa'' True 10) (new_link ex_key 10)"

lemma ex_row_ok: "link_ok ex_row"
  unfolding ex_row_def by (intro link_ok_count_event link_ok_new) simp

lemma o_key_ex_ob [simp]: "o_key (ex_ob h d t) = ex_key"
  by (simp add: ex_ob_def)

lemma stored_links_consistent_witness:
  "\<exists>rec. lookup_link (reg_run 60 [Links (ObsLink (ex_ob ''aa'' True 10)), Restored [ex_row], Taken]
      (newLinkRegistry 60)) ex_key = Some rec \<and> l_DirAB rec + l_DirBA rec = l_PacketCount rec"
proof -
  let ?ops = "[Links (ObsLink (ex_ob ''aa'' True 10)), Restored [ex_row], Taken]"
  have ok: "\<forall>x\<in>set ?ops. regOp_ok x"
    using ex_row_ok by (simp add: regOp_ok_def linkOp_ok_def link_ok_row_ok)
  let ?r1 = "observeLink (ex_ob ''aa'' True 10) (newLinkRegistry 60)"
  have inv: "links_inv ?r1" by (intro links_inv_observeLink links_inv_new) simp
  have k: "keyFromPair (l_NodeA ex_row) (l_NodeB ex_row) = Some ex_key"
    using keyFromPair_link_ok [OF ex_row_ok] by (simp add: ex_row_def new_link_def)
  have "lookup_link (links_Restore [ex_row] ?r1) ex_key \<noteq> None"
    using links_inv_len [OF inv] by (simp add: links_Restore_def restoreLink_eq k lookup_setLink)
  moreover have "links_inv (links_Restore [ex_row] ?r1)"
    using inv ex_row_ok by (intro links_Restore_inv) (simp_all add: link_ok_row_ok)
  ultimately have "lookup_link (reg_run 60 ?ops (newLinkRegistry 60)) ex_key \<noteq> None"
    by (simp add: reg_run_def lookup_TakeDirty links_inv_len)
  then obtain rec where rec: "lookup_link (reg_run 60 ?ops (newLinkRegistry 60)) ex_key = Some rec" by blast
  with stored_links_consistent [OF ok rec] show ?thesis by blast
qed


lemma merge_restored_totals_witness:
  "l_PacketCount (mergeRestoredLink 60 ex_row ex_row) = 2"
  using merge_restored_totals [of 60 ex_row ex_row 20] by (simp add: ex_row_def new_link_def ex_ob_def)

end
