(* ===== verification/GoSort.thy ===== *)
theory GoSort
  imports GoPrelude "HOL-Library.Multiset"
begin

text \<open>
  \<open>sort.Slice\<close>: sorting a slice by a \<open>less\<close> function. The library sorts in place and is not stable;
  what its callers rely on is that the result is a permutation in which no element is less than an
  earlier one, which holds of \<open>sort_by\<close> whenever \<open>less\<close> is a strict weak order. When \<open>less\<close> is total
  on the elements (every caller breaks ties by a unique key) that result is unique, so \<open>sort_by\<close> is
  the sort's result.
\<close>

primrec insert_by :: "('a \<Rightarrow> 'a \<Rightarrow> bool) \<Rightarrow> 'a \<Rightarrow> 'a list \<Rightarrow> 'a list" where
  "insert_by lt x [] = [x]"
| "insert_by lt x (y # ys) = (if lt y x then y # insert_by lt x ys else x # y # ys)"

primrec sort_by :: "('a \<Rightarrow> 'a \<Rightarrow> bool) \<Rightarrow> 'a list \<Rightarrow> 'a list" where
  "sort_by lt [] = []"
| "sort_by lt (x # xs) = insert_by lt x (sort_by lt xs)"

lemma mset_insert_by [simp]: "mset (insert_by lt x xs) = add_mset x (mset xs)"
  by (induction xs) auto

lemma mset_sort_by [simp]: "mset (sort_by lt xs) = mset xs"
  by (induction xs) auto

lemma set_sort_by [simp]: "set (sort_by lt xs) = set xs"
  using mset_sort_by [of lt xs] by (metis set_mset_mset)

lemma length_sort_by [simp]: "length (sort_by lt xs) = length xs"
  using mset_sort_by [of lt xs] by (metis size_mset)

lemma distinct_sort_by [simp]: "distinct (sort_by lt xs) = distinct xs"
  using mset_sort_by [of lt xs] by (metis mset_eq_imp_distinct_iff)

text \<open>The promise a \<open>less\<close> function makes to \<open>sort.Slice\<close>.\<close>

locale strict_weak =
  fixes lt :: "'a \<Rightarrow> 'a \<Rightarrow> bool"
  assumes asym: "lt x y \<Longrightarrow> \<not> lt y x"
    and negtrans: "\<not> lt x y \<Longrightarrow> \<not> lt y z \<Longrightarrow> \<not> lt x z"
begin

lemma sorted_insert_by:
  "sorted_wrt (\<lambda>x y. \<not> lt y x) xs \<Longrightarrow> sorted_wrt (\<lambda>x y. \<not> lt y x) (insert_by lt x xs)"
proof (induction xs)
  case (Cons y ys)
  show ?case
  proof (cases "lt y x")
    case True
    have "set (insert_by lt x ys) = insert x (set ys)"
      using mset_insert_by [of lt x ys] by (metis set_mset_add_mset_insert set_mset_mset)
    then show ?thesis using True Cons asym [OF True] by auto
  next
    case False
    then show ?thesis using Cons negtrans [of _ y x] by auto
  qed
qed simp

lemma sorted_sort_by: "sorted_wrt (\<lambda>x y. \<not> lt y x) (sort_by lt xs)"
  by (induction xs) (auto intro: sorted_insert_by)

end

text \<open>A lexicographic comparison: a number first (larger first), then a key of a linear order.\<close>

definition by_desc_then :: "('a \<Rightarrow> 'b::linorder) \<Rightarrow> ('a \<Rightarrow> 'c::linorder) \<Rightarrow> 'a \<Rightarrow> 'a \<Rightarrow> bool" where
  "by_desc_then f g a b \<longleftrightarrow> (if f a \<noteq> f b then f a > f b else g a < g b)"

interpretation desc_then: strict_weak "by_desc_then f g" for f :: "'a \<Rightarrow> 'b::linorder" and g :: "'a \<Rightarrow> 'c::linorder"
  by unfold_locales (auto simp: by_desc_then_def split: if_splits)

definition by_key :: "('a \<Rightarrow> 'b::linorder) \<Rightarrow> 'a \<Rightarrow> 'a \<Rightarrow> bool" where
  "by_key f a b \<longleftrightarrow> f a < f b"

interpretation by_key: strict_weak "by_key f" for f :: "'a \<Rightarrow> 'b::linorder"
  by unfold_locales (auto simp: by_key_def)

text \<open>Three levels: a rank (smaller first), a time (larger first), then a key.\<close>

definition by_rank_desc_then ::
  "('a \<Rightarrow> 'b::linorder) \<Rightarrow> ('a \<Rightarrow> 'c::linorder) \<Rightarrow> ('a \<Rightarrow> 'd::linorder) \<Rightarrow> 'a \<Rightarrow> 'a \<Rightarrow> bool" where
  "by_rank_desc_then h f g a b \<longleftrightarrow> (if h a \<noteq> h b then h a < h b else by_desc_then f g a b)"

interpretation rank_desc_then: strict_weak "by_rank_desc_then h f g"
  for h :: "'a \<Rightarrow> 'b::linorder" and f :: "'a \<Rightarrow> 'c::linorder" and g :: "'a \<Rightarrow> 'd::linorder"
  by unfold_locales (auto simp: by_rank_desc_then_def by_desc_then_def split: if_splits)

end
