(* ===== verification/LinkViews.thy ===== *)
theory LinkViews
  imports LinkPersist GoSort
begin

text \<open>
  The read side of the link registry (links.go): \<open>LinksForNode\<close> describes every link of a node from
  that node's side, \<open>withNetworkFilter\<close> restricts a description to some networks,
  \<open>sortNeighborsByActivity\<close> orders them. A link is seen symmetrically by its two endpoints.
\<close>

record LinkNetworkDetail =
  nd_NetworkID :: string
  nd_PacketCount :: u64
  nd_SentByNode :: u64
  nd_RecvByNode :: u64
  nd_FirstSeen :: unix_time
  nd_LastSeen :: unix_time
  nd_Quality :: string
  nd_LowConfidence :: bool
  nd_LowConfidenceCount :: u64
  nd_LastHashSentByNode :: string
  nd_LastHashRecvByNode :: string

record LinkNeighbor =
  ln_Neighbor :: string
  ln_PacketCount :: u64
  ln_RecentActivity :: float64
  ln_FirstSeen :: unix_time
  ln_LastSeen :: unix_time
  ln_Networks :: "string list"
  ln_NetworkDetails :: "LinkNetworkDetail list"
  ln_Quality :: string
  ln_LowConfidence :: bool
  ln_LowConfidenceCount :: u64
  ln_SentByNode :: u64
  ln_RecvByNode :: u64
  ln_LastHashSentByNode :: string
  ln_LastHashRecvByNode :: string
  ln_LastSNRSentByNode :: float64
  ln_HasSNRSentByNode :: bool
  ln_LastSNRRecvByNode :: float64
  ln_HasSNRRecvByNode :: bool
  ln_SNRSentByNode :: "float64 list"
  ln_SNRRecvByNode :: "float64 list"
  ln_Sources :: "(string, u64) gomap"
  ln_HasPos :: bool
  ln_NodeLat :: float64
  ln_NodeLon :: float64
  ln_NeighborLat :: float64
  ln_NeighborLon :: float64
  ln_Moved :: bool
  ln_SegmentCount :: nat

definition networkDetail :: "bool \<Rightarrow> linkNetwork \<Rightarrow> LinkNetworkDetail" where
  "networkDetail nodeIsA n =
     \<lparr>nd_NetworkID = n_NetworkID n, nd_PacketCount = n_PacketCount n,
      nd_SentByNode = (if nodeIsA then n_DirAB n else n_DirBA n),
      nd_RecvByNode = (if nodeIsA then n_DirBA n else n_DirAB n),
      nd_FirstSeen = n_FirstSeen n, nd_LastSeen = n_LastSeen n,
      nd_Quality = linkQuality (n_PacketCount n) (n_LowConfidenceCount n),
      nd_LowConfidence = (n_LowConfidenceCount n > 0), nd_LowConfidenceCount = n_LowConfidenceCount n,
      nd_LastHashSentByNode = (if nodeIsA then n_LastHashAB n else n_LastHashBA n),
      nd_LastHashRecvByNode = (if nodeIsA then n_LastHashBA n else n_LastHashAB n)\<rparr>"

definition linkView :: "float64 \<Rightarrow> unix_time \<Rightarrow> bool \<Rightarrow> pubKey \<Rightarrow> LinkRecord \<Rightarrow> LinkNeighbor" where
  "linkView halfLife now nodeIsA neighbor rec =
     (let sent = (if nodeIsA then l_SNRsAB rec else l_SNRsBA rec);
          recv = (if nodeIsA then l_SNRsBA rec else l_SNRsAB rec)
      in \<lparr>ln_Neighbor = hex_encode neighbor, ln_PacketCount = l_PacketCount rec,
          ln_RecentActivity = decayedScore (l_Score rec) (l_ScoreUpdatedAt rec) now halfLife,
          ln_FirstSeen = l_FirstSeen rec, ln_LastSeen = l_LastSeen rec,
          ln_Networks = map n_NetworkID (l_Networks rec),
          ln_NetworkDetails = map (networkDetail nodeIsA) (l_Networks rec),
          ln_Quality = linkQuality (l_PacketCount rec) (l_LowConfidenceCount rec),
          ln_LowConfidence = (l_LowConfidenceCount rec > 0),
          ln_LowConfidenceCount = l_LowConfidenceCount rec,
          ln_SentByNode = (if nodeIsA then l_DirAB rec else l_DirBA rec),
          ln_RecvByNode = (if nodeIsA then l_DirBA rec else l_DirAB rec),
          ln_LastHashSentByNode = (if nodeIsA then l_LastHashAB rec else l_LastHashBA rec),
          ln_LastHashRecvByNode = (if nodeIsA then l_LastHashBA rec else l_LastHashAB rec),
          ln_LastSNRSentByNode = (if sent = [] then 0 else last sent),
          ln_HasSNRSentByNode = (sent \<noteq> []),
          ln_LastSNRRecvByNode = (if recv = [] then 0 else last recv),
          ln_HasSNRRecvByNode = (recv \<noteq> []),
          ln_SNRSentByNode = sent, ln_SNRRecvByNode = recv,
          ln_Sources = copyCounts (l_SourceCounts rec),
          ln_HasPos = l_HasPos rec,
          ln_NodeLat = (if nodeIsA then l_LatA rec else l_LatB rec),
          ln_NodeLon = (if nodeIsA then l_LonA rec else l_LonB rec),
          ln_NeighborLat = (if nodeIsA then l_LatB rec else l_LatA rec),
          ln_NeighborLon = (if nodeIsA then l_LonB rec else l_LonA rec),
          ln_Moved = (l_Segments rec \<noteq> []), ln_SegmentCount = length (l_Segments rec)\<rparr>)"

text \<open>The switch on which end of the key the node is; \<open>None\<close> skips the link.\<close>

definition viewFrom :: "float64 \<Rightarrow> unix_time \<Rightarrow> pubKey \<Rightarrow> linkKey \<times> LinkRecord \<Rightarrow> LinkNeighbor option" where
  "viewFrom halfLife now node = (\<lambda>(key, rec).
     if take 32 key = node then Some (linkView halfLife now True (drop 32 key) rec)
     else if drop 32 key = node then Some (linkView halfLife now False (take 32 key) rec)
     else None)"

definition LinksForNode :: "LinkRegistry \<Rightarrow> pubKey \<Rightarrow> unix_time \<Rightarrow> LinkNeighbor list" where
  "LinksForNode r node now = List.map_filter (viewFrom (r_halfLife r) now node) (all_links r)"

subsection \<open>Network filter\<close>

record filterAcc =
  fa_details :: "LinkNetworkDetail list"
  fa_networks :: "string list"
  fa_packetCount :: u64
  fa_sent :: u64
  fa_recv :: u64
  fa_low :: u64
  fa_first :: unix_time
  fa_last :: unix_time
  fa_lastSent :: string
  fa_lastRecv :: string

definition filterStep :: "(string, bool) gomap \<Rightarrow> LinkNetworkDetail \<Rightarrow> filterAcc \<Rightarrow> filterAcc" where
  "filterStep flt d a =
     (if \<not> mhas flt (nd_NetworkID d) then a
      else let a = a\<lparr>fa_details := fa_details a @ [d], fa_networks := fa_networks a @ [nd_NetworkID d],
              fa_packetCount := fa_packetCount a + nd_PacketCount d,
              fa_sent := fa_sent a + nd_SentByNode d, fa_recv := fa_recv a + nd_RecvByNode d,
              fa_low := fa_low a + nd_LowConfidenceCount d\<rparr>;
            a = (if fa_first a = 0 \<or> (nd_FirstSeen d > 0 \<and> nd_FirstSeen d < fa_first a)
                 then a\<lparr>fa_first := nd_FirstSeen d\<rparr> else a)
      in if nd_LastSeen d > fa_last a
         then a\<lparr>fa_last := nd_LastSeen d, fa_lastSent := nd_LastHashSentByNode d,
                fa_lastRecv := nd_LastHashRecvByNode d\<rparr> else a)"

definition filterInit :: filterAcc where
  "filterInit = \<lparr>fa_details = [], fa_networks = [], fa_packetCount = 0, fa_sent = 0, fa_recv = 0,
     fa_low = 0, fa_first = 0, fa_last = 0, fa_lastSent = '''', fa_lastRecv = ''''\<rparr>"

definition withNetworkFilter :: "(string, bool) gomap \<Rightarrow> LinkNeighbor \<Rightarrow> LinkNeighbor option" where
  "withNetworkFilter flt nb =
     (if mlen flt = 0 then Some nb
      else let a = fold (filterStep flt) (ln_NetworkDetails nb) filterInit
        in if fa_details a = [] then None
           else Some (nb\<lparr>ln_NetworkDetails := fa_details a, ln_Networks := fa_networks a,
             ln_PacketCount := fa_packetCount a, ln_SentByNode := fa_sent a, ln_RecvByNode := fa_recv a,
             ln_LowConfidenceCount := fa_low a, ln_LowConfidence := (fa_low a > 0),
             ln_Quality := linkQuality (fa_packetCount a) (fa_low a),
             ln_FirstSeen := fa_first a, ln_LastSeen := fa_last a,
             ln_LastHashSentByNode := fa_lastSent a, ln_LastHashRecvByNode := fa_lastRecv a\<rparr>))"

text \<open>More recent activity first, then the neighbour's key.\<close>

definition sortNeighborsByActivity :: "LinkNeighbor list \<Rightarrow> LinkNeighbor list" where
  "sortNeighborsByActivity links = sort_by (by_desc_then ln_RecentActivity ln_Neighbor) links"

subsection \<open>Lemmas\<close>

lemma set_map_filter: "v \<in> set (List.map_filter f xs) \<longleftrightarrow> (\<exists>x\<in>set xs. f x = Some v)"
  by (induction xs) (auto simp: List.map_filter_simps split: option.splits)

lemma set_LinksForNode:
  "v \<in> set (LinksForNode r node now) \<longleftrightarrow>
     (\<exists>k rec. (k, rec) \<in> set (all_links r) \<and> viewFrom (r_halfLife r) now node (k, rec) = Some v)"
  by (auto simp: LinksForNode_def set_map_filter)

lemma LinksForNode_iff:
  assumes "registry_ok r"
  shows "v \<in> set (LinksForNode r node now) \<longleftrightarrow>
    (\<exists>k rec. lookup_link r k = Some rec \<and> viewFrom (r_halfLife r) now node (k, rec) = Some v)"
  using all_links_iff [OF assms] by (simp add: set_LinksForNode)

lemma registry_ok_valid: "registry_ok r \<Longrightarrow> lookup_link r k = Some rec \<Longrightarrow> valid_key k"
  using registry_ok_lookup by (fastforce simp: link_ok_def)

lemma ln_Neighbor_linkView [simp]: "ln_Neighbor (linkView hl now c b rec) = hex_encode b"
  by (simp add: linkView_def Let_def)

lemma viewFrom_ends:
  assumes "viewFrom hl now node (k, rec) = Some v" and "ln_Neighbor v = hex_encode b"
  shows "{take 32 k, drop 32 k} = {node, b}"
  using assms by (auto simp: viewFrom_def split: if_splits)

lemma viewFrom_neighbor:
  "viewFrom hl now node (k, rec) = Some v \<Longrightarrow> \<exists>b. ln_Neighbor v = hex_encode b"
  by (auto simp: viewFrom_def split: if_splits)

text \<open>The link between two nodes as each of them sees it.\<close>

lemma view_between:
  assumes ok: "registry_ok r" and "length a = 32" and "length b = 32" and "a \<noteq> b"
  shows "(\<exists>v\<in>set (LinksForNode r a now). ln_Neighbor v = hex_encode b) \<longleftrightarrow>
    (\<exists>k. canonicalKey a b = Some k \<and> lookup_link r k \<noteq> None)"
proof
  assume "\<exists>v\<in>set (LinksForNode r a now). ln_Neighbor v = hex_encode b"
  then obtain v k rec where l: "lookup_link r k = Some rec" "viewFrom (r_halfLife r) now a (k, rec) = Some v"
      "ln_Neighbor v = hex_encode b" using LinksForNode_iff [OF ok] by blast
  then have "{take 32 k, drop 32 k} = {a, b}" by (intro viewFrom_ends)
  moreover have "canonicalKey (take 32 k) (drop 32 k) = Some k"
    by (rule canonicalKey_split [OF registry_ok_valid [OF ok l(1)]])
  ultimately have "canonicalKey a b = Some k"
    by (metis canonicalKey_commute doubleton_eq_iff)
  with l(1) show "\<exists>k. canonicalKey a b = Some k \<and> lookup_link r k \<noteq> None" by auto
next
  assume "\<exists>k. canonicalKey a b = Some k \<and> lookup_link r k \<noteq> None"
  then obtain k rec where k: "canonicalKey a b = Some k" "lookup_link r k = Some rec" by blast
  have "{take 32 k, drop 32 k} = {a, b}" by (rule canonicalKey_ends_set [OF k(1) assms(2,3)])
  then have "\<exists>v. viewFrom (r_halfLife r) now a (k, rec) = Some v \<and> ln_Neighbor v = hex_encode b"
    using assms(4) by (auto simp: viewFrom_def doubleton_eq_iff)
  with k(2) show "\<exists>v\<in>set (LinksForNode r a now). ln_Neighbor v = hex_encode b"
    using LinksForNode_iff [OF ok] by blast
qed

lemma distinct_LinksForNode:
  assumes ok: "registry_ok r"
  shows "distinct (map ln_Neighbor (LinksForNode r node now))"
proof -
  have d: "distinct (map fst (all_links r))"
  proof -
    have "distinct (map fst (concat (map (\<lambda>sh. mentries (sh_links sh)) shs)))"
      if "\<forall>i<length shs. \<forall>k. mget (sh_links (shs ! i)) k \<noteq> None \<longrightarrow> shardIndex k = n + i" for shs n
      using that
    proof (induction shs arbitrary: n)
      case (Cons sh shs)
      have "distinct (map fst (concat (map (\<lambda>sh. mentries (sh_links sh)) shs)))"
        using Cons.prems by (intro Cons.IH [of "Suc n"]) force
      moreover have "shardIndex k = n" if "k \<in> fst ` set (mentries (sh_links sh))" for k
        using that Cons.prems by (force simp: mentries_iff)
      moreover have "shardIndex k > n"
        if "k \<in> fst ` set (concat (map (\<lambda>sh. mentries (sh_links sh)) shs))" for k
      proof -
        from that obtain sh' rec where "sh' \<in> set shs" "mget (sh_links sh') k = Some rec"
          by (auto simp: mentries_iff)
        then obtain i where "i < length shs" "mget (sh_links (shs ! i)) k \<noteq> None"
          by (metis in_set_conv_nth option.distinct(1))
        then show ?thesis using Cons.prems by force
      qed
      ultimately show ?case by fastforce
    qed simp
    from this [of "r_shards r" 0] ok show ?thesis
      unfolding all_links_def by (fastforce simp: registry_ok_def)
  qed
  have "distinct (map ln_Neighbor (List.map_filter (viewFrom hl now node) xs))"
    if "distinct (map fst xs)" "\<forall>(k, rec)\<in>set xs. valid_key k" for xs hl
    using that
  proof (induction xs)
    case (Cons x xs)
    obtain k rec where x: "x = (k, rec)" by (cases x)
    have "ln_Neighbor v \<noteq> ln_Neighbor v'"
      if v: "viewFrom hl now node x = Some v" and v': "v' \<in> set (List.map_filter (viewFrom hl now node) xs)" for v v'
    proof
      assume eq: "ln_Neighbor v = ln_Neighbor v'"
      obtain k' rec' where k': "(k', rec') \<in> set xs" "viewFrom hl now node (k', rec') = Some v'"
        using v' by (auto simp: set_map_filter)
      obtain b where b: "ln_Neighbor v' = hex_encode b" using viewFrom_neighbor [OF k'(2)] by blast
      have "{take 32 k, drop 32 k} = {take 32 k', drop 32 k'}"
        using viewFrom_ends [OF v [unfolded x]] viewFrom_ends [OF k'(2)] eq b by simp
      moreover have "canonicalKey (take 32 k) (drop 32 k) = Some k" "canonicalKey (take 32 k') (drop 32 k') = Some k'"
        using Cons.prems(2) k'(1) x by (auto intro!: canonicalKey_split)
      ultimately have "k = k'" by (metis canonicalKey_commute doubleton_eq_iff option.inject)
      then show False using Cons.prems(1) k'(1) x by force
    qed
    then show ?case using Cons by (auto simp: List.map_filter_simps split: option.splits)
  qed (simp add: List.map_filter_simps)
  from this [OF d] show ?thesis
    unfolding LinksForNode_def using all_links_iff [OF ok] registry_ok_valid [OF ok] by blast
qed

lemma filterSteps:
  "fold (filterStep flt) ds a =
    (fold (filterStep flt) (filter (\<lambda>d. mhas flt (nd_NetworkID d)) ds) a)"
  by (induction ds arbitrary: a) (auto simp: filterStep_def)

lemma filterSteps_sums:
  assumes "\<forall>d\<in>set ds. mhas flt (nd_NetworkID d)"
  shows "fa_details (fold (filterStep flt) ds a) = fa_details a @ ds \<and>
    fa_networks (fold (filterStep flt) ds a) = fa_networks a @ map nd_NetworkID ds \<and>
    fa_packetCount (fold (filterStep flt) ds a) = fa_packetCount a + sum_list (map nd_PacketCount ds) \<and>
    fa_sent (fold (filterStep flt) ds a) = fa_sent a + sum_list (map nd_SentByNode ds) \<and>
    fa_recv (fold (filterStep flt) ds a) = fa_recv a + sum_list (map nd_RecvByNode ds)"
  using assms
proof (induction ds arbitrary: a)
  case (Cons d ds)
  then show ?case using Cons.IH [of "filterStep flt d a"] by (simp add: filterStep_def Let_def add.assoc)
qed simp

lemma filterSteps_last:
  assumes "\<forall>d\<in>set ds. mhas flt (nd_NetworkID d)"
  shows "fa_last (fold (filterStep flt) ds a) = fold max (map nd_LastSeen ds) (fa_last a)"
  using assms
proof (induction ds arbitrary: a)
  case (Cons d ds)
  have "fa_last (filterStep flt d a) = max (nd_LastSeen d) (fa_last a)"
    using Cons.prems by (simp add: filterStep_def Let_def)
  then show ?case using Cons by simp
qed simp

lemma mirror_pair:
  assumes ok: "registry_ok r" and "length a = 32" and "length b = 32" and "a \<noteq> b"
    and "v \<in> set (LinksForNode r a now)" and "ln_Neighbor v = hex_encode b"
    and "u \<in> set (LinksForNode r b now)" and "ln_Neighbor u = hex_encode a"
  shows "\<exists>rec c. v = linkView (r_halfLife r) now c b rec \<and> u = linkView (r_halfLife r) now (\<not> c) a rec"
proof -
  obtain k rec where k: "lookup_link r k = Some rec" "viewFrom (r_halfLife r) now a (k, rec) = Some v"
    using assms(5) LinksForNode_iff [OF ok] by blast
  obtain k' rec' where k': "lookup_link r k' = Some rec'" "viewFrom (r_halfLife r) now b (k', rec') = Some u"
    using assms(7) LinksForNode_iff [OF ok] by blast
  have ends: "{take 32 k, drop 32 k} = {a, b}" "{take 32 k', drop 32 k'} = {a, b}"
    using viewFrom_ends [OF k(2) assms(6)] viewFrom_ends [OF k'(2) assms(8)] by auto
  moreover have "canonicalKey (take 32 k) (drop 32 k) = Some k" "canonicalKey (take 32 k') (drop 32 k') = Some k'"
    using k(1) k'(1) by (auto intro!: canonicalKey_split registry_ok_valid [OF ok])
  ultimately have "k' = k" by (metis canonicalKey_commute doubleton_eq_iff option.inject)
  then have "rec' = rec" using k(1) k'(1) by simp
  with \<open>k' = k\<close> have "v = linkView (r_halfLife r) now (take 32 k = a) b rec \<and>
      u = linkView (r_halfLife r) now (\<not> take 32 k = a) a rec"
    using k(2) k'(2) ends(1) assms(4)
    by (cases "take 32 k = a") (auto simp: viewFrom_def doubleton_eq_iff split: if_splits)
  then show ?thesis by blast
qed

subsection \<open>Properties\<close>

text \<open>What one end sends the other receives; the rest is the same.\<close>

definition mirrors :: "LinkNeighbor \<Rightarrow> LinkNeighbor \<Rightarrow> bool" where
  "mirrors v u \<longleftrightarrow> ln_SentByNode v = ln_RecvByNode u \<and> ln_RecvByNode v = ln_SentByNode u \<and>
     ln_LastHashSentByNode v = ln_LastHashRecvByNode u \<and> ln_SNRSentByNode v = ln_SNRRecvByNode u \<and>
     ln_LastSNRSentByNode v = ln_LastSNRRecvByNode u \<and>
     ln_NodeLat v = ln_NeighborLat u \<and> ln_NodeLon v = ln_NeighborLon u \<and>
     ln_PacketCount v = ln_PacketCount u \<and> ln_RecentActivity v = ln_RecentActivity u \<and>
     ln_FirstSeen v = ln_FirstSeen u \<and> ln_LastSeen v = ln_LastSeen u \<and> ln_Networks v = ln_Networks u \<and>
     map nd_SentByNode (ln_NetworkDetails v) = map nd_RecvByNode (ln_NetworkDetails u)"

lemma mirrors_linkView: "mirrors (linkView hl now c b rec) (linkView hl now (\<not> c) a rec)"
  by (cases c) (simp_all add: mirrors_def linkView_def networkDetail_def Let_def)

text \<open>A link is visible from both its ends, and the two views mirror each other: one node lists the
  other as neighbour exactly when the other lists it, each neighbour is listed once, and what one
  sees as sent the other sees as received (packets overall and per network, last hashes, SNRs,
  positions), with the same totals, times, score and networks.\<close>

theorem link_views_mirror:
  assumes "registry_ok r" and "length a = 32" and "length b = 32" and "a \<noteq> b"
  shows "(\<exists>v\<in>set (LinksForNode r a now). ln_Neighbor v = hex_encode b) =
      (\<exists>v\<in>set (LinksForNode r b now). ln_Neighbor v = hex_encode a) \<and>
    distinct (map ln_Neighbor (LinksForNode r a now)) \<and>
    (\<forall>v\<in>set (LinksForNode r a now). \<forall>u\<in>set (LinksForNode r b now).
       ln_Neighbor v = hex_encode b \<and> ln_Neighbor u = hex_encode a \<longrightarrow> mirrors v u)"
proof -
  have "mirrors v u" if "v \<in> set (LinksForNode r a now)" "ln_Neighbor v = hex_encode b"
    "u \<in> set (LinksForNode r b now)" "ln_Neighbor u = hex_encode a" for v u
    using mirror_pair [OF assms that] mirrors_linkView by blast
  then show ?thesis
    using view_between [OF assms, of now] view_between [OF assms(1,3,2) assms(4) [symmetric], of now]
      distinct_LinksForNode [OF assms(1)]
    by (simp add: canonicalKey_commute [of a b])
qed

text \<open>Filtering a link by networks keeps exactly the matching networks, in order, and recomputes the
  packet, sent and received counts as their sums and the last-seen time as their latest; a link with
  no matching network is dropped, and an empty filter changes nothing.\<close>

theorem network_filter_exact:
  "let ds = filter (\<lambda>d. mhas flt (nd_NetworkID d)) (ln_NetworkDetails v) in
   if mlen flt = 0 then withNetworkFilter flt v = Some v
   else if ds = [] then withNetworkFilter flt v = None
   else \<exists>u. withNetworkFilter flt v = Some u \<and>
     ln_NetworkDetails u = ds \<and> ln_Networks u = map nd_NetworkID ds \<and>
     ln_PacketCount u = sum_list (map nd_PacketCount ds) \<and>
     ln_SentByNode u = sum_list (map nd_SentByNode ds) \<and>
     ln_RecvByNode u = sum_list (map nd_RecvByNode ds) \<and>
     ln_LastSeen u = fold max (map nd_LastSeen ds) 0 \<and>
     ln_Neighbor u = ln_Neighbor v \<and> ln_RecentActivity u = ln_RecentActivity v"
proof -
  let ?ds = "filter (\<lambda>d. mhas flt (nd_NetworkID d)) (ln_NetworkDetails v)"
  have ds: "\<forall>d\<in>set ?ds. mhas flt (nd_NetworkID d)" by simp
  note sums = filterSteps_sums [OF ds, of filterInit] filterSteps_last [OF ds, of filterInit]
  have acc: "fold (filterStep flt) (ln_NetworkDetails v) filterInit = fold (filterStep flt) ?ds filterInit"
    by (rule filterSteps)
  have i: "fa_details filterInit = []" "fa_networks filterInit = []" "fa_packetCount filterInit = 0"
    "fa_sent filterInit = 0" "fa_recv filterInit = 0" "fa_last filterInit = 0"
    by (simp_all add: filterInit_def)
  show ?thesis
    unfolding withNetworkFilter_def acc Let_def using sums by (simp add: i)
qed

subsection \<open>Witnesses\<close>

lemma link_views_mirror_witness:
  "\<exists>v\<in>set (LinksForNode (observeLink (ex_ob ''aa'' True 10) (newLinkRegistry 60)) (ex_node 170) 20).
     ln_Neighbor v = hex_encode (ex_node 187) \<and>
     (\<exists>u\<in>set (LinksForNode (observeLink (ex_ob ''aa'' True 10) (newLinkRegistry 60)) (ex_node 187) 20).
        mirrors v u)"
proof -
  let ?r = "observeLink (ex_ob ''aa'' True 10) (newLinkRegistry 60)"
  have ok: "registry_ok ?r" by (intro registry_ok_observeLink registry_ok_new) simp
  have ne: "ex_node 170 \<noteq> ex_node 187" by simp
  have "lookup_link ?r ex_key \<noteq> None"
    by (simp add: lookup_link_observeLink newLinkRegistry_def)
  then have v: "\<exists>v\<in>set (LinksForNode ?r (ex_node 170) 20). ln_Neighbor v = hex_encode (ex_node 187)"
    using view_between [OF ok _ _ ne, of 20] by simp
  with link_views_mirror [OF ok _ _ ne, of 20] show ?thesis
    by (metis ex_node_length)
qed

end
