(* ===== verification/Route.thy ===== *)
theory Route
  imports RouteSearch LinkViews
begin

text \<open>
  Best-effort routing over the observed links (route.go): the cost of a link, the graph built from
  the registry and cached for 15 seconds, and \<open>RouteBetween\<close>. The graph is symmetric with positive
  costs, so the search of \<open>RouteSearch\<close> finds a cheapest route whenever one exists.
\<close>

subsection \<open>Costs and the graph\<close>

definition routeHopBase :: float64 where
  "routeHopBase = 1"

definition routeCacheTTL :: int where
  "routeCacheTTL = 15"

definition edgeCost :: "float64 \<Rightarrow> unix_time \<Rightarrow> unix_time \<Rightarrow> float64" where
  "edgeCost recentActivity lastSeen now =
     (let ageDays = max 0 (real_of_int (now - lastSeen) / 86400);
          recency = exp (- ageDays / 7);
          strength = 1 + ln (1 + max 0 recentActivity);
          quality = recency * strength;
          quality = (if quality < 1 / 1000000 then 1 / 1000000 else quality)
      in routeHopBase + 1 / quality)"

definition addEdge ::
  "unix_time \<Rightarrow> pubKey \<Rightarrow> pubKey \<Rightarrow> LinkRecord \<Rightarrow> string list \<Rightarrow> float64 \<Rightarrow> graph \<Rightarrow> graph" where
  "addEdge now src dst rec nets activity adj = mput adj src (edges adj src @
     [\<lparr>e_to = dst, e_packetCount = l_PacketCount rec, e_recentActivity = activity,
       e_firstSeen = l_FirstSeen rec, e_lastSeen = l_LastSeen rec, e_networks = nets,
       e_cost = edgeCost activity (l_LastSeen rec) now\<rparr>])"

definition addLink :: "float64 \<Rightarrow> unix_time \<Rightarrow> linkKey \<times> LinkRecord \<Rightarrow> graph \<Rightarrow> graph" where
  "addLink halfLife now = (\<lambda>(key, rec) adj.
     let nets = map n_NetworkID (l_Networks rec);
         activity = decayedScore (l_Score rec) (l_ScoreUpdatedAt rec) now halfLife;
         a = take 32 key; b = drop 32 key
     in addEdge now b a rec nets activity (addEdge now a b rec nets activity adj))"

definition buildAdjacency :: "LinkRegistry \<Rightarrow> unix_time \<Rightarrow> graph" where
  "buildAdjacency r now = fold (addLink (r_halfLife r) now) (all_links r) mempty"

definition adjacency :: "unix_time \<Rightarrow> LinkRegistry \<Rightarrow> graph \<times> LinkRegistry" where
  "adjacency now r =
     (let rebuild = (let graph = buildAdjacency r now
                     in (graph, r\<lparr>r_routeAdj := Some \<lparr>ra_builtAt = now, ra_graph = graph\<rparr>\<rparr>))
      in case r_routeAdj r of
           Some ra \<Rightarrow> if now - ra_builtAt ra < routeCacheTTL then (ra_graph ra, r) else rebuild
         | None \<Rightarrow> rebuild)"

definition anyInSet :: "string list \<Rightarrow> (string, bool) gomap \<Rightarrow> bool" where
  "anyInSet values flt = list_ex (mhas flt) values"

definition edgePasses :: "unix_time \<Rightarrow> (string, bool) gomap \<Rightarrow> routeEdge \<Rightarrow> bool" where
  "edgePasses since netFilter e =
     (if since > 0 \<and> e_lastSeen e < since then False
      else if mlen netFilter > 0 \<and> \<not> anyInSet (e_networks e) netFilter then False
      else True)"

subsection \<open>RouteBetween\<close>

record RouteHop =
  h_From :: string
  h_To :: string
  h_PacketCount :: u64
  h_RecentActivity :: float64
  h_FirstSeen :: unix_time
  h_LastSeen :: unix_time
  h_Networks :: "string list"

record RouteResult =
  rr_Found :: bool
  rr_Nodes :: "string list"
  rr_Hops :: "RouteHop list"

definition routeHop :: "pubKey \<Rightarrow> pubKey \<Rightarrow> routeEdge \<Rightarrow> RouteHop" where
  "routeHop p n e = \<lparr>h_From = hex_encode p, h_To = hex_encode n, h_PacketCount = e_packetCount e,
     h_RecentActivity = e_recentActivity e, h_FirstSeen = e_firstSeen e, h_LastSeen = e_lastSeen e,
     h_Networks = e_networks e\<rparr>"

definition zeroEdge :: routeEdge where
  "zeroEdge = \<lparr>e_to = replicate 32 0, e_packetCount = 0, e_recentActivity = 0, e_firstSeen = 0,
     e_lastSeen = 0, e_networks = [], e_cost = 0\<rparr>"

text \<open>The walk back over the predecessors: \<open>None\<close> stands for a loop that never ends. An absent map
  entry reads as the zero value.\<close>

partial_function (option) walkBack ::
  "(pubKey, pubKey) gomap \<Rightarrow> (pubKey, routeEdge) gomap \<Rightarrow> pubKey \<Rightarrow> pubKey \<Rightarrow>
   (pubKey list \<times> RouteHop list) option" where
  "walkBack prev prevEdge src n =
     (if n = src then Some ([n], [])
      else let e = (case mget prevEdge n of Some e \<Rightarrow> e | None \<Rightarrow> zeroEdge);
               p = (case mget prev n of Some p \<Rightarrow> p | None \<Rightarrow> replicate 32 0)
        in do { (ns, hs) \<leftarrow> walkBack prev prevEdge src p; Some (n # ns, routeHop p n e # hs) })"

definition RouteBetween ::
  "pubKey \<Rightarrow> pubKey \<Rightarrow> unix_time \<Rightarrow> unix_time \<Rightarrow> (string, bool) gomap \<Rightarrow> LinkRegistry \<Rightarrow>
   RouteResult option \<times> LinkRegistry" where
  "RouteBetween src dst now since netFilter r =
     (if src = dst then (Some \<lparr>rr_Found = True, rr_Nodes = [hex_encode src], rr_Hops = []\<rparr>, r)
      else let (adj, r) = adjacency now r; notFound = \<lparr>rr_Found = False, rr_Nodes = [], rr_Hops = []\<rparr> in
        if edges adj src = [] \<or> edges adj dst = [] then (Some notFound, r)
        else let st = dijkstra_loop adj (edgePasses since netFilter) dst (start_search src) in
          if \<not> mhas (d_done st) dst then (Some notFound, r)
          else (do { (revNodes, revHops) \<leftarrow> walkBack (d_prev st) (d_prevEdge st) src dst;
                     Some \<lparr>rr_Found = True, rr_Nodes = rev (map hex_encode revNodes),
                           rr_Hops = rev revHops\<rparr> }, r))"

subsection \<open>The cost of an edge\<close>

lemma edgeCost_bounds: "1 < edgeCost x l now" "edgeCost x l now \<le> 1000001"
  by (auto simp: edgeCost_def Let_def routeHopBase_def field_simps add_pos_nonneg)

text \<open>The cost of a hop lies strictly between 1 and 1,000,001, so it is positive and finite, and it
  never rises when the link was seen later or is busier.\<close>

theorem edge_cost_bounded_monotone:
  assumes "x \<le> x'" and "l \<le> l'"
  shows "1 < edgeCost x l now \<and> edgeCost x l now \<le> 1000001 \<and> edgeCost x' l' now \<le> edgeCost x l now"
proof -
  define q where "q x l = exp (- max 0 (real_of_int (now - l) / 86400) / 7) * (1 + ln (1 + max 0 x))"
    for x l
  have cost: "edgeCost x l now = 1 + 1 / max (1 / 1000000) (q x l)" for x l
    by (simp add: edgeCost_def Let_def routeHopBase_def q_def max_def)
  have "ln (1 + max 0 x) \<le> ln (1 + max 0 x')" using assms(1) by (intro ln_mono) auto
  moreover have "0 \<le> ln (1 + max 0 x)" by simp
  moreover have "exp (- max 0 (real_of_int (now - l) / 86400) / 7) \<le>
      exp (- max 0 (real_of_int (now - l') / 86400) / 7)" using assms(2) by (auto simp: max_def)
  ultimately have "q x l \<le> q x' l'" unfolding q_def by (intro mult_mono) auto
  then have "max (1 / 1000000) (q x l) \<le> max (1 / 1000000) (q x' l')" by auto
  then have "edgeCost x' l' now \<le> edgeCost x l now"
    unfolding cost by (intro add_left_mono divide_left_mono) (auto simp: max_def)
  then show ?thesis using edgeCost_bounds by blast
qed

lemma edge_cost_bounded_monotone_witness:
  "1 < edgeCost 2 100 1000 \<and> edgeCost 2 100 1000 \<le> 1000001 \<and> edgeCost 5 200 1000 \<le> edgeCost 2 100 1000"
  by (rule edge_cost_bounded_monotone) simp_all

subsection \<open>The graph of the stored links\<close>

definition linkEdge :: "float64 \<Rightarrow> unix_time \<Rightarrow> pubKey \<Rightarrow> LinkRecord \<Rightarrow> routeEdge" where
  "linkEdge halfLife now dst rec =
     (let activity = decayedScore (l_Score rec) (l_ScoreUpdatedAt rec) now halfLife
      in \<lparr>e_to = dst, e_packetCount = l_PacketCount rec, e_recentActivity = activity,
          e_firstSeen = l_FirstSeen rec, e_lastSeen = l_LastSeen rec,
          e_networks = map n_NetworkID (l_Networks rec),
          e_cost = edgeCost activity (l_LastSeen rec) now\<rparr>)"

lemma edges_addLink:
  "set (edges (addLink hl now (k, rec) adj) n) = set (edges adj n) \<union>
     (if n = take 32 k then {linkEdge hl now (drop 32 k) rec} else {}) \<union>
     (if n = drop 32 k then {linkEdge hl now (take 32 k) rec} else {})"
  by (auto simp: addLink_def addEdge_def edges_def linkEdge_def Let_def mget_mput split: option.splits)

lemma edges_addLinks:
  "e \<in> set (edges (fold (addLink hl now) xs adj) n) \<longleftrightarrow> e \<in> set (edges adj n) \<or>
     (\<exists>(k, rec)\<in>set xs. (n = take 32 k \<and> e = linkEdge hl now (drop 32 k) rec) \<or>
        (n = drop 32 k \<and> e = linkEdge hl now (take 32 k) rec))"
proof (induction xs arbitrary: adj)
  case (Cons x xs)
  obtain k rec where x: "x = (k, rec)" by (cases x)
  show ?case unfolding x fold_simps Cons.IH by (auto simp: edges_addLink split: if_splits)
qed simp

lemma edges_buildAdjacency:
  assumes "registry_ok r"
  shows "e \<in> set (edges (buildAdjacency r now) n) \<longleftrightarrow>
    (\<exists>k rec. lookup_link r k = Some rec \<and>
       ((n = take 32 k \<and> e = linkEdge (r_halfLife r) now (drop 32 k) rec) \<or>
        (n = drop 32 k \<and> e = linkEdge (r_halfLife r) now (take 32 k) rec)))"
proof -
  have "edges mempty n = []" by (simp add: edges_def)
  then show ?thesis
    unfolding buildAdjacency_def edges_addLinks using all_links_iff [OF assms] by auto
qed

lemma e_to_linkEdge [simp]: "e_to (linkEdge hl now n rec) = n"
  by (simp add: linkEdge_def Let_def)

lemma e_cost_linkEdge: "0 < e_cost (linkEdge hl now n rec)"
  by (simp add: linkEdge_def Let_def) (rule order_less_trans [OF zero_less_one edgeCost_bounds(1)])

text \<open>A graph whose edges come in pairs, one for each direction, with the same statistics.\<close>

definition graph_ok :: "graph \<Rightarrow> bool" where
  "graph_ok adj \<longleftrightarrow> pos_costs adj \<and>
     (\<forall>a. \<forall>e\<in>set (edges adj a). \<exists>e'\<in>set (edges adj (e_to e)). e' = e\<lparr>e_to := a\<rparr>)"

lemma graph_ok_build: "registry_ok r \<Longrightarrow> graph_ok (buildAdjacency r now)"
proof -
  assume ok: "registry_ok r"
  have "linkEdge hl now n rec\<lparr>e_to := m\<rparr> = linkEdge hl now m rec" for hl n m rec
    by (simp add: linkEdge_def Let_def)
  then show ?thesis
    unfolding graph_ok_def pos_costs_def
    by (auto simp: edges_buildAdjacency [OF ok] e_cost_linkEdge Bex_def; blast)
qed

text \<open>The cached snapshot, when there is one, is such a graph: it was built by \<open>buildAdjacency\<close>.\<close>

definition cache_ok :: "LinkRegistry \<Rightarrow> bool" where
  "cache_ok r \<longleftrightarrow> (case r_routeAdj r of None \<Rightarrow> True | Some ra \<Rightarrow> graph_ok (ra_graph ra))"

lemma adjacency_ok:
  assumes "registry_ok r" and "cache_ok r" and "adjacency now r = (adj, r')"
  shows "graph_ok adj \<and> cache_ok r' \<and> registry_ok r'"
  using assms graph_ok_build [OF assms(1), of now]
  by (auto simp: adjacency_def cache_ok_def registry_ok_def Let_def split: option.splits if_splits)

lemma adjacency_is_link_graph_edge:
  assumes "registry_ok r" and "length a = 32" and "length b = 32"
  shows "(\<exists>e\<in>set (edges (buildAdjacency r now) a). e_to e = b) \<longleftrightarrow>
      (\<exists>k. canonicalKey a b = Some k \<and> lookup_link r k \<noteq> None)"
    and "\<forall>k rec. canonicalKey a b = Some k \<longrightarrow> lookup_link r k = Some rec \<longrightarrow>
      linkEdge (r_halfLife r) now b rec \<in> set (edges (buildAdjacency r now) a)"
proof -
  show "\<forall>k rec. canonicalKey a b = Some k \<longrightarrow> lookup_link r k = Some rec \<longrightarrow>
      linkEdge (r_halfLife r) now b rec \<in> set (edges (buildAdjacency r now) a)"
  proof (intro allI impI)
    fix k rec assume k: "canonicalKey a b = Some k" and l: "lookup_link r k = Some rec"
    have "{take 32 k, drop 32 k} = {a, b}" by (rule canonicalKey_ends_set [OF k assms(2,3)])
    with l show "linkEdge (r_halfLife r) now b rec \<in> set (edges (buildAdjacency r now) a)"
      by (auto simp: edges_buildAdjacency [OF assms(1)] doubleton_eq_iff)
  qed
  then have "\<exists>e\<in>set (edges (buildAdjacency r now) a). e_to e = b"
    if "canonicalKey a b = Some k" "lookup_link r k \<noteq> None" for k
    using that by (metis e_to_linkEdge not_None_eq)
  moreover have "\<exists>k. canonicalKey a b = Some k \<and> lookup_link r k \<noteq> None"
    if e: "e \<in> set (edges (buildAdjacency r now) a)" "e_to e = b" for e
  proof -
    obtain k rec where l: "lookup_link r k = Some rec" and ab: "{a, b} = {take 32 k, drop 32 k}"
      using e by (auto simp: edges_buildAdjacency [OF assms(1)] insert_commute)
    have "canonicalKey (take 32 k) (drop 32 k) = Some k"
      by (rule canonicalKey_split [OF registry_ok_valid [OF assms(1) l]])
    with ab have "canonicalKey a b = Some k" by (metis canonicalKey_commute doubleton_eq_iff)
    with l show ?thesis by blast
  qed
  ultimately show "(\<exists>e\<in>set (edges (buildAdjacency r now) a). e_to e = b) \<longleftrightarrow>
      (\<exists>k. canonicalKey a b = Some k \<and> lookup_link r k \<noteq> None)" by blast
qed

text \<open>Every stored link is two edges of the routing graph, one per direction, and the graph has no
  other edge: a node's edges lead exactly to its stored neighbours, with the link's counts, times,
  networks, decayed activity and cost.\<close>

theorem adjacency_is_link_graph:
  assumes "registry_ok r" and "length a = 32" and "length b = 32"
  shows "((\<exists>e\<in>set (edges (buildAdjacency r now) a). e_to e = b) \<longleftrightarrow>
      (\<exists>k. canonicalKey a b = Some k \<and> lookup_link r k \<noteq> None)) \<and>
    (\<forall>k rec. canonicalKey a b = Some k \<longrightarrow> lookup_link r k = Some rec \<longrightarrow>
      linkEdge (r_halfLife r) now b rec \<in> set (edges (buildAdjacency r now) a))"
  using adjacency_is_link_graph_edge [OF assms] by (rule conjI)

subsection \<open>Reconstruction of the path\<close>

fun routeHops :: "pubKey \<Rightarrow> routeEdge list \<Rightarrow> RouteHop list" where
  "routeHops a [] = []"
| "routeHops a (e # es) = routeHop a (e_to e) e # routeHops (e_to e) es"

definition walkNodes :: "pubKey \<Rightarrow> routeEdge list \<Rightarrow> pubKey list" where
  "walkNodes a es = a # map e_to es"

lemma last_walkNodes: "is_walk adj passes a es b \<Longrightarrow> last (walkNodes a es) = b"
  by (induction es arbitrary: a) (auto simp: walkNodes_def)

lemma routeHops_snoc:
  "routeHops a (es @ [e]) = routeHops a es @ [routeHop (last (walkNodes a es)) (e_to e) e]"
  by (induction es arbitrary: a) (auto simp: walkNodes_def)

lemma walkBack_finds:
  assumes d: "dist_ok adj passes s st" and pos: "pos_costs adj" and n: "mget (d_dist st) n = Some dn"
  shows "\<exists>es. is_walk adj passes s es n \<and> walk_cost es = dn \<and>
    walkBack (d_prev st) (d_prevEdge st) s n = Some (rev (walkNodes s es), rev (routeHops s es))"
  using n
proof (induction "card {w. \<exists>d. mget (d_dist st) w = Some d \<and> d < dn}" arbitrary: n dn rule: less_induct)
  case less
  show ?case
  proof (cases "n = s")
    case True
    then have "dn = 0" using less.prems d by (simp add: dist_ok_def)
    moreover have "walkBack (d_prev st) (d_prevEdge st) s n = Some ([n], [])"
      using True by (subst walkBack.simps) simp
    ultimately show ?thesis using True by (intro exI [of _ "[]"]) (simp add: walkNodes_def)
  next
    case False
    obtain u e du where u: "mget (d_prev st) n = Some u" "mget (d_prevEdge st) n = Some e"
        "e \<in> set (edges adj u)" "passes e" "e_to e = n" "mget (d_dist st) u = Some du" "dn = du + e_cost e"
      using d less.prems False unfolding dist_ok_def by blast
    have lt: "du < dn" using pos u(3,7) by (auto simp: pos_costs_def)
    have "finite {w. \<exists>d. mget (d_dist st) w = Some d \<and> d < dn}"
      by (rule finite_subset [OF _ finite_dom_mget [of "d_dist st"]]) auto
    moreover have "{w. \<exists>d. mget (d_dist st) w = Some d \<and> d < du} \<subset> {w. \<exists>d. mget (d_dist st) w = Some d \<and> d < dn}"
      using lt u(6) by force
    ultimately have "card {w. \<exists>d. mget (d_dist st) w = Some d \<and> d < du} <
        card {w. \<exists>d. mget (d_dist st) w = Some d \<and> d < dn}" by (rule psubset_card_mono)
    from less.hyps [OF this u(6)] obtain es where es: "is_walk adj passes s es u" "walk_cost es = du"
        "walkBack (d_prev st) (d_prevEdge st) s u = Some (rev (walkNodes s es), rev (routeHops s es))"
      by blast
    have "walkBack (d_prev st) (d_prevEdge st) s n =
        Some (n # rev (walkNodes s es), routeHop u n e # rev (routeHops s es))"
      using False u(1,2) es(3) by (subst walkBack.simps) simp
    moreover have "last (walkNodes s es) = u" by (rule last_walkNodes [OF es(1)])
    ultimately have "walkBack (d_prev st) (d_prevEdge st) s n =
        Some (rev (walkNodes s (es @ [e])), rev (routeHops s (es @ [e])))"
      using u(5) by (simp add: routeHops_snoc) (simp add: walkNodes_def)
    moreover have "is_walk adj passes s (es @ [e]) n" using es(1) u by (auto simp: is_walk_snoc)
    moreover have "walk_cost (es @ [e]) = dn" using es(2) u(7) by simp
    ultimately show ?thesis by blast
  qed
qed

lemma is_walk_edges_end:
  assumes "graph_ok adj" and "is_walk adj passes a es b" and "a \<noteq> b"
  shows "edges adj a \<noteq> [] \<and> edges adj b \<noteq> []"
proof -
  obtain es' e where "es = es' @ [e]" using assms(2,3) by (cases es rule: rev_cases) auto
  then obtain m where "e \<in> set (edges adj m)" "e_to e = b" using assms(2) by (auto simp: is_walk_snoc)
  then have "edges adj b \<noteq> []" using assms(1) unfolding graph_ok_def by force
  moreover have "edges adj a \<noteq> []" using assms(2,3) by (cases es) auto
  ultimately show ?thesis by simp
qed

subsection \<open>The route\<close>

text \<open>What the answer says of a walk, and the answer when there is none.\<close>

definition routeAlong :: "pubKey \<Rightarrow> routeEdge list \<Rightarrow> RouteResult" where
  "routeAlong src es = \<lparr>rr_Found = True, rr_Nodes = map hex_encode (walkNodes src es), rr_Hops = routeHops src es\<rparr>"

definition noRoute :: RouteResult where
  "noRoute = \<lparr>rr_Found = False, rr_Nodes = [], rr_Hops = []\<rparr>"

lemma RouteBetween_outcome:
  assumes ok: "registry_ok r" "cache_ok r" and ne: "src \<noteq> dst"
    and adj: "adjacency now r = (adj, r')"
  obtains (found) es where "RouteBetween src dst now since flt r = (Some (routeAlong src es), r')"
      "is_walk adj (edgePasses since flt) src es dst"
      "\<And>es'. is_walk adj (edgePasses since flt) src es' dst \<Longrightarrow> walk_cost es \<le> walk_cost es'"
  | (none) "RouteBetween src dst now since flt r = (Some noRoute, r')"
      "\<And>es. \<not> is_walk adj (edgePasses since flt) src es dst"
proof -
  let ?p = "edgePasses since flt"
  have g: "graph_ok adj" using adjacency_ok [OF ok adj] by simp
  then have pos: "pos_costs adj" by (simp add: graph_ok_def)
  define st where "st = dijkstra_loop adj ?p dst (start_search src)"
  have res: "search_result adj ?p src dst st" unfolding st_def by (rule search_correct [OF pos])
  consider (isolated) "edges adj src = [] \<or> edges adj dst = []"
    | (unreached) "\<not> (edges adj src = [] \<or> edges adj dst = [])" "\<not> mhas (d_done st) dst"
    | (reached) "\<not> (edges adj src = [] \<or> edges adj dst = [])" "mhas (d_done st) dst" by blast
  then show ?thesis
  proof cases
    case isolated
    then show ?thesis
      using ne adj is_walk_edges_end [OF g _ ne] by (intro none) (auto simp: RouteBetween_def noRoute_def)
  next
    case unreached
    then show ?thesis
      using ne adj res by (intro none) (auto simp: RouteBetween_def Let_def noRoute_def search_result_def simp flip: st_def)
  next
    case reached
    then obtain d where d: "mget (d_dist st) dst = Some d"
        "\<And>es. is_walk adj ?p src es dst \<Longrightarrow> d \<le> walk_cost es" "dist_ok adj ?p src st"
      using res by (auto simp: search_result_def)
    obtain es where es: "is_walk adj ?p src es dst" "walk_cost es = d"
        "walkBack (d_prev st) (d_prevEdge st) src dst = Some (rev (walkNodes src es), rev (routeHops src es))"
      using walkBack_finds [OF d(3) pos d(1)] by blast
    have "RouteBetween src dst now since flt r = (Some (routeAlong src es), r')"
      using ne adj reached es(3) by (simp add: RouteBetween_def Let_def st_def [symmetric] rev_map routeAlong_def)
    then show ?thesis using found es(1,2) d(2) by blast
  qed
qed

text \<open>C1: Routing always returns, finds a route exactly when the two nodes are connected through links
  that pass the filters, and the route it returns is a cheapest one: its nodes and hops are those of
  a walk over such links from the source to the destination, and no other walk costs less.\<close>

theorem route_is_cheapest:
  assumes ok: "registry_ok r" "cache_ok r" and ne: "src \<noteq> dst"
    and adj: "adjacency now r = (adj, r')"
  shows "\<exists>res. RouteBetween src dst now since flt r = (Some res, r') \<and>
    (rr_Found res \<longleftrightarrow> (\<exists>es. is_walk adj (edgePasses since flt) src es dst)) \<and>
    (rr_Found res \<longrightarrow> (\<exists>es. is_walk adj (edgePasses since flt) src es dst \<and>
       rr_Nodes res = map hex_encode (walkNodes src es) \<and> rr_Hops res = routeHops src es \<and>
       (\<forall>es'. is_walk adj (edgePasses since flt) src es' dst \<longrightarrow> walk_cost es \<le> walk_cost es')))"
proof (cases rule: RouteBetween_outcome [OF ok ne adj, of since flt])
  case (1 es)
  then show ?thesis by (intro exI [of _ "routeAlong src es"]) (auto simp: routeAlong_def)
next
  case 2
  then show ?thesis by (simp add: noRoute_def)
qed

subsection \<open>Witnesses\<close>

abbreviation ex_reg :: LinkRegistry where
  "ex_reg \<equiv> observeLink (ex_ob ''aa'' True 10) (newLinkRegistry 60)"

lemma ex_reg_ok: "registry_ok ex_reg" "cache_ok ex_reg" "lookup_link ex_reg ex_key \<noteq> None"
proof -
  show "registry_ok ex_reg" by (intro registry_ok_observeLink registry_ok_new) simp
  show "cache_ok ex_reg" by (simp add: cache_ok_def newLinkRegistry_def)
  show "lookup_link ex_reg ex_key \<noteq> None" by (simp add: lookup_link_observeLink newLinkRegistry_def)
qed

lemma adjacency_is_link_graph_witness:
  "\<exists>e\<in>set (edges (buildAdjacency ex_reg 20) (ex_node 170)). e_to e = ex_node 187"
  using adjacency_is_link_graph [of ex_reg "ex_node 170" "ex_node 187" 20] ex_reg_ok by simp

lemma route_is_cheapest_witness:
  "\<exists>res. fst (RouteBetween (ex_node 170) (ex_node 187) 20 0 mempty ex_reg) = Some res \<and> rr_Found res"
proof -
  obtain adj r' where adj: "adjacency 20 ex_reg = (adj, r')" by fastforce
  have "adj = buildAdjacency ex_reg 20"
    using adj by (simp add: adjacency_def Let_def newLinkRegistry_def)
  then obtain e where e: "e \<in> set (edges adj (ex_node 170))" "e_to e = ex_node 187"
    using adjacency_is_link_graph_edge [of ex_reg "ex_node 170" "ex_node 187" 20] ex_reg_ok by auto
  have "edgePasses 0 mempty e" by (simp add: edgePasses_def)
  with e have "is_walk adj (edgePasses 0 mempty) (ex_node 170) [e] (ex_node 187)" by simp
  then show ?thesis
    using route_is_cheapest [OF ex_reg_ok(1,2) _ adj, of "ex_node 170" "ex_node 187" 0 mempty] by fastforce
qed

end
