(* ===== verification/LiveHub.thy ===== *)
theory LiveHub
  imports GoStrings "HOL-Library.Sublist"
begin

text \<open>
  The live advert feed (live.go): a hub that fans adverts out to the connected browsers. A client
  is its buffered channel, a queue of at most \<open>liveSendBuffer\<close> frames; a send to a full channel
  drops the frame. The JSON encoding of a frame is the frame itself without the server-side
  hash. The WebSocket pumps are the consumers: \<open>hub_recv\<close> is the receive of \<open>writePump\<close>, the
  deadlines and pings are not modelled.
\<close>

record LiveAdvert =
  la_Kind :: string
  la_Hash :: string
  la_PubKey :: string
  la_Name :: string
  la_Type :: byte
  la_HasGPS :: bool
  la_Lat :: float64
  la_Lon :: float64
  la_NetworkID :: string
  la_At :: unix_time
  la_New :: bool

definition liveSendBuffer :: nat where
  "liveSendBuffer = 64"

definition liveDedupWindow :: int where
  "liveDedupWindow = 600"

text \<open>The channel of a client: the frames still queued, and whether the hub has closed it. Clients
  are named by numbers that stand for their pointers.\<close>

record Hub =
  hub_clients :: "(nat, LiveAdvert list) gomap"
  hub_seen :: "(string, unix_time) gomap"
  hub_nextSweep :: unix_time
  hub_closed :: "nat list"

definition newHub :: Hub where
  "newHub = \<lparr>hub_clients = mempty, hub_seen = mempty, hub_nextSweep = 0, hub_closed = []\<rparr>"

definition seenKey :: "string \<Rightarrow> string \<Rightarrow> string" where
  "seenKey network hash = network @ '':'' @ hash"

definition markSeen :: "string \<Rightarrow> string \<Rightarrow> unix_time \<Rightarrow> Hub \<Rightarrow> bool \<times> Hub" where
  "markSeen network hash now h =
     (let key = seenKey network hash in
      case mget (hub_seen h) key of
        Some expy \<Rightarrow> if expy > now then (False, h)
          else (True, (let seen = mput (hub_seen h) key (now + liveDedupWindow) in
            if now \<ge> hub_nextSweep h
            then h\<lparr>hub_seen := mkeep (\<lambda>(k, expy). \<not> expy \<le> now) seen, hub_nextSweep := now + liveDedupWindow\<rparr>
            else h\<lparr>hub_seen := seen\<rparr>))
      | None \<Rightarrow> (True, (let seen = mput (hub_seen h) key (now + liveDedupWindow) in
            if now \<ge> hub_nextSweep h
            then h\<lparr>hub_seen := mkeep (\<lambda>(k, expy). \<not> expy \<le> now) seen, hub_nextSweep := now + liveDedupWindow\<rparr>
            else h\<lparr>hub_seen := seen\<rparr>)))"

text \<open>The non-blocking send: \<open>select { case c.send <- msg: default: }\<close>.\<close>

definition trySend :: "LiveAdvert \<Rightarrow> LiveAdvert list \<Rightarrow> LiveAdvert list" where
  "trySend msg q = (if length q < liveSendBuffer then q @ [msg] else q)"

definition sendAll :: "LiveAdvert \<Rightarrow> Hub \<Rightarrow> Hub" where
  "sendAll msg h =
     h\<lparr>hub_clients := mrange (\<lambda>c q cs. mput cs c (trySend msg q)) (hub_clients h) (hub_clients h)\<rparr>"

definition liveFrame :: "LiveAdvert \<Rightarrow> LiveAdvert" where
  "liveFrame a = a\<lparr>la_Kind := ''advert'', la_Hash := ''''\<rparr>"

definition Broadcast :: "unix_time \<Rightarrow> LiveAdvert \<Rightarrow> Hub \<Rightarrow> Hub" where
  "Broadcast now a h =
     (if mlen (hub_clients h) = 0 then h
      else if la_Hash a \<noteq> '''' then
        (let (fresh, h') = markSeen (la_NetworkID a) (la_Hash a) now h
         in if \<not> fresh then h' else sendAll (liveFrame a) h')
      else sendAll (liveFrame a) h)"

definition hub_add :: "nat \<Rightarrow> Hub \<Rightarrow> Hub" where
  "hub_add c h = h\<lparr>hub_clients := mput (hub_clients h) c []\<rparr>"

definition hub_remove :: "nat \<Rightarrow> Hub \<Rightarrow> Hub" where
  "hub_remove c h =
     (case mget (hub_clients h) c of None \<Rightarrow> h
      | Some _ \<Rightarrow> h\<lparr>hub_clients := mdel (hub_clients h) c, hub_closed := c # hub_closed h\<rparr>)"

text \<open>The receive of \<open>writePump\<close>: it takes the oldest queued frame.\<close>

definition hub_recv :: "nat \<Rightarrow> Hub \<Rightarrow> LiveAdvert option \<times> Hub" where
  "hub_recv c h =
     (case mget (hub_clients h) c of
        Some (m # q) \<Rightarrow> (Some m, h\<lparr>hub_clients := mput (hub_clients h) c q\<rparr>)
      | _ \<Rightarrow> (None, h))"

subsection \<open>Reachable hubs\<close>

datatype hubOp = Publish unix_time LiveAdvert | Connect nat | Disconnect nat | Receive nat

primrec hub_step :: "hubOp \<Rightarrow> Hub \<Rightarrow> Hub" where
  "hub_step (Publish now a) h = Broadcast now a h"
| "hub_step (Connect c) h = hub_add c h"
| "hub_step (Disconnect c) h = hub_remove c h"
| "hub_step (Receive c) h = snd (hub_recv c h)"

text \<open>A run of the hub under a clock that never goes back, with what an observer of the feed sees:
  \<open>taken\<close> is, per client, the frames it has received since it last connected, \<open>offered\<close> the
  frames the hub sent out meanwhile, and \<open>log\<close> the adverts with a hash that passed the
  deduplication, with their times, newest first.\<close>

record feed =
  fd_now :: unix_time
  fd_hub :: Hub
  fd_taken :: "nat \<Rightarrow> LiveAdvert list"
  fd_offered :: "nat \<Rightarrow> LiveAdvert list"
  fd_log :: "(string \<times> unix_time) list"

definition accepts :: "unix_time \<Rightarrow> LiveAdvert \<Rightarrow> Hub \<Rightarrow> bool" where
  "accepts now a h \<longleftrightarrow> mlen (hub_clients h) \<noteq> 0 \<and>
     (la_Hash a \<noteq> '''' \<longrightarrow> fst (markSeen (la_NetworkID a) (la_Hash a) now h))"

inductive live :: "feed \<Rightarrow> bool" where
  start: "live \<lparr>fd_now = t, fd_hub = newHub, fd_taken = (\<lambda>_. []), fd_offered = (\<lambda>_. []), fd_log = []\<rparr>"
| connect: "live f \<Longrightarrow> mget (hub_clients (fd_hub f)) c = None \<Longrightarrow>
    live (f\<lparr>fd_hub := hub_add c (fd_hub f), fd_taken := (fd_taken f)(c := []),
      fd_offered := (fd_offered f)(c := [])\<rparr>)"
| disconnect: "live f \<Longrightarrow> live (f\<lparr>fd_hub := hub_remove c (fd_hub f)\<rparr>)"
| receive: "live f \<Longrightarrow> hub_recv c (fd_hub f) = (Some m, h') \<Longrightarrow>
    live (f\<lparr>fd_hub := h', fd_taken := (fd_taken f)(c := fd_taken f c @ [m])\<rparr>)"
| publish: "live f \<Longrightarrow> fd_now f \<le> now \<Longrightarrow>
    live (f\<lparr>fd_now := now, fd_hub := Broadcast now a (fd_hub f),
      fd_offered := (if accepts now a (fd_hub f)
         then (\<lambda>c. fd_offered f c @ [liveFrame a]) else fd_offered f),
      fd_log := (if accepts now a (fd_hub f) \<and> la_Hash a \<noteq> ''''
         then (seenKey (la_NetworkID a) (la_Hash a), now) # fd_log f else fd_log f)\<rparr>)"

lemma markSeen_clients [simp]: "hub_clients (snd (markSeen n x now h)) = hub_clients h"
  by (simp add: markSeen_def Let_def split: option.splits)

lemma fst_markSeen: "fst (markSeen n x now h) \<longleftrightarrow>
    (case mget (hub_seen h) (seenKey n x) of None \<Rightarrow> True | Some e \<Rightarrow> e \<le> now)"
  by (auto simp: markSeen_def Let_def split: option.splits)

text \<open>Expired entries are equivalent to absent ones, so a sweep is invisible.\<close>

lemma seen_markSeen:
  "fst (markSeen n x now h) \<Longrightarrow>
   mget (hub_seen (snd (markSeen n x now h))) k =
     (if k = seenKey n x then Some (now + liveDedupWindow)
      else case mget (hub_seen h) k of None \<Rightarrow> None
        | Some e \<Rightarrow> if e \<le> now \<and> now \<ge> hub_nextSweep h then None else Some e)"
  by (auto simp: markSeen_def Let_def mget_mput mget_mkeep liveDedupWindow_def split: option.splits if_splits)

lemma seen_markSeen_dup: "\<not> fst (markSeen n x now h) \<Longrightarrow> snd (markSeen n x now h) = h"
  by (auto simp: markSeen_def Let_def split: option.splits if_splits)

lemma sendAll_simps [simp]:
  "mget (hub_clients (sendAll m h)) c = map_option (trySend m) (mget (hub_clients h) c)"
  "hub_seen (sendAll m h) = hub_seen h" "hub_nextSweep (sendAll m h) = hub_nextSweep h"
  by (auto simp: sendAll_def mget_mrange_copy split: option.splits)

lemma Broadcast_clients:
  "mget (hub_clients (Broadcast now a h)) c =
    (if accepts now a h then map_option (trySend (liveFrame a)) (mget (hub_clients h) c)
     else mget (hub_clients h) c)"
  by (auto simp: Broadcast_def accepts_def Let_def split: prod.splits)
     (metis fst_conv markSeen_clients snd_conv sendAll_simps(1))+

lemma Broadcast_seen:
  "hub_seen (Broadcast now a h) =
    (if accepts now a h \<and> la_Hash a \<noteq> '''' then hub_seen (snd (markSeen (la_NetworkID a) (la_Hash a) now h))
     else hub_seen h)"
  using seen_markSeen_dup [of "la_NetworkID a" "la_Hash a" now h]
  by (auto simp: Broadcast_def accepts_def Let_def split: prod.splits)

subsection \<open>What a subscriber gets\<close>

lemma live_queue:
  "live f \<Longrightarrow> mget (hub_clients (fd_hub f)) c = Some q \<Longrightarrow>
     length q \<le> liveSendBuffer \<and> subseq (fd_taken f c @ q) (fd_offered f c)"
proof (induction arbitrary: c q rule: live.induct)
  case (start t)
  then show ?case by (simp add: newHub_def)
next
  case (connect f d)
  then show ?case by (auto simp: hub_add_def mget_mput liveSendBuffer_def split: if_splits)
next
  case (disconnect f d)
  then show ?case by (auto simp: hub_remove_def mget_mdel split: option.splits if_splits)
next
  case (receive f d m h')
  then obtain q' where q': "mget (hub_clients (fd_hub f)) d = Some (m # q')"
    and h': "h' = fd_hub f\<lparr>hub_clients := mput (hub_clients (fd_hub f)) d q'\<rparr>"
    by (auto simp: hub_recv_def split: option.splits list.splits)
  show ?case
    using receive.IH [of d "m # q'"] receive.IH [of c q] receive.prems q'
    by (cases "c = d") (auto simp: h' mget_mput)
next
  case (publish f now a)
  then show ?case
    by (auto simp: Broadcast_clients trySend_def liveSendBuffer_def
        simp flip: append_assoc intro: list_emb_append_mono list_emb_prefix split: if_splits)
qed

text \<open>The deduplication table says of every key when it was last accepted, unless that is too long ago.\<close>

definition log_ok :: "feed \<Rightarrow> bool" where
  "log_ok f \<longleftrightarrow> (\<forall>k t. (k, t) \<in> set (fd_log f) \<longrightarrow> t \<le> fd_now f) \<and>
     (\<forall>k t. (k, t) \<in> set (fd_log f) \<longrightarrow> fd_now f < t + liveDedupWindow \<longrightarrow>
        mget (hub_seen (fd_hub f)) k = Some (t + liveDedupWindow)) \<and>
     (\<forall>k e. mget (hub_seen (fd_hub f)) k = Some e \<longrightarrow> (k, e - liveDedupWindow) \<in> set (fd_log f))"

lemma live_log_ok: "live f \<Longrightarrow> log_ok f"
proof (induction rule: live.induct)
  case (start t)
  then show ?case by (simp add: log_ok_def newHub_def)
next
  case (connect f c)
  then show ?case by (simp add: log_ok_def hub_add_def)
next
  case (disconnect f c)
  have "hub_seen (hub_remove c (fd_hub f)) = hub_seen (fd_hub f)"
    by (simp add: hub_remove_def split: option.splits)
  then show ?case using disconnect by (simp add: log_ok_def)
next
  case (receive f c m h')
  have "hub_seen h' = hub_seen (fd_hub f)"
    using receive(2) by (auto simp: hub_recv_def split: option.splits list.splits)
  then show ?case using receive by (simp add: log_ok_def)
next
  case (publish f now a)
  let ?k = "seenKey (la_NetworkID a) (la_Hash a)"
  show ?case
  proof (cases "accepts now a (fd_hub f) \<and> la_Hash a \<noteq> ''''")
    case False
    then show ?thesis using publish unfolding log_ok_def
      by (fastforce simp: Broadcast_seen liveDedupWindow_def)
  next
    case True
    then have fresh: "fst (markSeen (la_NetworkID a) (la_Hash a) now (fd_hub f))" by (simp add: accepts_def)
    have old: "t + liveDedupWindow \<le> now" if "(?k, t) \<in> set (fd_log f)" for t
    proof (rule ccontr)
      assume "\<not> ?thesis"
      then have "mget (hub_seen (fd_hub f)) ?k = Some (t + liveDedupWindow)"
        using publish that unfolding log_ok_def by fastforce
      with fresh \<open>\<not> ?thesis\<close> show False by (simp add: fst_markSeen)
    qed
    note look = seen_markSeen [OF fresh]
    have 1: "t \<le> now" if "(k, t) \<in> set ((?k, now) # fd_log f)" for k t
      using that publish unfolding log_ok_def by fastforce
    have 2: "mget (hub_seen (snd (markSeen (la_NetworkID a) (la_Hash a) now (fd_hub f)))) k = Some (t + liveDedupWindow)"
      if kt: "(k, t) \<in> set ((?k, now) # fd_log f)" and "now < t + liveDedupWindow" for k t
    proof (cases "k = ?k")
      case True
      then have "t = now" using kt old that(2) by fastforce
      then show ?thesis by (simp add: look True)
    next
      case False
      then have "(k, t) \<in> set (fd_log f)" using kt by simp
      moreover have "fd_now f < t + liveDedupWindow" using that(2) publish(2) by simp
      ultimately have "mget (hub_seen (fd_hub f)) k = Some (t + liveDedupWindow)"
        using publish(3) unfolding log_ok_def by blast
      then show ?thesis using that(2) False by (simp add: look)
    qed
    have 3: "(k, e - liveDedupWindow) \<in> set ((?k, now) # fd_log f)"
      if "mget (hub_seen (snd (markSeen (la_NetworkID a) (la_Hash a) now (fd_hub f)))) k = Some e" for k e
      using that publish(3) unfolding log_ok_def look by (auto split: if_splits option.splits)
    from 1 2 3 True show ?thesis by (simp add: log_ok_def Broadcast_seen)
  qed
qed

lemma live_log_spaced: "live f \<Longrightarrow>
    sorted_wrt (\<lambda>(k, t) (k', t'). k = k' \<longrightarrow> t' + liveDedupWindow \<le> t) (fd_log f)"
proof (induction rule: live.induct)
  case (publish f now a)
  let ?k = "seenKey (la_NetworkID a) (la_Hash a)"
  have "t + liveDedupWindow \<le> now" if "accepts now a (fd_hub f)" "la_Hash a \<noteq> ''''" "(?k, t) \<in> set (fd_log f)" for t
  proof (rule ccontr)
    assume "\<not> ?thesis"
    then have "mget (hub_seen (fd_hub f)) ?k = Some (t + liveDedupWindow)"
      using live_log_ok [OF publish(1)] publish(2) that unfolding log_ok_def by fastforce
    with that \<open>\<not> ?thesis\<close> show False by (simp add: accepts_def fst_markSeen)
  qed
  then show ?case using publish.IH by auto
qed simp_all

lemma live_accepts_iff:
  assumes "live f" and "fd_now f \<le> now" and "la_Hash a \<noteq> ''''" and "mlen (hub_clients (fd_hub f)) \<noteq> 0"
  shows "accepts now a (fd_hub f) \<longleftrightarrow>
    (\<forall>t. (seenKey (la_NetworkID a) (la_Hash a), t) \<in> set (fd_log f) \<longrightarrow> t + liveDedupWindow \<le> now)"
proof -
  let ?k = "seenKey (la_NetworkID a) (la_Hash a)"
  note ok = live_log_ok [OF assms(1), unfolded log_ok_def]
  show ?thesis
  proof (cases "mget (hub_seen (fd_hub f)) ?k")
    case None
    then have "t + liveDedupWindow \<le> now" if "(?k, t) \<in> set (fd_log f)" for t
      using ok that assms(2) by fastforce
    then show ?thesis using None assms(3,4) by (simp add: accepts_def fst_markSeen)
  next
    case (Some e)
    then have mem: "(?k, e - liveDedupWindow) \<in> set (fd_log f)" using ok by blast
    have "t + liveDedupWindow \<le> now" if "(?k, t) \<in> set (fd_log f)" "e \<le> now" for t
    proof (rule ccontr)
      assume "\<not> ?thesis"
      then have "mget (hub_seen (fd_hub f)) ?k = Some (t + liveDedupWindow)"
        using ok that assms(2) by fastforce
      with Some that \<open>\<not> ?thesis\<close> show False by simp
    qed
    then show ?thesis using Some assms(3,4) mem by (auto simp: accepts_def fst_markSeen)
  qed
qed

subsection \<open>Properties\<close>

text \<open>C28: The live feed is a bounded lossy queue per browser: in every reachable state a connected
  client has at most 64 frames queued, what it has received followed by what is queued is a
  subsequence (in order, nothing invented or repeated) of the frames sent out since it connected,
  and the next frame that is sent out is queued for it unless it is 64 frames behind, in which
  case only its own copy is dropped.\<close>

theorem live_feed_delivery:
  assumes "live f" and "mget (hub_clients (fd_hub f)) c = Some q"
  shows "length q \<le> 64 \<and> subseq (fd_taken f c @ q) (fd_offered f c) \<and>
    mget (hub_clients (Broadcast now a (fd_hub f))) c =
      Some (if accepts now a (fd_hub f) \<and> length q < 64 then q @ [liveFrame a] else q)"
  using live_queue [OF assms] assms(2)
  by (simp add: Broadcast_clients trySend_def liveSendBuffer_def)

text \<open>A packet pulses once per network and window: in every reachable state two accepted adverts with
  the same network and hash are at least 600 seconds apart, and an advert with a hash that is
  published while somebody listens is sent out exactly when none with its network and hash was sent
  out in the last 600 seconds. The sweep of expired entries never changes the outcome.\<close>

theorem live_pulse_once_per_window:
  assumes "live f" and "fd_now f \<le> now" and "la_Hash a \<noteq> ''''" and "mlen (hub_clients (fd_hub f)) \<noteq> 0"
  shows "sorted_wrt (\<lambda>(k, t) (k', t'). k = k' \<longrightarrow> t' + 600 \<le> t) (fd_log f) \<and>
    (accepts now a (fd_hub f) \<longleftrightarrow>
      (\<forall>t. (seenKey (la_NetworkID a) (la_Hash a), t) \<in> set (fd_log f) \<longrightarrow> t + 600 \<le> now))"
  using live_log_spaced [OF assms(1)] live_accepts_iff [OF assms] by (simp add: liveDedupWindow_def)

subsection \<open>Witnesses\<close>

definition ex_advert :: LiveAdvert where
  "ex_advert = \<lparr>la_Kind = '''', la_Hash = ''h1'', la_PubKey = ''aa'', la_Name = ''n'', la_Type = 1,
     la_HasGPS = False, la_Lat = 0, la_Lon = 0, la_NetworkID = ''cz'', la_At = 5, la_New = True\<rparr>"

definition ex_feed0 :: feed where
  "ex_feed0 = \<lparr>fd_now = 1, fd_hub = newHub, fd_taken = (\<lambda>_. []), fd_offered = (\<lambda>_. []), fd_log = []\<rparr>"

definition ex_feed1 :: feed where
  "ex_feed1 = ex_feed0\<lparr>fd_hub := hub_add 0 newHub, fd_taken := (\<lambda>_. [])(0 := []), fd_offered := (\<lambda>_. [])(0 := [])\<rparr>"

lemma live_ex_feed1: "live ex_feed1"
  using live.connect [OF live.start, of 1 0]
  by (simp add: ex_feed1_def ex_feed0_def newHub_def)

lemma ex_feed1_simps [simp]:
  "fd_hub ex_feed1 = hub_add 0 newHub" "fd_now ex_feed1 = 1" "fd_log ex_feed1 = []"
  by (simp_all add: ex_feed1_def ex_feed0_def)

lemma mlen_ex_clients [simp]: "mlen (hub_clients (hub_add 0 newHub)) = 1"
  by (simp add: hub_add_def newHub_def mlen_mput)

lemma live_feed_delivery_witness:
  "mget (hub_clients (Broadcast 7 ex_advert (hub_add 0 newHub))) 0 = Some [liveFrame ex_advert]"
proof -
  have q: "mget (hub_clients (fd_hub ex_feed1)) 0 = Some []" by (simp add: hub_add_def)
  have "accepts 7 ex_advert (hub_add 0 newHub)"
    by (simp add: accepts_def fst_markSeen) (simp add: hub_add_def newHub_def)
  then show ?thesis using live_feed_delivery [OF live_ex_feed1 q, of 7 ex_advert] by simp
qed

lemma live_pulse_once_per_window_witness: "accepts 7 ex_advert (hub_add 0 newHub)"
  using live_pulse_once_per_window [OF live_ex_feed1, of 7 ex_advert] by (simp add: ex_advert_def)

end
