(* ===== verification/DirtyMap.thy ===== *)
theory DirtyMap
  imports FlushLoop
begin

text \<open>
  The dirty-set bookkeeping the node and observer registries share (nodes.go, observers.go): a map
  of rows and a set of changed keys, with \<open>TakeDirty\<close> and \<open>Requeue\<close> in the form both files
  write them. The locale \<open>dirty_registry\<close> asks of a registry only that its keys and updates are
  in order, and is a \<open>flush_queue\<close>: the flush loop loses none of its updates.
\<close>

text \<open>The loop of \<open>TakeDirty\<close>: the rows of the dirty keys that exist, each through the copy \<open>strip\<close>.\<close>

definition dirty_rows :: "('v \<Rightarrow> 'v) \<Rightarrow> ('k, 'v) gomap \<Rightarrow> ('k, unit) gomap \<Rightarrow> 'v list" where
  "dirty_rows strip m d =
     concat (map (\<lambda>k. case mget m k of None \<Rightarrow> [] | Some v \<Rightarrow> [strip v]) (mkeys d))"

text \<open>The loop of \<open>Requeue\<close>: the keys of the records that still exist become dirty again.\<close>

definition mark_rows :: "('v \<Rightarrow> 'k) \<Rightarrow> 'v list \<Rightarrow> ('k, 'v) gomap \<Rightarrow> ('k, unit) gomap \<Rightarrow> ('k, unit) gomap" where
  "mark_rows key b m d = fold (\<lambda>v d. if mget m (key v) \<noteq> None then mput d (key v) () else d) b d"

lemma not_Some_unit [simp]: "x \<noteq> Some () \<longleftrightarrow> x = None"
  by (cases x) auto

lemma mlen_0_iff: "mlen m = 0 \<longleftrightarrow> m = mempty"
  by (simp add: mlen_def flip: DAList.impl_of_inject)

lemma dirty_rows_iff: "v \<in> set (dirty_rows strip m d) \<longleftrightarrow>
    (\<exists>k w. mget m k = Some w \<and> mget d k \<noteq> None \<and> v = strip w)"
  by (auto simp: dirty_rows_def dom_def split: option.splits) (metis option.exhaust)+

lemma mark_rows_iff: "mget (mark_rows key b m d) k \<noteq> None \<longleftrightarrow>
    mget d k \<noteq> None \<or> (k \<in> key ` set b \<and> mget m k \<noteq> None)"
proof (induction b arbitrary: d)
  case (Cons x b)
  let ?d = "if mget m (key x) \<noteq> None then mput d (key x) () else d"
  have "mark_rows key (x # b) m d = mark_rows key b m ?d" by (simp add: mark_rows_def)
  moreover have "mget ?d k \<noteq> None \<longleftrightarrow> mget d k \<noteq> None \<or> (k = key x \<and> mget m k \<noteq> None)"
    by (auto simp: mget_mput)
  ultimately show ?case using Cons.IH [of ?d] by auto
qed (simp add: mark_rows_def)

text \<open>Every row is filed under its key.\<close>

definition keyed :: "('v \<Rightarrow> 'k) \<Rightarrow> ('k, 'v) gomap \<Rightarrow> bool" where
  "keyed key m \<longleftrightarrow> (\<forall>k v. mget m k = Some v \<longrightarrow> key v = k)"

lemma keyedD: "keyed key m \<Longrightarrow> mget m k = Some v \<Longrightarrow> key v = k"
  by (simp add: keyed_def)

lemma keyed_mempty [simp]: "keyed key mempty"
  by (simp add: keyed_def)

lemma keyed_mput [preserve]: "keyed key m \<Longrightarrow> key v = k \<Longrightarrow> keyed key (mput m k v)"
  by (simp add: keyed_def mget_mput)

locale dirty_registry =
  fixes rows :: "'s \<Rightarrow> ('k, 'v) gomap"
    and marks :: "'s \<Rightarrow> ('k, unit) gomap"
    and strip :: "'v \<Rightarrow> 'v"
    and key :: "'v \<Rightarrow> 'k"
    and grab :: "'s \<Rightarrow> 'v list \<times> 's"
    and requeue :: "'v list \<Rightarrow> 's \<Rightarrow> 's"
    and upd :: "'u \<Rightarrow> 's \<Rightarrow> 's"
    and ok :: "'v \<Rightarrow> bool"
    and allowed :: "'u \<Rightarrow> bool"
  assumes strip_key: "key (strip v) = key v"
    and strip_ok: "ok v \<Longrightarrow> ok (strip v)"
    and grab_fst: "fst (grab s) = (if mlen (marks s) = 0 then [] else dirty_rows strip (rows s) (marks s))"
    and grab_snd: "rows (snd (grab s)) = rows s" "marks (snd (grab s)) = mempty"
    and requeue_rows: "rows (requeue b s) = rows s"
    and requeue_marks: "marks (requeue b s) = mark_rows key b (rows s) (marks s)"
    and upd_keyed: "keyed key (rows s) \<Longrightarrow> (\<And>k v. mget (rows s) k = Some v \<Longrightarrow> ok v) \<Longrightarrow> allowed u \<Longrightarrow>
      keyed key (rows (upd u s)) \<and> (mget (rows (upd u s)) k = Some v \<longrightarrow> ok v)"
    and upd_marks: "allowed u \<Longrightarrow> mget (marks (upd u s)) k \<noteq> None \<or>
      (map_option strip (mget (rows (upd u s)) k) = map_option strip (mget (rows s) k) \<and>
       mget (marks s) k = None)"
begin

definition row_val :: "'s \<Rightarrow> 'k \<Rightarrow> 'v option" where
  "row_val s k = map_option strip (mget (rows s) k)"

definition row_dirty :: "'s \<Rightarrow> 'k \<Rightarrow> bool" where
  "row_dirty s k \<longleftrightarrow> mget (marks s) k \<noteq> None"

definition row_inv :: "'s \<Rightarrow> bool" where
  "row_inv s \<longleftrightarrow> keyed key (rows s) \<and> (\<forall>k v. mget (rows s) k = Some v \<longrightarrow> ok v)"

lemma no_marks: "mlen m = 0 \<Longrightarrow> mget m k = None"
  using finite_dom_mget [of m] by (simp add: mlen_card domIff [symmetric] del: not_None_eq)

lemma row_inv_upd: "row_inv s \<Longrightarrow> allowed u \<Longrightarrow> row_inv (upd u s)"
  unfolding row_inv_def using upd_keyed by blast

lemma grabbed: "row_inv s \<Longrightarrow> v \<in> set (fst (grab s)) \<longleftrightarrow> row_val s (key v) = Some v \<and> row_dirty s (key v)"
proof -
  assume inv: "row_inv s"
  have "v \<in> set (fst (grab s)) \<longleftrightarrow> (\<exists>k w. mget (rows s) k = Some w \<and> mget (marks s) k \<noteq> None \<and> v = strip w)"
    using no_marks [of "marks s"] by (cases "mlen (marks s) = 0") (auto simp: grab_fst dirty_rows_iff)
  also have "\<dots> \<longleftrightarrow> (\<exists>w. mget (rows s) (key v) = Some w \<and> mget (marks s) (key v) \<noteq> None \<and> v = strip w)"
  proof -
    have "k = key (strip w)" if "mget (rows s) k = Some w" for k w
      using keyedD [OF conjunct1 [OF inv [unfolded row_inv_def]] that] by (simp add: strip_key)
    then show ?thesis by blast
  qed
  also have "\<dots> \<longleftrightarrow> row_val s (key v) = Some v \<and> row_dirty s (key v)"
    by (auto simp: row_val_def row_dirty_def)
  finally show ?thesis .
qed

end

sublocale dirty_registry \<subseteq> fq: flush_queue row_val row_dirty key grab requeue upd row_inv allowed ok
proof
  fix s k v b u
  assume inv: "row_inv s"
  show "row_val s k = Some v \<Longrightarrow> key v = k"
    using inv by (auto simp: row_val_def row_inv_def strip_key dest: keyedD)
  show "row_val s k = Some v \<Longrightarrow> ok v"
    using inv by (auto simp: row_val_def row_inv_def strip_ok)
  show "row_inv (snd (grab s)) \<and> row_val (snd (grab s)) = row_val s \<and> \<not> row_dirty (snd (grab s)) k"
    using inv by (simp add: row_inv_def row_val_def row_dirty_def fun_eq_iff grab_snd)
  show "v \<in> set (fst (grab s)) \<longleftrightarrow> row_val s (key v) = Some v \<and> row_dirty s (key v)"
    by (rule grabbed [OF inv])
  show "row_inv (requeue b s) \<and> row_val (requeue b s) = row_val s"
    using inv by (simp add: row_inv_def row_val_def fun_eq_iff requeue_rows)
  show "row_dirty (requeue b s) k \<longleftrightarrow> row_dirty s k \<or> (k \<in> key ` set b \<and> row_val s k \<noteq> None)"
    by (simp only: row_dirty_def row_val_def requeue_marks mark_rows_iff map_option_is_None not_False_eq_True)
  assume al: "allowed u"
  show "row_inv (upd u s)" by (rule row_inv_upd [OF inv al])
  show "row_dirty (upd u s) k \<or> (row_val (upd u s) k = row_val s k \<and> \<not> row_dirty s k)"
    using upd_marks [OF al, of s k] unfolding row_dirty_def row_val_def by (simp only: not_not)
qed

text \<open>Restoring rows with distinct keys into an empty map puts each under its key.\<close>

definition put_rows :: "('v \<Rightarrow> 'k) \<Rightarrow> 'v list \<Rightarrow> ('k, 'v) gomap \<Rightarrow> ('k, 'v) gomap" where
  "put_rows key vs m = fold (\<lambda>v m. mput m (key v) v) vs m"

lemma put_rows_Cons [simp]: "put_rows key (v # vs) m = put_rows key vs (mput m (key v) v)"
  by (simp add: put_rows_def)

lemma put_rows_Nil [simp]: "put_rows key [] m = m"
  by (simp add: put_rows_def)

lemma mget_put_rows:
  "distinct (map key vs) \<Longrightarrow> mget (put_rows key vs m) k =
     (case find (\<lambda>v. key v = k) vs of Some v \<Rightarrow> Some v | None \<Rightarrow> mget m k)"
proof (induction vs arbitrary: m)
  case (Cons v vs)
  have "find (\<lambda>v. key v = k) vs = None" if "key v = k"
    using that Cons.prems by (auto simp: find_None_iff image_iff)
  then show ?case using Cons by (auto simp: mget_mput split: option.splits)
qed simp

lemma find_unique:
  assumes "v \<in> set vs" and "distinct (map key vs)"
  shows "find (\<lambda>w. key w = key v) vs = Some v"
  using assms by (induction vs) (auto simp: image_iff)

text \<open>A batch with one row saves that row.\<close>

lemma db_save_single:
  assumes "set b = {x}"
  shows "v \<in> set [x] \<longleftrightarrow> db_save key b (\<lambda>_. None) (key v) = Some v"
proof -
  have "db_save key b (\<lambda>_. None) (key x) = Some x" by (rule db_save_batch) (simp_all add: assms)
  moreover have "v = x" if "db_save key b (\<lambda>_. None) (key v) = Some v"
    using db_save_origin [OF that] by (simp add: assms)
  ultimately show ?thesis by auto
qed

end
