(* ===== verification/NodeRegistry.thy ===== *)
theory NodeRegistry
  imports LiveHub DirtyMap GoSort
begin

text \<open>
  The global node store (nodes.go): one overview row per public key, accumulated from ADVERT
  packets, with a rolling list of the latest adverts per node and a buffer of adverts waiting for
  the append-only history table. The theory holds the records, every operation of the registry
  but \<open>Search\<close> and \<open>MapQuery\<close> (theory MapQuery), and shows that a row is a function of the
  adverts heard of its node, that each advert reaches the history exactly once, and that the flush
  loop loses no update.
\<close>

definition nodeTypeName :: "byte \<Rightarrow> string" where
  "nodeTypeName t = (if t = 1 then ''chat'' else if t = 2 then ''repeater'' else if t = 3 then ''room''
     else if t = 4 then ''sensor'' else ''unknown'')"

record AdvertObservation =
  ao_Hash :: string
  ao_RawHex :: string
  ao_PubKey :: string
  ao_Name :: string
  ao_NodeType :: byte
  ao_HasGPS :: bool
  ao_Lat :: float64
  ao_Lon :: float64
  ao_AdvertTime :: unix_time
  ao_At :: unix_time
  ao_NetworkID :: string
  ao_AnalyzerName :: string
  ao_ObserverID :: string
  ao_ObserverName :: string

record NodeRecord =
  nod_PubKey :: string
  nod_Name :: string
  nod_NodeType :: byte
  nod_HasGPS :: bool
  nod_Lat :: float64
  nod_Lon :: float64
  nod_FirstAdvertAt :: unix_time
  nod_LastAdvertAt :: unix_time
  nod_AdvertCount :: u64
  nod_Networks :: "string list"
  nod_ObserverID :: string
  nod_ObserverName :: string
  nod_LatestAdverts :: "AdvertObservation list"
  nod_Flags :: "string list"

definition defaultAdvertsPerNode :: int where
  "defaultAdvertsPerNode = 10"

text \<open>The hook \<open>onAdvert\<close> is registered once, at startup: the model keeps whether there is one, and
  an observation returns the frame it hands to the hook.\<close>

record NodeRegistry =
  nr_nodes :: "(string, NodeRecord) gomap"
  nr_dirty :: "(string, unit) gomap"
  nr_pending :: "AdvertObservation list"
  nr_maxAdverts :: nat
  nr_onAdvert :: bool

definition SetAdvertHook :: "bool \<Rightarrow> NodeRegistry \<Rightarrow> NodeRegistry" where
  "SetAdvertHook hooked r = r\<lparr>nr_onAdvert := hooked\<rparr>"

definition newNodeRegistry :: "int \<Rightarrow> NodeRegistry" where
  "newNodeRegistry maxAdverts =
     \<lparr>nr_nodes = mempty, nr_dirty = mempty, nr_pending = [],
      nr_maxAdverts = nat (if maxAdverts \<le> 0 then defaultAdvertsPerNode else maxAdverts),
      nr_onAdvert = False\<rparr>"

definition newNode :: "AdvertObservation \<Rightarrow> NodeRecord" where
  "newNode a = \<lparr>nod_PubKey = ao_PubKey a, nod_Name = '''', nod_NodeType = 0, nod_HasGPS = False, nod_Lat = 0,
     nod_Lon = 0, nod_FirstAdvertAt = ao_At a, nod_LastAdvertAt = 0, nod_AdvertCount = 0, nod_Networks = [],
     nod_ObserverID = '''', nod_ObserverName = '''', nod_LatestAdverts = [], nod_Flags = []\<rparr>"

text \<open>The updates of the row: identity and position, then counts and membership, then the rolling list.\<close>

definition noteIdentity :: "AdvertObservation \<Rightarrow> NodeRecord \<Rightarrow> NodeRecord" where
  "noteIdentity a n =
     (let n = (if ao_Name a \<noteq> '''' then n\<lparr>nod_Name := ao_Name a\<rparr> else n);
          n = n\<lparr>nod_NodeType := ao_NodeType a\<rparr>
      in if ao_HasGPS a then n\<lparr>nod_HasGPS := True, nod_Lat := ao_Lat a, nod_Lon := ao_Lon a\<rparr> else n)"

definition noteSighting :: "AdvertObservation \<Rightarrow> NodeRecord \<Rightarrow> NodeRecord" where
  "noteSighting a n = n\<lparr>nod_LastAdvertAt := ao_At a, nod_AdvertCount := nod_AdvertCount n + 1,
     nod_ObserverID := ao_ObserverID a, nod_ObserverName := ao_ObserverName a,
     nod_Networks := addStr (nod_Networks n) (ao_NetworkID a)\<rparr>"

definition pushAdvert :: "nat \<Rightarrow> AdvertObservation \<Rightarrow> NodeRecord \<Rightarrow> NodeRecord" where
  "pushAdvert cap a n = n\<lparr>nod_LatestAdverts := take cap (a # nod_LatestAdverts n)\<rparr>"

definition noteAdvert :: "nat \<Rightarrow> AdvertObservation \<Rightarrow> NodeRecord \<Rightarrow> NodeRecord" where
  "noteAdvert cap a n = pushAdvert cap a (noteSighting a (noteIdentity a n))"

definition advertFrame :: "AdvertObservation \<Rightarrow> bool \<Rightarrow> LiveAdvert" where
  "advertFrame a isNew = \<lparr>la_Kind = '''', la_Hash = ao_Hash a, la_PubKey = ao_PubKey a, la_Name = ao_Name a,
     la_Type = ao_NodeType a, la_HasGPS = ao_HasGPS a, la_Lat = ao_Lat a, la_Lon = ao_Lon a,
     la_NetworkID = ao_NetworkID a, la_At = ao_At a, la_New = isNew\<rparr>"

definition nodes_Observe :: "AdvertObservation \<Rightarrow> NodeRegistry \<Rightarrow> LiveAdvert option \<times> NodeRegistry" where
  "nodes_Observe a r =
     (if ao_PubKey a = '''' then (None, r)
      else let isNew = (mget (nr_nodes r) (ao_PubKey a) = None);
               n = (case mget (nr_nodes r) (ao_PubKey a) of None \<Rightarrow> newNode a | Some n \<Rightarrow> n)
      in (if nr_onAdvert r then Some (advertFrame a isNew) else None,
          r\<lparr>nr_nodes := mput (nr_nodes r) (ao_PubKey a) (noteAdvert (nr_maxAdverts r) a n),
            nr_pending := nr_pending r @ [a],
            nr_dirty := mput (nr_dirty r) (ao_PubKey a) ()\<rparr>))"

definition PendingAdverts :: "NodeRegistry \<Rightarrow> AdvertObservation list" where
  "PendingAdverts r = nr_pending r"

definition ClearPending :: "nat \<Rightarrow> NodeRegistry \<Rightarrow> NodeRegistry" where
  "ClearPending n r = (if n \<ge> length (nr_pending r) then r\<lparr>nr_pending := []\<rparr>
     else r\<lparr>nr_pending := drop n (nr_pending r)\<rparr>)"

text \<open>The copy that leaves the registry: everything but the rolling advert list.\<close>

definition overview :: "NodeRecord \<Rightarrow> NodeRecord" where
  "overview n = n\<lparr>nod_LatestAdverts := []\<rparr>"

definition nodes_Lookup :: "string \<Rightarrow> NodeRegistry \<Rightarrow> NodeRecord option" where
  "nodes_Lookup pubkey r = map_option overview (mget (nr_nodes r) pubkey)"

definition nodes_Count :: "NodeRegistry \<Rightarrow> nat" where
  "nodes_Count r = mlen (nr_nodes r)"

definition PositionOf :: "NodeRegistry \<Rightarrow> string \<Rightarrow> (float64 \<times> float64) option" where
  "PositionOf r pubkey = (case mget (nr_nodes r) pubkey of None \<Rightarrow> None
     | Some n \<Rightarrow> if \<not> nod_HasGPS n then None else Some (nod_Lat n, nod_Lon n))"

definition eachNode :: "(NodeRecord \<Rightarrow> 's \<Rightarrow> 's) \<Rightarrow> NodeRegistry \<Rightarrow> 's \<Rightarrow> 's" where
  "eachNode fn r s = mrange (\<lambda>_ n. fn n) (nr_nodes r) s"

subsection \<open>Flags\<close>

definition FlagFarFromNetwork :: string where
  "FlagFarFromNetwork = ''far_from_network''"

definition FlagNetworkTooFar :: string where
  "FlagNetworkTooFar = ''network_too_far''"

definition locationFlagged :: "string list \<Rightarrow> bool" where
  "locationFlagged flags \<longleftrightarrow> containsStr flags FlagFarFromNetwork \<or> containsStr flags FlagNetworkTooFar"

fun sameFlags :: "string list \<Rightarrow> string list \<Rightarrow> bool" where
  "sameFlags [] [] = True"
| "sameFlags (a # as) (b # bs) = (a = b \<and> sameFlags as bs)"
| "sameFlags _ _ = False"

definition applyFlag :: "string \<Rightarrow> string list \<Rightarrow> nat \<times> NodeRegistry \<Rightarrow> nat \<times> NodeRegistry" where
  "applyFlag pubkey flags = (\<lambda>(changed, r).
     case mget (nr_nodes r) pubkey of None \<Rightarrow> (changed, r)
     | Some n \<Rightarrow>
        if sameFlags (nod_Flags n) flags then (changed, r)
        else (Suc changed, r\<lparr>nr_nodes := mput (nr_nodes r) pubkey (n\<lparr>nod_Flags := flags\<rparr>),
                             nr_dirty := mput (nr_dirty r) pubkey ()\<rparr>))"

definition ApplyFlags :: "(string, string list) gomap \<Rightarrow> NodeRegistry \<Rightarrow> nat \<times> NodeRegistry" where
  "ApplyFlags desired r = mrange applyFlag desired (0, r)"

definition FlaggedNodes :: "NodeRegistry \<Rightarrow> NodeRecord list" where
  "FlaggedNodes r = sort_by (by_key nod_PubKey)
     (map overview (List.filter (\<lambda>n. nod_Flags n \<noteq> []) (map snd (mentries (nr_nodes r)))))"

subsection \<open>Views\<close>

record AdvertView =
  av_Hash :: string
  av_RawHex :: string
  av_Name :: string
  av_Type :: byte
  av_TypeName :: string
  av_HasGPS :: bool
  av_Lat :: float64
  av_Lon :: float64
  av_AdvertTime :: unix_time
  av_At :: unix_time
  av_NetworkID :: string
  av_AnalyzerName :: string
  av_ObserverID :: string
  av_ObserverName :: string

record NodeObserverView =
  nov_ObserverID :: string
  nov_Name :: string
  nov_FirstSeen :: unix_time
  nov_LastSeen :: unix_time
  nov_Observations :: u64
  nov_Networks :: "string list"

record NodeView =
  nv_PubKey :: string
  nv_Name :: string
  nv_Type :: byte
  nv_TypeName :: string
  nv_HasGPS :: bool
  nv_Lat :: float64
  nv_Lon :: float64
  nv_FirstAdvertAt :: unix_time
  nv_LastAdvertAt :: unix_time
  nv_AdvertCount :: u64
  nv_Networks :: "string list"
  nv_ObserverName :: string
  nv_LatestAdverts :: "AdvertView list"
  nv_Flags :: "string list"
  nv_Source :: string
  nv_OnMap :: bool
  nv_IsObserver :: bool
  nv_Observer :: "NodeObserverView option"

definition advertView :: "AdvertObservation \<Rightarrow> AdvertView" where
  "advertView a = \<lparr>av_Hash = ao_Hash a, av_RawHex = ao_RawHex a, av_Name = ao_Name a,
     av_Type = ao_NodeType a, av_TypeName = nodeTypeName (ao_NodeType a), av_HasGPS = ao_HasGPS a,
     av_Lat = ao_Lat a, av_Lon = ao_Lon a, av_AdvertTime = ao_AdvertTime a, av_At = ao_At a,
     av_NetworkID = ao_NetworkID a, av_AnalyzerName = ao_AnalyzerName a,
     av_ObserverID = ao_ObserverID a, av_ObserverName = ao_ObserverName a\<rparr>"

definition advertViews :: "AdvertObservation list \<Rightarrow> AdvertView list" where
  "advertViews adverts = map advertView adverts"

definition nodeView :: "NodeRecord \<Rightarrow> NodeView" where
  "nodeView n = \<lparr>nv_PubKey = nod_PubKey n, nv_Name = nod_Name n, nv_Type = nod_NodeType n,
     nv_TypeName = nodeTypeName (nod_NodeType n), nv_HasGPS = nod_HasGPS n, nv_Lat = nod_Lat n,
     nv_Lon = nod_Lon n, nv_FirstAdvertAt = nod_FirstAdvertAt n, nv_LastAdvertAt = nod_LastAdvertAt n,
     nv_AdvertCount = nod_AdvertCount n, nv_Networks = nod_Networks n,
     nv_ObserverName = nod_ObserverName n, nv_LatestAdverts = advertViews (nod_LatestAdverts n),
     nv_Flags = nod_Flags n, nv_Source = '''', nv_OnMap = False, nv_IsObserver = False,
     nv_Observer = None\<rparr>"

definition GetView :: "string \<Rightarrow> NodeRegistry \<Rightarrow> NodeView option" where
  "GetView pubkey r = map_option nodeView (mget (nr_nodes r) pubkey)"

definition nodes_Snapshot :: "NodeRegistry \<Rightarrow> NodeView list" where
  "nodes_Snapshot r = sort_by (by_desc_then nv_LastAdvertAt nv_PubKey)
     (map (nodeView \<circ> snd) (mentries (nr_nodes r)))"

subsection \<open>Membership statistics\<close>

record NetworkNodeStats =
  nns_Total :: nat
  nns_OnMap :: nat
  nns_ByType :: "(string, nat) gomap"

definition newStats :: NetworkNodeStats where
  "newStats = \<lparr>nns_Total = 0, nns_OnMap = 0, nns_ByType = mempty\<rparr>"

definition mincr_nat :: "('k, nat) gomap \<Rightarrow> 'k \<Rightarrow> ('k, nat) gomap" where
  "mincr_nat m k = mput m k (Suc (case mget m k of None \<Rightarrow> 0 | Some n \<Rightarrow> n))"

definition countMember :: "bool \<Rightarrow> string \<Rightarrow> NetworkNodeStats \<Rightarrow> NetworkNodeStats" where
  "countMember onMap typeName st =
     (let st = st\<lparr>nns_Total := Suc (nns_Total st)\<rparr>
      in if onMap then st\<lparr>nns_OnMap := Suc (nns_OnMap st), nns_ByType := mincr_nat (nns_ByType st) typeName\<rparr>
         else st)"

definition onMapNode :: "NodeRecord \<Rightarrow> bool" where
  "onMapNode n \<longleftrightarrow> nod_HasGPS n \<and> \<not> locationFlagged (nod_Flags n)"

definition tallyNode ::
  "NodeRecord \<Rightarrow> (string, NetworkNodeStats) gomap \<Rightarrow> (string, NetworkNodeStats) gomap" where
  "tallyNode n out = fold (\<lambda>i out.
     mput out i (countMember (onMapNode n) (nodeTypeName (nod_NodeType n))
       (case mget out i of None \<Rightarrow> newStats | Some st \<Rightarrow> st))) (nod_Networks n) out"

definition NodeStatsByNetwork :: "NodeRegistry \<Rightarrow> (string, NetworkNodeStats) gomap" where
  "NodeStatsByNetwork r = mrange (\<lambda>_ n. tallyNode n) (nr_nodes r) mempty"

subsection \<open>Persistence\<close>

definition nodes_Export :: "NodeRegistry \<Rightarrow> NodeRecord list" where
  "nodes_Export r = map (overview \<circ> snd) (mentries (nr_nodes r))"

definition nodes_TakeDirty :: "NodeRegistry \<Rightarrow> NodeRecord list \<times> NodeRegistry" where
  "nodes_TakeDirty r = (if mlen (nr_dirty r) = 0 then ([], r)
     else (dirty_rows overview (nr_nodes r) (nr_dirty r), r\<lparr>nr_dirty := mempty\<rparr>))"

definition nodes_Requeue :: "NodeRecord list \<Rightarrow> NodeRegistry \<Rightarrow> NodeRegistry" where
  "nodes_Requeue records r =
     r\<lparr>nr_dirty := mark_rows nod_PubKey records (nr_nodes r) (nr_dirty r)\<rparr>"

definition attachAdverts :: "string \<Rightarrow> AdvertObservation list \<Rightarrow> NodeRegistry \<Rightarrow> NodeRegistry" where
  "attachAdverts pk adv r =
     (case mget (nr_nodes r) pk of None \<Rightarrow> r
      | Some n \<Rightarrow>
         if length (nod_LatestAdverts n) > 0 \<or> length adv = 0 then r
         else r\<lparr>nr_nodes := mput (nr_nodes r) pk (n\<lparr>nod_LatestAdverts := take (nr_maxAdverts r) adv\<rparr>)\<rparr>)"

definition AttachRecentAdverts :: "(string, AdvertObservation list) gomap \<Rightarrow> NodeRegistry \<Rightarrow> NodeRegistry" where
  "AttachRecentAdverts recent r = mrange attachAdverts recent r"

definition restoreNode ::
  "(string, AdvertObservation list) gomap \<Rightarrow> NodeRecord \<Rightarrow> NodeRegistry \<Rightarrow> NodeRegistry" where
  "restoreNode recent n r =
     (let adv = (case mget recent (nod_PubKey n) of None \<Rightarrow> [] | Some adv \<Rightarrow> adv);
          n = (if length adv > 0 then n\<lparr>nod_LatestAdverts := take (nr_maxAdverts r) adv\<rparr> else n)
      in r\<lparr>nr_nodes := mput (nr_nodes r) (nod_PubKey n) n\<rparr>)"

definition nodes_Restore ::
  "NodeRecord list \<Rightarrow> (string, AdvertObservation list) gomap \<Rightarrow> NodeRegistry \<Rightarrow> NodeRegistry" where
  "nodes_Restore nodes recent r = fold (restoreNode recent) nodes r"

subsection \<open>A row is a function of the adverts heard\<close>

definition heard :: "string \<Rightarrow> AdvertObservation list \<Rightarrow> AdvertObservation list" where
  "heard pk as = List.filter (\<lambda>a. ao_PubKey a = pk) as"

text \<open>The reference: a row computed at once from the adverts of the node, oldest first.\<close>

definition last_of :: "'b \<Rightarrow> ('a \<Rightarrow> 'b) \<Rightarrow> 'a list \<Rightarrow> 'b" where
  "last_of d f xs = (if xs = [] then d else f (last xs))"

definition first_seen_order :: "string list \<Rightarrow> string list" where
  "first_seen_order xs = rev (remdups (rev xs))"

definition summary :: "nat \<Rightarrow> AdvertObservation list \<Rightarrow> NodeRecord" where
  "summary cap hs =
     (let named = List.filter (\<lambda>a. ao_Name a \<noteq> '''') hs; located = List.filter ao_HasGPS hs in
      \<lparr>nod_PubKey = ao_PubKey (hd hs), nod_Name = last_of '''' ao_Name named,
       nod_NodeType = ao_NodeType (last hs), nod_HasGPS = (located \<noteq> []),
       nod_Lat = last_of 0 ao_Lat located, nod_Lon = last_of 0 ao_Lon located,
       nod_FirstAdvertAt = ao_At (hd hs), nod_LastAdvertAt = ao_At (last hs),
       nod_AdvertCount = of_nat (length hs),
       nod_Networks = first_seen_order (List.filter (\<lambda>i. i \<noteq> '''') (map ao_NetworkID hs)),
       nod_ObserverID = ao_ObserverID (last hs), nod_ObserverName = ao_ObserverName (last hs),
       nod_LatestAdverts = take cap (rev hs), nod_Flags = []\<rparr>)"

lemma last_of_simps [simp]: "last_of d f [] = d" "last_of d f (xs @ [x]) = f x"
  by (simp_all add: last_of_def)

lemma first_seen_order_snoc:
  "first_seen_order (xs @ [x]) = (if x \<in> set xs then first_seen_order xs else first_seen_order xs @ [x])"
  by (simp add: first_seen_order_def)

lemma set_first_seen_order [simp]: "set (first_seen_order xs) = set xs"
  by (simp add: first_seen_order_def)

lemma addStr_first_seen:
  "addStr (first_seen_order (List.filter (\<lambda>i. i \<noteq> '''') xs)) x =
     first_seen_order (List.filter (\<lambda>i. i \<noteq> '''') (xs @ [x]))"
  by (auto simp: addStr_def containsStr_def first_seen_order_snoc)

lemma noteAdvert_eq:
  "noteAdvert cap a n =
     \<lparr>nod_PubKey = nod_PubKey n, nod_Name = (if ao_Name a \<noteq> '''' then ao_Name a else nod_Name n),
      nod_NodeType = ao_NodeType a, nod_HasGPS = (ao_HasGPS a \<or> nod_HasGPS n),
      nod_Lat = (if ao_HasGPS a then ao_Lat a else nod_Lat n),
      nod_Lon = (if ao_HasGPS a then ao_Lon a else nod_Lon n),
      nod_FirstAdvertAt = nod_FirstAdvertAt n, nod_LastAdvertAt = ao_At a,
      nod_AdvertCount = nod_AdvertCount n + 1, nod_Networks = addStr (nod_Networks n) (ao_NetworkID a),
      nod_ObserverID = ao_ObserverID a, nod_ObserverName = ao_ObserverName a,
      nod_LatestAdverts = take cap (a # nod_LatestAdverts n), nod_Flags = nod_Flags n\<rparr>"
  by (simp add: noteAdvert_def pushAdvert_def noteSighting_def noteIdentity_def Let_def)

lemma summary_first: "0 < cap \<Longrightarrow> noteAdvert cap a (newNode a) = summary cap [a]"
  by (cases cap) (auto simp: noteAdvert_eq newNode_def summary_def Let_def last_of_def addStr_def
      containsStr_def first_seen_order_def)

lemma summary_snoc: "hs \<noteq> [] \<Longrightarrow> noteAdvert cap a (summary cap hs) = summary cap (hs @ [a])"
  by (cases cap) (auto simp: noteAdvert_eq summary_def Let_def addStr_first_seen [simplified])

abbreviation unflag :: "NodeRecord \<Rightarrow> NodeRecord" where
  "unflag n \<equiv> n\<lparr>nod_Flags := []\<rparr>"

lemma unflag_noteAdvert: "unflag (noteAdvert cap a n) = noteAdvert cap a (unflag n)"
  by (simp add: noteAdvert_eq)

lemma sameFlags_eq [simp]: "sameFlags a b \<longleftrightarrow> a = b"
  by (induction a b rule: sameFlags.induct) auto

subsection \<open>Lookups after each operation\<close>

lemma mget_nodes_Observe:
  "mget (nr_nodes (snd (nodes_Observe a r))) pk =
     (if pk = ao_PubKey a \<and> pk \<noteq> '''' then
        Some (noteAdvert (nr_maxAdverts r) a (case mget (nr_nodes r) pk of None \<Rightarrow> newNode a | Some n \<Rightarrow> n))
      else mget (nr_nodes r) pk)"
  by (auto simp: nodes_Observe_def Let_def mget_mput)

lemma nodes_Observe_other [simp]:
  "nr_maxAdverts (snd (nodes_Observe a r)) = nr_maxAdverts r"
  "nr_pending (snd (nodes_Observe a r)) = nr_pending r @ (if ao_PubKey a = '''' then [] else [a])"
  "mget (nr_dirty (snd (nodes_Observe a r))) pk =
     (if pk = ao_PubKey a \<and> pk \<noteq> '''' then Some () else mget (nr_dirty r) pk)"
  by (auto simp: nodes_Observe_def Let_def mget_mput)

lemma applyFlag_list:
  assumes "distinct (map fst ds)" and "res = fold (\<lambda>(k, fl). applyFlag k fl) ds (c, r)"
  shows "mget (nr_nodes (snd res)) pk = (case mget (nr_nodes r) pk of None \<Rightarrow> None
        | Some n \<Rightarrow> Some (case map_of ds pk of None \<Rightarrow> n | Some fl \<Rightarrow> n\<lparr>nod_Flags := fl\<rparr>)) \<and>
    (mget (nr_dirty (snd res)) pk \<noteq> None \<longleftrightarrow> mget (nr_dirty r) pk \<noteq> None \<or>
       (\<exists>n fl. mget (nr_nodes r) pk = Some n \<and> map_of ds pk = Some fl \<and> nod_Flags n \<noteq> fl)) \<and>
    fst res = c + length (List.filter (\<lambda>(k, fl). \<exists>n. mget (nr_nodes r) k = Some n \<and> nod_Flags n \<noteq> fl) ds) \<and>
    nr_maxAdverts (snd res) = nr_maxAdverts r \<and> nr_pending (snd res) = nr_pending r"
  using assms
proof (induction ds arbitrary: c r)
  case (Cons d ds)
  obtain k fl where d: "d = (k, fl)" by (cases d)
  have notin: "map_of ds k = None" using Cons.prems d by (simp add: map_of_eq_None_iff)
  let ?hit = "\<lambda>r (k, fl). \<exists>n. mget (nr_nodes r) k = Some n \<and> nod_Flags n \<noteq> (fl :: string list)"
  obtain c' r' where ap: "applyFlag k fl (c, r) = (c', r')" by fastforce
  have same: "List.filter (?hit r') ds = List.filter (?hit r) ds"
  proof (rule filter_cong [OF refl])
    fix x assume "x \<in> set ds"
    moreover obtain k' fl' where "x = (k', fl')" by (cases x)
    ultimately have "k' \<noteq> k" using Cons.prems d by (auto simp: image_iff)
    then show "?hit r' x = ?hit r x" using ap \<open>x = _\<close>
      by (auto simp: applyFlag_def mget_mput split: option.splits if_splits)
  qed
  have res: "res = fold (\<lambda>(k, fl). applyFlag k fl) ds (c', r')" using Cons.prems ap d by simp
  consider (none) "mget (nr_nodes r) k = None"
    | (same) n where "mget (nr_nodes r) k = Some n" "fl = nod_Flags n"
    | (change) n where "mget (nr_nodes r) k = Some n" "nod_Flags n \<noteq> fl" by (cases "mget (nr_nodes r) k") auto
  then show ?case
  proof cases
    case none
    then have "c' = c" "r' = r" using ap by (simp_all add: applyFlag_def)
    with none Cons.IH [OF _ res] Cons.prems(1) notin show ?thesis
      by (cases "pk = k") (simp_all add: d split: option.split)
  next
    case same
    then have "c' = c" "r' = r" using ap by (simp_all add: applyFlag_def)
    with same Cons.IH [OF _ res] Cons.prems(1) notin show ?thesis
      by (cases "pk = k") (simp_all add: d split: option.split)
  next
    case change
    then have "c' = Suc c" "r' = r\<lparr>nr_nodes := mput (nr_nodes r) k (n\<lparr>nod_Flags := fl\<rparr>), nr_dirty := mput (nr_dirty r) k ()\<rparr>"
      using ap by (simp_all add: applyFlag_def)
    with change Cons.IH [OF _ res] Cons.prems(1) notin same show ?thesis
      by (cases "pk = k") (simp_all add: d mget_mput split: option.split)
  qed
qed (simp split: option.split)

lemma ApplyFlags_eq:
  "mget (nr_nodes (snd (ApplyFlags d r))) pk = (case mget (nr_nodes r) pk of None \<Rightarrow> None
     | Some n \<Rightarrow> Some (case mget d pk of None \<Rightarrow> n | Some fl \<Rightarrow> n\<lparr>nod_Flags := fl\<rparr>))"
  "mget (nr_dirty (snd (ApplyFlags d r))) pk \<noteq> None \<longleftrightarrow> mget (nr_dirty r) pk \<noteq> None \<or>
     (\<exists>n fl. mget (nr_nodes r) pk = Some n \<and> mget d pk = Some fl \<and> nod_Flags n \<noteq> fl)"
  "fst (ApplyFlags d r) =
     length (List.filter (\<lambda>(k, fl). \<exists>n. mget (nr_nodes r) k = Some n \<and> nod_Flags n \<noteq> fl) (mentries d))"
  "nr_maxAdverts (snd (ApplyFlags d r)) = nr_maxAdverts r"
  "nr_pending (snd (ApplyFlags d r)) = nr_pending r"
  using applyFlag_list [of "mentries d" _ 0 r pk, OF _ refl]
  unfolding ApplyFlags_def mrange_def mget_eq_map_of [of d] by simp_all

subsection \<open>Runs of the registry\<close>

text \<open>Everything that happens to the registry after startup, in any order.\<close>

datatype nodeOp =
    Heard AdvertObservation
  | Flagged "(string, string list) gomap"
  | Attached "(string, AdvertObservation list) gomap"
  | Cleared nat

primrec node_step :: "nodeOp \<Rightarrow> NodeRegistry \<Rightarrow> NodeRegistry" where
  "node_step (Heard a) r = snd (nodes_Observe a r)"
| "node_step (Flagged d) r = snd (ApplyFlags d r)"
| "node_step (Attached recent) r = AttachRecentAdverts recent r"
| "node_step (Cleared n) r = ClearPending n r"

definition node_run :: "nodeOp list \<Rightarrow> NodeRegistry \<Rightarrow> NodeRegistry" where
  "node_run ops r = fold node_step ops r"

primrec adverts_of :: "nodeOp list \<Rightarrow> AdvertObservation list" where
  "adverts_of [] = []"
| "adverts_of (x # xs) = (case x of Heard a \<Rightarrow> [a] | _ \<Rightarrow> []) @ adverts_of xs"

lemma adverts_of_append [simp]: "adverts_of (xs @ ys) = adverts_of xs @ adverts_of ys"
  by (induction xs) auto

lemma ClearPending_simps [simp]:
  "nr_nodes (ClearPending n r) = nr_nodes r" "nr_dirty (ClearPending n r) = nr_dirty r"
  "nr_maxAdverts (ClearPending n r) = nr_maxAdverts r"
  "nr_pending (ClearPending n r) = drop n (nr_pending r)"
  by (simp_all add: ClearPending_def)

text \<open>Attaching leaves rows with adverts alone, and never touches anything but the rolling list.\<close>

lemma attachAdverts_rel:
  "nr_maxAdverts (attachAdverts k adv r) = nr_maxAdverts r \<and> nr_dirty (attachAdverts k adv r) = nr_dirty r \<and>
   nr_pending (attachAdverts k adv r) = nr_pending r \<and>
   map_option overview (mget (nr_nodes (attachAdverts k adv r)) pk) = map_option overview (mget (nr_nodes r) pk) \<and>
   (\<forall>n. mget (nr_nodes r) pk = Some n \<longrightarrow> nod_LatestAdverts n \<noteq> [] \<longrightarrow>
      mget (nr_nodes (attachAdverts k adv r)) pk = Some n)"
  by (auto simp: attachAdverts_def mget_mput overview_def split: option.splits)

lemma Attach_rel:
  "nr_maxAdverts (AttachRecentAdverts recent r) = nr_maxAdverts r \<and>
   nr_dirty (AttachRecentAdverts recent r) = nr_dirty r \<and>
   nr_pending (AttachRecentAdverts recent r) = nr_pending r \<and>
   map_option overview (mget (nr_nodes (AttachRecentAdverts recent r)) pk) = map_option overview (mget (nr_nodes r) pk) \<and>
   (\<forall>n. mget (nr_nodes r) pk = Some n \<longrightarrow> nod_LatestAdverts n \<noteq> [] \<longrightarrow>
      mget (nr_nodes (AttachRecentAdverts recent r)) pk = Some n)"
  (is "?P (AttachRecentAdverts recent r)")
  unfolding AttachRecentAdverts_def
proof (rule mrange_invariant [where P = ?P])
  fix k v s assume "?P s"
  then show "?P (attachAdverts k v s)" using attachAdverts_rel [of k v s pk] by fastforce
qed simp

definition rows_summarised :: "nat \<Rightarrow> AdvertObservation list \<Rightarrow> NodeRegistry \<Rightarrow> bool" where
  "rows_summarised cap as r \<longleftrightarrow> nr_maxAdverts r = cap \<and>
     (\<forall>pk. map_option unflag (mget (nr_nodes r) pk) =
        (if pk = '''' \<or> heard pk as = [] then None else Some (summary cap (heard pk as))))"

lemma rows_summarisedD:
  "rows_summarised cap as r \<Longrightarrow> map_option unflag (mget (nr_nodes r) pk) =
     (if pk = '''' \<or> heard pk as = [] then None else Some (summary cap (heard pk as)))"
  unfolding rows_summarised_def by blast

lemma latest_summary [simp]: "nod_LatestAdverts (summary cap hs) = take cap (rev hs)"
  by (simp add: summary_def Let_def)

lemma unflag_summary [simp]: "unflag (summary cap hs) = summary cap hs"
  by (simp add: summary_def Let_def)

lemma heard_snoc: "heard pk (as @ [a]) = heard pk as @ (if ao_PubKey a = pk then [a] else [])"
  by (simp add: heard_def)

lemma rows_summarised_Observe:
  assumes "rows_summarised cap as r" and "0 < cap"
  shows "rows_summarised cap (as @ [a]) (snd (nodes_Observe a r))"
proof -
  have "map_option unflag (mget (nr_nodes (snd (nodes_Observe a r))) pk) =
      (if pk = '''' \<or> heard pk (as @ [a]) = [] then None else Some (summary cap (heard pk (as @ [a]))))" for pk
  proof (cases "ao_PubKey a = pk \<and> pk \<noteq> ''''")
    case False
    have "mget (nr_nodes (snd (nodes_Observe a r))) pk = mget (nr_nodes r) pk"
      using False by (auto simp: mget_nodes_Observe)
    moreover have "pk \<noteq> '''' \<Longrightarrow> heard pk (as @ [a]) = heard pk as" using False by (simp add: heard_snoc)
    ultimately show ?thesis using rows_summarisedD [OF assms(1), of pk] by (cases "pk = ''''") simp_all
  next
    case True
    have row: "map_option unflag (mget (nr_nodes r) pk) =
        (if heard pk as = [] then None else Some (summary cap (heard pk as)))" and cap: "nr_maxAdverts r = cap"
      using assms(1) True by (auto simp: rows_summarised_def)
    show ?thesis
    proof (cases "mget (nr_nodes r) pk")
      case None
      then have "heard pk as = []" using row by (simp split: if_splits)
      moreover have "unflag (newNode a) = newNode a" by (simp add: newNode_def)
      ultimately show ?thesis
        using True None by (simp add: mget_nodes_Observe heard_snoc cap unflag_noteAdvert summary_first [OF assms(2)])
    next
      case (Some n)
      then have "heard pk as \<noteq> []" "unflag n = summary cap (heard pk as)" using row by (auto split: if_splits)
      then show ?thesis
        using True Some by (simp add: mget_nodes_Observe heard_snoc cap unflag_noteAdvert summary_snoc)
    qed
  qed
  then show ?thesis using assms(1) by (simp add: rows_summarised_def)
qed

lemma rows_summarised_step:
  assumes "rows_summarised cap as r" and "0 < cap"
  shows "rows_summarised cap (as @ adverts_of [x]) (node_step x r)"
proof (cases x)
  case (Heard a)
  then show ?thesis using rows_summarised_Observe [OF assms] by simp
next
  case (Flagged d)
  have "map_option unflag (mget (nr_nodes (snd (ApplyFlags d r))) pk) = map_option unflag (mget (nr_nodes r) pk)" for pk
    by (auto simp: ApplyFlags_eq split: option.split)
  then show ?thesis using assms(1) Flagged by (simp add: rows_summarised_def ApplyFlags_eq)
next
  case (Attached recent)
  have "mget (nr_nodes (AttachRecentAdverts recent r)) pk = mget (nr_nodes r) pk" for pk
  proof (cases "mget (nr_nodes r) pk")
    case None
    have "map_option overview (mget (nr_nodes (AttachRecentAdverts recent r)) pk) = None"
      using Attach_rel [of recent r pk] None by simp
    with None show ?thesis by simp
  next
    case (Some n)
    have "map_option unflag (mget (nr_nodes r) pk) = (if pk = '''' \<or> heard pk as = [] then None else Some (summary cap (heard pk as)))"
      using assms(1) unfolding rows_summarised_def by blast
    then have "heard pk as \<noteq> []" "unflag n = summary cap (heard pk as)" using Some by (auto split: if_splits)
    then have "nod_LatestAdverts n = take cap (rev (heard pk as))"
      using latest_summary [of cap "heard pk as"] by (metis NodeRecord.select_convs(13) NodeRecord.surjective NodeRecord.update_convs(14))
    then have "nod_LatestAdverts n \<noteq> []" using \<open>heard pk as \<noteq> []\<close> assms(2) by simp
    then show ?thesis using Attach_rel [of recent r pk] Some by simp
  qed
  then show ?thesis using assms(1) Attached Attach_rel [of recent r] by (simp add: rows_summarised_def)
next
  case (Cleared n)
  then show ?thesis using assms(1) by (simp add: rows_summarised_def)
qed

lemma rows_summarised_run:
  "rows_summarised cap as r \<Longrightarrow> 0 < cap \<Longrightarrow> rows_summarised cap (as @ adverts_of ops) (node_run ops r)"
proof (induction ops arbitrary: as r)
  case (Cons x ops)
  have "rows_summarised cap ((as @ adverts_of [x]) @ adverts_of ops) (node_run ops (node_step x r))"
    by (rule Cons.IH [OF rows_summarised_step [OF Cons.prems] Cons.prems(2)])
  then show ?case by (simp add: node_run_def)
qed (simp add: node_run_def)

lemma rows_summarised_new: "rows_summarised (nat (if m \<le> 0 then defaultAdvertsPerNode else m)) [] (newNodeRegistry m)"
  by (simp add: rows_summarised_def newNodeRegistry_def heard_def)

subsection \<open>The advert history\<close>

text \<open>The advert flush of main.go as a step relation over the registry, the append-only history table
  and the batch being appended, if any: collectors may add adverts between the read of the buffer and
  its clearing. \<open>AppendAdverts\<close> is one transaction: it appends the whole batch or nothing.\<close>

record advertFlush =
  af_reg :: NodeRegistry
  af_history :: "AdvertObservation list"
  af_batch :: "AdvertObservation list option"

inductive advert_flow :: "AdvertObservation list \<Rightarrow> advertFlush \<Rightarrow> bool" where
  start: "advert_flow [] \<lparr>af_reg = newNodeRegistry m, af_history = [], af_batch = None\<rparr>"
| hear: "advert_flow as s \<Longrightarrow> advert_flow (as @ [a]) (s\<lparr>af_reg := snd (nodes_Observe a (af_reg s))\<rparr>)"
| other: "advert_flow as s \<Longrightarrow> x = Flagged d \<or> x = Attached recent \<Longrightarrow>
    advert_flow as (s\<lparr>af_reg := node_step x (af_reg s)\<rparr>)"
| read: "advert_flow as s \<Longrightarrow> af_batch s = None \<Longrightarrow> PendingAdverts (af_reg s) = b \<Longrightarrow> length b > 0 \<Longrightarrow>
    advert_flow as (s\<lparr>af_batch := Some b\<rparr>)"
| append_fails: "advert_flow as s \<Longrightarrow> af_batch s = Some b \<Longrightarrow> advert_flow as (s\<lparr>af_batch := None\<rparr>)"
| append_ok: "advert_flow as s \<Longrightarrow> af_batch s = Some b \<Longrightarrow>
    advert_flow as (s\<lparr>af_history := af_history s @ b, af_batch := None,
      af_reg := ClearPending (length b) (af_reg s)\<rparr>)"

lemma advert_flow_inv:
  "advert_flow as s \<Longrightarrow>
     af_history s @ nr_pending (af_reg s) = List.filter (\<lambda>a. ao_PubKey a \<noteq> '''') as \<and>
     (\<forall>b. af_batch s = Some b \<longrightarrow> (\<exists>later. nr_pending (af_reg s) = b @ later))"
proof (induction rule: advert_flow.induct)
  case (other as s x d recent)
  then have "nr_pending (node_step x (af_reg s)) = nr_pending (af_reg s)"
    using Attach_rel [of recent "af_reg s"] by (auto simp: ApplyFlags_eq)
  with other show ?case by simp
next
  case (append_ok as s b)
  then show ?case by auto
qed (auto simp: newNodeRegistry_def PendingAdverts_def)

subsection \<open>The overview flush\<close>

lemma overview_simps [simp]:
  "nod_PubKey (overview n) = nod_PubKey n" "overview (overview n) = overview n"
  "nod_LatestAdverts (overview n) = []" "nod_Flags (overview n) = nod_Flags n"
  by (simp_all add: overview_def)

lemma nod_PubKey_noteAdvert [simp]: "nod_PubKey (noteAdvert cap a n) = nod_PubKey n"
  by (simp add: noteAdvert_eq)

lemma keyed_node_step:
  assumes "keyed nod_PubKey (nr_nodes r)"
  shows "keyed nod_PubKey (nr_nodes (node_step x r))"
proof (cases x)
  case (Heard a)
  have "nod_PubKey n = pk" if "mget (nr_nodes (snd (nodes_Observe a r))) pk = Some n" for pk n
    using that assms by (auto simp: mget_nodes_Observe newNode_def split: if_splits option.splits dest: keyedD)
  then show ?thesis using Heard by (simp add: keyed_def)
next
  case (Flagged d)
  then show ?thesis using assms by (auto simp: keyed_def ApplyFlags_eq split: option.splits)
next
  case (Attached recent)
  have "nod_PubKey n = pk" if n: "mget (nr_nodes (AttachRecentAdverts recent r)) pk = Some n" for pk n
  proof -
    have "map_option overview (mget (nr_nodes r) pk) = Some (overview n)"
      using Attach_rel [of recent r pk] n by simp
    then obtain n' where n': "mget (nr_nodes r) pk = Some n'" "overview n' = overview n" by auto
    then show ?thesis using keyedD [OF assms n'(1)] by (metis overview_simps(1))
  qed
  then show ?thesis using Attached by (simp add: keyed_def)
qed (use assms in simp)

lemma node_step_marks:
  "mget (nr_dirty (node_step x r)) pk \<noteq> None \<or>
   (map_option overview (mget (nr_nodes (node_step x r)) pk) = map_option overview (mget (nr_nodes r) pk) \<and>
    mget (nr_dirty r) pk = None)"
proof (cases x)
  case (Heard a)
  then show ?thesis by (auto simp: mget_nodes_Observe)
next
  case (Flagged d)
  have "map_option overview (mget (nr_nodes (snd (ApplyFlags d r))) pk) = map_option overview (mget (nr_nodes r) pk) \<and>
      mget (nr_dirty r) pk = None" if "mget (nr_dirty (snd (ApplyFlags d r))) pk = None"
  proof -
    have nd: "mget (nr_dirty r) pk = None" and
      nf: "\<And>n fl. mget (nr_nodes r) pk = Some n \<Longrightarrow> mget d pk = Some fl \<Longrightarrow> nod_Flags n = fl"
      using that ApplyFlags_eq(2) [of d r pk] by blast+
    have "mget (nr_nodes (snd (ApplyFlags d r))) pk = mget (nr_nodes r) pk"
      using nf unfolding ApplyFlags_eq(1)
      by (cases "mget (nr_nodes r) pk"; cases "mget d pk") fastforce+
    then show ?thesis using nd by simp
  qed
  then show ?thesis using Flagged by auto
next
  case (Attached recent)
  then show ?thesis using Attach_rel [of recent r pk] by auto
qed auto

interpretation node_flush: dirty_registry nr_nodes nr_dirty overview nod_PubKey nodes_TakeDirty nodes_Requeue
  node_step "\<lambda>_. True" "\<lambda>_. True"
proof
  show "mget (nr_dirty (node_step u s)) k \<noteq> None \<or>
      map_option overview (mget (nr_nodes (node_step u s)) k) = map_option overview (mget (nr_nodes s) k) \<and>
      mget (nr_dirty s) k = None" for u s k
    by (rule node_step_marks)
qed (auto simp: nodes_TakeDirty_def nodes_Requeue_def keyed_node_step mlen_0_iff)

subsection \<open>Restart\<close>

lemma restoreNode_simps [simp]:
  "nr_maxAdverts (restoreNode recent n r) = nr_maxAdverts r"
  "map_option overview (mget (nr_nodes (restoreNode recent n r)) pk) =
     (if pk = nod_PubKey n then Some (overview n) else map_option overview (mget (nr_nodes r) pk))"
  by (simp_all add: restoreNode_def Let_def mget_mput overview_def)

lemma nodes_Restore_rows:
  "distinct (map nod_PubKey rows) \<Longrightarrow>
   map_option overview (mget (nr_nodes (nodes_Restore rows recent r)) pk) =
     (case find (\<lambda>n. nod_PubKey n = pk) rows of Some n \<Rightarrow> Some (overview n)
      | None \<Rightarrow> map_option overview (mget (nr_nodes r) pk))"
proof (induction rows arbitrary: r)
  case (Cons n rows)
  have "find (\<lambda>n. nod_PubKey n = pk) rows = None" if "nod_PubKey n = pk"
    using that Cons.prems by (auto simp: find_None_iff image_iff)
  then show ?case using Cons by (auto simp: nodes_Restore_def split: option.splits)
qed (simp add: nodes_Restore_def)

subsection \<open>Statistics\<close>

text \<open>The tally of one network: how its entry grows with each node.\<close>

lemma mget_tally_list:
  "distinct ids \<Longrightarrow>
   mget (fold (\<lambda>i out. mput out i (f (case mget out i of None \<Rightarrow> newStats | Some st \<Rightarrow> st))) ids out) j =
     (if j \<in> set ids then Some (f (case mget out j of None \<Rightarrow> newStats | Some st \<Rightarrow> st)) else mget out j)"
  by (induction ids arbitrary: out) (auto simp: mget_mput)

lemma mget_tallyNode:
  "distinct (nod_Networks n) \<Longrightarrow> mget (tallyNode n out) j =
     (if j \<in> set (nod_Networks n) then Some (countMember (onMapNode n) (nodeTypeName (nod_NodeType n))
        (case mget out j of None \<Rightarrow> newStats | Some st \<Rightarrow> st)) else mget out j)"
  unfolding tallyNode_def by (rule mget_tally_list)

definition stat_ok :: "string \<Rightarrow> NodeRecord list \<Rightarrow> NetworkNodeStats \<Rightarrow> bool" where
  "stat_ok j ns st \<longleftrightarrow>
     nns_Total st = length (List.filter (\<lambda>n. j \<in> set (nod_Networks n)) ns) \<and>
     nns_OnMap st = length (List.filter (\<lambda>n. j \<in> set (nod_Networks n) \<and> onMapNode n) ns) \<and>
     (\<forall>t. (case mget (nns_ByType st) t of None \<Rightarrow> 0 | Some k \<Rightarrow> k) =
        length (List.filter (\<lambda>n. j \<in> set (nod_Networks n) \<and> onMapNode n \<and> nodeTypeName (nod_NodeType n) = t) ns))"

lemma stat_ok_new: "stat_ok j [] newStats"
  by (simp add: stat_ok_def newStats_def)

lemma stat_ok_count:
  "stat_ok j ns st \<Longrightarrow> j \<in> set (nod_Networks n) \<Longrightarrow>
     stat_ok j (ns @ [n]) (countMember (onMapNode n) (nodeTypeName (nod_NodeType n)) st)"
  by (auto simp: stat_ok_def countMember_def Let_def mincr_nat_def mget_mput)

lemma stat_ok_skip: "stat_ok j ns st \<Longrightarrow> j \<notin> set (nod_Networks n) \<Longrightarrow> stat_ok j (ns @ [n]) st"
  by (simp add: stat_ok_def)

lemma tally_ok:
  assumes "\<forall>n\<in>set ns. distinct (nod_Networks n)"
  shows "stat_ok j ns (case mget (fold tallyNode ns mempty) j of None \<Rightarrow> newStats | Some st \<Rightarrow> st) \<and>
    (mget (fold tallyNode ns mempty) j = None \<longleftrightarrow> (\<forall>n\<in>set ns. j \<notin> set (nod_Networks n)))"
  using assms
proof (induction ns rule: rev_induct)
  case (snoc n ns)
  then have IH: "stat_ok j ns (case mget (fold tallyNode ns mempty) j of None \<Rightarrow> newStats | Some st \<Rightarrow> st)"
    and none: "mget (fold tallyNode ns mempty) j = None \<longleftrightarrow> (\<forall>n\<in>set ns. j \<notin> set (nod_Networks n))"
    and d: "distinct (nod_Networks n)" by simp_all
  show ?case
  proof (cases "j \<in> set (nod_Networks n)")
    case True
    then show ?thesis using stat_ok_count [OF IH True] by (simp add: mget_tallyNode [OF d])
  next
    case False
    then show ?thesis using stat_ok_skip [OF IH False] none by (simp add: mget_tallyNode [OF d])
  qed
qed (simp add: stat_ok_new)

subsection \<open>Properties\<close>

text \<open>C9: A node's overview row is exactly the summary of the adverts heard of it: after any sequence of
  adverts, flag scans, background attachments and history flushes from an empty registry, a public
  key has a row exactly when an advert with it was heard (never the empty key), and the row has the
  latest non-empty name, the latest position, type and observer, the first and last times, the
  number of adverts, the networks in first-seen order without repeats, and the newest adverts up to
  the cap, newest first; only the flags come from elsewhere.\<close>

theorem node_rows_summarise_adverts:
  "map_option (\<lambda>n. n\<lparr>nod_Flags := []\<rparr>) (mget (nr_nodes (node_run ops (newNodeRegistry m))) pk) =
     (if pk = '''' \<or> heard pk (adverts_of ops) = [] then None
      else Some (summary (nat (if m \<le> 0 then 10 else m)) (heard pk (adverts_of ops))))"
  using rows_summarisedD [OF rows_summarised_run [OF rows_summarised_new, of m ops], of pk]
  by (simp add: defaultAdvertsPerNode_def)


text \<open>No change of a node's overview row is lost by the write-behind flush or by a restart: after
  any adverts, flag scans and attachments interleaved with flushes whose saves fail or succeed, a
  final successful flush and a restart from the saved rows give back what \<open>Lookup\<close> returned.\<close>

theorem node_updates_survive_restart:
  assumes st: "st = flush_run node_step nodes_TakeDirty nodes_Requeue nod_PubKey ops
       \<lparr>fs_reg = newNodeRegistry m, fs_db = (\<lambda>_. None), fs_batch = []\<rparr>"
    and idle: "fs_batch st = []"
    and db: "db = fs_db (flush_step node_step nodes_TakeDirty nodes_Requeue nod_PubKey SaveOk
       (flush_step node_step nodes_TakeDirty nodes_Requeue nod_PubKey Take st))"
    and rows: "\<And>v. v \<in> set rows \<longleftrightarrow> db (nod_PubKey v) = Some v" "distinct (map nod_PubKey rows)"
    and live: "nodes_Lookup pk (fs_reg st) = Some n"
  shows "nodes_Lookup pk (nodes_Restore rows recent (newNodeRegistry m')) = Some n"
proof -
  let ?st0 = "\<lparr>fs_reg = newNodeRegistry m, fs_db = (\<lambda>_. None), fs_batch = []\<rparr>
    :: (NodeRegistry, string, NodeRecord) flushState"
  have nl0: "node_flush.fq.no_loss ?st0"
    by (rule node_flush.fq.no_lossI) (simp_all add: newNodeRegistry_def node_flush.row_inv_def node_flush.row_val_def)
  have val: "node_flush.row_val (fs_reg st) pk = Some n"
    using live by (simp add: nodes_Lookup_def node_flush.row_val_def)
  have "find (\<lambda>v. nod_PubKey v = pk) rows = Some n"
    by (rule node_flush.fq.flushed_row [OF nl0 _ idle [unfolded st] rows(1) [unfolded db st] rows(2) val [unfolded st]]) simp
  moreover have "overview n = n"
    using live by (auto simp: nodes_Lookup_def)
  ultimately show ?thesis
    using rows(2) by (simp add: nodes_Lookup_def nodes_Restore_rows)
qed

text \<open>The per-network statistics count each node once per network it was heard on, and on the map
  exactly the located ones without a location flag, split by type name; a network appears exactly
  when some node was heard on it.\<close>

theorem node_stats_exact:
  assumes "\<And>pk n. mget (nr_nodes r) pk = Some n \<Longrightarrow> distinct (nod_Networks n)"
  shows "case mget (NodeStatsByNetwork r) j of
      None \<Rightarrow> \<forall>n\<in>set (map snd (mentries (nr_nodes r))). j \<notin> set (nod_Networks n)
    | Some st \<Rightarrow> (\<exists>n\<in>set (map snd (mentries (nr_nodes r))). j \<in> set (nod_Networks n)) \<and>
        stat_ok j (map snd (mentries (nr_nodes r))) st"
proof -
  have "NodeStatsByNetwork r = fold tallyNode (map snd (mentries (nr_nodes r))) mempty"
    by (simp add: NodeStatsByNetwork_def mrange_def fold_map comp_def case_prod_unfold)
  moreover have "\<forall>n\<in>set (map snd (mentries (nr_nodes r))). distinct (nod_Networks n)"
    using assms by (auto simp: mentries_iff)
  ultimately show ?thesis using tally_ok [of "map snd (mentries (nr_nodes r))" j] by (auto split: option.splits)
qed

subsection \<open>Witnesses\<close>

definition ex_obs :: "string \<Rightarrow> unix_time \<Rightarrow> AdvertObservation" where
  "ex_obs name t = \<lparr>ao_Hash = ''h'', ao_RawHex = ''00'', ao_PubKey = ''aa'', ao_Name = name, ao_NodeType = 2,
     ao_HasGPS = True, ao_Lat = 50, ao_Lon = 14, ao_AdvertTime = t, ao_At = t, ao_NetworkID = ''cz'',
     ao_AnalyzerName = ''x'', ao_ObserverID = ''bb'', ao_ObserverName = ''o''\<rparr>"

lemma ex_obs_simps [simp]: "ao_PubKey (ex_obs n t) = ''aa''" "ao_NetworkID (ex_obs n t) = ''cz''"
  by (simp_all add: ex_obs_def)


definition ex_reg :: NodeRegistry where
  "ex_reg = snd (nodes_Observe (ex_obs ''a'' 5) (newNodeRegistry 3))"

lemma ex_reg_nodes: "mget (nr_nodes ex_reg) pk =
    (if pk = ''aa'' then Some (noteAdvert 3 (ex_obs ''a'' 5) (newNode (ex_obs ''a'' 5))) else None)"
  by (simp add: ex_reg_def mget_nodes_Observe newNodeRegistry_def)

lemma ex_reg_entries: "mentries (nr_nodes ex_reg) = [(''aa'', noteAdvert 3 (ex_obs ''a'' 5) (newNode (ex_obs ''a'' 5)))]"
  by (simp add: ex_reg_def nodes_Observe_def Let_def newNodeRegistry_def DAList.update.rep_eq)

lemma TakeDirty_single:
  assumes "\<And>pk. mget (nr_nodes r) pk = (if pk = k then Some n else None)" and "mget (nr_dirty r) k = Some ()"
  shows "set (fst (nodes_TakeDirty r)) = {overview n}"
proof -
  have "nr_dirty r \<noteq> mempty" using assms(2) by auto
  then show ?thesis
    using assms by (auto simp: nodes_TakeDirty_def mlen_0_iff dirty_rows_iff split: if_splits)
qed

lemma node_updates_survive_restart_witness:
  "\<exists>rows n. nodes_Lookup ''aa'' (nodes_Restore rows mempty (newNodeRegistry 5)) = Some n \<and> nod_LastAdvertAt n = 6"
proof -
  let ?u = "\<lambda>t. Update (Heard (ex_obs ''a'' t))"
  let ?ops = "[?u 5, Take, SaveFail, ?u 6]"
  let ?st = "flush_run node_step nodes_TakeDirty nodes_Requeue nod_PubKey ?ops
       \<lparr>fs_reg = newNodeRegistry 3, fs_db = (\<lambda>_. None), fs_batch = []\<rparr>"
  let ?r1 = "nodes_Requeue (fst (nodes_TakeDirty ex_reg)) (snd (nodes_TakeDirty ex_reg))"
  let ?r = "snd (nodes_Observe (ex_obs ''a'' 6) ?r1)"
  let ?n = "noteAdvert 3 (ex_obs ''a'' 6) (noteAdvert 3 (ex_obs ''a'' 5) (newNode (ex_obs ''a'' 5)))"
  have reg: "fs_reg ?st = ?r" and idle: "fs_batch ?st = []"
    by (simp_all add: ex_reg_def)
  have r1: "nr_nodes ?r1 = nr_nodes ex_reg" "nr_maxAdverts ?r1 = 3"
    by (simp_all add: nodes_Requeue_def nodes_TakeDirty_def ex_reg_def newNodeRegistry_def)
  have nodes: "mget (nr_nodes ?r) pk = (if pk = ''aa'' then Some ?n else None)" for pk
    by (simp add: mget_nodes_Observe r1 ex_reg_nodes)
  have dirty: "mget (nr_dirty ?r) ''aa'' = Some ()" by simp
  have batch: "set (fst (nodes_TakeDirty ?r)) = {overview ?n}"
    by (rule TakeDirty_single [OF nodes dirty])
  let ?db = "fs_db (flush_step node_step nodes_TakeDirty nodes_Requeue nod_PubKey SaveOk
       (flush_step node_step nodes_TakeDirty nodes_Requeue nod_PubKey Take ?st))"
  have db: "?db = db_save nod_PubKey (fst (nodes_TakeDirty ?r)) (\<lambda>_. None)"
    by (simp add: ex_reg_def)
  have pk: "nod_PubKey (overview ?n) = ''aa''" by (simp add: newNode_def)
  have rows: "v \<in> set [overview ?n] \<longleftrightarrow> ?db (nod_PubKey v) = Some v" for v
    unfolding db by (rule db_save_single [OF batch])
  have live: "nodes_Lookup ''aa'' (fs_reg ?st) = Some (overview ?n)"
    unfolding reg by (simp add: nodes_Lookup_def nodes)
  have dk: "distinct (map nod_PubKey [overview ?n])" by simp
  have "nodes_Lookup ''aa'' (nodes_Restore [overview ?n] mempty (newNodeRegistry 5)) = Some (overview ?n)"
    by (rule node_updates_survive_restart [where st = ?st and db = ?db, OF refl idle refl rows dk live])
  moreover have "nod_LastAdvertAt (overview ?n) = 6" by (simp add: overview_def noteAdvert_eq ex_obs_def)
  ultimately show ?thesis by blast
qed

lemma node_stats_exact_witness:
  "\<exists>st. mget (NodeStatsByNetwork ex_reg) ''cz'' = Some st \<and> nns_OnMap st = 1"
proof -
  have d: "mget (nr_nodes ex_reg) pk = Some n \<Longrightarrow> distinct (nod_Networks n)" for pk n
    by (auto simp: ex_reg_nodes noteAdvert_eq newNode_def addStr_def split: if_splits)
  have "''cz'' \<in> set (nod_Networks (noteAdvert 3 (ex_obs ''a'' 5) (newNode (ex_obs ''a'' 5))))"
    by (simp add: noteAdvert_eq newNode_def addStr_def containsStr_def)
  moreover have "onMapNode (noteAdvert 3 (ex_obs ''a'' 5) (newNode (ex_obs ''a'' 5)))"
    by (simp add: onMapNode_def noteAdvert_eq newNode_def locationFlagged_def containsStr_def ex_obs_def)
  ultimately show ?thesis
    using node_stats_exact [of ex_reg "''cz''", OF d]
    by (cases "mget (NodeStatsByNetwork ex_reg) ''cz''") (simp_all add: ex_reg_entries stat_ok_def)
qed

end
