(* ===== verification/ObserverRegistry.thy ===== *)
theory ObserverRegistry
  imports GoStrings DirtyMap GoSort
begin

text \<open>
  The global store of observer activity (observers.go): one row per observer, keyed by its id in
  canonical (trimmed, lower-case) form. The theory holds the records and every operation, shows that
  a restored row merges everything saved under any spelling of its id, that the flush loop loses no
  update of a canonical row, and that a row saved under a non-canonical id is counted again by every
  restart that follows.
\<close>

record ObserverActivity =
  oa_ObserverID :: string
  oa_Name :: string
  oa_NetworkID :: string
  oa_At :: unix_time

record ObserverRecord =
  or_ObserverID :: string
  or_Name :: string
  or_FirstSeen :: unix_time
  or_LastSeen :: unix_time
  or_Observations :: u64
  or_Networks :: "string list"

record ObserverRegistry =
  obs_observers :: "(string, ObserverRecord) gomap"
  obs_dirty :: "(string, unit) gomap"

definition newObserverRegistry :: ObserverRegistry where
  "newObserverRegistry = \<lparr>obs_observers = mempty, obs_dirty = mempty\<rparr>"

definition canonObserverID :: "string \<Rightarrow> string" where
  "canonObserverID i = to_lower (trim_space i)"

definition noteActivity :: "ObserverActivity \<Rightarrow> ObserverRecord \<Rightarrow> ObserverRecord" where
  "noteActivity a o' =
     (let o' = (if oa_Name a \<noteq> '''' then o'\<lparr>or_Name := oa_Name a\<rparr> else o')
      in o'\<lparr>or_LastSeen := oa_At a, or_Observations := or_Observations o' + 1,
           or_Networks := addStr (or_Networks o') (oa_NetworkID a)\<rparr>)"

definition newObserver :: "string \<Rightarrow> unix_time \<Rightarrow> ObserverRecord" where
  "newObserver i t = \<lparr>or_ObserverID = i, or_Name = '''', or_FirstSeen = t, or_LastSeen = 0,
     or_Observations = 0, or_Networks = []\<rparr>"

definition observers_Observe :: "ObserverActivity \<Rightarrow> ObserverRegistry \<Rightarrow> ObserverRegistry" where
  "observers_Observe a r =
     (let i = canonObserverID (oa_ObserverID a) in
      if i = '''' then r
      else let o' = (case mget (obs_observers r) i of None \<Rightarrow> newObserver i (oa_At a) | Some o' \<Rightarrow> o')
           in r\<lparr>obs_observers := mput (obs_observers r) i (noteActivity a o'),
                obs_dirty := mput (obs_dirty r) i ()\<rparr>)"

record ObserverView =
  ov_ObserverID :: string
  ov_Name :: string
  ov_FirstSeen :: unix_time
  ov_LastSeen :: unix_time
  ov_Observations :: u64
  ov_Networks :: "string list"

definition observerView :: "ObserverRecord \<Rightarrow> ObserverView" where
  "observerView o' = \<lparr>ov_ObserverID = or_ObserverID o', ov_Name = or_Name o', ov_FirstSeen = or_FirstSeen o',
     ov_LastSeen = or_LastSeen o', ov_Observations = or_Observations o', ov_Networks = or_Networks o'\<rparr>"

definition observers_Snapshot :: "ObserverRegistry \<Rightarrow> ObserverView list" where
  "observers_Snapshot r = sort_by (by_desc_then ov_LastSeen ov_ObserverID)
     (map (observerView \<circ> snd) (mentries (obs_observers r)))"

definition observers_Lookup :: "string \<Rightarrow> ObserverRegistry \<Rightarrow> ObserverView option" where
  "observers_Lookup observerID r =
     (let i = canonObserverID observerID in
      if i = '''' then None else map_option observerView (mget (obs_observers r) i))"

definition observers_Has :: "string \<Rightarrow> ObserverRegistry \<Rightarrow> bool" where
  "observers_Has observerID r =
     (let i = canonObserverID observerID in
      if i = '''' then False else mget (obs_observers r) i \<noteq> None)"

definition observers_Export :: "ObserverRegistry \<Rightarrow> ObserverRecord list" where
  "observers_Export r = map snd (mentries (obs_observers r))"

definition observers_TakeDirty :: "ObserverRegistry \<Rightarrow> ObserverRecord list \<times> ObserverRegistry" where
  "observers_TakeDirty r = (if mlen (obs_dirty r) = 0 then ([], r)
     else (dirty_rows (\<lambda>o'. o') (obs_observers r) (obs_dirty r), r\<lparr>obs_dirty := mempty\<rparr>))"

definition observers_Requeue :: "ObserverRecord list \<Rightarrow> ObserverRegistry \<Rightarrow> ObserverRegistry" where
  "observers_Requeue records r =
     r\<lparr>obs_dirty := mark_rows (canonObserverID \<circ> or_ObserverID) records (obs_observers r) (obs_dirty r)\<rparr>"

definition mergeObserver :: "ObserverRecord \<Rightarrow> ObserverRecord \<Rightarrow> ObserverRecord" where
  "mergeObserver dst src =
     (let dst = (if or_FirstSeen src \<noteq> 0 \<and> (or_FirstSeen dst = 0 \<or> or_FirstSeen src < or_FirstSeen dst)
                 then dst\<lparr>or_FirstSeen := or_FirstSeen src\<rparr> else dst);
          dst = (if or_LastSeen src > or_LastSeen dst then dst\<lparr>or_LastSeen := or_LastSeen src\<rparr> else dst);
          dst = dst\<lparr>or_Observations := or_Observations dst + or_Observations src\<rparr>;
          dst = (if or_Name dst = '''' then dst\<lparr>or_Name := or_Name src\<rparr> else dst)
      in dst\<lparr>or_Networks := fold (\<lambda>net ns. if \<not> containsStr ns net then ns @ [net] else ns)
             (or_Networks src) (or_Networks dst)\<rparr>)"

definition restoreObserver :: "ObserverRecord \<Rightarrow> ObserverRegistry \<Rightarrow> ObserverRegistry" where
  "restoreObserver o' r =
     (let o' = o'\<lparr>or_ObserverID := canonObserverID (or_ObserverID o')\<rparr> in
      if or_ObserverID o' = '''' then r
      else r\<lparr>obs_observers := mput (obs_observers r) (or_ObserverID o')
        (case mget (obs_observers r) (or_ObserverID o') of
           Some existing \<Rightarrow> mergeObserver existing o' | None \<Rightarrow> o')\<rparr>)"

definition observers_Restore :: "ObserverRecord list \<Rightarrow> ObserverRegistry \<Rightarrow> ObserverRegistry" where
  "observers_Restore observers r = fold restoreObserver observers r"

subsection \<open>Lemmas\<close>

lemma canonObserverID_idem [simp]: "canonObserverID (canonObserverID i) = canonObserverID i"
  using canon_idem [of i] by (simp add: canonObserverID_def canon_def)

lemma noteActivity_eq:
  "noteActivity a o' = \<lparr>or_ObserverID = or_ObserverID o', or_Name = (if oa_Name a \<noteq> '''' then oa_Name a else or_Name o'),
     or_FirstSeen = or_FirstSeen o', or_LastSeen = oa_At a, or_Observations = or_Observations o' + 1,
     or_Networks = addStr (or_Networks o') (oa_NetworkID a)\<rparr>"
  by (simp add: noteActivity_def Let_def)

lemma mget_observers_Observe:
  "mget (obs_observers (observers_Observe a r)) i =
     (if i = canonObserverID (oa_ObserverID a) \<and> i \<noteq> '''' then
        Some (noteActivity a (case mget (obs_observers r) i of None \<Rightarrow> newObserver i (oa_At a) | Some o' \<Rightarrow> o'))
      else mget (obs_observers r) i)"
  "mget (obs_dirty (observers_Observe a r)) i =
     (if i = canonObserverID (oa_ObserverID a) \<and> i \<noteq> '''' then Some () else mget (obs_dirty r) i)"
  by (auto simp: observers_Observe_def Let_def mget_mput)

definition canonical_row :: "ObserverRecord \<Rightarrow> bool" where
  "canonical_row o' \<longleftrightarrow> canonObserverID (or_ObserverID o') = or_ObserverID o' \<and> or_ObserverID o' \<noteq> ''''"

interpretation observer_flush: dirty_registry obs_observers obs_dirty "\<lambda>o'. o'" "canonObserverID \<circ> or_ObserverID"
  observers_TakeDirty observers_Requeue observers_Observe canonical_row "\<lambda>_. True"
proof
  fix s :: ObserverRegistry and u k v
  assume s: "keyed (canonObserverID \<circ> or_ObserverID) (obs_observers s)"
    and ok: "\<And>k v. mget (obs_observers s) k = Some v \<Longrightarrow> canonical_row v"
  have row: "or_ObserverID w = k' \<and> canonical_row w" if "mget (obs_observers (observers_Observe u s)) k' = Some w" for k' w
  proof -
    have old: "or_ObserverID v = k' \<and> canonical_row v" if "mget (obs_observers s) k' = Some v" for v
      using keyedD [OF s that] ok [OF that] by (simp add: canonical_row_def)
    then show ?thesis
      using that by (auto simp: mget_observers_Observe noteActivity_eq newObserver_def canonical_row_def
          split: if_splits option.splits)
  qed
  then show "keyed (canonObserverID \<circ> or_ObserverID) (obs_observers (observers_Observe u s)) \<and>
      (mget (obs_observers (observers_Observe u s)) k = Some v \<longrightarrow> canonical_row v)"
    by (auto simp: keyed_def canonical_row_def)
next
  fix s :: ObserverRegistry and u k
  show "mget (obs_dirty (observers_Observe u s)) k \<noteq> None \<or>
      map_option (\<lambda>o'. o') (mget (obs_observers (observers_Observe u s)) k) =
        map_option (\<lambda>o'. o') (mget (obs_observers s) k) \<and> mget (obs_dirty s) k = None"
    by (auto simp: mget_observers_Observe)
qed (auto simp: observers_TakeDirty_def observers_Requeue_def mlen_0_iff)

subsection \<open>Restore\<close>

text \<open>The rows saved under any spelling of an id.\<close>

definition spelled :: "string \<Rightarrow> ObserverRecord list \<Rightarrow> ObserverRecord list" where
  "spelled i rows = List.filter (\<lambda>o'. canonObserverID (or_ObserverID o') = i) rows"

lemma mergeObserver_simps [simp]:
  "or_ObserverID (mergeObserver a b) = or_ObserverID a"
  "or_Observations (mergeObserver a b) = or_Observations a + or_Observations b"
  "or_LastSeen (mergeObserver a b) = max (or_LastSeen a) (or_LastSeen b)"
  by (auto simp: mergeObserver_def Let_def)

lemma set_fold_union:
  "set (fold (\<lambda>net ns. if \<not> containsStr ns net then ns @ [net] else ns) xs ys) = set ys \<union> set xs"
  by (induction xs arbitrary: ys) (auto simp: containsStr_def)

lemma mergeObserver_Networks [simp]:
  "set (or_Networks (mergeObserver a b)) = set (or_Networks a) \<union> set (or_Networks b)"
  by (simp add: mergeObserver_def Let_def set_fold_union)

lemma mget_restoreObserver:
  "mget (obs_observers (restoreObserver o' r)) i =
     (if i = canonObserverID (or_ObserverID o') \<and> i \<noteq> '''' then
        Some (case mget (obs_observers r) i of Some e \<Rightarrow> mergeObserver e (o'\<lparr>or_ObserverID := i\<rparr>)
              | None \<Rightarrow> o'\<lparr>or_ObserverID := i\<rparr>)
      else mget (obs_observers r) i)"
  by (auto simp: restoreObserver_def Let_def mget_mput split: option.split)

definition restored_ok :: "string \<Rightarrow> ObserverRecord list \<Rightarrow> ObserverRecord option \<Rightarrow> bool" where
  "restored_ok i rows res = (case res of None \<Rightarrow> i = '''' \<or> spelled i rows = []
     | Some o' \<Rightarrow> i \<noteq> '''' \<and> spelled i rows \<noteq> [] \<and> or_ObserverID o' = i \<and>
         or_Observations o' = sum_list (map or_Observations (spelled i rows)) \<and>
         or_LastSeen o' = Max (or_LastSeen ` set (spelled i rows)) \<and>
         set (or_Networks o') = (\<Union>x\<in>set (spelled i rows). set (or_Networks x)))"

lemma restored_ok_run: "restored_ok i rows (mget (obs_observers (observers_Restore rows newObserverRegistry)) i)"
proof (induction rows rule: rev_induct)
  case Nil
  show ?case by (simp add: restored_ok_def spelled_def observers_Restore_def newObserverRegistry_def)
next
  case (snoc x rows)
  let ?m = "mget (obs_observers (observers_Restore rows newObserverRegistry)) i"
  have step: "mget (obs_observers (observers_Restore (rows @ [x]) newObserverRegistry)) i =
    (if i = canonObserverID (or_ObserverID x) \<and> i \<noteq> '''' then
        Some (case ?m of Some e \<Rightarrow> mergeObserver e (x\<lparr>or_ObserverID := i\<rparr>) | None \<Rightarrow> x\<lparr>or_ObserverID := i\<rparr>)
      else ?m)"
    unfolding observers_Restore_def fold_append comp_def by (simp only: mget_restoreObserver fold.simps id_apply comp_def)
  show ?case
  proof (cases "i = canonObserverID (or_ObserverID x) \<and> i \<noteq> ''''")
    case False
    then show ?thesis using snoc.IH unfolding step
      by (auto simp: restored_ok_def spelled_def split: option.splits)
  next
    case True
    then have sp: "spelled i (rows @ [x]) = spelled i rows @ [x]" by (simp add: spelled_def)
    have ci: "canonObserverID (or_ObserverID x) = i" and ne: "i \<noteq> ''''" using True by blast+
    show ?thesis
    proof (cases ?m)
      case None
      have "spelled i rows = []" using snoc.IH None ne unfolding restored_ok_def by simp
      then show ?thesis using None ne unfolding step ci by (simp add: restored_ok_def sp)
    next
      case (Some e)
      then show ?thesis using snoc.IH ne unfolding step ci
        by (simp add: restored_ok_def sp max.commute Un_commute)
    qed
  qed
qed

lemma find_spelled:
  assumes "\<forall>o'\<in>set rows. canonical_row o'" and "distinct (map (canonObserverID \<circ> or_ObserverID) rows)"
    and "find (\<lambda>o'. (canonObserverID \<circ> or_ObserverID) o' = i) rows = Some x"
  shows "mget (obs_observers (observers_Restore rows newObserverRegistry)) i = Some x"
proof -
  have keep: "mget (obs_observers (fold restoreObserver rows r)) i =
      (case find (\<lambda>o'. (canonObserverID \<circ> or_ObserverID) o' = i) rows of Some x \<Rightarrow> Some x | None \<Rightarrow> mget (obs_observers r) i)"
    if "\<forall>o'\<in>set rows. mget (obs_observers r) (or_ObserverID o') = None" for r
    using that assms(1,2)
  proof (induction rows arbitrary: r)
    case (Cons y ys)
    let ?r = "restoreObserver y r"
    have y: "canonObserverID (or_ObserverID y) = or_ObserverID y" "or_ObserverID y \<noteq> ''''"
      using Cons.prems(2) by (simp_all add: canonical_row_def)
    have look: "mget (obs_observers ?r) k = (if k = or_ObserverID y then Some y else mget (obs_observers r) k)" for k
      using y Cons.prems(1) by (simp add: mget_restoreObserver)
    have other: "or_ObserverID o' \<noteq> or_ObserverID y" if "o' \<in> set ys" for o'
      using that Cons.prems(3) y by (auto simp: image_iff)
    have "mget (obs_observers (fold restoreObserver ys ?r)) i =
        (case find (\<lambda>o'. (canonObserverID \<circ> or_ObserverID) o' = i) ys of Some x \<Rightarrow> Some x | None \<Rightarrow> mget (obs_observers ?r) i)"
      by (rule Cons.IH) (use Cons.prems look other in auto)
    moreover have "find (\<lambda>o'. (canonObserverID \<circ> or_ObserverID) o' = i) ys = None" if "i = or_ObserverID y"
      using that Cons.prems(3) y by (auto simp: find_None_iff image_iff)
    ultimately show ?case using y by (auto simp: look split: option.splits)
  qed simp
  show ?thesis
    using keep [of newObserverRegistry] assms(3) by (simp add: observers_Restore_def newObserverRegistry_def)
qed

subsection \<open>Properties\<close>

text \<open>Restoring folds together everything saved of an observer: after the restore of any rows, an id
  has a row exactly when it is a non-empty canonical id under which some row was saved in any
  spelling, and the row's report count is the sum, its last activity the maximum and its networks the
  union over those rows.\<close>

theorem observer_restore_merges:
  "case mget (obs_observers (observers_Restore rows newObserverRegistry)) i of
     None \<Rightarrow> i = '''' \<or> spelled i rows = []
   | Some o' \<Rightarrow> i \<noteq> '''' \<and> spelled i rows \<noteq> [] \<and> or_ObserverID o' = i \<and>
       or_Observations o' = sum_list (map or_Observations (spelled i rows)) \<and>
       or_LastSeen o' = Max (or_LastSeen ` set (spelled i rows)) \<and>
       set (or_Networks o') = (\<Union>x\<in>set (spelled i rows). set (or_Networks x))"
  using restored_ok_run [of i rows] unfolding restored_ok_def .

text \<open>No observer report is lost by the write-behind flush or by a restart: after any reports and
  flushes from an empty registry, a final successful flush and a restart from the saved rows give
  back every observer row unchanged.\<close>

theorem observer_updates_survive_restart:
  assumes st: "st = flush_run observers_Observe observers_TakeDirty observers_Requeue
       (canonObserverID \<circ> or_ObserverID) ops
       \<lparr>fs_reg = newObserverRegistry, fs_db = (\<lambda>_. None), fs_batch = []\<rparr>"
    and idle: "fs_batch st = []"
    and db: "db = fs_db (flush_step observers_Observe observers_TakeDirty observers_Requeue
       (canonObserverID \<circ> or_ObserverID) SaveOk
       (flush_step observers_Observe observers_TakeDirty observers_Requeue (canonObserverID \<circ> or_ObserverID) Take st))"
    and rows: "\<And>v. v \<in> set rows \<longleftrightarrow> db ((canonObserverID \<circ> or_ObserverID) v) = Some v"
      "distinct (map (canonObserverID \<circ> or_ObserverID) rows)"
    and live: "mget (obs_observers (fs_reg st)) i = Some o'"
  shows "mget (obs_observers (observers_Restore rows newObserverRegistry)) i = Some o'"
proof -
  let ?st0 = "\<lparr>fs_reg = newObserverRegistry, fs_db = (\<lambda>_. None), fs_batch = []\<rparr>
    :: (ObserverRegistry, string, ObserverRecord) flushState"
  have nl0: "observer_flush.fq.no_loss ?st0"
    by (rule observer_flush.fq.no_lossI)
      (simp_all add: newObserverRegistry_def observer_flush.row_inv_def observer_flush.row_val_def)
  have nl: "observer_flush.fq.no_loss st"
    unfolding st by (rule observer_flush.fq.no_loss_run [OF nl0]) simp
  have ro: "observer_flush.fq.rows_ok st"
    unfolding st by (rule observer_flush.fq.rows_ok_run [OF nl0]) (simp_all add: observer_flush.fq.rows_ok_def)
  let ?t = "flush_step observers_Observe observers_TakeDirty observers_Requeue (canonObserverID \<circ> or_ObserverID) Take st"
  have nlt: "observer_flush.fq.no_loss ?t" by (rule observer_flush.fq.no_loss_step [OF nl]) simp
  have "observer_flush.fq.rows_ok (flush_step observers_Observe observers_TakeDirty observers_Requeue
      (canonObserverID \<circ> or_ObserverID) SaveOk ?t)"
    by (intro observer_flush.fq.rows_ok_step observer_flush.fq.no_lossD(1) [OF nlt]
        observer_flush.fq.no_lossD(1) [OF nl] ro)
  then have canonical: "\<forall>o'\<in>set rows. canonical_row o'"
    using rows(1) unfolding observer_flush.fq.rows_ok_def db by blast
  have val: "observer_flush.row_val (fs_reg st) i = Some o'"
    using live by (simp add: observer_flush.row_val_def)
  have "find (\<lambda>v. (canonObserverID \<circ> or_ObserverID) v = i) rows = Some o'"
    by (rule observer_flush.fq.flushed_row [OF nl0 _ idle [unfolded st] rows(1) [unfolded db st] rows(2) val [unfolded st]]) simp
  then show ?thesis by (rule find_spelled [OF canonical rows(2)])
qed

text \<open>A row saved before ids were canonical is counted again at every restart: the restore adds its
  count to the canonical row, the flush saves the sum under the canonical id, and the old row stays
  in the table, so the next restart adds it once more. With one old row of \<open>n\<close> reports and one report
  since, the second restart shows \<open>2 * n + 1\<close> reports instead of \<open>n + 1\<close>.\<close>

theorem legacy_observer_counted_again:
  assumes legacy: "canonObserverID (or_ObserverID old) \<noteq> or_ObserverID old" "canonObserverID (or_ObserverID old) = i" "i \<noteq> ''''"
    and report: "canonObserverID (oa_ObserverID a) = i"
    and r: "r = observers_Observe a (observers_Restore [old] newObserverRegistry)"
    and db: "db = db_save or_ObserverID (fst (observers_TakeDirty r)) [or_ObserverID old \<mapsto> old]"
    and rows: "set rows = ran db" "distinct rows"
  shows "map_option or_Observations (mget (obs_observers r) i) = Some (or_Observations old + 1) \<and>
    map_option or_Observations (mget (obs_observers (observers_Restore rows newObserverRegistry)) i)
      = Some (2 * or_Observations old + 1)"
proof -
  let ?new = "noteActivity a (old\<lparr>or_ObserverID := i\<rparr>)"
  have obs: "mget (obs_observers r) k = (if k = i then Some ?new else None)" for k
    using assms by (auto simp: r mget_observers_Observe observers_Restore_def mget_restoreObserver newObserverRegistry_def)
  have dirty: "mget (obs_dirty r) k = (if k = i then Some () else None)" for k
    using assms by (auto simp: r mget_observers_Observe observers_Restore_def restoreObserver_def newObserverRegistry_def Let_def)
  have ne: "obs_dirty r \<noteq> mempty" using dirty [of i] by auto
  have batch: "set (fst (observers_TakeDirty r)) = {?new}"
    using ne by (auto simp: observers_TakeDirty_def mlen_0_iff dirty_rows_iff obs dirty split: if_splits)
  have id_new: "or_ObserverID ?new = i" by (simp add: noteActivity_eq)
  have dbk: "db k = (if k = i then Some ?new else if k = or_ObserverID old then Some old else None)" for k
  proof (cases "k = i")
    case True
    then show ?thesis
      using db_save_batch [of "fst (observers_TakeDirty r)" or_ObserverID ?new "[or_ObserverID old \<mapsto> old]"] batch id_new
      by (simp add: db)
  next
    case False
    then have "k \<notin> or_ObserverID ` set (fst (observers_TakeDirty r))" using batch id_new by simp
    then show ?thesis using False by (simp add: db db_save_other)
  qed
  have ne2: "?new \<noteq> old" using id_new legacy by auto
  have "set rows = {?new, old}"
    using legacy unfolding rows(1) ran_def by (auto simp: dbk)
  moreover have "spelled i rows = rows"
    using legacy calculation id_new by (auto simp: spelled_def filter_id_conv)
  ultimately have "sum_list (map or_Observations (spelled i rows)) = 2 * or_Observations old + 1" and "spelled i rows \<noteq> []"
    using rows(2) ne2 by (auto simp: sum_list_distinct_conv_sum_set noteActivity_eq)
  then show ?thesis
    using restored_ok_run [of i rows] legacy(3) unfolding restored_ok_def
    by (auto simp: obs noteActivity_eq split: option.splits)
qed

subsection \<open>Witnesses\<close>

definition ex_legacy :: ObserverRecord where
  "ex_legacy = \<lparr>or_ObserverID = ''AB'', or_Name = ''o'', or_FirstSeen = 1, or_LastSeen = 2, or_Observations = 10,
     or_Networks = [''cz'']\<rparr>"

definition ex_report :: "unix_time \<Rightarrow> ObserverActivity" where
  "ex_report t = \<lparr>oa_ObserverID = '' AB'', oa_Name = '''', oa_NetworkID = ''cz'', oa_At = t\<rparr>"

lemma canon_AB [simp]: "canonObserverID ''AB'' = ''ab''" "canonObserverID '' AB'' = ''ab''"
  by (code_simp, code_simp)

lemma legacy_observer_counted_again_witness:
  "\<exists>rows. map_option or_Observations (mget (obs_observers (observers_Restore rows newObserverRegistry)) ''ab'') = Some 21"
proof -
  let ?r = "observers_Observe (ex_report 5) (observers_Restore [ex_legacy] newObserverRegistry)"
  let ?db = "db_save or_ObserverID (fst (observers_TakeDirty ?r)) [or_ObserverID ex_legacy \<mapsto> ex_legacy]"
  have "finite (dom ?db)"
  proof (rule finite_subset)
    show "dom ?db \<subseteq> or_ObserverID ` set (fst (observers_TakeDirty ?r)) \<union> {or_ObserverID ex_legacy}"
      using db_save_other [of _ or_ObserverID "fst (observers_TakeDirty ?r)" "[or_ObserverID ex_legacy \<mapsto> ex_legacy]"]
      by (auto simp: dom_def split: if_splits)
  qed simp
  then obtain rows where "set rows = ran ?db" "distinct rows"
    using finite_distinct_list [of "ran ?db"] finite_ran by blast
  then show ?thesis
    using legacy_observer_counted_again [of ex_legacy "''ab''" "ex_report 5" ?r ?db rows]
    by (auto simp: ex_legacy_def ex_report_def)
qed

lemma observer_updates_survive_restart_witness:
  "\<exists>rows o'. mget (obs_observers (observers_Restore rows newObserverRegistry)) ''ab'' = Some o' \<and> or_Observations o' = 1"
proof -
  let ?key = "canonObserverID \<circ> or_ObserverID"
  let ?st = "flush_run observers_Observe observers_TakeDirty observers_Requeue ?key [Update (ex_report 5)]
       \<lparr>fs_reg = newObserverRegistry, fs_db = (\<lambda>_. None), fs_batch = []\<rparr>"
  let ?r = "observers_Observe (ex_report 5) newObserverRegistry"
  let ?n = "noteActivity (ex_report 5) (newObserver ''ab'' 5)"
  have reg: "fs_reg ?st = ?r" and idle: "fs_batch ?st = []" by simp_all
  have i: "canonObserverID (oa_ObserverID (ex_report 5)) = ''ab''" "oa_At (ex_report 5) = 5" by (simp_all add: ex_report_def)
  have obs: "mget (obs_observers ?r) k = (if k = ''ab'' then Some ?n else None)" for k
    by (simp add: mget_observers_Observe newObserverRegistry_def i)
  have dirty: "mget (obs_dirty ?r) k = (if k = ''ab'' then Some () else None)" for k
    by (simp add: mget_observers_Observe newObserverRegistry_def i)
  have ne: "obs_dirty ?r \<noteq> mempty" using dirty [of "''ab''"] by auto
  have batch: "set (fst (observers_TakeDirty ?r)) = {?n}"
    using ne by (auto simp: observers_TakeDirty_def mlen_0_iff dirty_rows_iff obs dirty split: if_splits)
  let ?db = "fs_db (flush_step observers_Observe observers_TakeDirty observers_Requeue ?key SaveOk
       (flush_step observers_Observe observers_TakeDirty observers_Requeue ?key Take ?st))"
  have db: "?db = db_save ?key (fst (observers_TakeDirty ?r)) (\<lambda>_. None)" by simp
  have rows: "v \<in> set [?n] \<longleftrightarrow> ?db (?key v) = Some v" for v
    unfolding db by (rule db_save_single [OF batch])
  have live: "mget (obs_observers (fs_reg ?st)) ''ab'' = Some ?n" unfolding reg by (simp add: obs)
  have dk: "distinct (map ?key [?n])" by simp
  have "mget (obs_observers (observers_Restore [?n] newObserverRegistry)) ''ab'' = Some ?n"
    by (rule observer_updates_survive_restart [where st = ?st and db = ?db, OF refl idle refl rows dk live])
  moreover have "or_Observations ?n = 1" by (simp add: noteActivity_eq newObserver_def)
  ultimately show ?thesis by blast
qed

end
