(* ===== verification/GoJson.thy ===== *)
theory GoJson
  imports GoStrings
begin

text \<open>
  Decoding of JSON values as \<open>encoding/json\<close> does it into the Go types the program uses: \<open>null\<close>
  leaves the zero value, a value of the wrong kind is an error (\<open>None\<close>), a fixed-size array takes
  the elements it has room for, and an object field matches a struct tag without regard to case, the
  last match winning.
\<close>

datatype json = JNull | JBool bool | JNum float64 | JStr string | JArr "json list" | JObj "(string \<times> json) list"

fun dec_float :: "json \<Rightarrow> float64 option" where
  "dec_float JNull = Some 0"
| "dec_float (JNum x) = Some x"
| "dec_float _ = None"

fun dec_string :: "json \<Rightarrow> string option" where
  "dec_string JNull = Some ''''"
| "dec_string (JStr s) = Some s"
| "dec_string _ = None"

fun dec_slice :: "(json \<Rightarrow> 'a option) \<Rightarrow> json \<Rightarrow> 'a list option" where
  "dec_slice f JNull = Some []"
| "dec_slice f (JArr js) = those (map f js)"
| "dec_slice f _ = None"

text \<open>A \<open>[2]float64\<close>.\<close>

fun dec_pair :: "json \<Rightarrow> (float64 \<times> float64) option" where
  "dec_pair JNull = Some (0, 0)"
| "dec_pair (JArr []) = Some (0, 0)"
| "dec_pair (JArr [x]) = map_option (\<lambda>a. (a, 0)) (dec_float x)"
| "dec_pair (JArr (x # y # _)) =
     (case (dec_float x, dec_float y) of (Some a, Some b) \<Rightarrow> Some (a, b) | _ \<Rightarrow> None)"
| "dec_pair _ = None"

text \<open>One field of a struct: every occurrence is decoded, so any ill-typed one is an error.\<close>

fun dec_field :: "string \<Rightarrow> (json \<Rightarrow> 'a option) \<Rightarrow> 'a \<Rightarrow> (string \<times> json) list \<Rightarrow> 'a option" where
  "dec_field tag f v [] = Some v"
| "dec_field tag f v ((k, j) # fs) =
     (if equal_fold k tag then
        (if j = JNull then dec_field tag f v fs
         else (case f j of None \<Rightarrow> None | Some v' \<Rightarrow> dec_field tag f v' fs))
      else dec_field tag f v fs)"

text \<open>A struct is decoded from an object, field by field; \<open>null\<close> leaves its zero value.\<close>

definition dec_struct :: "'a \<Rightarrow> ((string \<times> json) list \<Rightarrow> 'a option) \<Rightarrow> json \<Rightarrow> 'a option" where
  "dec_struct zero f j = (case j of JNull \<Rightarrow> Some zero | JObj fs \<Rightarrow> f fs | _ \<Rightarrow> None)"

text \<open>A \<open>json.RawMessage\<close> keeps the last value given for its field, \<open>null\<close> too.\<close>

fun raw_field :: "string \<Rightarrow> (string \<times> json) list \<Rightarrow> json option \<Rightarrow> json option" where
  "raw_field tag [] v = v"
| "raw_field tag ((k, j) # fs) v = raw_field tag fs (if equal_fold k tag then Some j else v)"

text \<open>An \<open>int\<close>: a number without a fraction in the range of 64 bits.\<close>

definition dec_int :: "json \<Rightarrow> int option" where
  "dec_int j = (case j of JNum x \<Rightarrow>
     if x = real_of_int \<lfloor>x\<rfloor> \<and> - (2 ^ 63) \<le> x \<and> x < 2 ^ 63 then Some \<lfloor>x\<rfloor> else None | _ \<Rightarrow> None)"

end
