(* ===== verification/NetworkAreas.thy ===== *)
theory NetworkAreas
  imports Geo GoJson
begin

text \<open>
  The coverage polygons of the networks (netareas.go): decoding of the published GeoJSON, the
  even-odd point-in-ring test, and the distance from a point to a network's coverage. A
  \<open>float64\<close> is a real number; where the code starts a minimum at \<open>math.Inf(1)\<close> the model has
  \<open>None\<close>. The HTTP download is not modelled: its body, decoded to the features of
  \<open>geojsonFeatureCollection\<close>, is the input of \<open>parseNetworkAreasGeoJSON\<close>.
\<close>

type_synonym point = "float64 \<times> float64"
type_synonym ring = "point list"

record polygon =
  pg_rings :: "ring list"

record networkArea =
  na_polygons :: "polygon list"
  na_minLat :: "float64 option"
  na_minLon :: "float64 option"
  na_maxLat :: "float64 option"
  na_maxLon :: "float64 option"

type_synonym NetworkAreas = "(string, networkArea) gomap"

definition newNetworkAreas :: NetworkAreas where
  "newNetworkAreas = mempty"

definition areas_Count :: "NetworkAreas \<Rightarrow> nat" where
  "areas_Count a = mlen a"

definition areas_Replace :: "NetworkAreas \<Rightarrow> NetworkAreas \<Rightarrow> NetworkAreas" where
  "areas_Replace byNet a = byNet"

subsection \<open>Decoding\<close>

text \<open>A feature with its raw coordinates (\<open>None\<close> when the field is absent).\<close>

record geojsonFeature =
  gf_NetworkID :: string
  gf_Type :: string
  gf_Coordinates :: "json option"

text \<open>\<open>None\<close> is the error of \<open>json.Unmarshal\<close>.\<close>

definition decodeGeometry :: "string \<Rightarrow> json \<Rightarrow> polygon list option" where
  "decodeGeometry geomType coords =
     (if geomType = ''Polygon'' then
        (case dec_slice (dec_slice dec_pair) coords of None \<Rightarrow> None
         | Some rings \<Rightarrow> if length rings = 0 then Some [] else Some [\<lparr>pg_rings = rings\<rparr>])
      else if geomType = ''MultiPolygon'' then
        (case dec_slice (dec_slice (dec_slice dec_pair)) coords of None \<Rightarrow> None
         | Some multi \<Rightarrow> Some (map (\<lambda>rings. \<lparr>pg_rings = rings\<rparr>) (List.filter (\<lambda>rings. length rings > 0) multi)))
      else Some [])"

definition inf_min :: "float64 option \<Rightarrow> float64 option \<Rightarrow> float64 option" where
  "inf_min a b = (case a of None \<Rightarrow> b | Some x \<Rightarrow> (case b of None \<Rightarrow> a | Some y \<Rightarrow> Some (min x y)))"

definition inf_max :: "float64 option \<Rightarrow> float64 option \<Rightarrow> float64 option" where
  "inf_max a b = (case a of None \<Rightarrow> b | Some x \<Rightarrow> (case b of None \<Rightarrow> a | Some y \<Rightarrow> Some (max x y)))"

definition boundVertex :: "point \<Rightarrow> networkArea \<Rightarrow> networkArea" where
  "boundVertex v na = na\<lparr>na_minLat := inf_min (na_minLat na) (Some (snd v)),
     na_maxLat := inf_max (na_maxLat na) (Some (snd v)),
     na_minLon := inf_min (na_minLon na) (Some (fst v)),
     na_maxLon := inf_max (na_maxLon na) (Some (fst v))\<rparr>"

definition buildNetworkArea :: "polygon list \<Rightarrow> networkArea" where
  "buildNetworkArea polys =
     fold (\<lambda>p na. case pg_rings p of [] \<Rightarrow> na | outer # _ \<Rightarrow> fold boundVertex outer na) polys
       \<lparr>na_polygons = polys, na_minLat = None, na_minLon = None, na_maxLat = None, na_maxLon = None\<rparr>"

definition mergeAreas :: "networkArea \<Rightarrow> networkArea \<Rightarrow> networkArea" where
  "mergeAreas existing na = \<lparr>na_polygons = na_polygons existing @ na_polygons na,
     na_minLat = inf_min (na_minLat existing) (na_minLat na),
     na_minLon = inf_min (na_minLon existing) (na_minLon na),
     na_maxLat = inf_max (na_maxLat existing) (na_maxLat na),
     na_maxLon = inf_max (na_maxLon existing) (na_maxLon na)\<rparr>"

text \<open>One turn of the loop over the features; \<open>None\<close> is the early return with an error.\<close>

definition parseFeature :: "geojsonFeature \<Rightarrow> NetworkAreas \<Rightarrow> NetworkAreas option" where
  "parseFeature f out =
     (case gf_Coordinates f of None \<Rightarrow> Some out
      | Some coords \<Rightarrow>
         if gf_NetworkID f = '''' then Some out
         else (case decodeGeometry (gf_Type f) coords of None \<Rightarrow> None
           | Some polys \<Rightarrow>
              if length polys = 0 then Some out
              else let na = buildNetworkArea polys in
                Some (mput out (gf_NetworkID f)
                  (case mget out (gf_NetworkID f) of Some existing \<Rightarrow> mergeAreas existing na | None \<Rightarrow> na))))"

fun parseNetworkAreasGeoJSON :: "geojsonFeature list \<Rightarrow> NetworkAreas \<Rightarrow> NetworkAreas option" where
  "parseNetworkAreasGeoJSON [] out = Some out"
| "parseNetworkAreasGeoJSON (f # fs) out =
     (case parseFeature f out of None \<Rightarrow> None | Some out' \<Rightarrow> parseNetworkAreasGeoJSON fs out')"

text \<open>The download: no reply, or the status and the decoded body when it can be read and decoded.\<close>

definition LoadNetworkAreas :: "(int \<times> geojsonFeature list option) option \<Rightarrow> NetworkAreas option" where
  "LoadNetworkAreas resp = do {
     (status, body) \<leftarrow> resp;
     if status < 200 \<or> status \<ge> 300 then None else do {
       features \<leftarrow> body;
       parseNetworkAreasGeoJSON features mempty } }"

subsection \<open>Point in polygon\<close>

text \<open>One turn of the loop of \<open>ringContains\<close>: \<open>p\<close> is the vertex \<open>ring[i]\<close>, \<open>q\<close> is \<open>ring[j]\<close>.\<close>

definition crosses :: "point \<Rightarrow> point \<Rightarrow> float64 \<Rightarrow> float64 \<Rightarrow> bool" where
  "crosses p q lon lat =
     (case (p, q) of ((xi, yi), (xj, yj)) \<Rightarrow>
        (if (yi > lat) \<noteq> (yj > lat) then lon < (xj - xi) * (lat - yi) / (yj - yi) + xi else False))"

fun cross_loop :: "point \<Rightarrow> ring \<Rightarrow> float64 \<Rightarrow> float64 \<Rightarrow> bool \<Rightarrow> bool" where
  "cross_loop q [] lon lat inside = inside"
| "cross_loop q (p # ps) lon lat inside =
     cross_loop p ps lon lat (if crosses p q lon lat then \<not> inside else inside)"

definition ringContains :: "ring \<Rightarrow> float64 \<Rightarrow> float64 \<Rightarrow> bool" where
  "ringContains ring lon lat = (case ring of [] \<Rightarrow> False | _ \<Rightarrow> cross_loop (last ring) ring lon lat False)"

definition polygon_contains :: "polygon \<Rightarrow> float64 \<Rightarrow> float64 \<Rightarrow> bool" where
  "polygon_contains p lon lat =
     (case pg_rings p of [] \<Rightarrow> False
      | outer # holes \<Rightarrow>
          if \<not> ringContains outer lon lat then False
          else \<not> list_ex (\<lambda>hole. ringContains hole lon lat) holes)"

subsection \<open>Distance\<close>

definition segmentDistanceKM ::
  "float64 \<Rightarrow> float64 \<Rightarrow> float64 \<Rightarrow> float64 \<Rightarrow> float64 \<Rightarrow> float64 \<Rightarrow> float64" where
  "segmentDistanceKM plat plon alat alon blat blon =
     (let cosLat = cos (plat * pi / 180);
          ax = (alon - plon) * cosLat; ay = alat - plat;
          bx = (blon - plon) * cosLat; by' = blat - plat;
          dx = bx - ax; dy = by' - ay;
          seg = dx * dx + dy * dy;
          t = (if seg > 0 then
                 (let t = - (ax * dx + ay * dy) / seg in if t < 0 then 0 else if t > 1 then 1 else t)
               else 0);
          nlon = alon + t * (blon - alon);
          nlat = alat + t * (blat - alat)
      in haversineKM plat plon nlat nlon)"

text \<open>\<open>if d < best { best = d }\<close> with \<open>best\<close> starting at infinity.\<close>

definition closer :: "float64 \<Rightarrow> float64 option \<Rightarrow> float64 option" where
  "closer d best = (case best of None \<Rightarrow> Some d | Some b \<Rightarrow> if d < b then Some d else best)"

definition closer_inf :: "float64 option \<Rightarrow> float64 option \<Rightarrow> float64 option" where
  "closer_inf d best = (case d of None \<Rightarrow> best | Some d \<Rightarrow> closer d best)"

definition ringDistanceKM :: "ring \<Rightarrow> float64 \<Rightarrow> float64 \<Rightarrow> float64 option" where
  "ringDistanceKM ring lat lon =
     fold (\<lambda>i best. let a = ring ! i; b = ring ! ((i + 1) mod length ring) in
        closer (segmentDistanceKM lat lon (snd a) (fst a) (snd b) (fst b)) best) [0..<length ring] None"

definition area_distanceKM :: "networkArea \<Rightarrow> float64 \<Rightarrow> float64 \<Rightarrow> float64 option" where
  "area_distanceKM na lat lon =
     (if list_ex (\<lambda>p. polygon_contains p lon lat) (na_polygons na) then Some 0
      else fold (\<lambda>p best. fold (\<lambda>ring best. closer_inf (ringDistanceKM ring lat lon) best) (pg_rings p) best)
             (na_polygons na) None)"

text \<open>The outer option is \<open>ok\<close>; the inner one is \<open>None\<close> for an infinite distance (a network whose
  polygons have no vertex).\<close>

definition DistanceKM :: "NetworkAreas \<Rightarrow> string \<Rightarrow> float64 \<Rightarrow> float64 \<Rightarrow> float64 option option" where
  "DistanceKM a i lat lon = map_option (\<lambda>area. area_distanceKM area lat lon) (mget a i)"

subsection \<open>The even-odd rule\<close>

text \<open>The edges of a ring in the order the loop visits them, each with the vertex before it.\<close>

fun edges_from :: "point \<Rightarrow> ring \<Rightarrow> (point \<times> point) list" where
  "edges_from q [] = []"
| "edges_from q (p # ps) = (p, q) # edges_from p ps"

definition ring_edges :: "ring \<Rightarrow> (point \<times> point) list" where
  "ring_edges ring = (case ring of [] \<Rightarrow> [] | _ \<Rightarrow> edges_from (last ring) ring)"

definition crossings :: "ring \<Rightarrow> float64 \<Rightarrow> float64 \<Rightarrow> nat" where
  "crossings ring lon lat = length (List.filter (\<lambda>(p, q). crosses p q lon lat) (ring_edges ring))"

lemma cross_loop_parity:
  "cross_loop q ps lon lat inside \<longleftrightarrow>
     (inside \<noteq> odd (length (List.filter (\<lambda>(p, q). crosses p q lon lat) (edges_from q ps))))"
  by (induction ps arbitrary: q inside) auto

lemma ringContains_parity: "ringContains ring lon lat = odd (crossings ring lon lat)"
  by (cases ring) (auto simp: ringContains_def crossings_def ring_edges_def cross_loop_parity)

lemma crosses_same [simp]: "\<not> crosses p p lon lat"
  by (simp add: crosses_def split: prod.splits)

lemma crosses_sym: "crosses p q lon lat = crosses q p lon lat"
proof -
  obtain xi yi xj yj where p: "p = (xi, yi)" and q: "q = (xj, yj)" by (cases p, cases q)
  have "(xj - xi) * (lat - yi) / (yj - yi) + xi = (xi - xj) * (lat - yj) / (yi - yj) + xj" if "yi \<noteq> yj"
  proof -
    have "(xj - xi) * (lat - yi) / (yj - yi) + xi = ((xj - xi) * (lat - yi) + xi * (yj - yi)) / (yj - yi)"
      using that by (simp add: field_simps)
    also have "\<dots> = (- ((xi - xj) * (lat - yj) + xj * (yi - yj))) / (- (yi - yj))"
      by (simp add: algebra_simps)
    also have "\<dots> = ((xi - xj) * (lat - yj) + xj * (yi - yj)) / (yi - yj)"
      by (rule minus_divide_divide)
    also have "\<dots> = (xi - xj) * (lat - yj) / (yi - yj) + xj"
      using that by (simp add: field_simps)
    finally show ?thesis .
  qed
  then show ?thesis by (cases "yi = yj") (auto simp: p q crosses_def)
qed

lemma edges_from_snoc: "edges_from q (ps @ [p]) = edges_from q ps @ [(p, if ps = [] then q else last ps)]"
  by (induction ps arbitrary: q) auto

lemma crossings_close:
  assumes "ring \<noteq> []"
  shows "crossings (ring @ [hd ring]) lon lat = crossings ring lon lat"
proof -
  obtain p ps where r: "ring = p # ps" using assms by (cases ring) auto
  show ?thesis
    by (simp add: r crossings_def ring_edges_def edges_from_snoc [of _ "p # ps", simplified])
qed

lemma edges_from_rev:
  "ps \<noteq> [] \<Longrightarrow> edges_from q (rev ps) = (last ps, q) # rev (map (\<lambda>(a, b). (b, a)) (edges_from (hd ps) (tl ps)))"
proof (induction ps arbitrary: q)
  case (Cons p ps)
  show ?case
  proof (cases "ps = []")
    case False
    then have "edges_from q (rev ps @ [p]) = edges_from q (rev ps) @ [(p, hd ps)]"
      by (simp add: edges_from_snoc last_rev)
    moreover have "edges_from p ps = (hd ps, p) # edges_from (hd ps) (tl ps)"
      using False by (cases ps) auto
    ultimately show ?thesis using Cons.IH [OF False, of q] False by simp
  qed simp
qed simp

lemma ring_edges_ne: "ring \<noteq> [] \<Longrightarrow> ring_edges ring = edges_from (last ring) ring"
  by (cases ring) (simp_all add: ring_edges_def)

lemma filter_swapped:
  "length (List.filter (\<lambda>(p, q). crosses p q lon lat) (map (\<lambda>(a, b). (b, a)) es)) =
   length (List.filter (\<lambda>(p, q). crosses p q lon lat) es)"
  by (induction es) (auto simp: crosses_sym)

lemma crossings_rev: "crossings (rev ring) lon lat = crossings ring lon lat"
proof (cases ring)
  case (Cons p ps)
  let ?c = "\<lambda>(p, q). crosses p q lon lat"
  have "crossings (rev ring) lon lat = length (List.filter ?c (edges_from p (rev (p # ps))))"
    by (simp add: crossings_def ring_edges_ne Cons)
  also have "edges_from p (rev (p # ps)) = (last (p # ps), p) # rev (map (\<lambda>(a, b). (b, a)) (edges_from p ps))"
    using edges_from_rev [of "p # ps" p] by simp
  also have "length (List.filter ?c \<dots>) = (if ?c (last (p # ps), p) then 1 else 0) + length (List.filter ?c (edges_from p ps))"
    using filter_swapped [of lon lat "edges_from p ps"] by (simp add: filter_map flip: rev_filter)
  also have "\<dots> = crossings ring lon lat"
    using crosses_sym [of "last (p # ps)" p] by (simp add: crossings_def ring_edges_def Cons)
  finally show ?thesis .
qed simp

lemma rectangle_contains:
  assumes "w < e" and "s < n"
  shows "ringContains [(w, s), (e, s), (e, n), (w, n)] lon lat \<longleftrightarrow> w \<le> lon \<and> lon < e \<and> s \<le> lat \<and> lat < n"
  using assms by (auto simp: ringContains_def crosses_def)

subsection \<open>Distances\<close>

lemma segment_point:
  obtains t where "0 \<le> t" "t \<le> 1" and
    "segmentDistanceKM plat plon alat alon blat blon =
       haversineKM plat plon (alat + t * (blat - alat)) (alon + t * (blon - alon))"
proof -
  define t where "t = (let cosLat = cos (plat * pi / 180);
          ax = (alon - plon) * cosLat; ay = alat - plat;
          bx = (blon - plon) * cosLat; by' = blat - plat;
          dx = bx - ax; dy = by' - ay;
          seg = dx * dx + dy * dy
     in if seg > 0 then (let t = - (ax * dx + ay * dy) / seg in if t < 0 then 0 else if t > 1 then 1 else t) else 0)"
  have "0 \<le> t" "t \<le> 1" by (simp_all add: t_def Let_def)
  moreover have "segmentDistanceKM plat plon alat alon blat blon =
       haversineKM plat plon (alat + t * (blat - alat)) (alon + t * (blon - alon))"
    by (simp add: segmentDistanceKM_def t_def Let_def)
  ultimately show thesis by (rule that)
qed

lemma haversine_range: "0 \<le> haversineKM a b c d" "haversineKM a b c d \<le> earthKM * pi"
  unfolding haversineKM_def Let_def
proof -
  have r: "0 \<le> go_atan2 (sqrt (hav_a a b c d)) (sqrt (1 - hav_a a b c d))"
    "go_atan2 (sqrt (hav_a a b c d)) (sqrt (1 - hav_a a b c d)) \<le> pi / 2"
    by (rule go_atan2_quadrant; simp add: hav_a_range)+
  then show "0 \<le> earthKM * 2 * go_atan2 (sqrt (hav_a a b c d)) (sqrt (1 - hav_a a b c d))"
    by (simp add: earthKM_def)
  have "earthKM * 2 * go_atan2 (sqrt (hav_a a b c d)) (sqrt (1 - hav_a a b c d)) \<le> earthKM * 2 * (pi / 2)"
    using r by (intro mult_left_mono) (simp_all add: earthKM_def)
  then show "earthKM * 2 * go_atan2 (sqrt (hav_a a b c d)) (sqrt (1 - hav_a a b c d)) \<le> earthKM * pi" by simp
qed

lemma segment_range: "0 \<le> segmentDistanceKM a b c d e f" "segmentDistanceKM a b c d e f \<le> earthKM * pi"
  by (metis haversine_range segment_point)+

text \<open>A minimum that starts at infinity, over a list.\<close>

definition least :: "float64 list \<Rightarrow> float64 option" where
  "least ds = (if ds = [] then None else Some (Min (set ds)))"

lemma closer_least: "closer d (least ds) = least (ds @ [d])"
  by (cases "ds = []") (simp_all add: closer_def least_def min_def
      del: Min_gr_iff Min_less_iff Min_le_iff Min_ge_iff)

lemma closer_inf_least: "closer_inf (least es) (least ds) = least (ds @ es)"
proof (cases "es = []")
  case False
  then have "Min (set (ds @ es)) = (if ds = [] then Min (set es) else min (Min (set ds)) (Min (set es)))"
    by (simp add: Min_Un)
  then show ?thesis using False
    by (cases "ds = []") (simp_all add: closer_inf_def closer_def least_def min_def
      del: Min_gr_iff Min_less_iff Min_le_iff Min_ge_iff)
qed (simp add: closer_inf_def least_def)

lemma fold_closer: "fold (\<lambda>x best. closer (f x) best) xs (least ds) = least (ds @ map f xs)"
  by (induction xs arbitrary: ds) (simp_all add: closer_least)

definition edge_distances :: "float64 \<Rightarrow> float64 \<Rightarrow> ring \<Rightarrow> float64 list" where
  "edge_distances lat lon ring = map (\<lambda>i. let a = ring ! i; b = ring ! ((i + 1) mod length ring) in
     segmentDistanceKM lat lon (snd a) (fst a) (snd b) (fst b)) [0..<length ring]"

lemma ringDistance_least: "ringDistanceKM ring lat lon = least (edge_distances lat lon ring)"
  using fold_closer [of "\<lambda>i. let a = ring ! i; b = ring ! ((i + 1) mod length ring) in
     segmentDistanceKM lat lon (snd a) (fst a) (snd b) (fst b)" "[0..<length ring]" "[]"]
  by (simp add: ringDistanceKM_def edge_distances_def least_def Let_def)

lemma fold_rings:
  "fold (\<lambda>ring best. closer_inf (ringDistanceKM ring lat lon) best) rs (least ds) =
     least (ds @ concat (map (edge_distances lat lon) rs))"
  by (induction rs arbitrary: ds) (simp_all add: ringDistance_least closer_inf_least)

lemma fold_polygons:
  "fold (\<lambda>p best. fold (\<lambda>ring best. closer_inf (ringDistanceKM ring lat lon) best) (pg_rings p) best) ps (least ds) =
     least (ds @ concat (map (\<lambda>p. concat (map (edge_distances lat lon) (pg_rings p))) ps))"
  by (induction ps arbitrary: ds) (simp_all add: fold_rings)

definition area_edges :: "float64 \<Rightarrow> float64 \<Rightarrow> networkArea \<Rightarrow> float64 list" where
  "area_edges lat lon na = concat (map (\<lambda>p. concat (map (edge_distances lat lon) (pg_rings p))) (na_polygons na))"

lemma area_distance_eq:
  "area_distanceKM na lat lon =
     (if \<exists>p\<in>set (na_polygons na). polygon_contains p lon lat then Some 0 else least (area_edges lat lon na))"
  using fold_polygons [of lat lon "na_polygons na" "[]"]
  by (simp add: area_distanceKM_def list_ex_iff area_edges_def least_def)

lemma edge_distance_range: "d \<in> set (area_edges lat lon na) \<Longrightarrow> 0 \<le> d \<and> d \<le> earthKM * pi"
  by (auto simp: area_edges_def edge_distances_def Let_def segment_range)

subsection \<open>Properties\<close>

text \<open>C34: The ring test is the even-odd rule and does not depend on how the ring is written: a point is
  inside exactly when an odd number of edges cross the ray to its east; repeating the first vertex
  at the end (as GeoJSON does) and reversing the orientation change nothing; and on a rectangle it is
  the half-open box.\<close>

theorem ring_test_even_odd:
  "ringContains ring lon lat = odd (crossings ring lon lat) \<and>
   ringContains (ring @ take 1 ring) lon lat = ringContains ring lon lat \<and>
   ringContains (rev ring) lon lat = ringContains ring lon lat \<and>
   (w < e \<and> s < n \<longrightarrow>
     ringContains [(w, s), (e, s), (e, n), (w, n)] lon lat = (w \<le> lon \<and> lon < e \<and> s \<le> lat \<and> lat < n))"
proof -
  have "crossings (ring @ take 1 ring) lon lat = crossings ring lon lat"
  proof (cases ring)
    case (Cons p ps)
    then show ?thesis using crossings_close [of ring] by (simp add: take_Suc)
  qed simp
  then show ?thesis
    using rectangle_contains by (simp add: ringContains_parity crossings_rev)
qed

text \<open>C33: The distance to a network's coverage is 0 inside one of its polygons, otherwise the least
  distance to an edge of any ring; it is reported as unknown exactly when the network has no area,
  as infinite exactly when the area has no edge and does not contain the point, and a finite distance lies between 0 and half the Earth's
  circumference.\<close>

theorem coverage_distance_exact:
  "case DistanceKM a i lat lon of
     None \<Rightarrow> mget a i = None
   | Some d \<Rightarrow> (\<exists>na. mget a i = Some na \<and>
       d = (if \<exists>p\<in>set (na_polygons na). polygon_contains p lon lat then Some 0
            else if area_edges lat lon na = [] then None
            else Some (Min (set (area_edges lat lon na)))) \<and>
       (case d of None \<Rightarrow> True | Some km \<Rightarrow> 0 \<le> km \<and> km \<le> earthKM * pi))"
proof (cases "mget a i")
  case (Some na)
  have "0 \<le> Min (set es) \<and> Min (set es) \<le> earthKM * pi" if "es \<noteq> []" "es = area_edges lat lon na" for es
    using that Min_in [of "set es"] edge_distance_range [of "Min (set es)" lat lon na] by simp
  moreover have "0 \<le> earthKM * pi" by (simp add: earthKM_def)
  ultimately show ?thesis using Some by (simp add: DistanceKM_def area_distance_eq least_def)
qed (simp add: DistanceKM_def)

subsection \<open>Witnesses\<close>

lemma ring_test_even_odd_witness:
  "ringContains [(0, 0), (2, 0), (2, 1), (0, 1)] 1 (1 / 2)"
  using ring_test_even_odd [of "[]" 1 "1 / 2" 0 2 0 1] by simp

end
