(* ===== verification/Flags.thy ===== *)
theory Flags
  imports NodeRegistry NetworkAreas
begin

text \<open>
  The flagging scan (flags.go): every node's position is judged against the coverage of the
  networks it was heard on, and the result is written back into the node registry. The ticker of
  \<open>Run\<close> is not modelled: a scan is one step.
\<close>

definition validCoords :: "float64 \<Rightarrow> float64 \<Rightarrow> bool" where
  "validCoords lat lon \<longleftrightarrow> lat \<ge> -90 \<and> lat \<le> 90 \<and> lon \<ge> -180 \<and> lon \<le> 180 \<and> (lat \<noteq> 0 \<or> lon \<noteq> 0)"

definition defaultFarFromNetworkKM :: float64 where
  "defaultFarFromNetworkKM = 1000"

record Flagger =
  fl_areas :: "NetworkAreas option"
  fl_farKM :: float64
  fl_lastScan :: unix_time

definition NewFlagger :: "NetworkAreas option \<Rightarrow> float64 \<Rightarrow> Flagger" where
  "NewFlagger areas farKM =
     \<lparr>fl_areas = areas, fl_farKM = (if farKM \<le> 0 then defaultFarFromNetworkKM else farKM), fl_lastScan = 0\<rparr>"

text \<open>The loop over the node's networks counts the evaluated, near and far ones.\<close>

definition judge :: "float64 \<Rightarrow> NetworkAreas \<Rightarrow> float64 \<Rightarrow> float64 \<Rightarrow> string \<Rightarrow> nat \<times> nat \<times> nat \<Rightarrow> nat \<times> nat \<times> nat" where
  "judge farKM areas lat lon netID = (\<lambda>(evaluated, near, far).
     case DistanceKM areas netID lat lon of None \<Rightarrow> (evaluated, near, far)
     | Some d \<Rightarrow> (if (case d of None \<Rightarrow> False | Some km \<Rightarrow> km \<le> farKM) then (Suc evaluated, Suc near, far)
                  else (Suc evaluated, near, Suc far)))"

definition locationFlags :: "float64 \<Rightarrow> NetworkAreas \<Rightarrow> NodeRecord \<Rightarrow> string list" where
  "locationFlags farKM areas n =
     (if \<not> nod_HasGPS n \<or> \<not> validCoords (nod_Lat n) (nod_Lon n) \<or> length (nod_Networks n) = 0 then []
      else let (evaluated, near, far) = fold (judge farKM areas (nod_Lat n) (nod_Lon n)) (nod_Networks n) (0, 0, 0) in
        if evaluated = 0 then []
        else if near = 0 then [FlagFarFromNetwork]
        else if far > 0 then [FlagNetworkTooFar]
        else [])"

text \<open>The body of the loop over the nodes.\<close>

definition scanNode ::
  "float64 \<Rightarrow> NetworkAreas \<Rightarrow> NodeRecord \<Rightarrow> (string, string list) gomap \<times> nat \<Rightarrow> (string, string list) gomap \<times> nat" where
  "scanNode farKM areas n st =
     (let flags = locationFlags farKM areas n in
      (mput (fst st) (nod_PubKey n) flags, if length flags > 0 then Suc (snd st) else snd st))"

text \<open>The scan, with the time it completes: the new registry, the flagger, and how many nodes were
  flagged and how many changed (\<open>None\<close> when the scan is skipped).\<close>

definition scanOnce :: "unix_time \<Rightarrow> Flagger \<Rightarrow> NodeRegistry \<Rightarrow> NodeRegistry \<times> Flagger \<times> (nat \<times> nat) option" where
  "scanOnce now f r =
     (case fl_areas f of None \<Rightarrow> (r, f, None)
      | Some areas \<Rightarrow>
         if areas_Count areas = 0 then (r, f, None)
         else let (desired, flagged) = eachNode (scanNode (fl_farKM f) areas) r (mempty, 0);
                  (changed, r') = ApplyFlags desired r
         in (r', f\<lparr>fl_lastScan := now\<rparr>, Some (flagged, changed)))"

subsection \<open>The rule\<close>

text \<open>The networks of a node whose coverage is known, and those within the threshold.\<close>

definition judged :: "NetworkAreas \<Rightarrow> NodeRecord \<Rightarrow> string set" where
  "judged areas n = {i \<in> set (nod_Networks n). mget areas i \<noteq> None}"

definition in_reach :: "float64 \<Rightarrow> NetworkAreas \<Rightarrow> NodeRecord \<Rightarrow> string \<Rightarrow> bool" where
  "in_reach farKM areas n i \<longleftrightarrow>
     (case DistanceKM areas i (nod_Lat n) (nod_Lon n) of Some (Some km) \<Rightarrow> km \<le> farKM | _ \<Rightarrow> False)"

lemma DistanceKM_None: "DistanceKM areas i lat lon = None \<longleftrightarrow> mget areas i = None"
  by (simp add: DistanceKM_def)

lemma judge_eq:
  "judge farKM areas (nod_Lat n) (nod_Lon n) i (e, nr, fr) =
     (if mget areas i = None then (e, nr, fr)
      else if in_reach farKM areas n i then (Suc e, Suc nr, fr) else (Suc e, nr, Suc fr))"
proof (cases "DistanceKM areas i (nod_Lat n) (nod_Lon n)")
  case None
  then show ?thesis using DistanceKM_None [of areas i] by (simp add: judge_def)
next
  case (Some d)
  then have "mget areas i \<noteq> None" using DistanceKM_None [of areas i] by (metis option.distinct(1))
  then show ?thesis using Some by (cases d) (simp_all add: judge_def in_reach_def)
qed

lemma fold_judge:
  "fold (judge farKM areas (nod_Lat n) (nod_Lon n)) ids (e, nr, fr) =
     (e + length (List.filter (\<lambda>i. mget areas i \<noteq> None) ids),
      nr + length (List.filter (\<lambda>i. mget areas i \<noteq> None \<and> in_reach farKM areas n i) ids),
      fr + length (List.filter (\<lambda>i. mget areas i \<noteq> None \<and> \<not> in_reach farKM areas n i) ids))"
  by (induction ids arbitrary: e nr fr) (simp_all add: judge_eq)

lemma locationFlags_eq:
  "locationFlags farKM areas n =
     (if \<not> nod_HasGPS n \<or> \<not> validCoords (nod_Lat n) (nod_Lon n) \<or> judged areas n = {} then []
      else if \<forall>i\<in>judged areas n. \<not> in_reach farKM areas n i then [FlagFarFromNetwork]
      else if \<exists>i\<in>judged areas n. \<not> in_reach farKM areas n i then [FlagNetworkTooFar]
      else [])"
  unfolding locationFlags_def fold_judge Let_def prod.case
  by (auto simp: judged_def filter_empty_conv)

text \<open>What the scan hands to \<open>ApplyFlags\<close>: one entry per node, under its own key.\<close>

lemma scan_desired:
  assumes "keyed nod_PubKey (nr_nodes r)"
    and res: "eachNode (scanNode farKM areas) r (mempty, 0) = (desired, flagged)"
  shows "mget desired pk = map_option (locationFlags farKM areas) (mget (nr_nodes r) pk)"
    and "flagged = length (List.filter (\<lambda>n. locationFlags farKM areas n \<noteq> []) (map snd (mentries (nr_nodes r))))"
proof -
  let ?step = "\<lambda>(k :: string, n). scanNode farKM areas n" and ?f = "locationFlags farKM areas"
  have gen: "mget (fst (fold ?step es (d0, c0))) pk =
        (case map_of es pk of Some n \<Rightarrow> Some (?f n) | None \<Rightarrow> mget d0 pk) \<and>
      snd (fold ?step es (d0, c0)) = c0 + length (List.filter (\<lambda>n. ?f n \<noteq> []) (map snd es))"
    if "distinct (map fst es)" "\<forall>(k, n)\<in>set es. nod_PubKey n = k" for es d0 c0
    using that
  proof (induction es arbitrary: d0 c0)
    case (Cons x es)
    obtain k n where x: "x = (k, n)" by (cases x)
    have k: "nod_PubKey n = k" and notin: "map_of es k = None"
      using Cons.prems x by (auto simp: map_of_eq_None_iff)
    have step: "fold ?step (x # es) (d0, c0) =
        fold ?step es (mput d0 k (?f n), if ?f n \<noteq> [] then Suc c0 else c0)"
      by (simp add: x k scanNode_def Let_def)
    show ?case unfolding step
      using Cons.IH [of "mput d0 k (?f n)" "if ?f n \<noteq> [] then Suc c0 else c0"] Cons.prems notin
      by (cases "pk = k"; cases "?f n = []") (simp_all add: x mget_mput split: option.splits)
  qed simp
  have "\<forall>(k, n)\<in>set (mentries (nr_nodes r)). nod_PubKey n = k"
    using assms(1) by (auto simp: mentries_iff dest: keyedD)
  moreover have "fold ?step (mentries (nr_nodes r)) (mempty, 0) = (desired, flagged)"
    using res by (simp add: eachNode_def mrange_def)
  ultimately show "mget desired pk = map_option ?f (mget (nr_nodes r) pk)"
    and "flagged = length (List.filter (\<lambda>n. ?f n \<noteq> []) (map snd (mentries (nr_nodes r))))"
    using gen [of "mentries (nr_nodes r)" mempty 0] by (auto simp: mget_eq_map_of split: option.splits)
qed

lemma keyed_unchanged: "keyed nod_PubKey (nr_nodes r) \<Longrightarrow> keyed nod_PubKey (nr_nodes (snd (ApplyFlags d r)))"
  using keyed_node_step [of r "Flagged d"] by simp

lemma scanOnce_eq:
  assumes "keyed nod_PubKey (nr_nodes r)" and "fl_areas f = Some areas" and "areas_Count areas \<noteq> 0"
  obtains desired where
    "\<And>pk. mget desired pk = map_option (locationFlags (fl_farKM f) areas) (mget (nr_nodes r) pk)"
    "scanOnce now f r = (snd (ApplyFlags desired r), f\<lparr>fl_lastScan := now\<rparr>,
       Some (length (List.filter (\<lambda>n. locationFlags (fl_farKM f) areas n \<noteq> []) (map snd (mentries (nr_nodes r)))),
         fst (ApplyFlags desired r)))"
proof -
  obtain desired flagged where run: "eachNode (scanNode (fl_farKM f) areas) r (mempty, 0) = (desired, flagged)"
    by fastforce
  show thesis
  proof (rule that)
    show "mget desired pk = map_option (locationFlags (fl_farKM f) areas) (mget (nr_nodes r) pk)" for pk
      by (rule scan_desired [OF assms(1) run])
    show "scanOnce now f r = (snd (ApplyFlags desired r), f\<lparr>fl_lastScan := now\<rparr>,
       Some (length (List.filter (\<lambda>n. locationFlags (fl_farKM f) areas n \<noteq> []) (map snd (mentries (nr_nodes r)))),
         fst (ApplyFlags desired r)))"
      using scan_desired(2) [OF assms(1) run] assms(2,3)
      by (simp add: scanOnce_def run case_prod_unfold Let_def)
  qed
qed

subsection \<open>Properties\<close>

text \<open>The location rule, exactly: a node is flagged only when it has a valid position and some of
  its networks has known coverage; it is far_from_network when none of those networks is within the
  threshold, network_too_far when some are and some are not, and clean when all are; it never has
  both flags.\<close>

theorem location_rule:
  "locationFlags farKM areas n =
     (if \<not> nod_HasGPS n \<or> \<not> validCoords (nod_Lat n) (nod_Lon n) \<or> judged areas n = {} then []
      else if \<forall>i\<in>judged areas n. \<not> in_reach farKM areas n i then [''far_from_network'']
      else if \<exists>i\<in>judged areas n. \<not> in_reach farKM areas n i then [''network_too_far'']
      else [])"
  by (simp add: locationFlags_eq FlagFarFromNetwork_def FlagNetworkTooFar_def)

text \<open>C32: A scan makes the stored flags exactly the rule's verdict and marks exactly the changed rows for
  saving: when some coverage is loaded, afterwards every node's flags are those its position earns,
  nothing else of any row changes, a row is dirty exactly when it was or its flags changed, and a
  second scan changes no row.\<close>

theorem scan_applies_rule:
  assumes "keyed nod_PubKey (nr_nodes r)" and "fl_areas f = Some areas" and "areas_Count areas \<noteq> 0"
    and scan: "scanOnce now f r = (r', f', res)"
  shows "mget (nr_nodes r') pk =
      map_option (\<lambda>n. n\<lparr>nod_Flags := locationFlags (fl_farKM f) areas n\<rparr>) (mget (nr_nodes r) pk) \<and>
    (mget (nr_dirty r') pk \<noteq> None \<longleftrightarrow> mget (nr_dirty r) pk \<noteq> None \<or>
      (\<exists>n. mget (nr_nodes r) pk = Some n \<and> nod_Flags n \<noteq> locationFlags (fl_farKM f) areas n)) \<and>
    map_option snd (snd (snd (scanOnce later f' r'))) = Some 0"
proof -
  let ?rule = "locationFlags (fl_farKM f) areas"
  obtain d where d: "\<And>pk. mget d pk = map_option ?rule (mget (nr_nodes r) pk)"
    and r': "r' = snd (ApplyFlags d r)" and f': "f' = f\<lparr>fl_lastScan := now\<rparr>"
    using scan by (rule_tac scanOnce_eq [OF assms(1-3), of now]) auto
  have nodes: "mget (nr_nodes r') pk = map_option (\<lambda>n. n\<lparr>nod_Flags := ?rule n\<rparr>) (mget (nr_nodes r) pk)" for pk
    by (auto simp: r' ApplyFlags_eq(1) d split: option.split)
  have dirty: "mget (nr_dirty r') pk \<noteq> None \<longleftrightarrow> mget (nr_dirty r) pk \<noteq> None \<or>
      (\<exists>n. mget (nr_nodes r) pk = Some n \<and> nod_Flags n \<noteq> ?rule n)"
    unfolding r' ApplyFlags_eq(2) by (auto simp: d)
  have "keyed nod_PubKey (nr_nodes r')" unfolding r' by (rule keyed_unchanged [OF assms(1)])
  then obtain d2 where "\<And>pk. mget d2 pk = map_option (locationFlags (fl_farKM f') areas) (mget (nr_nodes r') pk)"
    and scan2: "scanOnce later f' r' = (snd (ApplyFlags d2 r'), f'\<lparr>fl_lastScan := later\<rparr>,
       Some (length (List.filter (\<lambda>n. locationFlags (fl_farKM f') areas n \<noteq> []) (map snd (mentries (nr_nodes r')))),
         fst (ApplyFlags d2 r')))"
    using scanOnce_eq [of r' f' areas later] assms(2,3) f' by auto
  then have d2: "\<And>pk. mget d2 pk = map_option ?rule (mget (nr_nodes r') pk)" by (simp add: f')
  have same: "?rule (n\<lparr>nod_Flags := fs\<rparr>) = ?rule n" for n fs
    by (simp add: locationFlags_def)
  have "nod_Flags n = fl" if "(k, fl) \<in> set (mentries d2)" "mget (nr_nodes r') k = Some n" for k fl n
    using that by (auto simp: mentries_iff d2 nodes same)
  then have "fst (ApplyFlags d2 r') = 0"
    by (auto simp: ApplyFlags_eq(3) filter_empty_conv)
  then show ?thesis using nodes dirty scan2 by simp
qed

subsection \<open>Witnesses\<close>

definition ex_area :: networkArea where
  "ex_area = buildNetworkArea [\<lparr>pg_rings = [[(0, 40), (30, 40), (30, 60), (0, 60)]]\<rparr>]"

lemma ex_inside: "DistanceKM (mput mempty ''cz'' ex_area) ''cz'' 50 14 = Some (Some 0)"
  by (simp add: DistanceKM_def mget_mput area_distanceKM_def ex_area_def buildNetworkArea_def boundVertex_def
      polygon_contains_def rectangle_contains)

lemma scan_applies_rule_witness:
  "map_option nod_Flags (mget (nr_nodes (fst (scanOnce 9 (NewFlagger (Some (mput mempty ''cz'' ex_area)) 0) ex_reg))) ''aa'') = Some []"
proof -
  let ?a = "mput mempty ''cz'' ex_area" and ?n = "noteAdvert 3 (ex_obs ''a'' 5) (newNode (ex_obs ''a'' 5))"
  let ?f = "NewFlagger (Some ?a) 0"
  have k: "keyed nod_PubKey (nr_nodes ex_reg)" by (simp add: keyed_def ex_reg_nodes newNode_def)
  have f: "fl_areas ?f = Some ?a" "fl_farKM ?f = 1000" by (simp_all add: NewFlagger_def defaultFarFromNetworkKM_def)
  have c: "areas_Count ?a \<noteq> 0" by (simp add: areas_Count_def mlen_mput)
  obtain r' f' res where s: "scanOnce 9 ?f ex_reg = (r', f', res)" by (metis prod_cases3)
  have n: "nod_Networks ?n = [''cz'']" "nod_Lat ?n = 50" "nod_Lon ?n = 14"
    by (simp_all add: noteAdvert_eq newNode_def addStr_def containsStr_def ex_obs_def)
  have "in_reach 1000 ?a ?n ''cz''" by (simp add: in_reach_def n ex_inside)
  moreover have "judged ?a ?n = {''cz''}" by (auto simp: judged_def n mget_mput)
  ultimately have "locationFlags 1000 ?a ?n = []" by (simp add: locationFlags_eq)
  then show ?thesis
    using scan_applies_rule [OF k f(1) c s, of "''aa''"] by (simp add: s f(2) ex_reg_nodes)
qed

end
