(* ===== verification/ImportedNodes.thy ===== *)
theory ImportedNodes
  imports GoJson Flags
begin

text \<open>
  The mirror of the map.meshcore.io directory (importer.go): its node records and the registry that
  a successful synchronisation replaces as a whole. The HTTP reply and the two saves are
  parameters of \<open>syncOnce\<close>; its JSON body is decoded here.
\<close>

record ImportedNode =
  im_PublicKey :: string
  im_Type :: int
  im_AdvName :: string
  im_LastAdvert :: string
  im_AdvLat :: float64
  im_AdvLon :: float64
  im_InsertedDate :: string
  im_UpdatedDate :: string
  im_Params :: "json option"
  im_Link :: string
  im_Source :: string
  im_InsertedBy :: string
  im_UpdatedBy :: string
  im_lastAt :: unix_time
  im_freqMHz :: float64

subsection \<open>RFC 3339 times\<close>

text \<open>\<open>time.Parse(time.RFC3339, s)\<close> followed by \<open>Unix()\<close>: date, time, optional fraction (a dot and
  digits, dropped), and a zone \<open>Z\<close> or a signed offset.\<close>

definition two_digits :: "char \<Rightarrow> char \<Rightarrow> int option" where
  "two_digits a b = (case (digit_val a, digit_val b) of (Some x, Some y) \<Rightarrow> Some (10 * x + y) | _ \<Rightarrow> None)"

definition leap_year :: "int \<Rightarrow> bool" where
  "leap_year y \<longleftrightarrow> y mod 4 = 0 \<and> (y mod 100 \<noteq> 0 \<or> y mod 400 = 0)"

definition days_in :: "int \<Rightarrow> int \<Rightarrow> int" where
  "days_in y m = (if m = 2 then (if leap_year y then 29 else 28)
     else if m = 4 \<or> m = 6 \<or> m = 9 \<or> m = 11 then 30 else 31)"

text \<open>Days since 1970-01-01: the years and months before, then the day.\<close>

definition year_days :: "int \<Rightarrow> int" where
  "year_days y = 365 * (y - 1970) + ((y - 1) div 4 - 492) - ((y - 1) div 100 - 19) + ((y - 1) div 400 - 4)"

definition month_days :: "int \<Rightarrow> int \<Rightarrow> int" where
  "month_days y m = sum_list (map (days_in y) [1..m - 1])"

definition unix_days :: "int \<Rightarrow> int \<Rightarrow> int \<Rightarrow> int" where
  "unix_days y m d = year_days y + month_days y m + d - 1"

definition parse_zone :: "string \<Rightarrow> int option" where
  "parse_zone s = (if s = ''Z'' then Some 0
     else (case s of
       [sg, h1, h2, c, m1, m2] \<Rightarrow>
         if c \<noteq> CHR '':'' then None
         else (case (two_digits h1 h2, two_digits m1 m2) of
           (Some h, Some m) \<Rightarrow> if h > 24 \<or> m > 60 then None
              else if sg = CHR ''+'' then Some (3600 * h + 60 * m)
              else if sg = CHR ''-'' then Some (- (3600 * h + 60 * m)) else None
         | _ \<Rightarrow> None)
     | _ \<Rightarrow> None))"

definition drop_fraction :: "string \<Rightarrow> string" where
  "drop_fraction s = (case s of c # t \<Rightarrow>
      if (c = CHR ''.'' \<or> c = CHR '','') \<and> takeWhile (\<lambda>x. digit_val x \<noteq> None) t \<noteq> []
      then dropWhile (\<lambda>x. digit_val x \<noteq> None) t else s
    | [] \<Rightarrow> s)"

definition parseRFC3339 :: "string \<Rightarrow> unix_time option" where
  "parseRFC3339 s = (case s of
     y1 # y2 # y3 # y4 # d1 # m1 # m2 # d2 # a1 # a2 # t # h1 # h2 # c1 # n1 # n2 # c2 # s1 # s2 # rest \<Rightarrow>
       if d1 = CHR ''-'' \<and> d2 = CHR ''-'' \<and> t = CHR ''T'' \<and> c1 = CHR '':'' \<and> c2 = CHR '':'' then
         (case (two_digits y1 y2, two_digits y3 y4, two_digits m1 m2, two_digits a1 a2,
                two_digits h1 h2, two_digits n1 n2, two_digits s1 s2, parse_zone (drop_fraction rest)) of
            (Some ya, Some yb, Some m, Some d, Some h, Some n, Some sec, Some z) \<Rightarrow>
              let y = 100 * ya + yb in
              if m < 1 \<or> m > 12 \<or> d < 1 \<or> d > days_in y m \<or> h > 23 \<or> n > 59 \<or> sec > 59 then None
              else Some (86400 * unix_days y m d + 3600 * h + 60 * n + sec - z)
          | _ \<Rightarrow> None)
       else None
   | _ \<Rightarrow> None)"

subsection \<open>Records\<close>

definition decodeFreq :: "json \<Rightarrow> float64 option" where
  "decodeFreq j = (case j of JObj fs \<Rightarrow> dec_field ''freq'' dec_float 0 fs | JNull \<Rightarrow> Some 0 | _ \<Rightarrow> None)"

text \<open>The decoding of a record: the fields by tag, the derived ones zero; a \<open>null\<close> entry is a nil pointer.\<close>

definition zeroImported :: ImportedNode where
  "zeroImported = \<lparr>im_PublicKey = '''', im_Type = 0, im_AdvName = '''', im_LastAdvert = '''', im_AdvLat = 0, im_AdvLon = 0,
     im_InsertedDate = '''', im_UpdatedDate = '''', im_Params = None, im_Link = '''', im_Source = '''', im_InsertedBy = '''',
     im_UpdatedBy = '''', im_lastAt = 0, im_freqMHz = 0\<rparr>"

definition dec_imported :: "json \<Rightarrow> ImportedNode option" where
  "dec_imported = dec_struct zeroImported (\<lambda>fs. do {
     pk \<leftarrow> dec_field ''public_key'' dec_string '''' fs;
     t \<leftarrow> dec_field ''type'' dec_int 0 fs;
     name \<leftarrow> dec_field ''adv_name'' dec_string '''' fs;
     advert \<leftarrow> dec_field ''last_advert'' dec_string '''' fs;
     lat \<leftarrow> dec_field ''adv_lat'' dec_float 0 fs;
     lon \<leftarrow> dec_field ''adv_lon'' dec_float 0 fs;
     inserted \<leftarrow> dec_field ''inserted_date'' dec_string '''' fs;
     updated \<leftarrow> dec_field ''updated_date'' dec_string '''' fs;
     link \<leftarrow> dec_field ''link'' dec_string '''' fs;
     src \<leftarrow> dec_field ''source'' dec_string '''' fs;
     insertedBy \<leftarrow> dec_field ''inserted_by'' dec_string '''' fs;
     updatedBy \<leftarrow> dec_field ''updated_by'' dec_string '''' fs;
     Some \<lparr>im_PublicKey = pk, im_Type = t, im_AdvName = name, im_LastAdvert = advert, im_AdvLat = lat, im_AdvLon = lon,
       im_InsertedDate = inserted, im_UpdatedDate = updated, im_Params = raw_field ''params'' fs None, im_Link = link,
       im_Source = src, im_InsertedBy = insertedBy, im_UpdatedBy = updatedBy, im_lastAt = 0, im_freqMHz = 0\<rparr> })"

definition dec_imported_ptr :: "json \<Rightarrow> ImportedNode option option" where
  "dec_imported_ptr j = (if j = JNull then Some None else map_option Some (dec_imported j))"

definition derived_time :: "string \<Rightarrow> unix_time" where
  "derived_time s = (if s \<noteq> '''' then (case parseRFC3339 s of Some t \<Rightarrow> t | None \<Rightarrow> 0) else 0)"

definition derived_freq :: "json option \<Rightarrow> float64" where
  "derived_freq params = (case params of None \<Rightarrow> 0
     | Some j \<Rightarrow> (case decodeFreq j of Some f \<Rightarrow> f | None \<Rightarrow> 0))"

definition cacheDerived :: "ImportedNode \<Rightarrow> ImportedNode" where
  "cacheDerived n = n\<lparr>im_lastAt := derived_time (im_LastAdvert n), im_freqMHz := derived_freq (im_Params n)\<rparr>"

definition hasCoords :: "ImportedNode \<Rightarrow> bool" where
  "hasCoords n = validCoords (im_AdvLat n) (im_AdvLon n)"

text \<open>The content hash of a publish; the hash, the formatting of coordinates and the bytes of the parameters are
  arguments.\<close>

definition historySig :: "(string \<Rightarrow> string) \<Rightarrow> (int \<Rightarrow> string) \<Rightarrow> (float64 \<Rightarrow> string) \<Rightarrow> (json option \<Rightarrow> string) \<Rightarrow> ImportedNode \<Rightarrow> string" where
  "historySig sha itoa fixed6 bytes n =
     (let sep = [CHR 0x1F] in
      sha (itoa (im_Type n) @ sep @ im_AdvName n @ sep @ fixed6 (im_AdvLat n) @ sep @ fixed6 (im_AdvLon n) @ sep @
           im_InsertedDate n @ sep @ im_UpdatedDate n @ sep @ im_Link n @ sep @ im_Source n @ sep @ im_InsertedBy n @ sep @
           im_UpdatedBy n @ bytes (im_Params n)))"

text \<open>\<open>byte(n.Type)\<close>: the low eight bits.\<close>

definition im_byte :: "ImportedNode \<Rightarrow> byte" where
  "im_byte n = word_of_int (im_Type n)"

record ImportedSnapshot =
  is_Type :: int
  is_TypeName :: string
  is_AdvName :: string
  is_LastAdvert :: string
  is_LastAdvertAt :: unix_time
  is_AdvLat :: float64
  is_AdvLon :: float64
  is_HasGPS :: bool
  is_InsertedDate :: string
  is_UpdatedDate :: string
  is_Params :: "json option"
  is_Link :: string
  is_Source :: string
  is_InsertedBy :: string
  is_UpdatedBy :: string
  is_FirstCapturedAt :: unix_time
  is_LastCapturedAt :: unix_time

definition imported_snapshot :: "ImportedNode \<Rightarrow> ImportedSnapshot" where
  "imported_snapshot n = \<lparr>is_Type = im_Type n, is_TypeName = nodeTypeName (im_byte n), is_AdvName = im_AdvName n,
     is_LastAdvert = im_LastAdvert n, is_LastAdvertAt = im_lastAt n, is_AdvLat = im_AdvLat n,
     is_AdvLon = im_AdvLon n, is_HasGPS = hasCoords n, is_InsertedDate = im_InsertedDate n,
     is_UpdatedDate = im_UpdatedDate n, is_Params = im_Params n, is_Link = im_Link n, is_Source = im_Source n,
     is_InsertedBy = im_InsertedBy n, is_UpdatedBy = im_UpdatedBy n, is_FirstCapturedAt = 0, is_LastCapturedAt = 0\<rparr>"

subsection \<open>The registry\<close>

type_synonym ImportRegistry = "ImportedNode list"

definition newImportRegistry :: ImportRegistry where
  "newImportRegistry = []"

definition imports_Replace :: "ImportedNode list \<Rightarrow> ImportRegistry \<Rightarrow> ImportRegistry" where
  "imports_Replace records ir = records"

definition imports_Len :: "ImportRegistry \<Rightarrow> nat" where
  "imports_Len ir = length ir"

definition ForPubKey :: "string \<Rightarrow> ImportRegistry \<Rightarrow> ImportedNode list" where
  "ForPubKey pubkey ir = List.filter (\<lambda>n. im_PublicKey n = pubkey) ir"

fun imports_Has :: "string \<Rightarrow> ImportRegistry \<Rightarrow> bool" where
  "imports_Has pubkey [] = False"
| "imports_Has pubkey (n # ns) = (if im_PublicKey n = pubkey then True else imports_Has pubkey ns)"

text \<open>The outcomes of a synchronisation, in the order the code can fail.\<close>

datatype syncError = FetchError string | PersistError string | HistoryError string

text \<open>The download: the HTTP status, whether the body is gzip and whether it can be read, and the first JSON
  value of the body when there is one.\<close>

record httpReply =
  hr_status :: nat
  hr_gzip :: bool
  hr_gunzip_ok :: bool
  hr_body :: "json option"

text \<open>\<open>None\<close> is the run-time panic of \<open>cacheDerived\<close> on a nil pointer.\<close>

definition fetch :: "httpReply option \<Rightarrow> (syncError + ImportedNode list) option" where
  "fetch reply = (case reply of None \<Rightarrow> Some (Inl (FetchError ''request''))
     | Some resp \<Rightarrow>
         if hr_status resp \<noteq> 200 then Some (Inl (FetchError ''unexpected status''))
         else if hr_gzip resp \<and> \<not> hr_gunzip_ok resp then Some (Inl (FetchError ''gzip''))
         else (case Option.bind (hr_body resp) (dec_slice dec_imported_ptr) of None \<Rightarrow> Some (Inl (FetchError ''decode''))
           | Some nodes \<Rightarrow> (case those nodes of None \<Rightarrow> None | Some nodes \<Rightarrow> Some (Inr (map cacheDerived nodes)))))"

text \<open>The database saves, \<open>None\<close> when there is no database: the tables and the two error results.\<close>

definition syncOnce ::
  "httpReply option \<Rightarrow> (ImportedNode list \<Rightarrow> 'db \<Rightarrow> 'db option) \<Rightarrow> (ImportedNode list \<Rightarrow> 'db \<Rightarrow> 'db option) \<Rightarrow>
   ImportRegistry \<Rightarrow> 'db option \<Rightarrow> (syncError option \<times> ImportRegistry \<times> 'db option) option" where
  "syncOnce reply saveNodes saveHistory ir db = do {
     fetched \<leftarrow> fetch reply;
     Some (case fetched of Inl e \<Rightarrow> (Some e, ir, db)
      | Inr records \<Rightarrow>
          let ir = imports_Replace records ir in
          (case db of None \<Rightarrow> (None, ir, None)
           | Some d \<Rightarrow>
              (case saveNodes records d of None \<Rightarrow> (Some (PersistError ''persisting imported nodes''), ir, Some d)
               | Some d' \<Rightarrow>
                  (case saveHistory records d' of
                     None \<Rightarrow> (Some (HistoryError ''persisting imported node history''), ir, Some d')
                   | Some d'' \<Rightarrow> (None, ir, Some d''))))) }"

subsection \<open>Properties\<close>

lemma cacheDerived_idem: "cacheDerived (cacheDerived n) = cacheDerived n"
  by (simp add: cacheDerived_def)

lemma those_None: "those xs = None \<longleftrightarrow> None \<in> set xs"
  by (induction xs) (auto split: option.split)

text \<open>The only panic: a well-formed reply whose array holds a \<open>null\<close> entry ends the process.\<close>

lemma fetch_panics_iff:
  "fetch reply = None \<longleftrightarrow> (\<exists>resp js. reply = Some resp \<and> hr_status resp = 200 \<and> (hr_gzip resp \<longrightarrow> hr_gunzip_ok resp)
     \<and> hr_body resp = Some (JArr js) \<and> JNull \<in> set js \<and> (\<forall>j\<in>set js. dec_imported j \<noteq> None))"
proof -
  have slice: "(\<exists>nodes. dec_slice dec_imported_ptr j = Some nodes \<and> None \<in> set nodes)
      \<longleftrightarrow> (\<exists>js. j = JArr js \<and> JNull \<in> set js \<and> (\<forall>j\<in>set js. dec_imported j \<noteq> None))" for j
  proof (cases j)
    case (JArr js)
    have null: "dec_imported JNull \<noteq> None" by (simp add: dec_imported_def dec_struct_def)
    have "those (map dec_imported_ptr js) = (if \<forall>j\<in>set js. dec_imported j \<noteq> None
        then Some (map (\<lambda>j. if j = JNull then None else dec_imported j) js) else None)"
      using null by (induction js) (auto simp: dec_imported_ptr_def split: option.split)
    then have "(\<exists>nodes. those (map dec_imported_ptr js) = Some nodes \<and> None \<in> set nodes)
        \<longleftrightarrow> JNull \<in> set js \<and> (\<forall>j\<in>set js. dec_imported j \<noteq> None)"
      by (auto simp: image_iff)
    then show ?thesis by (simp add: JArr)
  qed auto
  show ?thesis
  proof (cases reply)
    case (Some resp)
    have "fetch reply = None \<longleftrightarrow> hr_status resp = 200 \<and> (hr_gzip resp \<longrightarrow> hr_gunzip_ok resp)
        \<and> (\<exists>j. hr_body resp = Some j \<and> (\<exists>nodes. dec_slice dec_imported_ptr j = Some nodes \<and> None \<in> set nodes))"
      by (cases "hr_body resp") (auto simp: fetch_def Some those_None [symmetric] split: option.split)
    then show ?thesis unfolding slice using Some by auto
  qed (simp add: fetch_def)
qed


text \<open>The signature ignores the last advert, as documented; the parameters follow the updater without a separator,
  so two publishes that differ in both can share it.\<close>

lemma historySig_last_advert: "historySig sha itoa fixed6 bytes (n\<lparr>im_LastAdvert := t, im_lastAt := u\<rparr>) = historySig sha itoa fixed6 bytes n"
  by (simp add: historySig_def)

lemma historySig_collides:
  assumes "bytes p = s @ bytes q"
  shows "historySig sha itoa fixed6 bytes (n\<lparr>im_UpdatedBy := '''', im_Params := p\<rparr>)
    = historySig sha itoa fixed6 bytes (n\<lparr>im_UpdatedBy := s, im_Params := q\<rparr>)"
  using assms by (simp add: historySig_def Let_def)

end
