(* ===== verification/MapQuery.thy ===== *)
theory MapQuery
  imports ImportedNodes
begin

text \<open>
  Queries over the node registry: the filters of \<open>MapParams\<close> and the viewport query \<open>MapQuery\<close>
  (mapquery.go), and the ranked directory search \<open>Search\<close> (nodes.go). The free-form property bag
  of a GeoJSON feature is a datatype with one constructor per kind of bag.
\<close>

definition nodeZoom :: int where
  "nodeZoom = 10"

definition defaultMapLimit :: int where
  "defaultMapLimit = 3000"

definition allNodesLimit :: int where
  "allNodesLimit = 200000"

record MapParams =
  mp_BBox :: "float64 \<times> float64 \<times> float64 \<times> float64"
  mp_HasBBox :: bool
  mp_Zoom :: int
  mp_Types :: "(byte, bool) gomap"
  mp_Networks :: "(string, bool) gomap"
  mp_Countries :: "(string, bool) gomap"
  mp_Regions :: "(string, bool) gomap"
  mp_Since :: unix_time
  mp_OlderThan :: unix_time
  mp_HasLocation :: "bool option"
  mp_HasName :: "bool option"
  mp_Sources :: "(string, bool) gomap"
  mp_NearLat :: float64
  mp_NearLon :: float64
  mp_RadiusKM :: float64
  mp_HasNear :: bool
  mp_Sort :: string
  mp_Q :: string
  mp_PrefixOnly :: bool
  mp_Limit :: int
  mp_All :: bool

subsection \<open>Query parameters\<close>

definition atoiDefault :: "string \<Rightarrow> int \<Rightarrow> int" where
  "atoiDefault s d = (case atoi (trim_space s) of Some n \<Rightarrow> n | None \<Rightarrow> d)"

text \<open>\<open>strconv.ParseFloat\<close> is an argument: its syntax is that of the Go standard library.\<close>

definition parseBBox :: "(string \<Rightarrow> float64 option) \<Rightarrow> string \<Rightarrow> (float64 \<times> float64 \<times> float64 \<times> float64) option" where
  "parseBBox parseFloat s =
     (let parts = split_on CHR '','' s in
      if length parts \<noteq> 4 then None
      else (case map (parseFloat \<circ> trim_space) parts of
        [Some a, Some b, Some c, Some d] \<Rightarrow> Some (a, b, c, d)
      | _ \<Rightarrow> None))"

definition parseByteSet :: "string \<Rightarrow> (byte, bool) gomap" where
  "parseByteSet s =
     (if trim_space s = '''' then mempty
      else fold (\<lambda>p out. case atoi (trim_space p) of
             Some n \<Rightarrow> if n \<ge> 0 \<and> n < 256 then mput out (word_of_int n) True else out
           | None \<Rightarrow> out) (split_on CHR '','' s) mempty)"

definition parseStringSet :: "string \<Rightarrow> (string, bool) gomap" where
  "parseStringSet s =
     (if trim_space s = '''' then mempty
      else fold (\<lambda>p out. let p = trim_space p in if p \<noteq> '''' then mput out p True else out)
             (split_on CHR '','' s) mempty)"

definition parseActive :: "string \<Rightarrow> int option" where
  "parseActive s = (let s = trim_space s in
     if s = ''24h'' then Some (24 * 3600)
     else if s = ''7d'' then Some (7 * 24 * 3600)
     else if s = ''30d'' then Some (30 * 24 * 3600)
     else None)"

subsection \<open>Features\<close>

datatype props =
    NodeProps string string byte string unix_time u64 "string list"
  | ImportedProps string string byte string unix_time string
  | ClusterProps nat byte "(string, nat) gomap" "float64 \<times> float64 \<times> float64 \<times> float64"

record geoFeature =
  ge_lon :: float64
  ge_lat :: float64
  ge_props :: props

record MapResult =
  mr_Features :: "geoFeature list"
  mr_Zoom :: int
  mr_Returned :: nat
  mr_Capped :: bool

definition pointFeature :: "float64 \<Rightarrow> float64 \<Rightarrow> props \<Rightarrow> geoFeature" where
  "pointFeature lon lat props = \<lparr>ge_lon = lon, ge_lat = lat, ge_props = props\<rparr>"

definition nodeFeature :: "NodeRecord \<Rightarrow> geoFeature" where
  "nodeFeature n = pointFeature (nod_Lon n) (nod_Lat n)
     (NodeProps (nod_PubKey n) (nod_Name n) (nod_NodeType n) (nodeTypeName (nod_NodeType n))
        (nod_LastAdvertAt n) (nod_AdvertCount n) (nod_Networks n))"

definition importedFeature :: "ImportedNode \<Rightarrow> geoFeature" where
  "importedFeature n = pointFeature (im_AdvLon n) (im_AdvLat n)
     (ImportedProps (im_PublicKey n) (im_AdvName n) (im_byte n) (nodeTypeName (im_byte n)) (im_lastAt n) (im_Source n))"

subsection \<open>Filters\<close>

definition bool_ne :: "bool option \<Rightarrow> bool \<Rightarrow> bool" where
  "bool_ne want have \<longleftrightarrow> (case want of None \<Rightarrow> False | Some w \<Rightarrow> have \<noteq> w)"

text \<open>The last step of both filters: the text query on a name and a key.\<close>

definition matchesQuery :: "MapParams \<Rightarrow> string \<Rightarrow> string \<Rightarrow> bool" where
  "matchesQuery p name key =
     (if mp_Q p \<noteq> '''' then
        (let q = to_lower (mp_Q p) in
         if mp_PrefixOnly p then has_prefix key q
         else contains_sub (to_lower name) q \<or> has_prefix key q)
      else True)"

definition matchesImported :: "MapParams \<Rightarrow> ImportedNode \<Rightarrow> bool" where
  "matchesImported p n =
     (if mlen (mp_Sources p) > 0 \<and> \<not> mhas (mp_Sources p) ''map'' then False
      else if mlen (mp_Types p) > 0 \<and> \<not> mhas (mp_Types p) (im_byte n) then False
      else if mp_Since p > 0 \<and> im_lastAt n < mp_Since p then False
      else if mp_OlderThan p > 0 \<and> im_lastAt n > mp_OlderThan p then False
      else if bool_ne (mp_HasLocation p) (hasCoords n) then False
      else if bool_ne (mp_HasName p) (trim_space (im_AdvName n) \<noteq> '''') then False
      else if mlen (mp_Networks p) > 0 then False
      else if mlen (mp_Countries p) > 0 \<or> mlen (mp_Regions p) > 0 then False
      else if mp_HasNear p \<and> (\<not> hasCoords n \<or>
         haversineKM (mp_NearLat p) (mp_NearLon p) (im_AdvLat n) (im_AdvLon n) > mp_RadiusKM p) then False
      else matchesQuery p (im_AdvName n) (im_PublicKey n))"

definition matches :: "MapParams \<Rightarrow> NodeRecord \<Rightarrow> bool" where
  "matches p n =
     (if mlen (mp_Sources p) > 0 \<and> \<not> mhas (mp_Sources p) ''advert'' \<and> \<not> mhas (mp_Sources p) ''corescope''
      then False
      else if mlen (mp_Types p) > 0 \<and> \<not> mhas (mp_Types p) (nod_NodeType n) then False
      else if mp_Since p > 0 \<and> nod_LastAdvertAt n < mp_Since p then False
      else if mp_OlderThan p > 0 \<and> nod_LastAdvertAt n > mp_OlderThan p then False
      else if bool_ne (mp_HasLocation p) (nod_HasGPS n) then False
      else if bool_ne (mp_HasName p) (trim_space (nod_Name n) \<noteq> '''') then False
      else if mlen (mp_Networks p) > 0 \<and> \<not> list_ex (mhas (mp_Networks p)) (nod_Networks n) then False
      else if mp_HasNear p \<and> (\<not> nod_HasGPS n \<or>
         haversineKM (mp_NearLat p) (mp_NearLon p) (nod_Lat n) (nod_Lon n) > mp_RadiusKM p) then False
      else matchesQuery p (nod_Name n) (nod_PubKey n))"

definition inBBox :: "MapParams \<Rightarrow> float64 \<Rightarrow> float64 \<Rightarrow> bool" where
  "inBBox p lon lat =
     (if \<not> mp_HasBBox p then True
      else case mp_BBox p of (west, south, east, north) \<Rightarrow>
        lon \<ge> west \<and> lon \<le> east \<and> lat \<ge> south \<and> lat \<le> north)"

subsection \<open>Search\<close>

definition rankMatch :: "string \<Rightarrow> string \<Rightarrow> string \<Rightarrow> nat" where
  "rankMatch name pubkey q =
     (if q = '''' then 0
      else let name = to_lower name in
        if name = q then 0 else if has_prefix name q then 1 else if has_prefix pubkey q then 2 else 3)"

definition searchRank :: "NodeRecord \<Rightarrow> string \<Rightarrow> nat" where
  "searchRank n q = rankMatch (nod_Name n) (nod_PubKey n) q"

record SearchResult =
  sr_PubKey :: string
  sr_Name :: string
  sr_Type :: byte
  sr_TypeName :: string
  sr_HasGPS :: bool
  sr_Lat :: float64
  sr_Lon :: float64
  sr_FirstAdvertAt :: unix_time
  sr_LastAdvertAt :: unix_time
  sr_AdvertCount :: u64
  sr_Networks :: "string list"
  sr_Flags :: "string list"
  sr_DistanceKM :: float64
  sr_Source :: string
  sr_IsObserver :: bool

definition searchResult :: "NodeRecord \<Rightarrow> SearchResult" where
  "searchResult n = \<lparr>sr_PubKey = nod_PubKey n, sr_Name = nod_Name n, sr_Type = nod_NodeType n,
     sr_TypeName = nodeTypeName (nod_NodeType n), sr_HasGPS = nod_HasGPS n, sr_Lat = nod_Lat n,
     sr_Lon = nod_Lon n, sr_FirstAdvertAt = nod_FirstAdvertAt n, sr_LastAdvertAt = nod_LastAdvertAt n,
     sr_AdvertCount = nod_AdvertCount n, sr_Networks = nod_Networks n, sr_Flags = nod_Flags n,
     sr_DistanceKM = 0, sr_Source = ''live'', sr_IsObserver = False\<rparr>"

definition by_relevance :: "string \<Rightarrow> NodeRecord \<Rightarrow> NodeRecord \<Rightarrow> bool" where
  "by_relevance q = by_rank_desc_then (\<lambda>n. searchRank n q) nod_LastAdvertAt nod_PubKey"

definition Search :: "MapParams \<Rightarrow> int \<Rightarrow> NodeRegistry \<Rightarrow> SearchResult list \<times> nat \<times> bool" where
  "Search p limit r =
     (let q = to_lower (trim_space (mp_Q p));
          hits = sort_by (by_relevance q) (List.filter (matches p) (map snd (mentries (nr_nodes r))));
          total = length hits;
          (hits, capped) = (if limit > 0 \<and> int (length hits) > limit then (take (nat limit) hits, True)
                            else (hits, False))
      in (map searchResult hits, total, capped))"

subsection \<open>The viewport query\<close>

text \<open>The streaming loops: keep an item that passes, stop when the limit is reached.\<close>

fun stream :: "('a \<Rightarrow> bool) \<Rightarrow> ('a \<Rightarrow> geoFeature) \<Rightarrow> nat \<Rightarrow> 'a list \<Rightarrow> geoFeature list \<Rightarrow> geoFeature list \<times> bool" where
  "stream keep feat limit [] acc = (acc, False)"
| "stream keep feat limit (x # xs) acc =
     (if \<not> keep x then stream keep feat limit xs acc
      else if length acc \<ge> limit then (acc, True)
      else stream keep feat limit xs (acc @ [feat x]))"

definition effectiveLimit :: "MapParams \<Rightarrow> int" where
  "effectiveLimit p = (if mp_Limit p \<le> 0 then (if mp_All p then allNodesLimit else defaultMapLimit) else mp_Limit p)"

definition keepLive :: "MapParams \<Rightarrow> bool \<Rightarrow> NodeRecord \<Rightarrow> bool" where
  "keepLive p spatial n \<longleftrightarrow> nod_HasGPS n \<and> matches p n \<and> (spatial \<longrightarrow> inBBox p (nod_Lon n) (nod_Lat n))"

definition keepImported :: "MapParams \<Rightarrow> bool \<Rightarrow> NodeRegistry \<Rightarrow> ImportedNode \<Rightarrow> bool" where
  "keepImported p spatial r n \<longleftrightarrow> hasCoords n \<and> mget (nr_nodes r) (im_PublicKey n) = None \<and>
     matchesImported p n \<and> (spatial \<longrightarrow> inBBox p (im_AdvLon n) (im_AdvLat n))"

definition streamQuery :: "MapParams \<Rightarrow> ImportedNode list \<Rightarrow> NodeRegistry \<Rightarrow> MapResult" where
  "streamQuery p imported r =
     (let limit = nat (effectiveLimit p);
          spatial = (mp_Q p = '''' \<and> mp_HasBBox p);
          (fs, capped) = stream (keepLive p spatial) nodeFeature limit (map snd (mentries (nr_nodes r))) [];
          (fs, capped) = (if capped then (fs, True)
                          else stream (keepImported p spatial r) importedFeature limit imported fs)
      in \<lparr>mr_Features = fs, mr_Zoom = mp_Zoom p, mr_Returned = length fs, mr_Capped = capped\<rparr>)"

record cell =
  c_count :: nat
  c_sumLat :: float64
  c_sumLon :: float64
  c_types :: "(byte, nat) gomap"
  c_minLon :: float64
  c_minLat :: float64
  c_maxLon :: float64
  c_maxLat :: float64
  c_single :: "NodeRecord option"
  c_singleImported :: "ImportedNode option"

definition newCell :: "float64 \<Rightarrow> float64 \<Rightarrow> cell" where
  "newCell lon lat = \<lparr>c_count = 0, c_sumLat = 0, c_sumLon = 0, c_types = mempty, c_minLon = lon, c_minLat = lat,
     c_maxLon = lon, c_maxLat = lat, c_single = None, c_singleImported = None\<rparr>"

definition gridSize :: "int \<Rightarrow> float64" where
  "gridSize zoom = 28.125 / 2 powr (real_of_int zoom)"

definition cellKey :: "float64 \<Rightarrow> float64 \<Rightarrow> float64 \<Rightarrow> int \<times> int" where
  "cellKey sz lon lat = (\<lfloor>lon / sz\<rfloor>, \<lfloor>lat / sz\<rfloor>)"

text \<open>The part of the two accumulation loops that is the same.\<close>

definition countPoint :: "float64 \<Rightarrow> float64 \<Rightarrow> byte \<Rightarrow> cell \<Rightarrow> cell" where
  "countPoint lon lat t c = c\<lparr>c_count := Suc (c_count c), c_sumLat := c_sumLat c + lat, c_sumLon := c_sumLon c + lon,
     c_types := mincr_nat (c_types c) t, c_minLon := min (c_minLon c) lon, c_maxLon := max (c_maxLon c) lon,
     c_minLat := min (c_minLat c) lat, c_maxLat := max (c_maxLat c) lat\<rparr>"

definition countLive :: "NodeRecord \<Rightarrow> cell \<Rightarrow> cell" where
  "countLive n c = (let c = countPoint (nod_Lon n) (nod_Lat n) (nod_NodeType n) c in
     if c_count c = 1 then c\<lparr>c_single := Some n\<rparr> else c\<lparr>c_single := None, c_singleImported := None\<rparr>)"

definition countImported :: "ImportedNode \<Rightarrow> cell \<Rightarrow> cell" where
  "countImported n c = (let c = countPoint (im_AdvLon n) (im_AdvLat n) (im_byte n) c in
     if c_count c = 1 then c\<lparr>c_singleImported := Some n\<rparr> else c\<lparr>c_single := None, c_singleImported := None\<rparr>)"

definition addLive :: "float64 \<Rightarrow> NodeRecord \<Rightarrow> (int \<times> int, cell) gomap \<Rightarrow> (int \<times> int, cell) gomap" where
  "addLive sz n cells =
     (let key = cellKey sz (nod_Lon n) (nod_Lat n) in
      mput cells key (countLive n (case mget cells key of None \<Rightarrow> newCell (nod_Lon n) (nod_Lat n) | Some c \<Rightarrow> c)))"

definition addImported :: "float64 \<Rightarrow> ImportedNode \<Rightarrow> (int \<times> int, cell) gomap \<Rightarrow> (int \<times> int, cell) gomap" where
  "addImported sz n cells =
     (let key = cellKey sz (im_AdvLon n) (im_AdvLat n) in
      mput cells key (countImported n (case mget cells key of None \<Rightarrow> newCell (im_AdvLon n) (im_AdvLat n) | Some c \<Rightarrow> c)))"

text \<open>The types of a cluster by name, and its dominant type: the first type of the largest count, in
  the order of the range loop.\<close>

definition clusterTypes :: "(byte, nat) gomap \<Rightarrow> (string, nat) gomap" where
  "clusterTypes ts = mrange (\<lambda>t n types. mput types (nodeTypeName t) n) ts mempty"

definition dominantType :: "(byte, nat) gomap \<Rightarrow> byte" where
  "dominantType ts = snd (mrange (\<lambda>t n (best, dominant). if int n > best then (int n, t) else (best, dominant)) ts (- 1, 0))"

definition cellFeature :: "cell \<Rightarrow> geoFeature option" where
  "cellFeature c =
     (if c_count c = 1 then
        (case c_singleImported c of Some n \<Rightarrow> Some (importedFeature n)
         | None \<Rightarrow> map_option nodeFeature (c_single c))
      else Some (pointFeature (c_sumLon c / real (c_count c)) (c_sumLat c / real (c_count c))
        (ClusterProps (c_count c) (dominantType (c_types c)) (clusterTypes (c_types c))
           (c_minLon c, c_minLat c, c_maxLon c, c_maxLat c))))"

definition gridCells :: "MapParams \<Rightarrow> ImportedNode list \<Rightarrow> NodeRegistry \<Rightarrow> (int \<times> int, cell) gomap" where
  "gridCells p imported r =
     (let sz = gridSize (mp_Zoom p);
          cells = fold (addLive sz) (List.filter (keepLive p True) (map snd (mentries (nr_nodes r)))) mempty
      in fold (addImported sz) (List.filter (keepImported p True r) imported) cells)"

text \<open>A nil dereference of \<open>c.single\<close> would be the result \<open>None\<close>.\<close>

definition gridQuery :: "MapParams \<Rightarrow> ImportedNode list \<Rightarrow> NodeRegistry \<Rightarrow> MapResult option" where
  "gridQuery p imported r =
     map_option (\<lambda>fs. \<lparr>mr_Features = fs, mr_Zoom = mp_Zoom p, mr_Returned = length fs, mr_Capped = False\<rparr>)
       (those (map (cellFeature \<circ> snd) (mentries (gridCells p imported r))))"

definition MapQuery :: "MapParams \<Rightarrow> ImportedNode list \<Rightarrow> NodeRegistry \<Rightarrow> MapResult option" where
  "MapQuery p imported r =
     (if mp_All p \<or> mp_Q p \<noteq> '''' \<or> mp_Zoom p \<ge> nodeZoom then Some (streamQuery p imported r)
      else gridQuery p imported r)"

subsection \<open>Streaming\<close>

lemma stream_eq:
  "length acc \<le> limit \<Longrightarrow> stream keep feat limit xs acc =
     (take limit (acc @ map feat (List.filter keep xs)), length (acc @ map feat (List.filter keep xs)) > limit)"
  by (induction xs arbitrary: acc) (auto simp: take_Cons')

lemma effectiveLimit_pos: "0 < effectiveLimit p"
  by (simp add: effectiveLimit_def allNodesLimit_def defaultMapLimit_def)

lemma stream_two:
  "(case stream k1 f1 limit xs [] of (fs, capped) \<Rightarrow>
      if capped then (fs, True) else stream k2 f2 limit ys fs) =
   (take limit (map f1 (List.filter k1 xs) @ map f2 (List.filter k2 ys)),
    length (map f1 (List.filter k1 xs) @ map f2 (List.filter k2 ys)) > limit)"
  by (auto simp: stream_eq)

subsection \<open>Grid cells\<close>

text \<open>Live and imported nodes as the points the grid aggregates.\<close>

datatype mapped = Live NodeRecord | Imported ImportedNode

primrec m_lon :: "mapped \<Rightarrow> float64" where
  "m_lon (Live n) = nod_Lon n" | "m_lon (Imported n) = im_AdvLon n"

primrec m_lat :: "mapped \<Rightarrow> float64" where
  "m_lat (Live n) = nod_Lat n" | "m_lat (Imported n) = im_AdvLat n"

primrec m_type :: "mapped \<Rightarrow> byte" where
  "m_type (Live n) = nod_NodeType n" | "m_type (Imported n) = im_byte n"

primrec m_feature :: "mapped \<Rightarrow> geoFeature" where
  "m_feature (Live n) = nodeFeature n" | "m_feature (Imported n) = importedFeature n"

primrec m_count :: "mapped \<Rightarrow> cell \<Rightarrow> cell" where
  "m_count (Live n) c = countLive n c" | "m_count (Imported n) c = countImported n c"

definition addMapped :: "float64 \<Rightarrow> mapped \<Rightarrow> (int \<times> int, cell) gomap \<Rightarrow> (int \<times> int, cell) gomap" where
  "addMapped sz x cells =
     (let key = cellKey sz (m_lon x) (m_lat x) in
      mput cells key (m_count x (case mget cells key of None \<Rightarrow> newCell (m_lon x) (m_lat x) | Some c \<Rightarrow> c)))"

lemma addMapped_simps:
  "addLive sz = (\<lambda>n. addMapped sz (Live n))" "addImported sz = (\<lambda>i. addMapped sz (Imported i))"
  by (simp_all add: addMapped_def addLive_def addImported_def Let_def fun_eq_iff split: option.split)

definition shown :: "MapParams \<Rightarrow> ImportedNode list \<Rightarrow> NodeRegistry \<Rightarrow> mapped list" where
  "shown p imported r = map Live (List.filter (keepLive p True) (map snd (mentries (nr_nodes r)))) @
     map Imported (List.filter (keepImported p True r) imported)"

lemma gridCells_fold: "gridCells p imported r = fold (addMapped (gridSize (mp_Zoom p))) (shown p imported r) mempty"
  by (simp add: gridCells_def shown_def Let_def fold_map comp_def addMapped_simps)

text \<open>What a cell knows of the points that fell into it.\<close>

definition cell_ok :: "mapped list \<Rightarrow> cell \<Rightarrow> bool" where
  "cell_ok xs c \<longleftrightarrow> xs \<noteq> [] \<and> c_count c = length xs \<and>
     c_sumLon c = sum_list (map m_lon xs) \<and> c_sumLat c = sum_list (map m_lat xs) \<and>
     c_minLon c = Min (m_lon ` set xs) \<and> c_maxLon c = Max (m_lon ` set xs) \<and>
     c_minLat c = Min (m_lat ` set xs) \<and> c_maxLat c = Max (m_lat ` set xs) \<and>
     (\<forall>t. (case mget (c_types c) t of None \<Rightarrow> 0 | Some k \<Rightarrow> k) = length (List.filter (\<lambda>x. m_type x = t) xs)) \<and>
     (\<forall>x. xs = [x] \<longrightarrow> (case x of Live n \<Rightarrow> c_single c = Some n \<and> c_singleImported c = None
        | Imported n \<Rightarrow> c_singleImported c = Some n))"

lemma countPoint_mapped:
  "m_count x c = (let c' = countPoint (m_lon x) (m_lat x) (m_type x) c in
     if c_count c' = 1 then (case x of Live n \<Rightarrow> c'\<lparr>c_single := Some n\<rparr> | Imported n \<Rightarrow> c'\<lparr>c_singleImported := Some n\<rparr>)
     else c'\<lparr>c_single := None, c_singleImported := None\<rparr>)"
  by (cases x) (simp_all add: countLive_def countImported_def Let_def)

lemma cell_ok_first: "cell_ok [x] (m_count x (newCell (m_lon x) (m_lat x)))"
  by (cases x) (auto simp: cell_ok_def countPoint_mapped countPoint_def newCell_def Let_def mincr_nat_def mget_mput)

lemma cell_ok_count:
  assumes "cell_ok xs c"
  shows "cell_ok (xs @ [x]) (m_count x c)"
proof -
  have "c_count (countPoint (m_lon x) (m_lat x) (m_type x) c) \<noteq> 1"
    using assms by (cases xs) (auto simp: cell_ok_def countPoint_def)
  moreover have "xs \<noteq> []" using assms by (simp add: cell_ok_def)
  ultimately show ?thesis
    using assms by (auto simp: cell_ok_def countPoint_mapped countPoint_def Let_def mincr_nat_def mget_mput
        min.commute max.commute)
qed

definition in_cell :: "float64 \<Rightarrow> int \<times> int \<Rightarrow> mapped list \<Rightarrow> mapped list" where
  "in_cell sz k xs = List.filter (\<lambda>x. cellKey sz (m_lon x) (m_lat x) = k) xs"

lemma cells_ok:
  "(case mget (fold (addMapped sz) xs mempty) k of None \<Rightarrow> in_cell sz k xs = []
    | Some c \<Rightarrow> cell_ok (in_cell sz k xs) c)"
proof (induction xs rule: rev_induct)
  case (snoc x xs)
  show ?case
  proof (cases "cellKey sz (m_lon x) (m_lat x) = k")
    case True
    then show ?thesis using snoc cell_ok_first [of x] cell_ok_count
      by (auto simp: addMapped_def Let_def mget_mput in_cell_def split: option.splits)
  next
    case False
    then show ?thesis using snoc
      by (auto simp: addMapped_def Let_def mget_mput in_cell_def split: option.splits)
  qed
qed (simp add: in_cell_def)

lemma cellFeature_ok:
  assumes "cell_ok xs c"
  shows "cellFeature c = Some (if length xs = 1 then m_feature (hd xs)
    else pointFeature (sum_list (map m_lon xs) / real (length xs)) (sum_list (map m_lat xs) / real (length xs))
      (ClusterProps (length xs) (dominantType (c_types c)) (clusterTypes (c_types c))
        (Min (m_lon ` set xs), Min (m_lat ` set xs), Max (m_lon ` set xs), Max (m_lat ` set xs))))"
proof (cases "length xs = 1")
  case True
  then obtain x where x: "xs = [x]" by (cases xs) auto
  then show ?thesis using assms by (cases x) (auto simp: cell_ok_def cellFeature_def)
next
  case False
  then show ?thesis using assms by (simp add: cell_ok_def cellFeature_def)
qed

lemma those_Some: "(\<forall>x\<in>set xs. f x = Some (g x)) \<Longrightarrow> those (map f xs) = Some (map g xs)"
  by (induction xs) auto

lemma length_in_cells:
  assumes "distinct ks" and "\<forall>x\<in>set xs. cellKey sz (m_lon x) (m_lat x) \<in> set ks"
  shows "sum_list (map (\<lambda>k. length (in_cell sz k xs)) ks) = length xs"
  using assms
proof (induction xs)
  case (Cons x xs)
  have "sum_list (map (\<lambda>k. length (in_cell sz k (x # xs))) ks) =
      sum_list (map (\<lambda>k. (if k = cellKey sz (m_lon x) (m_lat x) then 1 else 0) + length (in_cell sz k xs)) ks)"
    by (rule arg_cong [where f = sum_list], rule map_cong) (auto simp: in_cell_def)
  also have "\<dots> = sum_list (map (\<lambda>k. if k = cellKey sz (m_lon x) (m_lat x) then 1 else 0) ks) + length xs"
    using Cons by (simp add: sum_list_addf)
  also have "sum_list (map (\<lambda>k. if k = cellKey sz (m_lon x) (m_lat x) then 1 else 0) ks) = (1 :: nat)"
    using Cons.prems by (simp add: sum_list_map_eq_sum_count count_list_eq_length_filter distinct_length_filter
        sum_list_distinct_conv_sum_set)
  finally show ?case by simp
qed (simp add: in_cell_def)

lemma average_between:
  fixes f :: "'a \<Rightarrow> float64"
  assumes "xs \<noteq> []"
  shows "Min (f ` set xs) \<le> sum_list (map f xs) / real (length xs) \<and>
    sum_list (map f xs) / real (length xs) \<le> Max (f ` set xs)"
proof -
  have "real (length xs) * Min (f ` set xs) \<le> sum_list (map f xs)"
    and "sum_list (map f xs) \<le> real (length xs) * Max (f ` set xs)"
    using sum_list_mono [of xs "\<lambda>_. Min (f ` set xs)" f] sum_list_mono [of xs f "\<lambda>_. Max (f ` set xs)"]
    by (auto simp: sum_list_triv)
  then show ?thesis using assms by (simp add: field_simps)
qed

text \<open>How many nodes a feature stands for.\<close>

definition weight :: "geoFeature \<Rightarrow> nat" where
  "weight f = (case ge_props f of ClusterProps n _ _ _ \<Rightarrow> n | _ \<Rightarrow> 1)"

lemma weight_simps [simp]:
  "weight (m_feature x) = 1" "weight (pointFeature a b (ClusterProps n d ts bb)) = n"
  by (cases x) (simp_all add: weight_def nodeFeature_def importedFeature_def pointFeature_def)

subsection \<open>Properties\<close>

text \<open>C17: When searching, zoomed in or loading everything, the map query always answers, with the matching
  live nodes followed by the matching imported nodes that are not live, each once, cut at the limit:
  at most limit features, and \<open>Capped\<close> exactly when there were more.\<close>

theorem map_stream_exact:
  assumes "mp_All p \<or> mp_Q p \<noteq> '''' \<or> mp_Zoom p \<ge> 10"
    and "everything = map nodeFeature (List.filter (keepLive p (mp_Q p = '''' \<and> mp_HasBBox p)) (map snd (mentries (nr_nodes r))))
       @ map importedFeature (List.filter (keepImported p (mp_Q p = '''' \<and> mp_HasBBox p) r) imported)"
  shows "MapQuery p imported r = Some \<lparr>mr_Features = take (nat (effectiveLimit p)) everything, mr_Zoom = mp_Zoom p,
       mr_Returned = min (length everything) (nat (effectiveLimit p)),
       mr_Capped = (length everything > nat (effectiveLimit p))\<rparr> \<and> 0 < effectiveLimit p"
proof -
  let ?spatial = "mp_Q p = [] \<and> mp_HasBBox p" and ?lim = "nat (effectiveLimit p)"
  let ?run = "case stream (keepLive p ?spatial) nodeFeature ?lim (map snd (mentries (nr_nodes r))) [] of
      (fs, capped) \<Rightarrow> if capped then (fs, True) else stream (keepImported p ?spatial r) importedFeature ?lim imported fs"
  have "?run = (take ?lim everything, length everything > ?lim)"
    unfolding assms(2) by (rule stream_two)
  moreover have "streamQuery p imported r = \<lparr>mr_Features = fst ?run, mr_Zoom = mp_Zoom p,
      mr_Returned = length (fst ?run), mr_Capped = snd ?run\<rparr>"
    by (simp add: streamQuery_def Let_def case_prod_unfold)
  ultimately have "streamQuery p imported r = \<lparr>mr_Features = take ?lim everything, mr_Zoom = mp_Zoom p,
       mr_Returned = min (length everything) ?lim, mr_Capped = (length everything > ?lim)\<rparr>"
    by simp
  then show ?thesis using assms(1) effectiveLimit_pos by (simp add: MapQuery_def nodeZoom_def)
qed

text \<open>C18: At low zoom the clustered map loses and repeats no node: the query never dereferences a missing
  node, every grid cell that some shown node falls into gives one feature, the counts of the features
  add up to the number of live and imported nodes that pass the filters in the viewport, and the
  centre of a cluster lies inside the bounding box it reports.\<close>

theorem map_clusters_conserve_nodes:
  assumes "\<not> mp_All p" and "mp_Q p = ''''" and "mp_Zoom p < 10"
  shows "\<exists>res. MapQuery p imported r = Some res \<and>
    sum_list (map weight (mr_Features res)) = length (shown p imported r) \<and>
    length (mr_Features res) =
      card ((\<lambda>x. cellKey (gridSize (mp_Zoom p)) (m_lon x) (m_lat x)) ` set (shown p imported r)) \<and>
    (\<forall>f\<in>set (mr_Features res). case ge_props f of
       ClusterProps n _ _ (west, south, east, north) \<Rightarrow>
         2 \<le> n \<and> west \<le> ge_lon f \<and> ge_lon f \<le> east \<and> south \<le> ge_lat f \<and> ge_lat f \<le> north
     | _ \<Rightarrow> True)"
proof -
  let ?sz = "gridSize (mp_Zoom p)" and ?xs = "shown p imported r"
  let ?cells = "gridCells p imported r" and ?in = "\<lambda>k. in_cell (gridSize (mp_Zoom p)) k (shown p imported r)"
  define feat where "feat k = the (cellFeature (the (mget ?cells k)))" for k
  have ok: "cell_ok (?in k) c" if "mget ?cells k = Some c" for k c
    using cells_ok [of ?sz k ?xs] that by (simp add: gridCells_fold)
  have key: "k \<in> set (mkeys ?cells) \<longleftrightarrow> ?in k \<noteq> []" for k
    using cells_ok [of ?sz k ?xs] by (cases "mget ?cells k") (auto simp: gridCells_fold cell_ok_def)
  have feats: "those (map (cellFeature \<circ> snd) (mentries ?cells)) = Some (map (feat \<circ> fst) (mentries ?cells))"
  proof (rule those_Some, rule ballI)
    fix e assume e: "e \<in> set (mentries ?cells)"
    have "mget ?cells (fst e) = Some (snd e)"
      using mentries_iff [of "fst e" "snd e" ?cells, THEN iffD1] e by (simp only: prod.collapse)
    then show "(cellFeature \<circ> snd) e = Some ((feat \<circ> fst) e)"
      by (simp add: feat_def cellFeature_ok [OF ok])
  qed
  have keys: "map (feat \<circ> fst) (mentries ?cells) = map feat (mkeys ?cells)" by (simp add: mkeys_def)
  have w: "weight (feat k) = length (?in k)" and box: "(case ge_props (feat k) of
       ClusterProps n _ _ (west, south, east, north) \<Rightarrow>
         2 \<le> n \<and> west \<le> ge_lon (feat k) \<and> ge_lon (feat k) \<le> east \<and> south \<le> ge_lat (feat k) \<and> ge_lat (feat k) \<le> north
     | _ \<Rightarrow> True)" if k: "k \<in> set (mkeys ?cells)" for k
  proof -
    from k obtain c where c: "mget ?cells k = Some c" by auto
    note f = cellFeature_ok [OF ok [OF c]] and ne = key [of k, THEN iffD1, OF k]
    show "weight (feat k) = length (?in k)" by (simp add: feat_def c f)
    show "(case ge_props (feat k) of
       ClusterProps n _ _ (west, south, east, north) \<Rightarrow>
         2 \<le> n \<and> west \<le> ge_lon (feat k) \<and> ge_lon (feat k) \<le> east \<and> south \<le> ge_lat (feat k) \<and> ge_lat (feat k) \<le> north
     | _ \<Rightarrow> True)"
    proof (cases "length (?in k) = 1")
      case True
      then show ?thesis
        by (cases "hd (?in k)") (simp_all add: feat_def c f nodeFeature_def importedFeature_def pointFeature_def)
    next
      case False
      moreover have "length (?in k) \<noteq> 0" using ne by simp
      ultimately have "2 \<le> length (?in k)" by linarith
      then show ?thesis using False average_between [OF ne, of m_lon] average_between [OF ne, of m_lat]
        by (simp add: feat_def c f pointFeature_def)
    qed
  qed
  have inside: "\<forall>x\<in>set ?xs. cellKey ?sz (m_lon x) (m_lat x) \<in> set (mkeys ?cells)"
    using key by (auto simp: in_cell_def filter_empty_conv)
  have "sum_list (map weight (map feat (mkeys ?cells))) = sum_list (map (\<lambda>k. length (?in k)) (mkeys ?cells))"
    by (rule arg_cong [where f = sum_list], unfold map_map comp_def, rule map_cong [OF refl], rule w)
  also have "\<dots> = length ?xs" using length_in_cells [OF mkeys_distinct inside] .
  finally have total: "sum_list (map weight (map feat (mkeys ?cells))) = length ?xs" .
  have "set (mkeys ?cells) = (\<lambda>x. cellKey ?sz (m_lon x) (m_lat x)) ` set ?xs"
  proof (rule set_eqI)
    show "k \<in> set (mkeys ?cells) \<longleftrightarrow> k \<in> (\<lambda>x. cellKey ?sz (m_lon x) (m_lat x)) ` set ?xs" for k
      unfolding key by (auto simp: in_cell_def filter_empty_conv)
  qed
  then have n: "length (map feat (mkeys ?cells)) = card ((\<lambda>x. cellKey ?sz (m_lon x) (m_lat x)) ` set ?xs)"
    using distinct_card [OF mkeys_distinct, of ?cells] by simp
  show ?thesis
    using assms box total n by (simp add: MapQuery_def nodeZoom_def gridQuery_def feats keys)
qed

text \<open>The per-type counts of a cluster can miss nodes: the types are keyed by name, and every type
  byte outside 1 to 4 is named ''unknown'', so of two such types only the one the range loop visits
  last is reported, not their sum.\<close>

theorem cluster_types_lose_counts:
  assumes "mget ts 0 = Some a" and "mget ts 5 = Some b" and "dom (mget ts) = {0, 5}" and "0 < a" and "0 < b"
  shows "(mget (clusterTypes ts) ''unknown'' = Some a \<or> mget (clusterTypes ts) ''unknown'' = Some b) \<and>
    mget (clusterTypes ts) ''unknown'' \<noteq> Some (a + b) \<and> dom (mget (clusterTypes ts)) = {''unknown''}"
proof -
  have mem: "set (mentries ts) = {(0, a), (5, b)}"
    using assms(1-3) by (auto simp: mentries_iff) (metis domI insertE option.inject singletonD)+
  have "length (mentries ts) = 2"
    using mlen_card [of ts] assms(3) by (simp add: mlen_def)
  then obtain x y where xy: "mentries ts = [x, y]" by (auto simp: length_Suc_conv numeral_2_eq_2)
  then have "mentries ts = [(0, a), (5, b)] \<or> mentries ts = [(5, b), (0, a)]"
    using mem by (auto simp: doubleton_eq_iff)
  then show ?thesis
    using assms(4,5) by (auto simp: clusterTypes_def mrange_def mget_mput nodeTypeName_def split: if_splits)
qed

text \<open>The directory search returns the best matches: every result comes from a node that matches, the
  total is the number of matching nodes, at most limit results are returned and \<open>capped\<close> tells whether
  any was left out; the results are in order of relevance (rank, then latest advert, then key), and no
  node left out ranks before one returned.\<close>

theorem search_returns_best:
  assumes "Search p limit r = (results, tot, capped)" and "q = to_lower (trim_space (mp_Q p))"
  shows "\<exists>hits. results = map searchResult hits \<and> sorted_wrt (\<lambda>x y. \<not> by_relevance q y x) hits \<and>
    mset hits \<subseteq># mset (List.filter (matches p) (map snd (mentries (nr_nodes r)))) \<and>
    tot = length (List.filter (matches p) (map snd (mentries (nr_nodes r)))) \<and>
    capped = (length results < tot) \<and> (0 < limit \<longrightarrow> int (length results) \<le> limit) \<and>
    (\<forall>x\<in>set hits. \<forall>y. y \<in># mset (List.filter (matches p) (map snd (mentries (nr_nodes r)))) - mset hits \<longrightarrow>
       \<not> by_relevance q y x)"
proof -
  define all where "all = List.filter (matches p) (map snd (mentries (nr_nodes r)))"
  define sorted where "sorted = sort_by (by_relevance q) all"
  define hits where "hits = (if limit > 0 \<and> int (length sorted) > limit then take (nat limit) sorted else sorted)"
  have ms: "mset sorted = mset all" by (simp add: sorted_def)
  have srt: "sorted_wrt (\<lambda>x y. \<not> by_relevance q y x) sorted"
    unfolding sorted_def by_relevance_def by (rule rank_desc_then.sorted_sort_by)
  obtain rest where split: "sorted = hits @ rest"
    by (metis hits_def append_Nil2 append_take_drop_id)
  have res: "results = map searchResult hits" "tot = length all"
    "capped = (limit > 0 \<and> int (length sorted) > limit)"
    using assms by (auto simp: Search_def Let_def hits_def sorted_def all_def split: if_splits)
  have "length sorted = length all" using ms by (metis size_mset)
  then have caps: "capped = (length results < tot)" "0 < limit \<longrightarrow> int (length results) \<le> limit"
    by (auto simp: res hits_def)
  have left: "mset all - mset hits = mset rest" using ms by (metis add_diff_cancel_left' mset_append split)
  have "mset hits \<subseteq># mset all" using ms by (metis mset_append mset_subset_eq_add_left split)
  moreover have "sorted_wrt (\<lambda>x y. \<not> by_relevance q y x) hits"
    and "\<forall>x\<in>set hits. \<forall>y\<in>set rest. \<not> by_relevance q y x"
    using srt by (auto simp: split sorted_wrt_append)
  ultimately show ?thesis
    using res(1,2) caps left unfolding all_def [symmetric] by (intro exI [of _ hits]) auto
qed

subsection \<open>Witnesses\<close>

definition ex_params :: MapParams where
  "ex_params = \<lparr>mp_BBox = (0, 0, 0, 0), mp_HasBBox = False, mp_Zoom = 3, mp_Types = mempty, mp_Networks = mempty,
     mp_Countries = mempty, mp_Regions = mempty, mp_Since = 0, mp_OlderThan = 0, mp_HasLocation = None,
     mp_HasName = None, mp_Sources = mempty, mp_NearLat = 0, mp_NearLon = 0, mp_RadiusKM = 0, mp_HasNear = False,
     mp_Sort = [], mp_Q = [], mp_PrefixOnly = False, mp_Limit = 0, mp_All = False\<rparr>"

lemma ex_matches: "matches ex_params n" "matches (ex_params\<lparr>mp_Zoom := 12\<rparr>) n"
  by (simp_all add: matches_def ex_params_def bool_ne_def matchesQuery_def)

lemma ex_node_gps: "nod_HasGPS (noteAdvert 3 (ex_obs ''a'' 5) (newNode (ex_obs ''a'' 5)))"
  by (simp add: noteAdvert_eq ex_obs_def)

lemma ex_live: "List.filter (keepLive ex_params True) (map snd (mentries (nr_nodes ex_reg))) =
    [noteAdvert 3 (ex_obs ''a'' 5) (newNode (ex_obs ''a'' 5))]"
  by (simp add: ex_reg_entries keepLive_def ex_matches ex_node_gps) (simp add: inBBox_def ex_params_def)

lemma map_stream_exact_witness:
  "\<exists>res. MapQuery (ex_params\<lparr>mp_Zoom := 12\<rparr>) [] ex_reg = Some res \<and> mr_Returned res = 1 \<and> \<not> mr_Capped res"
proof -
  have "keepLive (ex_params\<lparr>mp_Zoom := 12\<rparr>) False (noteAdvert 3 (ex_obs ''a'' 5) (newNode (ex_obs ''a'' 5)))"
    by (simp add: keepLive_def ex_matches ex_node_gps)
  then show ?thesis
    using map_stream_exact [OF _ refl, where p = "ex_params\<lparr>mp_Zoom := 12\<rparr>" and r = ex_reg and imported = "[]"]
    by (simp add: ex_reg_entries) (simp add: ex_params_def effectiveLimit_def defaultMapLimit_def)
qed

lemma map_clusters_conserve_nodes_witness:
  "\<exists>res. MapQuery ex_params [] ex_reg = Some res \<and> sum_list (map weight (mr_Features res)) = 1"
proof -
  have "\<not> mp_All ex_params" "mp_Q ex_params = []" "mp_Zoom ex_params < 10" by (simp_all add: ex_params_def)
  from map_clusters_conserve_nodes [OF this, of "[]" ex_reg] show ?thesis
    by (auto simp: shown_def ex_live)
qed

lemma cluster_types_lose_counts_witness:
  "mget (clusterTypes (mput (mput mempty 0 1) 5 (2 :: nat))) ''unknown'' \<noteq> Some 3"
proof -
  have "dom (mget (mput (mput mempty 0 1) 5 (2 :: nat))) = {0 :: byte, 5}" by (auto simp: dom_def mget_mput)
  from cluster_types_lose_counts [of "mput (mput mempty 0 1) 5 2" 1 2, OF _ _ this]
  show ?thesis by (simp add: mget_mput numeral_3_eq_3)
qed

lemma search_returns_best_witness:
  "\<exists>results. Search ex_params 10 ex_reg = (results, 1, False) \<and> length results = 1"
proof -
  obtain results tot capped where s: "Search ex_params 10 ex_reg = (results, tot, capped)" by (metis prod_cases3)
  have "List.filter (matches ex_params) (map snd (mentries (nr_nodes ex_reg))) =
      [noteAdvert 3 (ex_obs ''a'' 5) (newNode (ex_obs ''a'' 5))]"
    by (simp add: ex_reg_entries ex_matches)
  with search_returns_best [OF s refl] have "tot = 1" "capped = (length results < tot)" by auto
  moreover have "\<not> capped" using s by (auto simp: Search_def Let_def ex_reg_entries ex_matches split: if_splits)
  moreover have "length results \<le> tot" using s by (auto simp: Search_def Let_def split: if_splits)
  ultimately show ?thesis using s by (intro exI [of _ results]) (cases results, auto)
qed

end
