(* ===== verification/NetworkConfig.thy ===== *)
theory NetworkConfig
  imports GoJson GoSort "HOL-Library.List_Lexorder" "HOL-Library.Char_ord"
begin

text \<open>
  The published network catalogue (config.go): the records of networks.json and the list of
  networks the service works with. \<open>fmt.Sprint\<close> of a radio frequency of any JSON type is the
  argument \<open>sprint\<close>; the HTTP download of \<open>LoadNetworks\<close> is its result.
\<close>

subsection \<open>Data\<close>

record AnalyzerConfig =
  ac_Name :: string
  ac_URL :: string

record NetworkConfig =
  nc_ID :: string
  nc_Name :: string
  nc_Analyzers :: "AnalyzerConfig list"
  nc_Countries :: "string list"
  nc_Regions :: "string list"

record radioJSON =
  rj_Frequency :: json
  rj_Region :: string

record networkJSON =
  nj_ID :: string
  nj_Name :: string
  nj_Countries :: "string list"
  nj_Radio :: radioJSON
  nj_Radios :: "radioJSON list"
  nj_Analyzers :: "AnalyzerConfig list"

subsection \<open>Decoding\<close>

definition zero_radio :: radioJSON where
  "zero_radio = \<lparr>rj_Frequency = JNull, rj_Region = ''''\<rparr>"

definition dec_radio :: "json \<Rightarrow> radioJSON option" where
  "dec_radio = dec_struct zero_radio (\<lambda>fs. do {
     f \<leftarrow> dec_field ''frequency'' Some JNull fs;
     r \<leftarrow> dec_field ''region'' dec_string '''' fs;
     Some \<lparr>rj_Frequency = f, rj_Region = r\<rparr> })"

definition dec_analyzer :: "json \<Rightarrow> AnalyzerConfig option" where
  "dec_analyzer = dec_struct \<lparr>ac_Name = '''', ac_URL = ''''\<rparr> (\<lambda>fs. do {
     n \<leftarrow> dec_field ''name'' dec_string '''' fs;
     u \<leftarrow> dec_field ''url'' dec_string '''' fs;
     Some \<lparr>ac_Name = n, ac_URL = u\<rparr> })"

definition dec_coverage :: "json \<Rightarrow> string list option" where
  "dec_coverage = dec_struct [] (dec_field ''countries'' (dec_slice dec_string) [])"

definition dec_network :: "json \<Rightarrow> networkJSON option" where
  "dec_network = dec_struct
     \<lparr>nj_ID = '''', nj_Name = '''', nj_Countries = [], nj_Radio = zero_radio, nj_Radios = [], nj_Analyzers = []\<rparr>
     (\<lambda>fs. do {
       i \<leftarrow> dec_field ''id'' dec_string '''' fs;
       n \<leftarrow> dec_field ''name'' dec_string '''' fs;
       c \<leftarrow> dec_field ''coverage'' dec_coverage [] fs;
       r \<leftarrow> dec_field ''radio'' dec_radio zero_radio fs;
       rs \<leftarrow> dec_field ''radios'' (dec_slice dec_radio) [] fs;
       as \<leftarrow> dec_field ''analyzers'' (dec_slice dec_analyzer) [] fs;
       Some \<lparr>nj_ID = i, nj_Name = n, nj_Countries = c, nj_Radio = r, nj_Radios = rs, nj_Analyzers = as\<rparr> })"

subsection \<open>Countries and regions\<close>

definition trim_suffix :: "string \<Rightarrow> string \<Rightarrow> string" where
  "trim_suffix s suf = (if suf = drop (length s - length suf) s then take (length s - length suf) s else s)"

text \<open>\<open>if ok && !seen[x] { seen[x] = true; out = append(out, x) }\<close>.\<close>

definition addSeen :: "('a \<Rightarrow> bool) \<Rightarrow> 'a \<Rightarrow> ('a, bool) gomap \<times> 'a list \<Rightarrow> ('a, bool) gomap \<times> 'a list" where
  "addSeen ok x st = (case st of (seen, out) \<Rightarrow>
     if ok x \<and> \<not> mhas seen x then (mput seen x True, out @ [x]) else (seen, out))"

definition addCountry :: "string \<Rightarrow> (string, bool) gomap \<times> string list \<Rightarrow> (string, bool) gomap \<times> string list" where
  "addCountry c = addSeen (\<lambda>cc. length cc = 2) (to_upper (trim_space c))"

definition bandRegion :: "string \<Rightarrow> string" where
  "bandRegion r = (let band = trim_suffix r ''MHZ'' in
     if band = ''868'' then ''EU868''
     else if band = ''915'' then ''US915''
     else if band = ''433'' then ''EU433''
     else r)"

definition radioRegion :: "(json \<Rightarrow> string) \<Rightarrow> radioJSON \<Rightarrow> string" where
  "radioRegion sprint rj =
     (let r = to_upper (trim_space (rj_Region rj)) in
      if r = '''' \<and> rj_Frequency rj \<noteq> JNull
      then bandRegion (to_upper (trim_space (sprint (rj_Frequency rj))))
      else r)"

definition addRegion ::
  "(json \<Rightarrow> string) \<Rightarrow> radioJSON \<Rightarrow> (string, bool) gomap \<times> string list \<Rightarrow> (string, bool) gomap \<times> string list" where
  "addRegion sprint rj = addSeen (\<lambda>r. r \<noteq> []) (radioRegion sprint rj)"

subsection \<open>Networks\<close>

definition networkOf :: "(json \<Rightarrow> string) \<Rightarrow> networkJSON \<Rightarrow> NetworkConfig option" where
  "networkOf sprint rec =
     (if nj_ID rec = '''' \<or> nj_Analyzers rec = [] then None
      else let nc = \<lparr>nc_ID = nj_ID rec, nc_Name = nj_Name rec,
                      nc_Analyzers = filter (\<lambda>a. ac_URL a \<noteq> '''') (nj_Analyzers rec),
                      nc_Countries = snd (fold addCountry (nj_Countries rec) (mempty, [])),
                      nc_Regions = snd (fold (addRegion sprint) (nj_Radio rec # nj_Radios rec) (mempty, []))\<rparr>
           in if nc_Analyzers nc = [] then None else Some nc)"

definition parseNetworksJSON :: "(json \<Rightarrow> string) \<Rightarrow> json \<Rightarrow> NetworkConfig list option" where
  "parseNetworksJSON sprint raw = do {
     records \<leftarrow> dec_slice dec_network raw;
     Some (sort_by (by_key nc_ID) (List.map_filter (networkOf sprint) records)) }"

text \<open>\<open>LoadNetworks\<close>: the request fails, answers with a status, a body that cannot be read (or is no
  JSON, \<open>None\<close>), or a body.\<close>

definition LoadNetworks :: "(json \<Rightarrow> string) \<Rightarrow> (int \<times> json option) option \<Rightarrow> NetworkConfig list option" where
  "LoadNetworks sprint resp = do {
     (status, body) \<leftarrow> resp;
     if status < 200 \<or> status \<ge> 300 then None else do {
       raw \<leftarrow> body;
       parseNetworksJSON sprint raw } }"

subsection \<open>What the catalogue promises\<close>

definition clean_config :: "NetworkConfig \<Rightarrow> bool" where
  "clean_config nc \<longleftrightarrow> nc_ID nc \<noteq> '''' \<and> nc_Analyzers nc \<noteq> [] \<and> (\<forall>a\<in>set (nc_Analyzers nc). ac_URL a \<noteq> '''')
     \<and> distinct (nc_Countries nc) \<and> (\<forall>c\<in>set (nc_Countries nc). length c = 2 \<and> to_upper c = c)
     \<and> distinct (nc_Regions nc) \<and> '''' \<notin> set (nc_Regions nc)"

lemma upper_char_idem [simp]: "upper_char (upper_char c) = upper_char c"
  by (auto simp: upper_char_def)

lemma to_upper_idem [simp]: "to_upper (to_upper s) = to_upper s"
  by (simp add: to_upper_def comp_def)

text \<open>A deduplicating loop keeps each accepted value once.\<close>

lemma fold_addSeen_aux:
  "distinct out \<Longrightarrow> \<forall>y. mhas seen y \<longleftrightarrow> y \<in> set out \<Longrightarrow>
     distinct (snd (fold (\<lambda>x. addSeen ok (f x)) xs (seen, out)))
     \<and> set (snd (fold (\<lambda>x. addSeen ok (f x)) xs (seen, out))) = set out \<union> {y \<in> f ` set xs. ok y}"
proof (induction xs arbitrary: seen out)
  case (Cons x xs)
  show ?case
  proof (cases "ok (f x) \<and> \<not> mhas seen (f x)")
    case True
    then show ?thesis
      using Cons.IH [of "out @ [f x]" "mput seen (f x) True"] Cons.prems
      by (auto simp: addSeen_def gomap)
  next
    case False
    then show ?thesis using Cons.IH [OF Cons.prems] Cons.prems by (auto simp: addSeen_def)
  qed
qed simp

lemmas fold_addSeen = fold_addSeen_aux [of "[]" mempty, simplified]

lemma countries_spec: "distinct (snd (fold addCountry cs (mempty, [])))"
  "set (snd (fold addCountry cs (mempty, []))) = {cc \<in> (to_upper \<circ> trim_space) ` set cs. length cc = 2}"
  using fold_addSeen [of "\<lambda>c. length c = 2" "to_upper \<circ> trim_space" cs] unfolding addCountry_def by auto

lemma regions_spec: "distinct (snd (fold (addRegion sprint) rs (mempty, [])))"
  "set (snd (fold (addRegion sprint) rs (mempty, []))) = radioRegion sprint ` set rs - {[]}"
  using fold_addSeen [of "\<lambda>r. r \<noteq> []" "radioRegion sprint" rs] unfolding addRegion_def by auto

lemma networkOf_ID: "networkOf sprint rec = Some nc \<Longrightarrow> nc_ID nc = nj_ID rec"
  by (auto simp: networkOf_def Let_def split: if_splits)

lemma networkOf_clean: "networkOf sprint rec = Some nc \<Longrightarrow> clean_config nc"
  unfolding networkOf_def Let_def clean_config_def
  by (auto simp: countries_spec regions_spec simp del: fold.simps split: if_splits)

lemma networkOf_Some: "(\<exists>nc. networkOf sprint r = Some nc) \<longleftrightarrow>
    nj_ID r \<noteq> [] \<and> (\<exists>a\<in>set (nj_Analyzers r). ac_URL a \<noteq> [])"
  unfolding networkOf_def Let_def by (auto simp: filter_empty_conv)

lemma networkOf_ids: "map nc_ID (List.map_filter (networkOf sprint) rs) =
    map nj_ID (filter (\<lambda>r. nj_ID r \<noteq> [] \<and> (\<exists>a\<in>set (nj_Analyzers r). ac_URL a \<noteq> [])) rs)"
proof (induction rs)
  case (Cons r rs)
  then show ?case using networkOf_Some [of sprint r] networkOf_ID [of sprint r]
    by (cases "networkOf sprint r") (auto simp: map_filter_simps)
qed (simp add: map_filter_simps)

text \<open>C39: parsing the catalogue either fails, exactly when a record does not decode, or gives, sorted by
  id, one configuration for each record that has an id and an analyzer with an address; every
  configuration has its record's id, only analyzers with an address, each two-letter country code of
  the record once in upper case and each region of its radios once, and no empty region.\<close>

theorem catalogue_is_clean:
  "(parseNetworksJSON sprint (JArr js) = None \<longleftrightarrow> (\<exists>j\<in>set js. dec_network j = None))
   \<and> (\<forall>out. parseNetworksJSON sprint (JArr js) = Some out \<longrightarrow>
        sorted (map nc_ID out) \<and> Ball (set out) clean_config
        \<and> mset (map nc_ID out) = mset (map (nj_ID \<circ> the \<circ> dec_network)
            (filter (\<lambda>j. nj_ID (the (dec_network j)) \<noteq> '''' \<and>
               (\<exists>a\<in>set (nj_Analyzers (the (dec_network j))). ac_URL a \<noteq> '''')) js)))"
proof (intro conjI allI impI)
  have "those (map dec_network js) = None \<longleftrightarrow> (\<exists>j\<in>set js. dec_network j = None)"
    by (induction js) (auto split: option.splits)
  then show "parseNetworksJSON sprint (JArr js) = None \<longleftrightarrow> (\<exists>j\<in>set js. dec_network j = None)"
    by (cases "those (map dec_network js)") (simp_all add: parseNetworksJSON_def)
next
  fix out assume out: "parseNetworksJSON sprint (JArr js) = Some out"
  obtain rs where rs: "those (map dec_network js) = Some rs"
    and srt: "out = sort_by (by_key nc_ID) (List.map_filter (networkOf sprint) rs)"
    using out by (auto simp: parseNetworksJSON_def split: option.splits bind_splits)
  have rs_eq: "rs = map (the \<circ> dec_network) js"
    using rs by (induction js arbitrary: rs) (auto split: option.splits)
  show "sorted (map nc_ID out)"
    using by_key.sorted_sort_by [of nc_ID "List.map_filter (networkOf sprint) rs"]
    by (simp add: srt sorted_wrt_map by_key_def not_less)
  show "Ball (set out) clean_config"
    using networkOf_clean by (fastforce simp: srt map_filter_def)
  have "mset (map nc_ID out) = mset (map nc_ID (List.map_filter (networkOf sprint) rs))"
    by (simp add: srt)
  also have "\<dots> = mset (map (nj_ID \<circ> the \<circ> dec_network) (filter (\<lambda>j. nj_ID (the (dec_network j)) \<noteq> '''' \<and>
               (\<exists>a\<in>set (nj_Analyzers (the (dec_network j))). ac_URL a \<noteq> '''')) js))"
    unfolding networkOf_ids rs_eq by (simp add: filter_map comp_def)
  finally show "mset (map nc_ID out) = \<dots>" .
qed

definition ex_catalogue :: "json list" where
  "ex_catalogue = [JObj [(''id'', JStr ''cz''), (''coverage'', JObj [(''countries'', JArr [JStr ''cz'', JStr '' CZ''])]),
       (''radio'', JObj [(''frequency'', JStr ''868MHz'')]), (''analyzers'', JArr [JObj [(''url'', JStr ''u'')]])],
     JObj [(''id'', JStr ''no analyzer'')]]"

definition ex_sprint :: "json \<Rightarrow> string" where
  "ex_sprint j = (case j of JStr s \<Rightarrow> s | _ \<Rightarrow> '''')"

lemma ex_catalogue_parsed: "parseNetworksJSON ex_sprint (JArr ex_catalogue) =
    Some [\<lparr>nc_ID = ''cz'', nc_Name = '''', nc_Analyzers = [\<lparr>ac_Name = '''', ac_URL = ''u''\<rparr>],
           nc_Countries = [''CZ''], nc_Regions = [''EU868'']\<rparr>]"
  by code_simp

lemma catalogue_is_clean_witness:
  "\<exists>out. parseNetworksJSON ex_sprint (JArr ex_catalogue) = Some out \<and> length out = 1 \<and> Ball (set out) clean_config"
  using catalogue_is_clean [of ex_sprint ex_catalogue] ex_catalogue_parsed by auto

end
