(* ===== verification/Settings.thy ===== *)
theory Settings
  imports GoStrings Flags
begin

text \<open>
  The configuration of the service (app_config.go): defaults, the TOML file, the fallbacks of the
  flush intervals, and the command-line flags. \<open>toml.Unmarshal\<close> is third-party code: an argument
  that decodes a document into a configuration, and one that lists its keys. \<open>time.ParseDuration\<close>
  is an argument too. Durations are nanoseconds.
\<close>

type_synonym duration = int

abbreviation seconds :: duration where "seconds \<equiv> 1000000000"
abbreviation minutes :: duration where "minutes \<equiv> 60 * seconds"
abbreviation hours :: duration where "hours \<equiv> 60 * minutes"

definition Duration_UnmarshalText :: "(string \<Rightarrow> duration option) \<Rightarrow> string \<Rightarrow> duration option" where
  "Duration_UnmarshalText parse text =
     (let v = trim_space text in if v = [] then Some 0 else parse v)"

record AppConfig =
  cf_Addr :: string
  cf_DataURL :: string
  cf_AllowOrigin :: string
  cf_TangleveilURL :: string
  cf_NetworkIDs :: "string list"
  cf_NetworkUpdateInterval :: duration
  cf_DedupWindow :: duration
  cf_LinkHalfLife :: duration
  cf_ObserverTTL :: duration
  cf_DBPath :: string
  cf_LinksDBPath :: string
  cf_PersistInterval :: duration
  cf_CounterPersistInterval :: duration
  cf_NodePersistInterval :: duration
  cf_AdvertPersistInterval :: duration
  cf_LinkPersistInterval :: duration
  cf_ObserverPersistInterval :: duration
  cf_ImportURL :: string
  cf_ImportInterval :: duration
  cf_SnapshotDir :: string
  cf_SnapshotBaseURL :: string
  cf_SnapshotInterval :: duration
  cf_NetworkAreaURL :: string
  cf_NetworkAreaInterval :: duration
  cf_FlagInterval :: duration
  cf_FarFromNetworkKM :: float64

definition defaultImportURL :: string where
  "defaultImportURL = ''https://map.meshcore.io/api/v1/nodes?binary=0&short=0''"

definition DefaultAppConfig :: AppConfig where
  "DefaultAppConfig =
     \<lparr>cf_Addr = '':8080'',
      cf_DataURL = ''https://meshcore.ninja/networks.json'',
      cf_AllowOrigin = ''*'',
      cf_TangleveilURL = ''wss://tangleveil.meshcore.ninja/ws'',
      cf_NetworkIDs = [],
      cf_NetworkUpdateInterval = 5 * minutes,
      cf_DedupWindow = 15 * minutes,
      cf_LinkHalfLife = 24 * hours,
      cf_ObserverTTL = hours,
      cf_DBPath = ''core.db'',
      cf_LinksDBPath = ''links.db'',
      cf_PersistInterval = 20 * seconds,
      cf_CounterPersistInterval = 20 * seconds,
      cf_NodePersistInterval = 20 * seconds,
      cf_AdvertPersistInterval = 20 * seconds,
      cf_LinkPersistInterval = 20 * seconds,
      cf_ObserverPersistInterval = 12 * seconds,
      cf_ImportURL = defaultImportURL,
      cf_ImportInterval = hours,
      cf_SnapshotDir = ''snapshots'',
      cf_SnapshotBaseURL = [],
      cf_SnapshotInterval = 5 * minutes,
      cf_NetworkAreaURL = ''https://meshcore.ninja/network-area/all.geojson'',
      cf_NetworkAreaInterval = 6 * hours,
      cf_FlagInterval = 15 * minutes,
      cf_FarFromNetworkKM = defaultFarFromNetworkKM\<rparr>"

subsection \<open>The configuration file\<close>

definition applyPersistIntervalFallbacks :: "string list option \<Rightarrow> AppConfig \<Rightarrow> AppConfig" where
  "applyPersistIntervalFallbacks keys cfg = (case keys of None \<Rightarrow> cfg | Some keys \<Rightarrow>
     let cfg = (if ''counter_persist_interval'' \<notin> set keys
                then cfg\<lparr>cf_CounterPersistInterval := cf_PersistInterval cfg\<rparr> else cfg);
         cfg = (if ''node_persist_interval'' \<notin> set keys
                then cfg\<lparr>cf_NodePersistInterval := cf_PersistInterval cfg\<rparr> else cfg);
         cfg = (if ''advert_persist_interval'' \<notin> set keys
                then cfg\<lparr>cf_AdvertPersistInterval := cf_PersistInterval cfg\<rparr> else cfg)
     in (if ''link_persist_interval'' \<notin> set keys
         then cfg\<lparr>cf_LinkPersistInterval := cf_PersistInterval cfg\<rparr> else cfg))"

datatype file_read = Content string | NotExist | ReadError

text \<open>\<open>LoadAppConfig\<close> returns the configuration, or an error (\<open>None\<close>), which ends the program.\<close>

definition LoadAppConfig ::
  "(string \<Rightarrow> AppConfig \<Rightarrow> AppConfig option) \<Rightarrow> (string \<Rightarrow> string list option) \<Rightarrow> file_read \<Rightarrow> bool
     \<Rightarrow> AppConfig option" where
  "LoadAppConfig toml_into toml_keys file required =
     (case file of
        NotExist \<Rightarrow> if \<not> required then Some DefaultAppConfig else None
      | ReadError \<Rightarrow> None
      | Content raw \<Rightarrow> (case toml_into raw DefaultAppConfig of
            None \<Rightarrow> None
          | Some cfg \<Rightarrow> Some (applyPersistIntervalFallbacks (toml_keys raw) cfg)))"

fun configPathFrom :: "string \<Rightarrow> string list \<Rightarrow> string \<times> bool" where
  "configPathFrom path [] = (path, False)"
| "configPathFrom path (arg # rest) =
     (if arg = ''--config'' \<or> arg = ''-config'' then
        (case rest of [] \<Rightarrow> (path, True) | next # _ \<Rightarrow> (next, True))
      else if has_prefix arg ''--config='' then (drop (length ''--config='') arg, True)
      else if has_prefix arg ''-config='' then (drop (length ''-config='') arg, True)
      else configPathFrom path rest)"

definition configPathFromArgs :: "string list \<Rightarrow> string \<times> bool" where
  "configPathFromArgs args = configPathFrom ''config.toml'' args"

subsection \<open>Flags\<close>

text \<open>A parsed command-line flag, and the field \<open>bindConfigFlags\<close> binds it to. A flag that is not given
  leaves the configured value, which is its default.\<close>

datatype config_flag =
  SetAddr string
| SetDataURL string
| SetAllowOrigin string
| SetTangleveilURL string
| SetNetworkUpdateInterval duration
| SetDedupWindow duration
| SetLinkHalfLife duration
| SetObserverTTL duration
| SetDBPath string
| SetLinksDBPath string
| SetPersistInterval duration
| SetCounterPersistInterval duration
| SetNodePersistInterval duration
| SetAdvertPersistInterval duration
| SetLinkPersistInterval duration
| SetObserverPersistInterval duration
| SetImportURL string
| SetImportInterval duration
| SetSnapshotDir string
| SetSnapshotBaseURL string
| SetSnapshotInterval duration
| SetNetworkAreaURL string
| SetNetworkAreaInterval duration
| SetFlagInterval duration
| SetFarFromNetworkKM float64

fun bind_flag :: "config_flag \<Rightarrow> AppConfig \<Rightarrow> AppConfig" where
  "bind_flag (SetAddr v) cfg = cfg\<lparr>cf_Addr := v\<rparr>"
| "bind_flag (SetDataURL v) cfg = cfg\<lparr>cf_DataURL := v\<rparr>"
| "bind_flag (SetAllowOrigin v) cfg = cfg\<lparr>cf_AllowOrigin := v\<rparr>"
| "bind_flag (SetTangleveilURL v) cfg = cfg\<lparr>cf_TangleveilURL := v\<rparr>"
| "bind_flag (SetNetworkUpdateInterval v) cfg = cfg\<lparr>cf_NetworkUpdateInterval := v\<rparr>"
| "bind_flag (SetDedupWindow v) cfg = cfg\<lparr>cf_DedupWindow := v\<rparr>"
| "bind_flag (SetLinkHalfLife v) cfg = cfg\<lparr>cf_LinkHalfLife := v\<rparr>"
| "bind_flag (SetObserverTTL v) cfg = cfg\<lparr>cf_ObserverTTL := v\<rparr>"
| "bind_flag (SetDBPath v) cfg = cfg\<lparr>cf_DBPath := v\<rparr>"
| "bind_flag (SetLinksDBPath v) cfg = cfg\<lparr>cf_LinksDBPath := v\<rparr>"
| "bind_flag (SetPersistInterval v) cfg = cfg\<lparr>cf_PersistInterval := v\<rparr>"
| "bind_flag (SetCounterPersistInterval v) cfg = cfg\<lparr>cf_CounterPersistInterval := v\<rparr>"
| "bind_flag (SetNodePersistInterval v) cfg = cfg\<lparr>cf_NodePersistInterval := v\<rparr>"
| "bind_flag (SetAdvertPersistInterval v) cfg = cfg\<lparr>cf_AdvertPersistInterval := v\<rparr>"
| "bind_flag (SetLinkPersistInterval v) cfg = cfg\<lparr>cf_LinkPersistInterval := v\<rparr>"
| "bind_flag (SetObserverPersistInterval v) cfg = cfg\<lparr>cf_ObserverPersistInterval := v\<rparr>"
| "bind_flag (SetImportURL v) cfg = cfg\<lparr>cf_ImportURL := v\<rparr>"
| "bind_flag (SetImportInterval v) cfg = cfg\<lparr>cf_ImportInterval := v\<rparr>"
| "bind_flag (SetSnapshotDir v) cfg = cfg\<lparr>cf_SnapshotDir := v\<rparr>"
| "bind_flag (SetSnapshotBaseURL v) cfg = cfg\<lparr>cf_SnapshotBaseURL := v\<rparr>"
| "bind_flag (SetSnapshotInterval v) cfg = cfg\<lparr>cf_SnapshotInterval := v\<rparr>"
| "bind_flag (SetNetworkAreaURL v) cfg = cfg\<lparr>cf_NetworkAreaURL := v\<rparr>"
| "bind_flag (SetNetworkAreaInterval v) cfg = cfg\<lparr>cf_NetworkAreaInterval := v\<rparr>"
| "bind_flag (SetFlagInterval v) cfg = cfg\<lparr>cf_FlagInterval := v\<rparr>"
| "bind_flag (SetFarFromNetworkKM v) cfg = cfg\<lparr>cf_FarFromNetworkKM := v\<rparr>"

definition bindConfigFlags :: "config_flag list \<Rightarrow> AppConfig \<Rightarrow> AppConfig" where
  "bindConfigFlags flags cfg = fold bind_flag flags cfg"

definition networkIDSet :: "string list \<Rightarrow> (string, bool) gomap" where
  "networkIDSet ids =
     (if length ids = 0 then mempty
      else fold (\<lambda>i out. let i = trim_space i in if i \<noteq> [] then mput out i True else out) ids mempty)"

subsection \<open>Flush intervals\<close>

text \<open>The intervals the five flush loops run with, in the order main.go starts them.\<close>

definition flush_intervals :: "AppConfig \<Rightarrow> duration list" where
  "flush_intervals cfg = [cf_CounterPersistInterval cfg, cf_NodePersistInterval cfg, cf_AdvertPersistInterval cfg,
     cf_LinkPersistInterval cfg, cf_ObserverPersistInterval cfg]"

definition interval_keys :: "string list" where
  "interval_keys = [''counter_persist_interval'', ''node_persist_interval'', ''advert_persist_interval'',
     ''link_persist_interval'', ''observer_persist_interval'']"

text \<open>With a decoder that leaves the fields of absent keys alone, a collection flushes at its own
  interval if the file sets it, else (except for observers) at \<open>persist_interval\<close>, else at its default.\<close>

lemma flush_intervals_of_file:
  assumes dec: "toml_into raw DefaultAppConfig = Some c" and keys: "toml_keys raw = Some ks"
    and absent: "''persist_interval'' \<notin> set ks \<Longrightarrow> cf_PersistInterval c = cf_PersistInterval DefaultAppConfig"
      "''observer_persist_interval'' \<notin> set ks \<Longrightarrow> cf_ObserverPersistInterval c = cf_ObserverPersistInterval DefaultAppConfig"
  shows "\<exists>cfg. LoadAppConfig toml_into toml_keys (Content raw) required = Some cfg
    \<and> flush_intervals cfg = map (\<lambda>(key, own). if key \<in> set ks then own
        else if key = ''observer_persist_interval'' then 12 * seconds
        else if ''persist_interval'' \<in> set ks then cf_PersistInterval c else 20 * seconds)
      (zip interval_keys (flush_intervals c))"
proof -
  have loaded: "LoadAppConfig toml_into toml_keys (Content raw) required
      = Some (applyPersistIntervalFallbacks (Some ks) c)"
    by (simp add: LoadAppConfig_def dec keys)
  have "flush_intervals (applyPersistIntervalFallbacks (Some ks) c) =
    [if ''counter_persist_interval'' \<in> set ks then cf_CounterPersistInterval c else cf_PersistInterval c,
     if ''node_persist_interval'' \<in> set ks then cf_NodePersistInterval c else cf_PersistInterval c,
     if ''advert_persist_interval'' \<in> set ks then cf_AdvertPersistInterval c else cf_PersistInterval c,
     if ''link_persist_interval'' \<in> set ks then cf_LinkPersistInterval c else cf_PersistInterval c,
     cf_ObserverPersistInterval c]"
    by (simp add: applyPersistIntervalFallbacks_def flush_intervals_def Let_def)
  moreover have "''persist_interval'' \<notin> set ks \<longrightarrow> cf_PersistInterval c = 20 * seconds"
    using absent(1) by (simp add: DefaultAppConfig_def)
  moreover have "''observer_persist_interval'' \<notin> set ks \<longrightarrow> cf_ObserverPersistInterval c = 12 * seconds"
    using absent(2) by (simp add: DefaultAppConfig_def)
  ultimately have "flush_intervals (applyPersistIntervalFallbacks (Some ks) c) =
     map (\<lambda>(key, own). if key \<in> set ks then own
        else if key = ''observer_persist_interval'' then 12 * seconds
        else if ''persist_interval'' \<in> set ks then cf_PersistInterval c else 20 * seconds)
      (zip interval_keys (flush_intervals c))"
    by (simp add: interval_keys_def flush_intervals_def)
  then show ?thesis using loaded by blast
qed

text \<open>The command-line flag \<open>persist-interval\<close> changes no flush loop: the fallbacks were applied to the
  file before the flags were read.\<close>

lemma persist_flag_without_effect:
  "flush_intervals (bindConfigFlags [SetPersistInterval d] cfg) = flush_intervals cfg"
  by (simp add: bindConfigFlags_def flush_intervals_def)

lemma fold_networkIDs:
  "mhas (fold (\<lambda>i out. let i = trim_space i in if i \<noteq> [] then mput out i True else out) ids m) k
     \<longleftrightarrow> mhas m k \<or> (k \<noteq> [] \<and> k \<in> trim_space ` set ids)"
  by (induction ids arbitrary: m) (auto simp: Let_def gomap)

lemma networkIDSet_iff: "mhas (networkIDSet ids) k \<longleftrightarrow> k \<noteq> [] \<and> k \<in> trim_space ` set ids"
  by (auto simp: networkIDSet_def fold_networkIDs)

end
