(* ===== verification/NetworkStore.thy ===== *)
theory NetworkStore
  imports PacketMetrics NetworkConfig DirtyMap
begin

text \<open>
  The registry of networks and analyzers (store.go). Networks, analyzers and counters are shared by
  pointer with the collectors, and \<open>Update\<close> decides which counters survive a refresh of the catalogue
  by copying their pointers: the model keeps an explicit heap, a pointer being an index into it.
  Every allocation of the code is one, also those it drops. The mutexes are not modelled: each
  method is one step.
\<close>

type_synonym ptr = nat

text \<open>The two structs are parametric in what stands for their pointers, so that the same types
  describe the heap and, with values for pointers, the contents reachable from it.\<close>

record 'c AnalyzerState =
  az_Name :: string
  az_URL :: string
  az_Counter :: 'c
  az_connected :: bool
  az_connectedSince :: unix_time
  az_lastError :: string

record ('c, 'a) NetworkState =
  ns_ID :: string
  ns_Name :: string
  ns_Countries :: "string list"
  ns_Regions :: "string list"
  ns_Counter :: 'c
  ns_Analyzers :: "'a list"

record heap =
  h_counters :: "Counter list"
  h_analyzers :: "ptr AnalyzerState list"
  h_networks :: "(ptr, ptr) NetworkState list"

record Store =
  sto_heap :: heap
  sto_Networks :: "ptr list"
  sto_byID :: "(string, ptr) gomap"

subsection \<open>Connection status\<close>

definition setConnected :: "unix_time \<Rightarrow> 'c AnalyzerState \<Rightarrow> 'c AnalyzerState" where
  "setConnected now a = a\<lparr>az_connected := True, az_connectedSince := now, az_lastError := ''''\<rparr>"

definition setDisconnected :: "string \<Rightarrow> 'c AnalyzerState \<Rightarrow> 'c AnalyzerState" where
  "setDisconnected err a =
     (let a = a\<lparr>az_connected := False, az_connectedSince := 0\<rparr>
      in if err \<noteq> '''' then a\<lparr>az_lastError := err\<rparr> else a)"

definition az_status :: "'c AnalyzerState \<Rightarrow> bool \<times> unix_time \<times> string" where
  "az_status a = (az_connected a, az_connectedSince a, az_lastError a)"

subsection \<open>Update\<close>

definition new_counter :: "heap \<Rightarrow> ptr \<times> heap" where
  "new_counter h = (length (h_counters h), h\<lparr>h_counters := h_counters h @ [newCounter]\<rparr>)"

definition new_analyzer :: "ptr AnalyzerState \<Rightarrow> heap \<Rightarrow> ptr \<times> heap" where
  "new_analyzer a h = (length (h_analyzers h), h\<lparr>h_analyzers := h_analyzers h @ [a]\<rparr>)"

definition new_network :: "(ptr, ptr) NetworkState \<Rightarrow> heap \<Rightarrow> ptr \<times> heap" where
  "new_network n h = (length (h_networks h), h\<lparr>h_networks := h_networks h @ [n]\<rparr>)"

definition analyzerFor :: "(string, ptr) gomap \<Rightarrow> AnalyzerConfig \<Rightarrow> ptr \<Rightarrow> heap \<Rightarrow> ptr AnalyzerState" where
  "analyzerFor oldAnalyzers ac counter h =
     (let (counter, connected, connectedSince, lastError) =
            (case mget oldAnalyzers (ac_Name ac) of
               None \<Rightarrow> (counter, False, 0, '''')
             | Some p \<Rightarrow> (let oldAZ = h_analyzers h ! p in (az_Counter oldAZ, az_status oldAZ)))
      in \<lparr>az_Name = ac_Name ac, az_URL = ac_URL ac, az_Counter = counter, az_connected = connected,
          az_connectedSince = connectedSince, az_lastError = lastError\<rparr>)"

primrec addAnalyzers :: "(string, ptr) gomap \<Rightarrow> AnalyzerConfig list \<Rightarrow> heap \<Rightarrow> ptr list \<times> heap" where
  "addAnalyzers oldAnalyzers [] h = ([], h)"
| "addAnalyzers oldAnalyzers (ac # acs) h =
     (let (counter, h) = new_counter h;
          (p, h) = new_analyzer (analyzerFor oldAnalyzers ac counter h) h;
          (ps, h) = addAnalyzers oldAnalyzers acs h
      in (p # ps, h))"

definition oldAnalyzersOf :: "heap \<Rightarrow> (ptr, ptr) NetworkState \<Rightarrow> (string, ptr) gomap" where
  "oldAnalyzersOf h old = fold (\<lambda>p m. mput m (az_Name (h_analyzers h ! p)) p) (ns_Analyzers old) mempty"

definition inherited :: "(string, ptr) gomap \<Rightarrow> string \<Rightarrow> ptr \<Rightarrow> heap \<Rightarrow> ptr \<times> (string, ptr) gomap" where
  "inherited oldByID i counter h = (case mget oldByID i of
     None \<Rightarrow> (counter, mempty)
   | Some p \<Rightarrow> (let old = h_networks h ! p in (ns_Counter old, oldAnalyzersOf h old)))"

definition addNetworkState :: "(string, ptr) gomap \<Rightarrow> NetworkConfig \<Rightarrow> heap \<Rightarrow> ptr \<times> heap" where
  "addNetworkState oldByID nc h =
     (let (counter, h) = new_counter h;
          (counter, oldAnalyzers) = inherited oldByID (nc_ID nc) counter h;
          (azs, h) = addAnalyzers oldAnalyzers (nc_Analyzers nc) h
      in new_network \<lparr>ns_ID = nc_ID nc, ns_Name = nc_Name nc, ns_Countries = nc_Countries nc,
           ns_Regions = nc_Regions nc, ns_Counter = counter, ns_Analyzers = azs\<rparr> h)"

primrec addNetworkStates ::
  "(string, ptr) gomap \<Rightarrow> NetworkConfig list \<Rightarrow> heap \<Rightarrow> ptr list \<Rightarrow> (string, ptr) gomap \<Rightarrow> Store" where
  "addNetworkStates oldByID [] h networks byID = \<lparr>sto_heap = h, sto_Networks = networks, sto_byID = byID\<rparr>"
| "addNetworkStates oldByID (nc # ncs) h networks byID =
     (let (p, h) = addNetworkState oldByID nc h
      in addNetworkStates oldByID ncs h (networks @ [p]) (mput byID (nc_ID nc) p))"

definition store_Update :: "NetworkConfig list \<Rightarrow> Store \<Rightarrow> Store" where
  "store_Update configs s = addNetworkStates (sto_byID s) configs (sto_heap s) [] mempty"

definition NewStore :: "NetworkConfig list \<Rightarrow> Store" where
  "NewStore configs = store_Update configs
     \<lparr>sto_heap = \<lparr>h_counters = [], h_analyzers = [], h_networks = []\<rparr>, sto_Networks = [], sto_byID = mempty\<rparr>"

subsection \<open>Reading\<close>

definition store_Network :: "Store \<Rightarrow> string \<Rightarrow> ptr option" where
  "store_Network s i = mget (sto_byID s) i"

definition HasNetwork :: "Store \<Rightarrow> string \<Rightarrow> bool" where
  "HasNetwork s i \<longleftrightarrow> store_Network s i \<noteq> None"

definition NetworkCount :: "Store \<Rightarrow> nat" where
  "NetworkCount s = length (sto_Networks s)"

definition AnalyzerCount :: "Store \<Rightarrow> nat" where
  "AnalyzerCount s = fold (\<lambda>p n. n + length (ns_Analyzers (h_networks (sto_heap s) ! p))) (sto_Networks s) 0"

text \<open>The unknown id an error of the filter names (which one, when there are several, is the order of
  a range over the map), or none.\<close>

definition ValidateNetworkFilter :: "(string, bool) gomap \<Rightarrow> Store \<Rightarrow> string option" where
  "ValidateNetworkFilter flt s = List.find (\<lambda>i. \<not> HasNetwork s i) (mkeys flt)"

subsection \<open>Operations on the counters\<close>

definition on_counter :: "(Counter \<Rightarrow> Counter) \<Rightarrow> ptr \<Rightarrow> heap \<Rightarrow> heap" where
  "on_counter f p h = h\<lparr>h_counters := (h_counters h)[p := f (h_counters h ! p)]\<rparr>"

definition on_analyzer :: "(ptr AnalyzerState \<Rightarrow> ptr AnalyzerState) \<Rightarrow> ptr \<Rightarrow> heap \<Rightarrow> heap" where
  "on_analyzer f p h = h\<lparr>h_analyzers := (h_analyzers h)[p := f (h_analyzers h ! p)]\<rparr>"

definition on_heap :: "(heap \<Rightarrow> heap) \<Rightarrow> Store \<Rightarrow> Store" where
  "on_heap f s = s\<lparr>sto_heap := f (sto_heap s)\<rparr>"

definition observe_at :: "Event \<Rightarrow> ptr \<Rightarrow> heap \<Rightarrow> heap option" where
  "observe_at ev p h = (case counter_Observe ev (h_counters h ! p) of
     None \<Rightarrow> None | Some c \<Rightarrow> Some (on_counter (\<lambda>_. c) p h))"

definition network_Observe :: "ptr \<Rightarrow> ptr \<Rightarrow> Event \<Rightarrow> heap \<Rightarrow> heap option" where
  "network_Observe n a ev h = do {
     h \<leftarrow> observe_at ev (az_Counter (h_analyzers h ! a)) h;
     observe_at ev (ns_Counter (h_networks h ! n)) h }"

definition sepChar :: char where
  "sepChar = CHR 0x1F"

definition netScopeKey :: "string \<Rightarrow> string" where
  "netScopeKey i = ''net'' @ sepChar # i"

definition azScopeKey :: "string \<Rightarrow> string \<Rightarrow> string" where
  "azScopeKey i analyzer = ''az'' @ sepChar # i @ sepChar # analyzer"

definition exportNetwork :: "heap \<Rightarrow> ptr \<Rightarrow> (string, CounterState) gomap \<Rightarrow> (string, CounterState) gomap" where
  "exportNetwork h p out =
     (let ns = h_networks h ! p
      in fold (\<lambda>a out. mput out (azScopeKey (ns_ID ns) (az_Name (h_analyzers h ! a)))
                          (counter_Export (h_counters h ! az_Counter (h_analyzers h ! a))))
           (ns_Analyzers ns)
           (mput out (netScopeKey (ns_ID ns)) (counter_Export (h_counters h ! ns_Counter ns))))"

definition store_Export :: "Store \<Rightarrow> (string, CounterState) gomap" where
  "store_Export s = fold (exportNetwork (sto_heap s)) (sto_Networks s) mempty"

definition restore_scope :: "(string, CounterState) gomap \<Rightarrow> string \<Rightarrow> ptr \<Rightarrow> heap \<Rightarrow> heap" where
  "restore_scope states key p h = (case mget states key of
     None \<Rightarrow> h | Some st \<Rightarrow> on_counter (counter_Restore st) p h)"

definition restoreNetwork :: "(string, CounterState) gomap \<Rightarrow> ptr \<Rightarrow> heap \<Rightarrow> heap" where
  "restoreNetwork states p h =
     (let ns = h_networks h ! p;
          h = restore_scope states (netScopeKey (ns_ID ns)) (ns_Counter ns) h
      in fold (\<lambda>a h. restore_scope states (azScopeKey (ns_ID ns) (az_Name (h_analyzers h ! a)))
                       (az_Counter (h_analyzers h ! a)) h) (ns_Analyzers ns) h)"

definition store_Restore :: "(string, CounterState) gomap \<Rightarrow> Store \<Rightarrow> Store" where
  "store_Restore states s = on_heap (fold (restoreNetwork states) (sto_Networks s)) s"

definition sweepNetwork :: "unix_time \<Rightarrow> int \<Rightarrow> int \<Rightarrow> ptr \<Rightarrow> heap \<Rightarrow> heap" where
  "sweepNetwork now dedupWindow observerTTL p h =
     (let ns = h_networks h ! p;
          h = on_counter (counter_sweep now dedupWindow observerTTL) (ns_Counter ns) h
      in fold (\<lambda>a h. on_counter (counter_sweep now dedupWindow observerTTL) (az_Counter (h_analyzers h ! a)) h)
           (ns_Analyzers ns) h)"

definition store_sweep :: "unix_time \<Rightarrow> int \<Rightarrow> int \<Rightarrow> Store \<Rightarrow> Store" where
  "store_sweep now dedupWindow observerTTL s =
     on_heap (fold (sweepNetwork now dedupWindow observerTTL) (sto_Networks s)) s"

subsection \<open>The contents of a store\<close>

text \<open>What a reader sees: the networks in order, with their counters and analyzers as values.\<close>

type_synonym content = "(Counter, Counter AnalyzerState) NetworkState"

definition az_value :: "heap \<Rightarrow> ptr \<Rightarrow> Counter AnalyzerState" where
  "az_value h p = (let a = h_analyzers h ! p in
     \<lparr>az_Name = az_Name a, az_URL = az_URL a, az_Counter = h_counters h ! az_Counter a,
      az_connected = az_connected a, az_connectedSince = az_connectedSince a, az_lastError = az_lastError a\<rparr>)"

definition ns_value :: "heap \<Rightarrow> ptr \<Rightarrow> content" where
  "ns_value h p = (let n = h_networks h ! p in
     \<lparr>ns_ID = ns_ID n, ns_Name = ns_Name n, ns_Countries = ns_Countries n, ns_Regions = ns_Regions n,
      ns_Counter = h_counters h ! ns_Counter n, ns_Analyzers = map (az_value h) (ns_Analyzers n)\<rparr>)"

definition contents :: "Store \<Rightarrow> content list" where
  "contents s = map (ns_value (sto_heap s)) (sto_Networks s)"

text \<open>The abstract update: counters and connection status follow the network id and the analyzer name.\<close>

definition spec_analyzer :: "content option \<Rightarrow> AnalyzerConfig \<Rightarrow> Counter AnalyzerState" where
  "spec_analyzer old ac =
     (case Option.bind old (\<lambda>n. List.find (\<lambda>z. az_Name z = ac_Name ac) (ns_Analyzers n)) of
        None \<Rightarrow> \<lparr>az_Name = ac_Name ac, az_URL = ac_URL ac, az_Counter = newCounter,
                 az_connected = False, az_connectedSince = 0, az_lastError = ''''\<rparr>
      | Some z \<Rightarrow> z\<lparr>az_URL := ac_URL ac\<rparr>)"

definition spec_network :: "content list \<Rightarrow> NetworkConfig \<Rightarrow> content" where
  "spec_network A nc =
     (let old = List.find (\<lambda>n. ns_ID n = nc_ID nc) A in
      \<lparr>ns_ID = nc_ID nc, ns_Name = nc_Name nc, ns_Countries = nc_Countries nc, ns_Regions = nc_Regions nc,
       ns_Counter = (case old of None \<Rightarrow> newCounter | Some n \<Rightarrow> ns_Counter n),
       ns_Analyzers = map (spec_analyzer old) (nc_Analyzers nc)\<rparr>)"

subsection \<open>Well-formed stores\<close>

definition scopes :: "heap \<Rightarrow> ptr \<Rightarrow> ptr list" where
  "scopes h p = ns_Counter (h_networks h ! p) # map (\<lambda>a. az_Counter (h_analyzers h ! a)) (ns_Analyzers (h_networks h ! p))"

definition net_ok :: "heap \<Rightarrow> ptr \<Rightarrow> bool" where
  "net_ok h p \<longleftrightarrow> p < length (h_networks h)
     \<and> (\<forall>a\<in>set (ns_Analyzers (h_networks h ! p)). a < length (h_analyzers h))
     \<and> (\<forall>c\<in>set (scopes h p). c < length (h_counters h))
     \<and> distinct (map (\<lambda>a. az_Name (h_analyzers h ! a)) (ns_Analyzers (h_networks h ! p)))"

definition wf_nets :: "heap \<Rightarrow> ptr list \<Rightarrow> bool" where
  "wf_nets h ps \<longleftrightarrow> (\<forall>p\<in>set ps. net_ok h p) \<and> distinct (concat (map (scopes h) ps))
     \<and> distinct (concat (map (\<lambda>p. ns_Analyzers (h_networks h ! p)) ps))
     \<and> distinct (map (\<lambda>p. ns_ID (h_networks h ! p)) ps)"

definition wf_store :: "Store \<Rightarrow> bool" where
  "wf_store s \<longleftrightarrow> wf_nets (sto_heap s) (sto_Networks s)
     \<and> (\<forall>i p. mget (sto_byID s) i = Some p \<longleftrightarrow>
          p \<in> set (sto_Networks s) \<and> ns_ID (h_networks (sto_heap s) ! p) = i)"

text \<open>A catalogue whose ids are distinct, and the analyzer names within each network.\<close>

definition valid_configs :: "NetworkConfig list \<Rightarrow> bool" where
  "valid_configs ncs \<longleftrightarrow> distinct (map nc_ID ncs) \<and> (\<forall>nc\<in>set ncs. distinct (map ac_Name (nc_Analyzers nc)))"

subsection \<open>Allocation extends the heap\<close>

definition extends :: "heap \<Rightarrow> heap \<Rightarrow> bool" where
  "extends h h' \<longleftrightarrow> (\<exists>cs azs nss. h_counters h' = h_counters h @ cs
     \<and> h_analyzers h' = h_analyzers h @ azs \<and> h_networks h' = h_networks h @ nss)"

lemma extends_refl [simp]: "extends h h"
  by (simp add: extends_def)

lemma extends_trans: "extends a b \<Longrightarrow> extends b c \<Longrightarrow> extends a c"
  by (auto simp: extends_def)

lemma extends_nth:
  "extends h h' \<Longrightarrow> p < length (h_counters h) \<Longrightarrow> h_counters h' ! p = h_counters h ! p"
  "extends h h' \<Longrightarrow> p < length (h_analyzers h) \<Longrightarrow> h_analyzers h' ! p = h_analyzers h ! p"
  "extends h h' \<Longrightarrow> p < length (h_networks h) \<Longrightarrow> h_networks h' ! p = h_networks h ! p"
  by (auto simp: extends_def nth_append)

lemma extends_length:
  "extends h h' \<Longrightarrow> length (h_counters h) \<le> length (h_counters h')"
  "extends h h' \<Longrightarrow> length (h_analyzers h) \<le> length (h_analyzers h')"
  "extends h h' \<Longrightarrow> length (h_networks h) \<le> length (h_networks h')"
  by (auto simp: extends_def)

lemma net_ok_extends:
  assumes "net_ok h p" "extends h h'"
  shows "net_ok h' p" "scopes h' p = scopes h p" "ns_value h' p = ns_value h p"
    "h_networks h' ! p = h_networks h ! p"
proof -
  have p: "h_networks h' ! p = h_networks h ! p" and a: "\<And>a. a \<in> set (ns_Analyzers (h_networks h ! p)) \<Longrightarrow>
      h_analyzers h' ! a = h_analyzers h ! a"
    using assms by (auto simp: net_ok_def extends_nth)
  have c: "\<And>c. c \<in> set (scopes h p) \<Longrightarrow> h_counters h' ! c = h_counters h ! c"
    using assms by (auto simp: net_ok_def extends_nth)
  show "h_networks h' ! p = h_networks h ! p" by (rule p)
  show s: "scopes h' p = scopes h p" using p a by (simp add: scopes_def)
  show "net_ok h' p"
    using assms(1) extends_length [OF assms(2)] p a s unfolding net_ok_def
    by (auto simp: distinct_map inj_on_def intro: less_le_trans)
  show "ns_value h' p = ns_value h p"
    using p a c by (auto simp: ns_value_def az_value_def Let_def scopes_def)
qed

lemma wf_nets_extends: "wf_nets h ps \<Longrightarrow> extends h h' \<Longrightarrow> wf_nets h' ps"
  using net_ok_extends [of h _ h'] unfolding wf_nets_def
  by (metis (no_types, lifting) map_cong)

subsection \<open>Update refines the abstract update\<close>

lemma analyzerFor_extends:
  "extends h h' \<Longrightarrow> \<forall>q\<in>ran (mget old). q < length (h_analyzers h) \<Longrightarrow>
     analyzerFor old ac c h' = analyzerFor old ac c h"
  by (auto simp: analyzerFor_def extends_nth ranI split: option.split)

lemma addAnalyzers_closed:
  "\<forall>q\<in>ran (mget old). q < length (h_analyzers h) \<Longrightarrow>
     addAnalyzers old acs h =
       ([length (h_analyzers h) ..< length (h_analyzers h) + length acs],
        h\<lparr>h_counters := h_counters h @ replicate (length acs) newCounter,
          h_analyzers := h_analyzers h @ map2 (\<lambda>ac c. analyzerFor old ac c h) acs
             [length (h_counters h) ..< length (h_counters h) + length acs]\<rparr>)"
proof (induction acs arbitrary: h)
  case (Cons ac acs)
  define h1 where "h1 = snd (new_counter h)"
  define h2 where "h2 = snd (new_analyzer (analyzerFor old ac (length (h_counters h)) h1) h1)"
  have e1: "extends h h1" and e2: "extends h h2"
    by (auto simp: extends_def h1_def h2_def new_counter_def new_analyzer_def)
  have same: "analyzerFor old ac c h1 = analyzerFor old ac c h" "analyzerFor old ac c h2 = analyzerFor old ac c h"
    for ac c using analyzerFor_extends [OF e1 Cons.prems] analyzerFor_extends [OF e2 Cons.prems] by auto
  have "\<forall>q\<in>ran (mget old). q < length (h_analyzers h2)"
    using Cons.prems extends_length(2) [OF e2] by fastforce
  note IH = Cons.IH [OF this]
  have "addAnalyzers old (ac # acs) h =
      (length (h_analyzers h) # fst (addAnalyzers old acs h2), snd (addAnalyzers old acs h2))"
    by (simp add: h1_def h2_def new_counter_def new_analyzer_def Let_def split: prod.split)
  then show ?case
    unfolding IH using same
    by (simp add: h1_def h2_def new_counter_def new_analyzer_def upt_conv_Cons del: upt_Suc)
qed simp

lemma oldAnalyzersOf_iff:
  assumes "distinct (map (\<lambda>a. az_Name (h_analyzers h ! a)) (ns_Analyzers n))"
  shows "mget (oldAnalyzersOf h n) nm = Some a \<longleftrightarrow> a \<in> set (ns_Analyzers n) \<and> az_Name (h_analyzers h ! a) = nm"
proof -
  have "distinct (map (\<lambda>a. az_Name (h_analyzers h ! a)) as) \<Longrightarrow>
      (mget (fold (\<lambda>p m. mput m (az_Name (h_analyzers h ! p)) p) as m) nm = Some a \<longleftrightarrow>
        (a \<in> set as \<and> az_Name (h_analyzers h ! a) = nm) \<or>
        (mget m nm = Some a \<and> (\<forall>a'\<in>set as. az_Name (h_analyzers h ! a') \<noteq> nm)))" for as m
    by (induction as arbitrary: m) (auto simp: gomap image_iff)
  then show ?thesis using assms by (simp add: oldAnalyzersOf_def)
qed

lemma find_az_value:
  assumes "distinct (map (\<lambda>a. az_Name (h_analyzers h ! a)) (ns_Analyzers n))"
  shows "List.find (\<lambda>z. az_Name z = nm) (map (az_value h) (ns_Analyzers n))
    = map_option (az_value h) (mget (oldAnalyzersOf h n) nm)"
proof (cases "mget (oldAnalyzersOf h n) nm")
  case None
  then have "\<forall>a\<in>set (ns_Analyzers n). az_Name (h_analyzers h ! a) \<noteq> nm"
    using oldAnalyzersOf_iff [OF assms, of nm] by force
  then show ?thesis using None by (auto simp: find_None_iff az_value_def Let_def)
next
  case (Some a)
  then have a: "a \<in> set (ns_Analyzers n)" "az_Name (h_analyzers h ! a) = nm"
    using oldAnalyzersOf_iff [OF assms] by auto
  have nm: "az_Name (az_value h b) = az_Name (h_analyzers h ! b)" for b by (simp add: az_value_def Let_def)
  have d: "distinct (map az_Name (map (az_value h) (ns_Analyzers n)))"
    using assms by (simp add: comp_def nm)
  have "List.find (\<lambda>z. az_Name z = nm) (map (az_value h) (ns_Analyzers n)) = Some (az_value h a)"
    using find_unique [OF _ d, of "az_value h a"] a by (simp add: nm)
  then show ?thesis using Some by simp
qed

lemma wf_netD:
  assumes "wf_store s" "mget (sto_byID s) i = Some p"
  shows "p \<in> set (sto_Networks s)" "net_ok (sto_heap s) p" "ns_ID (h_networks (sto_heap s) ! p) = i"
    "distinct (scopes (sto_heap s) p)"
    "distinct (map (\<lambda>a. az_Name (h_analyzers (sto_heap s) ! a)) (ns_Analyzers (h_networks (sto_heap s) ! p)))"
proof -
  show p: "p \<in> set (sto_Networks s)" and "ns_ID (h_networks (sto_heap s) ! p) = i"
    using assms by (auto simp: wf_store_def)
  then show "net_ok (sto_heap s) p" "distinct (scopes (sto_heap s) p)"
    "distinct (map (\<lambda>a. az_Name (h_analyzers (sto_heap s) ! a)) (ns_Analyzers (h_networks (sto_heap s) ! p)))"
    using assms(1) by (auto simp: wf_store_def wf_nets_def net_ok_def distinct_concat_iff)
qed

lemma ns_value_ID [simp]: "ns_ID (ns_value h p) = ns_ID (h_networks h ! p)"
  by (simp add: ns_value_def Let_def)

lemma find_content:
  assumes "wf_store s"
  shows "List.find (\<lambda>n. ns_ID n = i) (contents s) = map_option (ns_value (sto_heap s)) (mget (sto_byID s) i)"
proof (cases "mget (sto_byID s) i")
  case None
  then have "\<forall>p\<in>set (sto_Networks s). ns_ID (h_networks (sto_heap s) ! p) \<noteq> i"
    using assms unfolding wf_store_def by (metis option.distinct(1))
  then show ?thesis using None by (auto simp: find_None_iff contents_def)
next
  case (Some p)
  note p = wf_netD [OF assms Some]
  have "distinct (map ns_ID (contents s))"
    using assms by (simp add: wf_store_def wf_nets_def contents_def comp_def)
  then show ?thesis
    using find_unique [of "ns_value (sto_heap s) p" "contents s" ns_ID] p(1,3) Some by (simp add: contents_def)
qed

definition old_counter :: "Store \<Rightarrow> string \<Rightarrow> ptr \<Rightarrow> ptr" where
  "old_counter s i c = (case mget (sto_byID s) i of None \<Rightarrow> c | Some p \<Rightarrow> ns_Counter (h_networks (sto_heap s) ! p))"

definition old_analyzers :: "Store \<Rightarrow> string \<Rightarrow> (string, ptr) gomap" where
  "old_analyzers s i = (case mget (sto_byID s) i of None \<Rightarrow> mempty
     | Some p \<Rightarrow> oldAnalyzersOf (sto_heap s) (h_networks (sto_heap s) ! p))"

lemma old_analyzers_Some:
  assumes "wf_store s" "mget (old_analyzers s i) nm = Some q"
  obtains p where "mget (sto_byID s) i = Some p" "q \<in> set (ns_Analyzers (h_networks (sto_heap s) ! p))"
    "az_Name (h_analyzers (sto_heap s) ! q) = nm" "q < length (h_analyzers (sto_heap s))"
    "az_Counter (h_analyzers (sto_heap s) ! q) \<in> set (scopes (sto_heap s) p)"
    "az_Counter (h_analyzers (sto_heap s) ! q) < length (h_counters (sto_heap s))"
proof (cases "mget (sto_byID s) i")
  case None
  then show ?thesis using assms(2) by (simp add: old_analyzers_def)
next
  case (Some p)
  note p = wf_netD [OF assms(1) Some]
  have q: "q \<in> set (ns_Analyzers (h_networks (sto_heap s) ! p))" "az_Name (h_analyzers (sto_heap s) ! q) = nm"
    using assms(2) oldAnalyzersOf_iff [OF p(5)] Some by (auto simp: old_analyzers_def)
  then have c: "az_Counter (h_analyzers (sto_heap s) ! q) \<in> set (scopes (sto_heap s) p)"
    by (simp add: scopes_def)
  show ?thesis using that [OF Some q] q(1) c p(2) by (auto simp: net_ok_def)
qed

lemma oldAnalyzersOf_extends:
  "extends h h' \<Longrightarrow> \<forall>a\<in>set (ns_Analyzers n). a < length (h_analyzers h) \<Longrightarrow> oldAnalyzersOf h' n = oldAnalyzersOf h n"
  unfolding oldAnalyzersOf_def by (rule fold_cong) (auto simp: extends_nth)

definition added_analyzers :: "Store \<Rightarrow> NetworkConfig \<Rightarrow> ptr \<Rightarrow> ptr AnalyzerState list" where
  "added_analyzers s nc c = map2 (\<lambda>ac c. analyzerFor (old_analyzers s (nc_ID nc)) ac c (sto_heap s))
     (nc_Analyzers nc) [c ..< c + length (nc_Analyzers nc)]"

lemma addNetworkState_closed:
  assumes wf: "wf_store s" and ext: "extends (sto_heap s) h"
  shows "addNetworkState (sto_byID s) nc h = (length (h_networks h),
    h\<lparr>h_counters := h_counters h @ replicate (Suc (length (nc_Analyzers nc))) newCounter,
      h_analyzers := h_analyzers h @ added_analyzers s nc (Suc (length (h_counters h))),
      h_networks := h_networks h @ [\<lparr>ns_ID = nc_ID nc, ns_Name = nc_Name nc, ns_Countries = nc_Countries nc,
        ns_Regions = nc_Regions nc, ns_Counter = old_counter s (nc_ID nc) (length (h_counters h)),
        ns_Analyzers = [length (h_analyzers h) ..< length (h_analyzers h) + length (nc_Analyzers nc)]\<rparr>]\<rparr>)"
proof -
  define h1 where "h1 = snd (new_counter h)"
  have e1: "extends (sto_heap s) h1"
    by (rule extends_trans [OF ext]) (auto simp: extends_def h1_def new_counter_def)
  have old: "inherited (sto_byID s) (nc_ID nc) (length (h_counters h)) h1 = (old_counter s (nc_ID nc) (length (h_counters h)), old_analyzers s (nc_ID nc))"
  proof (cases "mget (sto_byID s) (nc_ID nc)")
    case (Some p)
    note ok = wf_netD(2) [OF wf Some]
    show ?thesis
      using Some net_ok_extends(4) [OF ok e1] oldAnalyzersOf_extends [OF e1, of "h_networks (sto_heap s) ! p"] ok
      by (simp add: inherited_def old_counter_def old_analyzers_def net_ok_def Let_def)
  qed (simp add: inherited_def old_counter_def old_analyzers_def)
  have rng: "q < length (h_analyzers (sto_heap s))" if q: "q \<in> ran (mget (old_analyzers s (nc_ID nc)))" for q
  proof -
    obtain nm where "mget (old_analyzers s (nc_ID nc)) nm = Some q" using q unfolding ran_def by blast
    from old_analyzers_Some [OF wf this] show ?thesis by blast
  qed
  have ran1: "\<forall>q\<in>ran (mget (old_analyzers s (nc_ID nc))). q < length (h_analyzers h1)"
    using rng extends_length(2) [OF e1] by fastforce
  have same: "analyzerFor (old_analyzers s (nc_ID nc)) ac c h1 = analyzerFor (old_analyzers s (nc_ID nc)) ac c (sto_heap s)"
    for ac c by (rule analyzerFor_extends [OF e1]) (use rng in blast)
  show ?thesis
    unfolding addNetworkState_def
    using old addAnalyzers_closed [OF ran1, of "nc_Analyzers nc"] same
    by (simp add: h1_def new_counter_def new_network_def Let_def added_analyzers_def del: upt_Suc)
qed

lemma nth_added_analyzers:
  "i < length (nc_Analyzers nc) \<Longrightarrow> added_analyzers s nc c ! i =
     analyzerFor (old_analyzers s (nc_ID nc)) (nc_Analyzers nc ! i) (c + i) (sto_heap s)"
  by (simp add: added_analyzers_def del: upt_Suc)

lemma length_added_analyzers [simp]: "length (added_analyzers s nc c) = length (nc_Analyzers nc)"
  by (simp add: added_analyzers_def)

lemma analyzerFor_simps:
  "az_Name (analyzerFor old ac c h) = ac_Name ac"
  "az_Counter (analyzerFor old ac c h) =
     (case mget old (ac_Name ac) of None \<Rightarrow> c | Some q \<Rightarrow> az_Counter (h_analyzers h ! q))"
  by (simp_all add: analyzerFor_def Let_def split: option.split prod.split)

lemma map_added_names: "map az_Name (added_analyzers s nc c) = map ac_Name (nc_Analyzers nc)"
  by (rule nth_equalityI) (simp_all add: nth_added_analyzers analyzerFor_simps)

lemma old_analyzer_counter_inj:
  assumes wf: "wf_store s" and q: "mget (old_analyzers s i) nm = Some q" and r: "mget (old_analyzers s i) nm' = Some r"
    and eq: "az_Counter (h_analyzers (sto_heap s) ! q) = az_Counter (h_analyzers (sto_heap s) ! r)"
  shows "nm = nm'"
proof -
  obtain p where p: "mget (sto_byID s) i = Some p" "q \<in> set (ns_Analyzers (h_networks (sto_heap s) ! p))"
    "az_Name (h_analyzers (sto_heap s) ! q) = nm"
    using old_analyzers_Some [OF wf q] by metis
  have r': "r \<in> set (ns_Analyzers (h_networks (sto_heap s) ! p))" "az_Name (h_analyzers (sto_heap s) ! r) = nm'"
    using old_analyzers_Some [OF wf r] p(1) by (metis option.inject)+
  have "q = r" using wf_netD(4) [OF wf p(1)] p(2) r'(1) eq by (auto simp: scopes_def distinct_map dest: inj_onD)
  then show ?thesis using p(3) r'(2) by simp
qed

text \<open>The counters of a network of the new catalogue: each is fresh or was the same scope's counter.\<close>

definition new_scopes :: "Store \<Rightarrow> NetworkConfig \<Rightarrow> ptr \<Rightarrow> ptr list" where
  "new_scopes s nc c = old_counter s (nc_ID nc) c # map az_Counter (added_analyzers s nc (Suc c))"

lemma new_scope_cases:
  assumes wf: "wf_store s" and x: "x \<in> set (new_scopes s nc c)"
  shows "c \<le> x \<and> x \<le> c + length (nc_Analyzers nc) \<or>
    (\<exists>p. mget (sto_byID s) (nc_ID nc) = Some p \<and> x \<in> set (scopes (sto_heap s) p) \<and> x < length (h_counters (sto_heap s)))"
proof -
  consider "x = old_counter s (nc_ID nc) c" | i where "i < length (nc_Analyzers nc)"
      "x = az_Counter (added_analyzers s nc (Suc c) ! i)"
    using x unfolding new_scopes_def by (auto simp: in_set_conv_nth)
  then show ?thesis
  proof cases
    case 1
    then show ?thesis using wf_netD(2) [OF wf, of "nc_ID nc"]
      by (auto simp: old_counter_def net_ok_def scopes_def split: option.splits)
  next
    case 2
    show ?thesis
    proof (cases "mget (old_analyzers s (nc_ID nc)) (ac_Name (nc_Analyzers nc ! i))")
      case None
      then show ?thesis using 2 by (simp add: nth_added_analyzers analyzerFor_simps)
    next
      case (Some q)
      then show ?thesis using 2 old_analyzers_Some [OF wf Some]
        by (auto simp: nth_added_analyzers analyzerFor_simps)
    qed
  qed
qed

lemma distinct_new_scopes:
  assumes wf: "wf_store s" and names: "distinct (map ac_Name (nc_Analyzers nc))"
    and c: "length (h_counters (sto_heap s)) \<le> c"
  shows "distinct (new_scopes s nc c)"
proof -
  let ?old = "old_analyzers s (nc_ID nc)" and ?as = "added_analyzers s nc (Suc c)"
  have ctr: "az_Counter (?as ! i) = (case mget ?old (ac_Name (nc_Analyzers nc ! i)) of None \<Rightarrow> Suc c + i
      | Some q \<Rightarrow> az_Counter (h_analyzers (sto_heap s) ! q))" if "i < length (nc_Analyzers nc)" for i
    using that by (simp add: nth_added_analyzers analyzerFor_simps split: option.split)
  have small: "az_Counter (h_analyzers (sto_heap s) ! q) < c" if "mget ?old nm = Some q" for nm q
    using old_analyzers_Some [OF wf that] c by (metis order.strict_trans2)
  have "inj_on (\<lambda>i. az_Counter (?as ! i)) {..<length (nc_Analyzers nc)}"
  proof (rule inj_onI)
    fix i j assume ij: "i \<in> {..<length (nc_Analyzers nc)}" "j \<in> {..<length (nc_Analyzers nc)}"
      and eq: "az_Counter (?as ! i) = az_Counter (?as ! j)"
    have nmeq: "i = j" if "ac_Name (nc_Analyzers nc ! i) = ac_Name (nc_Analyzers nc ! j)"
      using that ij names by (simp add: distinct_conv_nth) (metis nth_map)
    show "i = j"
      using eq ij nmeq ctr [of i] ctr [of j] old_analyzer_counter_inj [OF wf] small
      by (auto split: option.splits) (metis not_add_less1 not_less_eq less_Suc_eq)+
  qed
  then have d: "distinct (map az_Counter ?as)"
    by (auto simp: distinct_conv_nth inj_on_def)
  have "old_counter s (nc_ID nc) c \<notin> set (map az_Counter ?as)"
  proof
    assume "old_counter s (nc_ID nc) c \<in> set (map az_Counter ?as)"
    then obtain i where i: "i < length (nc_Analyzers nc)" "old_counter s (nc_ID nc) c = az_Counter (?as ! i)"
      by (auto simp: in_set_conv_nth)
    show False
    proof (cases "mget (sto_byID s) (nc_ID nc)")
      case None
      then show ?thesis using i ctr [OF i(1)] by (simp add: old_counter_def old_analyzers_def)
    next
      case (Some p)
      then have "ns_Counter (h_networks (sto_heap s) ! p) < c"
        using wf_netD(2) [OF wf Some] c by (simp add: net_ok_def scopes_def)
      then obtain q where q: "mget ?old (ac_Name (nc_Analyzers nc ! i)) = Some q"
        "ns_Counter (h_networks (sto_heap s) ! p) = az_Counter (h_analyzers (sto_heap s) ! q)"
        using i ctr [OF i(1)] Some by (auto simp: old_counter_def split: option.splits)
      obtain p' where "mget (sto_byID s) (nc_ID nc) = Some p'" "q \<in> set (ns_Analyzers (h_networks (sto_heap s) ! p'))"
        using old_analyzers_Some [OF wf q(1)] by metis
      then show ?thesis using wf_netD(4) [OF wf Some] q(2) Some by (auto simp: scopes_def)
    qed
  qed
  then show ?thesis using d by (simp add: new_scopes_def)
qed

text \<open>How a network of the new catalogue inherits from the old store.\<close>

definition inherits :: "Store \<Rightarrow> heap \<Rightarrow> ptr \<Rightarrow> bool" where
  "inherits s h p \<longleftrightarrow> (\<exists>nc c. ns_ID (h_networks h ! p) = nc_ID nc \<and> scopes h p = new_scopes s nc c
     \<and> map (\<lambda>a. az_Name (h_analyzers h ! a)) (ns_Analyzers (h_networks h ! p)) = map ac_Name (nc_Analyzers nc)
     \<and> (\<forall>a\<in>set (ns_Analyzers (h_networks h ! p)). length (h_analyzers (sto_heap s)) \<le> a))"

lemma inherits_extends:
  assumes "net_ok h p" "extends h h'" "inherits s h p"
  shows "inherits s h' p"
proof -
  have "map (\<lambda>a. az_Name (h_analyzers h' ! a)) (ns_Analyzers (h_networks h ! p))
      = map (\<lambda>a. az_Name (h_analyzers h ! a)) (ns_Analyzers (h_networks h ! p))"
    using assms(1,2) by (auto simp: net_ok_def extends_nth)
  with assms(3) net_ok_extends(2,4) [OF assms(1,2)] show ?thesis
    unfolding inherits_def by (simp only:)
qed

lemma added_network:
  assumes wf: "wf_store s" and ext: "extends (sto_heap s) h" and names: "distinct (map ac_Name (nc_Analyzers nc))"
    and add: "addNetworkState (sto_byID s) nc h = (p, h')"
  shows "extends h h'" "net_ok h' p" "ns_ID (h_networks h' ! p) = nc_ID nc"
    "scopes h' p = new_scopes s nc (length (h_counters h))"
    "ns_Analyzers (h_networks h' ! p) = [length (h_analyzers h) ..< length (h_analyzers h) + length (nc_Analyzers nc)]"
    "p = length (h_networks h)" "inherits s h' p"
proof -
  note closed = add [unfolded addNetworkState_closed [OF wf ext], simplified prod.inject]
  show "p = length (h_networks h)" using closed by simp
  show e: "extends h h'" using closed by (auto simp: extends_def)
  show i: "ns_ID (h_networks h' ! p) = nc_ID nc" and
    az: "ns_Analyzers (h_networks h' ! p) = [length (h_analyzers h) ..< length (h_analyzers h) + length (nc_Analyzers nc)]"
    using closed by (auto simp del: upt_Suc)
  have h'az: "h_analyzers h' = h_analyzers h @ added_analyzers s nc (Suc (length (h_counters h)))"
    using closed by auto
  have mp: "map (\<lambda>a. f (h_analyzers h' ! a)) [length (h_analyzers h) ..< length (h_analyzers h) + length (nc_Analyzers nc)]
      = map f (added_analyzers s nc (Suc (length (h_counters h))))" for f :: "ptr AnalyzerState \<Rightarrow> 'z"
    by (rule nth_equalityI) (simp_all add: h'az nth_append)
  have ctr: "ns_Counter (h_networks h' ! p) = old_counter s (nc_ID nc) (length (h_counters h))"
    using closed by auto
  show sc: "scopes h' p = new_scopes s nc (length (h_counters h))"
    unfolding scopes_def new_scopes_def az ctr by (simp add: mp)
  have c: "x < length (h_counters h')" if x: "x \<in> set (scopes h' p)" for x
    using new_scope_cases [OF wf x [unfolded sc]] extends_length(1) [OF ext] closed by auto
  show "net_ok h' p"
    unfolding net_ok_def az using closed c mp [of az_Name] names
    by (auto simp: h'az map_added_names simp del: upt_Suc)
  show "inherits s h' p"
    unfolding inherits_def az
  proof (intro exI conjI)
    show "map (\<lambda>a. az_Name (h_analyzers h' ! a)) [length (h_analyzers h) ..< length (h_analyzers h) + length (nc_Analyzers nc)]
        = map ac_Name (nc_Analyzers nc)" using mp [of az_Name] by (simp add: map_added_names)
  qed (use i sc extends_length(2) [OF ext] in auto)
qed

lemma spec_analyzer_value:
  assumes wf: "wf_store s"
  shows "spec_analyzer (List.find (\<lambda>n. ns_ID n = i) (contents s)) ac =
    (case mget (old_analyzers s i) (ac_Name ac) of
       None \<Rightarrow> \<lparr>az_Name = ac_Name ac, az_URL = ac_URL ac, az_Counter = newCounter,
                az_connected = False, az_connectedSince = 0, az_lastError = ''''\<rparr>
     | Some q \<Rightarrow> (az_value (sto_heap s) q)\<lparr>az_URL := ac_URL ac\<rparr>)"
proof (cases "mget (sto_byID s) i")
  case None
  then show ?thesis using find_content [OF wf, of i] by (simp add: spec_analyzer_def old_analyzers_def)
next
  case (Some p)
  have "List.find (\<lambda>z. az_Name z = ac_Name ac) (ns_Analyzers (ns_value (sto_heap s) p))
      = map_option (az_value (sto_heap s)) (mget (old_analyzers s i) (ac_Name ac))"
    using find_az_value [OF wf_netD(5) [OF wf Some]] Some by (simp add: ns_value_def Let_def old_analyzers_def)
  then show ?thesis using find_content [OF wf, of i] Some
    by (simp add: spec_analyzer_def split: option.split)
qed

lemma added_network_value:
  assumes wf: "wf_store s" and ext: "extends (sto_heap s) h"
    and add: "addNetworkState (sto_byID s) nc h = (p, h')"
  shows "ns_value h' p = spec_network (contents s) nc"
proof -
  note closed = add [unfolded addNetworkState_closed [OF wf ext], simplified prod.inject]
  let ?c = "length (h_counters h)" and ?na = "length (h_analyzers h)" and ?k = "length (nc_Analyzers nc)"
  have "extends h h'" using closed by (auto simp: extends_def)
  then have e: "extends (sto_heap s) h'" using ext extends_trans by blast
  have h'az: "h_analyzers h' = h_analyzers h @ added_analyzers s nc (Suc ?c)" and
    h'c: "h_counters h' = h_counters h @ replicate (Suc ?k) newCounter" using closed by auto
  have fresh: "h_counters h' ! x = newCounter" if "?c \<le> x" "x \<le> ?c + ?k" for x
    using that by (simp add: h'c nth_append del: replicate.simps)
  have "map (az_value h') [?na ..< ?na + ?k] = map (spec_analyzer (List.find (\<lambda>n. ns_ID n = nc_ID nc) (contents s)))
      (nc_Analyzers nc)"
  proof (rule nth_equalityI)
    fix i assume "i < length (map (az_value h') [?na ..< ?na + ?k])"
    then have i: "i < ?k" by simp
    let ?ac = "nc_Analyzers nc ! i"
    have a: "h_analyzers h' ! (?na + i) = analyzerFor (old_analyzers s (nc_ID nc)) ?ac (Suc ?c + i) (sto_heap s)"
      using i by (simp add: h'az nth_append nth_added_analyzers)
    have "az_value h' (?na + i) = spec_analyzer (List.find (\<lambda>n. ns_ID n = nc_ID nc) (contents s)) ?ac"
    proof (cases "mget (old_analyzers s (nc_ID nc)) (ac_Name ?ac)")
      case None
      then show ?thesis using i fresh [of "Suc ?c + i"]
        by (simp add: spec_analyzer_value [OF wf] az_value_def a analyzerFor_def Let_def)
    next
      case (Some q)
      have nm: "az_Name (h_analyzers (sto_heap s) ! q) = ac_Name ?ac" and
        c: "az_Counter (h_analyzers (sto_heap s) ! q) < length (h_counters (sto_heap s))"
        using old_analyzers_Some [OF wf Some] by metis+
      then show ?thesis using Some extends_nth(1) [OF e c]
        by (simp add: spec_analyzer_value [OF wf] az_value_def a analyzerFor_def az_status_def Let_def)
    qed
    then show "map (az_value h') [?na ..< ?na + ?k] ! i =
        map (spec_analyzer (List.find (\<lambda>n. ns_ID n = nc_ID nc) (contents s))) (nc_Analyzers nc) ! i"
      using i by simp
  qed simp
  moreover have "h_counters h' ! old_counter s (nc_ID nc) ?c =
      (case List.find (\<lambda>n. ns_ID n = nc_ID nc) (contents s) of None \<Rightarrow> newCounter | Some n \<Rightarrow> ns_Counter n)"
  proof (cases "mget (sto_byID s) (nc_ID nc)")
    case None
    then show ?thesis using fresh [of ?c] find_content [OF wf, of "nc_ID nc"] by (simp add: old_counter_def)
  next
    case (Some q)
    then show ?thesis
      using find_content [OF wf, of "nc_ID nc"] wf_netD(2) [OF wf Some] extends_nth(1) [OF e]
      by (simp add: old_counter_def ns_value_def Let_def net_ok_def scopes_def)
  qed
  ultimately show ?thesis
    using closed by (auto simp: ns_value_def spec_network_def Let_def simp del: upt_Suc replicate.simps)
qed

definition updating :: "Store \<Rightarrow> NetworkConfig list \<Rightarrow> heap \<Rightarrow> ptr list \<Rightarrow> (string, ptr) gomap \<Rightarrow> bool" where
  "updating s ncs h ps byID \<longleftrightarrow> extends (sto_heap s) h \<and> wf_nets h ps
     \<and> map (ns_value h) ps = map (spec_network (contents s)) ncs \<and> (\<forall>p\<in>set ps. inherits s h p)
     \<and> (\<forall>p\<in>set ps. \<forall>x\<in>set (scopes h p). x < length (h_counters (sto_heap s)) \<longrightarrow>
          (\<exists>q. mget (sto_byID s) (ns_ID (h_networks h ! p)) = Some q \<and> x \<in> set (scopes (sto_heap s) q)))
     \<and> (\<forall>i p. mget byID i = Some p \<longleftrightarrow> p \<in> set ps \<and> ns_ID (h_networks h ! p) = i)"

lemma scopes_of_distinct_nets:
  assumes "wf_store s" "mget (sto_byID s) i = Some q" "mget (sto_byID s) j = Some r" "i \<noteq> j"
  shows "set (scopes (sto_heap s) q) \<inter> set (scopes (sto_heap s) r) = {}"
proof -
  note q = wf_netD [OF assms(1,2)] and r = wf_netD [OF assms(1,3)]
  have d: "distinct (concat (map (scopes (sto_heap s)) (sto_Networks s)))"
    using assms(1) by (simp add: wf_store_def wf_nets_def)
  have "scopes (sto_heap s) q \<noteq> scopes (sto_heap s) r"
  proof
    assume eq: "scopes (sto_heap s) q = scopes (sto_heap s) r"
    obtain k l where k: "k < length (sto_Networks s)" "sto_Networks s ! k = q" "l < length (sto_Networks s)"
      "sto_Networks s ! l = r" using q(1) r(1) by (metis in_set_conv_nth)
    have "k \<noteq> l" using k q(3) r(3) assms(4) by auto
    have "distinct (removeAll [] (map (scopes (sto_heap s)) (sto_Networks s)))"
      using d by (simp add: distinct_concat_iff)
    moreover have "removeAll [] (map (scopes (sto_heap s)) (sto_Networks s)) = map (scopes (sto_heap s)) (sto_Networks s)"
      by (rule removeAll_id) (auto simp: scopes_def)
    ultimately have "distinct (map (scopes (sto_heap s)) (sto_Networks s))" by simp
    then show False using \<open>k \<noteq> l\<close> k eq by (metis length_map nth_eq_iff_index_eq nth_map)
  qed
  then show ?thesis using d q(1) r(1) unfolding distinct_concat_iff by auto
qed

lemma updating_step:
  assumes wf: "wf_store s" and u: "updating s ncs h ps byID" and fresh_id: "nc_ID nc \<notin> nc_ID ` set ncs"
    and names: "distinct (map ac_Name (nc_Analyzers nc))" and add: "addNetworkState (sto_byID s) nc h = (p, h')"
  shows "updating s (ncs @ [nc]) h' (ps @ [p]) (mput byID (nc_ID nc) p)"
proof -
  have ext: "extends (sto_heap s) h" and wfh: "wf_nets h ps" and
    vals: "map (ns_value h) ps = map (spec_network (contents s)) ncs" and
    prov: "\<And>q x. q \<in> set ps \<Longrightarrow> x \<in> set (scopes h q) \<Longrightarrow> x < length (h_counters (sto_heap s)) \<Longrightarrow>
      \<exists>r. mget (sto_byID s) (ns_ID (h_networks h ! q)) = Some r \<and> x \<in> set (scopes (sto_heap s) r)" and
    ids: "\<And>i q. mget byID i = Some q \<longleftrightarrow> q \<in> set ps \<and> ns_ID (h_networks h ! q) = i"
    using u by (auto simp: updating_def)
  note new = added_network [OF wf ext names add] and val = added_network_value [OF wf ext add]
  have ok: "net_ok h q" if "q \<in> set ps" for q using wfh that by (simp add: wf_nets_def)
  note keep = net_ok_extends [OF ok new(1)]
  have c0: "length (h_counters (sto_heap s)) \<le> length (h_counters h)" using extends_length(1) [OF ext] .
  have id_ne: "ns_ID (h_networks h ! q) \<noteq> nc_ID nc" if q: "q \<in> set ps" for q
  proof -
    have "map ns_ID (map (ns_value h) ps) = map nc_ID ncs"
      unfolding vals by (simp add: spec_network_def Let_def comp_def)
    then have "map (\<lambda>q. ns_ID (h_networks h ! q)) ps = map nc_ID ncs" by (simp add: comp_def)
    then have "set (map (\<lambda>q. ns_ID (h_networks h ! q)) ps) = set (map nc_ID ncs)" by (rule arg_cong)
    then have "ns_ID (h_networks h ! q) \<in> nc_ID ` set ncs" using q by (metis imageI list.set_map)
    then show ?thesis using fresh_id by metis
  qed
  have disj: "set (scopes h q) \<inter> set (scopes h' p) = {}" if q: "q \<in> set ps" for q
  proof (rule ccontr)
    assume "set (scopes h q) \<inter> set (scopes h' p) \<noteq> {}"
    then obtain x where x: "x \<in> set (scopes h q)" "x \<in> set (scopes h' p)" by blast
    have lt: "x < length (h_counters h)" using ok [OF q] x(1) by (simp add: net_ok_def)
    obtain r where r: "mget (sto_byID s) (nc_ID nc) = Some r" "x \<in> set (scopes (sto_heap s) r)"
      "x < length (h_counters (sto_heap s))"
      using new_scope_cases [OF wf x(2) [unfolded new(4)]] lt by auto
    obtain r' where r': "mget (sto_byID s) (ns_ID (h_networks h ! q)) = Some r'" "x \<in> set (scopes (sto_heap s) r')"
      using prov [OF q x(1) r(3)] by blast
    show False using scopes_of_distinct_nets [OF wf r(1) r'(1)] id_ne [OF q] r(2) r'(2) by auto
  qed
  have scp: "map (scopes h') ps = map (scopes h) ps" and azs: "map (\<lambda>q. ns_Analyzers (h_networks h' ! q)) ps
      = map (\<lambda>q. ns_Analyzers (h_networks h ! q)) ps"
    and idm: "map (\<lambda>q. ns_ID (h_networks h' ! q)) ps = map (\<lambda>q. ns_ID (h_networks h ! q)) ps"
    and vm: "map (ns_value h') ps = map (ns_value h) ps"
    using keep by auto
  have "wf_nets h' (ps @ [p])"
    unfolding wf_nets_def
  proof (intro conjI)
    show "\<forall>q\<in>set (ps @ [p]). net_ok h' q" using keep(1) new(2) by auto
    show "distinct (concat (map (scopes h') (ps @ [p])))"
      using wfh disj distinct_new_scopes [OF wf names c0]
      by (auto simp: scp new(4) wf_nets_def)
    show "distinct (concat (map (\<lambda>q. ns_Analyzers (h_networks h' ! q)) (ps @ [p])))"
      using wfh ok by (auto simp: azs new(5) wf_nets_def net_ok_def simp del: upt_Suc) (metis not_less)
    show "distinct (map (\<lambda>q. ns_ID (h_networks h' ! q)) (ps @ [p]))"
    proof -
      have "nc_ID nc \<notin> (\<lambda>q. ns_ID (h_networks h ! q)) ` set ps"
        by (rule notI, erule imageE) (use id_ne [symmetric] in blast)
      then show ?thesis using wfh by (simp add: idm new(3) wf_nets_def)
    qed
  qed
  moreover have "\<forall>q\<in>set (ps @ [p]). inherits s h' q"
    using u new(7) inherits_extends [OF ok new(1)] by (auto simp: updating_def)
  moreover have "\<exists>r. mget (sto_byID s) (ns_ID (h_networks h' ! q)) = Some r \<and> x \<in> set (scopes (sto_heap s) r)"
    if q: "q \<in> set (ps @ [p])" and x: "x \<in> set (scopes h' q)" "x < length (h_counters (sto_heap s))" for q x
  proof (cases "q = p")
    case True
    then show ?thesis using new_scope_cases [OF wf, of x nc "length (h_counters h)"] x c0 new(3,4) by auto
  next
    case False
    then have q': "q \<in> set ps" using q by simp
    show ?thesis using prov [OF q' _ x(2)] x(1) unfolding keep(2) [OF q'] keep(4) [OF q'] by blast
  qed
  moreover have "mget (mput byID (nc_ID nc) p) i = Some q \<longleftrightarrow> q \<in> set (ps @ [p]) \<and> ns_ID (h_networks h' ! q) = i" for i q
  proof (cases "q = p")
    case True
    have "p \<notin> set ps" using ok new(6) by (auto simp: net_ok_def)
    then show ?thesis using True new(3) ids by (auto simp: gomap)
  next
    case False
    then show ?thesis using ids [of i q] keep(4) [of q] id_ne [of q] by (auto simp: gomap)
  qed
  ultimately show ?thesis
    unfolding updating_def using extends_trans [OF ext new(1)] vm vals val by simp
qed

lemma addNetworkStates_updating:
  "wf_store s \<Longrightarrow> updating s ds h ps byID \<Longrightarrow> valid_configs (ds @ ncs) \<Longrightarrow>
     (case addNetworkStates (sto_byID s) ncs h ps byID of s' \<Rightarrow>
        updating s (ds @ ncs) (sto_heap s') (sto_Networks s') (sto_byID s'))"
proof (induction ncs arbitrary: ds h ps byID)
  case (Cons nc ncs)
  obtain p h' where add: "addNetworkState (sto_byID s) nc h = (p, h')" by fastforce
  have "updating s (ds @ [nc]) h' (ps @ [p]) (mput byID (nc_ID nc) p)"
    by (rule updating_step [OF Cons.prems(1,2) _ _ add]) (use Cons.prems(3) in \<open>auto simp: valid_configs_def\<close>)
  then show ?case using Cons.IH [OF Cons.prems(1), of "ds @ [nc]"] Cons.prems(3) add by simp
qed simp

lemma Update_refines:
  assumes "wf_store s" "valid_configs ncs"
  shows "wf_store (store_Update ncs s)" "contents (store_Update ncs s) = map (spec_network (contents s)) ncs"
    "extends (sto_heap s) (sto_heap (store_Update ncs s))"
    "p \<in> set (sto_Networks (store_Update ncs s)) \<Longrightarrow> inherits s (sto_heap (store_Update ncs s)) p"
proof -
  have "updating s [] (sto_heap s) [] mempty" by (simp add: updating_def wf_nets_def)
  from addNetworkStates_updating [OF assms(1) this, of ncs] assms(2)
  have "updating s ncs (sto_heap (store_Update ncs s)) (sto_Networks (store_Update ncs s)) (sto_byID (store_Update ncs s))"
    by (simp add: store_Update_def)
  then show "wf_store (store_Update ncs s)" "contents (store_Update ncs s) = map (spec_network (contents s)) ncs"
    "extends (sto_heap s) (sto_heap (store_Update ncs s))"
    "p \<in> set (sto_Networks (store_Update ncs s)) \<Longrightarrow> inherits s (sto_heap (store_Update ncs s)) p"
    by (auto simp: updating_def wf_store_def contents_def)
qed

subsection \<open>One scope at a time\<close>

text \<open>The scopes of a store with their persistence keys, in the order \<open>Export\<close> visits them.\<close>

definition net_entries :: "heap \<Rightarrow> ptr \<Rightarrow> (string \<times> ptr) list" where
  "net_entries h p = (netScopeKey (ns_ID (h_networks h ! p)), ns_Counter (h_networks h ! p)) #
     map (\<lambda>a. (azScopeKey (ns_ID (h_networks h ! p)) (az_Name (h_analyzers h ! a)), az_Counter (h_analyzers h ! a)))
       (ns_Analyzers (h_networks h ! p))"

definition scope_entries :: "Store \<Rightarrow> (string \<times> ptr) list" where
  "scope_entries s = concat (map (net_entries (sto_heap s)) (sto_Networks s))"

lemma snd_net_entries: "map snd (net_entries h p) = scopes h p"
  by (simp add: net_entries_def scopes_def comp_def)

lemma snd_scope_entries: "map snd (scope_entries s) = concat (map (scopes (sto_heap s)) (sto_Networks s))"
  by (simp add: scope_entries_def map_concat comp_def snd_net_entries)

lemma on_counter_simps [simp]:
  "h_analyzers (on_counter f p h) = h_analyzers h" "h_networks (on_counter f p h) = h_networks h"
  "length (h_counters (on_counter f p h)) = length (h_counters h)"
  by (simp_all add: on_counter_def)

lemma fold_concat_map: "fold f (concat (map g xs)) = fold (\<lambda>x. fold f (g x)) xs"
  by (induction xs) auto

lemma store_Export_entries:
  "store_Export s = fold (\<lambda>(k, c) out. mput out k (counter_Export (h_counters (sto_heap s) ! c))) (scope_entries s) mempty"
proof -
  have "exportNetwork h = (\<lambda>p. fold (\<lambda>(k, c) out. mput out k (counter_Export (h_counters h ! c))) (net_entries h p))" for h
    by (intro ext) (simp add: exportNetwork_def net_entries_def fold_map comp_def Let_def)
  then show ?thesis by (simp add: store_Export_def scope_entries_def fold_concat_map)
qed



definition restored :: "(string, CounterState) gomap \<Rightarrow> string \<Rightarrow> Counter \<Rightarrow> Counter" where
  "restored states k c = (case mget states k of None \<Rightarrow> c | Some st \<Rightarrow> counter_Restore st c)"

lemma restore_scope_eq: "restore_scope states k p h = on_counter (restored states k) p h"
  by (auto simp: restore_scope_def restored_def on_counter_def split: option.split)

text \<open>A pass over the scopes with a step that only reads the fixed part of the heap.\<close>

lemma fold_entries:
  "fold (\<lambda>a h. on_counter (g (azScopeKey i (az_Name (h_analyzers h ! a)))) (az_Counter (h_analyzers h ! a)) h) as h =
   fold (\<lambda>(k, c). on_counter (g k) c)
     (map (\<lambda>a. (azScopeKey i (az_Name (h_analyzers h ! a)), az_Counter (h_analyzers h ! a))) as) h"
  by (induction as arbitrary: h) simp_all

lemma net_pass:
  "(let ns = h_networks h ! p; h = on_counter (g (netScopeKey (ns_ID ns))) (ns_Counter ns) h
     in fold (\<lambda>a h. on_counter (g (azScopeKey (ns_ID ns) (az_Name (h_analyzers h ! a)))) (az_Counter (h_analyzers h ! a)) h)
          (ns_Analyzers ns) h)
   = fold (\<lambda>(k, c). on_counter (g k) c) (net_entries h p) h"
  by (simp add: Let_def fold_entries net_entries_def)

lemma pass_keeps:
  "h_networks (fold (\<lambda>(k, c). on_counter (g k) c) es h) = h_networks h"
  "h_analyzers (fold (\<lambda>(k, c). on_counter (g k) c) es h) = h_analyzers h"
  "length (h_counters (fold (\<lambda>(k, c). on_counter (g k) c) es h)) = length (h_counters h)"
  by (induction es arbitrary: h) (auto split: prod.split)

lemma nets_pass:
  "fold (\<lambda>p h. fold (\<lambda>(k, c). on_counter (g k) c) (net_entries h p) h) ps h =
   fold (\<lambda>(k, c). on_counter (g k) c) (concat (map (net_entries h) ps)) h"
proof (induction ps arbitrary: h)
  case (Cons p ps)
  have "net_entries (fold (\<lambda>(k, c). on_counter (g k) c) (net_entries h p) h) = net_entries h"
    by (rule ext) (simp add: net_entries_def pass_keeps)
  then show ?case by (simp add: Cons.IH)
qed simp

lemma store_Restore_entries:
  "store_Restore states s = on_heap (fold (\<lambda>(k, c). on_counter (restored states k) c) (scope_entries s)) s"
proof -
  have "restoreNetwork states = (\<lambda>p h. fold (\<lambda>(k, c). on_counter (restored states k) c) (net_entries h p) h)"
    by (intro ext) (simp only: restoreNetwork_def restore_scope_eq net_pass)
  then show ?thesis by (simp add: store_Restore_def on_heap_def nets_pass scope_entries_def)
qed

lemma store_sweep_entries:
  "store_sweep now w ttl s = on_heap (fold (\<lambda>(k, c). on_counter (counter_sweep now w ttl) c) (scope_entries s)) s"
proof -
  have "sweepNetwork now w ttl = (\<lambda>p h. fold (\<lambda>(k, c). on_counter (counter_sweep now w ttl) c) (net_entries h p) h)"
    by (intro ext) (simp only: sweepNetwork_def net_pass [where g = "\<lambda>_. counter_sweep now w ttl"])
  then show ?thesis by (simp add: store_sweep_def on_heap_def nets_pass scope_entries_def)
qed

text \<open>On distinct counters the pass is a map.\<close>

lemma counters_pass:
  "distinct (map snd es) \<Longrightarrow> \<forall>c\<in>snd ` set es. c < length (h_counters h) \<Longrightarrow>
     h_counters (fold (\<lambda>(k, c). on_counter (g k) c) es h) ! x =
       (case map_of (map prod.swap es) x of None \<Rightarrow> h_counters h ! x | Some k \<Rightarrow> g k (h_counters h ! x))"
proof (induction es arbitrary: h)
  case (Cons e es)
  obtain k c where e: "e = (k, c)" by fastforce
  have "map_of (map prod.swap es) c = None"
    using Cons.prems(1) e by (auto simp: map_of_eq_None_iff image_iff prod.swap_def)
  then show ?case
    using Cons.IH [of "on_counter (g k) c h"] Cons.prems e
    by (auto simp: on_counter_def nth_list_update split: option.split)
qed simp

subsection \<open>Scope keys\<close>

text \<open>Ids without the separator character, so that scope keys are injective.\<close>

definition plain_ids :: "NetworkConfig list \<Rightarrow> bool" where
  "plain_ids ncs \<longleftrightarrow> (\<forall>nc\<in>set ncs. sepChar \<notin> set (nc_ID nc))"

definition plain_store :: "Store \<Rightarrow> bool" where
  "plain_store s \<longleftrightarrow> (\<forall>p\<in>set (sto_Networks s). sepChar \<notin> set (ns_ID (h_networks (sto_heap s) ! p)))"

lemma append_sep_inject:
  "c \<notin> set a \<Longrightarrow> c \<notin> set b \<Longrightarrow> a @ c # x = b @ c # y \<longleftrightarrow> a = b \<and> x = y"
proof (induction a arbitrary: b)
  case Nil then show ?case by (cases b) auto
next
  case (Cons d a) then show ?case by (cases b) auto
qed

lemma scopeKey_inject:
  "netScopeKey i = netScopeKey j \<longleftrightarrow> i = j"
  "netScopeKey i \<noteq> azScopeKey j n" "azScopeKey j n \<noteq> netScopeKey i"
  "sepChar \<notin> set i \<Longrightarrow> sepChar \<notin> set j \<Longrightarrow> azScopeKey i n = azScopeKey j m \<longleftrightarrow> i = j \<and> n = m"
  by (auto simp: netScopeKey_def azScopeKey_def append_sep_inject)

lemma distinct_scope_keys:
  assumes "wf_store s" "plain_store s"
  shows "distinct (map fst (scope_entries s))"
proof -
  let ?h = "sto_heap s"
  have key: "map fst (net_entries ?h p) = netScopeKey (ns_ID (h_networks ?h ! p)) #
      map (azScopeKey (ns_ID (h_networks ?h ! p))) (map (\<lambda>a. az_Name (h_analyzers ?h ! a)) (ns_Analyzers (h_networks ?h ! p)))" for p
    by (simp add: net_entries_def)
  have each: "distinct (map fst (net_entries ?h p))" if p: "p \<in> set (sto_Networks s)" for p
  proof -
    have "distinct (map (\<lambda>a. az_Name (h_analyzers ?h ! a)) (ns_Analyzers (h_networks ?h ! p)))"
      "sepChar \<notin> set (ns_ID (h_networks ?h ! p))"
      using assms p by (auto simp: wf_store_def wf_nets_def net_ok_def plain_store_def)
    then show ?thesis unfolding key
      by (auto simp: scopeKey_inject distinct_map inj_on_def)
  qed
  have sep: "set (map fst (net_entries ?h p)) \<inter> set (map fst (net_entries ?h q)) = {}"
    if "p \<in> set (sto_Networks s)" "q \<in> set (sto_Networks s)" "ns_ID (h_networks ?h ! p) \<noteq> ns_ID (h_networks ?h ! q)" for p q
    using that assms(2) unfolding key by (auto simp: scopeKey_inject plain_store_def)
  have "distinct (concat (map (\<lambda>p. map fst (net_entries ?h p)) ps))"
    if "set ps \<subseteq> set (sto_Networks s)" "distinct (map (\<lambda>p. ns_ID (h_networks ?h ! p)) ps)" for ps
    using that
  proof (induction ps)
    case (Cons p ps)
    have one: "set (map fst (net_entries ?h p)) \<inter> set (map fst (net_entries ?h q)) = {}" if q: "q \<in> set ps" for q
    proof (rule sep)
      show "p \<in> set (sto_Networks s)" "q \<in> set (sto_Networks s)" using Cons.prems(1) q by auto
      show "ns_ID (h_networks ?h ! p) \<noteq> ns_ID (h_networks ?h ! q)"
        using Cons.prems(2) imageI [OF q, of "\<lambda>p. ns_ID (h_networks ?h ! p)"] by auto
    qed
    have "distinct (concat (map (\<lambda>p. map fst (net_entries ?h p)) ps))"
      by (rule Cons.IH) (use Cons.prems in auto)
    moreover have "distinct (map fst (net_entries ?h p))" by (rule each) (use Cons.prems(1) in simp)
    moreover have "set (map fst (net_entries ?h p)) \<inter> set (concat (map (\<lambda>p. map fst (net_entries ?h p)) ps)) = {}"
      unfolding set_concat set_map [of _ ps] using one by blast
    ultimately show ?case by (simp only: list.map concat.simps distinct_append)
  qed simp
  from this [of "sto_Networks s"] assms(1) show ?thesis
    by (simp add: scope_entries_def map_concat comp_def wf_store_def wf_nets_def)
qed

lemma mget_fold_mput:
  "distinct (map fst es) \<Longrightarrow> mget (fold (\<lambda>(k, c) out. mput out k (f c)) es m) k =
     (case map_of es k of None \<Rightarrow> mget m k | Some c \<Rightarrow> Some (f c))"
proof (induction es arbitrary: m)
  case (Cons e es)
  obtain k' c where e: "e = (k', c)" by fastforce
  have "map_of es k' = None" using Cons.prems e by (simp add: map_of_eq_None_iff)
  then show ?case using Cons.IH [of "mput m k' (f c)"] Cons.prems e by (simp add: gomap split: option.split)
qed simp

lemma mget_store_Export:
  assumes "wf_store s" "plain_store s"
  shows "mget (store_Export s) k = map_option (\<lambda>c. counter_Export (h_counters (sto_heap s) ! c)) (map_of (scope_entries s) k)"
  unfolding store_Export_entries mget_fold_mput [OF distinct_scope_keys [OF assms]]
  by (simp split: option.split)

lemma scope_counters_ok:
  assumes "wf_store s"
  shows "distinct (map snd (scope_entries s))" "\<forall>c\<in>snd ` set (scope_entries s). c < length (h_counters (sto_heap s))"
proof -
  show "distinct (map snd (scope_entries s))"
    using assms by (simp add: snd_scope_entries wf_store_def wf_nets_def)
  have "set (map snd (scope_entries s)) = set (concat (map (scopes (sto_heap s)) (sto_Networks s)))"
    by (simp only: snd_scope_entries)
  then show "\<forall>c\<in>snd ` set (scope_entries s). c < length (h_counters (sto_heap s))"
    using assms by (auto simp: wf_store_def wf_nets_def net_ok_def)
qed

lemma store_pass:
  assumes wf: "wf_store s" and s': "s' = on_heap (fold (\<lambda>(k, c). on_counter (g k) c) (scope_entries s)) s"
  shows "wf_store s'" "scope_entries s' = scope_entries s"
    "(k, c) \<in> set (scope_entries s) \<Longrightarrow> h_counters (sto_heap s') ! c = g k (h_counters (sto_heap s) ! c)"
proof -
  have same: "h_networks (sto_heap s') = h_networks (sto_heap s)" "h_analyzers (sto_heap s') = h_analyzers (sto_heap s)"
    "length (h_counters (sto_heap s')) = length (h_counters (sto_heap s))"
    "sto_Networks s' = sto_Networks s" "sto_byID s' = sto_byID s"
    by (simp_all add: s' on_heap_def pass_keeps)
  have "scopes (sto_heap s') = scopes (sto_heap s)" by (rule ext) (simp add: scopes_def same)
  then show "wf_store s'" using wf by (simp add: wf_store_def wf_nets_def net_ok_def same)
  have "net_entries (sto_heap s') = net_entries (sto_heap s)" by (rule ext) (simp add: net_entries_def same)
  then show "scope_entries s' = scope_entries s" by (simp add: scope_entries_def same)
  assume k: "(k, c) \<in> set (scope_entries s)"
  have "distinct (map fst (map prod.swap (scope_entries s)))"
    using scope_counters_ok(1) [OF wf] by (simp add: comp_def)
  then have "map_of (map prod.swap (scope_entries s)) c = Some k"
    by (rule map_of_is_SomeI) (use k in force)
  then show "h_counters (sto_heap s') ! c = g k (h_counters (sto_heap s) ! c)"
    using counters_pass [OF scope_counters_ok [OF wf], of g c] by (simp add: s' on_heap_def)
qed

subsection \<open>Reachable stores\<close>

text \<open>The life of a store: refreshes, restores and sweeps, and events and connection changes through
  any network and analyzer pointers, also those a collector kept from before a refresh.\<close>

inductive reachable :: "Store \<Rightarrow> bool" where
  new: "valid_configs ncs \<Longrightarrow> reachable (NewStore ncs)"
| update: "reachable s \<Longrightarrow> valid_configs ncs \<Longrightarrow> reachable (store_Update ncs s)"
| observe: "reachable s \<Longrightarrow> network_Observe n a ev (sto_heap s) = Some h \<Longrightarrow> reachable (s\<lparr>sto_heap := h\<rparr>)"
| connect: "reachable s \<Longrightarrow> reachable (on_heap (on_analyzer (setConnected now) a) s)"
| disconnect: "reachable s \<Longrightarrow> reachable (on_heap (on_analyzer (setDisconnected err) a) s)"
| restore: "reachable s \<Longrightarrow> reachable (store_Restore states s)"
| sweep: "reachable s \<Longrightarrow> reachable (store_sweep now w ttl s)"

lemma wf_same_shape:
  assumes "wf_store s" "h_networks h = h_networks (sto_heap s)"
    "length (h_counters h) = length (h_counters (sto_heap s))" "length (h_analyzers h) = length (h_analyzers (sto_heap s))"
    "\<And>a. az_Name (h_analyzers h ! a) = az_Name (h_analyzers (sto_heap s) ! a)"
    "\<And>a. az_Counter (h_analyzers h ! a) = az_Counter (h_analyzers (sto_heap s) ! a)"
  shows "wf_store (s\<lparr>sto_heap := h\<rparr>)"
proof -
  have "scopes h = scopes (sto_heap s)" by (rule ext) (simp add: scopes_def assms)
  then show ?thesis using assms(1) by (simp add: wf_store_def wf_nets_def net_ok_def assms(2-6))
qed

lemma list_update_field: "g y = g (xs ! p) \<Longrightarrow> g (xs[p := y] ! a) = g (xs ! a)"
  by (cases "a = p"; cases "p < length xs") (simp_all add: list_update_beyond)

lemma wf_on_analyzer:
  assumes "wf_store s" "\<And>z. az_Name (f z) = az_Name z" "\<And>z. az_Counter (f z) = az_Counter z"
  shows "wf_store (on_heap (on_analyzer f a) s)"
  unfolding on_heap_def
  by (rule wf_same_shape [OF assms(1)]) (simp_all add: on_analyzer_def list_update_field assms(2,3))

lemma set_status_simps [simp]:
  "az_Name (setConnected now z) = az_Name z" "az_Counter (setConnected now z) = az_Counter z"
  "az_Name (setDisconnected err z) = az_Name z" "az_Counter (setDisconnected err z) = az_Counter z"
  by (simp_all add: setConnected_def setDisconnected_def Let_def)

lemma observe_at_simps:
  "observe_at ev p h = Some h' \<Longrightarrow> h_networks h' = h_networks h \<and> h_analyzers h' = h_analyzers h
     \<and> length (h_counters h') = length (h_counters h)"
  by (auto simp: observe_at_def split: option.splits)

lemma wf_new: "valid_configs ncs \<Longrightarrow> wf_store (NewStore ncs)"
  unfolding NewStore_def by (rule Update_refines) (simp_all add: wf_store_def wf_nets_def)

lemma reachable_wf: "reachable s \<Longrightarrow> wf_store s"
proof (induction rule: reachable.induct)
  case (observe s n a ev h)
  have "h_networks h = h_networks (sto_heap s) \<and> h_analyzers h = h_analyzers (sto_heap s)
     \<and> length (h_counters h) = length (h_counters (sto_heap s))"
    using observe.hyps(2) unfolding network_Observe_def by (auto dest!: observe_at_simps split: bind_splits)
  then show ?case using observe.IH by (intro wf_same_shape) simp_all
qed (auto intro: wf_new Update_refines wf_on_analyzer store_pass(1) [OF _ store_Restore_entries]
      store_pass(1) [OF _ store_sweep_entries])


lemma plain_new: "valid_configs ncs \<Longrightarrow> plain_ids ncs \<Longrightarrow> plain_store (NewStore ncs)"
proof -
  assume v: "valid_configs ncs" and p: "plain_ids ncs"
  have "wf_store \<lparr>sto_heap = \<lparr>h_counters = [], h_analyzers = [], h_networks = []\<rparr>, sto_Networks = [], sto_byID = mempty\<rparr>"
    by (simp add: wf_store_def wf_nets_def)
  from Update_refines(2) [OF this v]
  have "map ns_ID (contents (NewStore ncs)) = map nc_ID ncs"
    by (simp add: NewStore_def spec_network_def Let_def comp_def)
  then have "set (map ns_ID (contents (NewStore ncs))) = set (map nc_ID ncs)" by (rule arg_cong)
  then have ids: "(\<lambda>p. ns_ID (h_networks (sto_heap (NewStore ncs)) ! p)) ` set (sto_Networks (NewStore ncs)) = nc_ID ` set ncs"
    by (simp add: contents_def image_image)
  show ?thesis unfolding plain_store_def
  proof
    fix q assume "q \<in> set (sto_Networks (NewStore ncs))"
    then have "ns_ID (h_networks (sto_heap (NewStore ncs)) ! q) \<in> nc_ID ` set ncs" using ids by blast
    then show "sepChar \<notin> set (ns_ID (h_networks (sto_heap (NewStore ncs)) ! q))"
      using p by (auto simp: plain_ids_def)
  qed
qed

lemma new_counters_fresh:
  assumes v: "valid_configs ncs" and c: "(k, c) \<in> set (scope_entries (NewStore ncs))"
  shows "h_counters (sto_heap (NewStore ncs)) ! c = newCounter"
proof -
  let ?s0 = "\<lparr>sto_heap = \<lparr>h_counters = [], h_analyzers = [], h_networks = []\<rparr>, sto_Networks = [], sto_byID = mempty\<rparr>"
  have "wf_store ?s0" by (simp add: wf_store_def wf_nets_def)
  from Update_refines(2) [OF this v]
  have vals: "contents (NewStore ncs) = map (spec_network []) ncs" by (simp add: NewStore_def contents_def)
  obtain p where p: "p \<in> set (sto_Networks (NewStore ncs))" "(k, c) \<in> set (net_entries (sto_heap (NewStore ncs)) p)"
    using c by (auto simp: scope_entries_def)
  then have "ns_value (sto_heap (NewStore ncs)) p \<in> set (map (spec_network []) ncs)"
    unfolding vals [symmetric] by (simp add: contents_def)
  then obtain nc where nc: "ns_value (sto_heap (NewStore ncs)) p = spec_network [] nc" by auto
  then have n: "ns_Counter (ns_value (sto_heap (NewStore ncs)) p) = newCounter" and
    a: "\<forall>z\<in>set (ns_Analyzers (ns_value (sto_heap (NewStore ncs)) p)). az_Counter z = newCounter"
    by (auto simp: spec_network_def spec_analyzer_def Let_def)
  show ?thesis using p(2) n a by (auto simp: net_entries_def ns_value_def az_value_def Let_def)
qed

text \<open>C29: persistence of the counters over a restart, with the same or another catalogue: after the
  exported states are restored into a new store, every scope of it that was exported has its durable
  state back, every other scope is empty, and nothing else is there.\<close>

theorem store_restart_roundtrip:
  assumes s: "reachable s" "plain_store s" and ncs: "valid_configs ncs" "plain_ids ncs"
    and clock: "\<forall>c\<in>set (h_counters (sto_heap s)). 0 \<le> c_lastPacket c"
    and s': "s' = store_Restore (store_Export s) (NewStore ncs)"
  shows "dom (mget (store_Export s')) = dom (mget (store_Export (NewStore ncs)))
    \<and> (\<forall>k st'. mget (store_Export s') k = Some st' \<longrightarrow>
         (case mget (store_Export s) k of Some st \<Rightarrow> same_state st' st
          | None \<Rightarrow> st' = counter_Export newCounter))"
proof -
  have wf: "wf_store s" and wfn: "wf_store (NewStore ncs)" and pl: "plain_store (NewStore ncs)"
    using s(1) ncs reachable_wf wf_new plain_new by auto
  note pass = store_pass [OF wfn s' [unfolded store_Restore_entries]]
  have pl': "plain_store s'" using pl by (simp add: plain_store_def s' store_Restore_entries on_heap_def pass_keeps)
  note ex' = mget_store_Export [OF pass(1) pl', unfolded pass(2)] and exn = mget_store_Export [OF wfn pl]
  note ex = mget_store_Export [OF wf s(2)]
  have "case mget (store_Export s) k of Some st \<Rightarrow> same_state st' st | None \<Rightarrow> st' = counter_Export newCounter"
    if st': "mget (store_Export s') k = Some st'" for k st'
  proof -
    obtain c where c: "map_of (scope_entries (NewStore ncs)) k = Some c"
      "st' = counter_Export (h_counters (sto_heap s') ! c)" using st' ex' by (auto split: option.splits)
    then have val: "h_counters (sto_heap s') ! c = restored (store_Export s) k newCounter"
      using pass(3) new_counters_fresh [OF ncs(1)] by (metis map_of_SomeD)
    show ?thesis
    proof (cases "map_of (scope_entries s) k")
      case None
      then show ?thesis using c(2) val ex [of k] by (simp add: restored_def)
    next
      case (Some d)
      then have "d < length (h_counters (sto_heap s))"
        using scope_counters_ok(2) [OF wf] by (metis imageI map_of_SomeD snd_conv)
      then have "0 \<le> c_lastPacket (h_counters (sto_heap s) ! d)" using clock by simp
      from export_restore_roundtrip [OF this] show ?thesis
        using c(2) val ex [of k] Some by (simp add: restored_def)
    qed
  qed
  moreover have "dom (mget (store_Export s')) = dom (mget (store_Export (NewStore ncs)))"
    by (auto simp: dom_def ex' exn)
  ultimately show ?thesis by blast
qed

lemma inherited_counters:
  assumes wf: "wf_store s" and inh: "inherits s h n'" and n: "n \<in> set (sto_Networks s)"
    and same_id: "ns_ID (h_networks h ! n') = ns_ID (h_networks (sto_heap s) ! n)"
  shows "ns_Counter (h_networks h ! n') = ns_Counter (h_networks (sto_heap s) ! n)"
    "a \<in> set (ns_Analyzers (h_networks (sto_heap s) ! n)) \<Longrightarrow> a' \<in> set (ns_Analyzers (h_networks h ! n')) \<Longrightarrow>
       az_Name (h_analyzers h ! a') = az_Name (h_analyzers (sto_heap s) ! a) \<Longrightarrow>
       az_Counter (h_analyzers h ! a') = az_Counter (h_analyzers (sto_heap s) ! a)"
proof -
  let ?i = "ns_ID (h_networks (sto_heap s) ! n)"
  have byID: "mget (sto_byID s) ?i = Some n" using wf n by (simp add: wf_store_def)
  note ok = wf_netD [OF wf byID]
  obtain nc c where nc: "nc_ID nc = ?i" and sc: "scopes h n' = new_scopes s nc c"
    and names: "map (\<lambda>a. az_Name (h_analyzers h ! a)) (ns_Analyzers (h_networks h ! n')) = map ac_Name (nc_Analyzers nc)"
    using inh same_id by (auto simp: inherits_def)
  show "ns_Counter (h_networks h ! n') = ns_Counter (h_networks (sto_heap s) ! n)"
    using sc byID nc by (simp add: scopes_def new_scopes_def old_counter_def)
  assume a: "a \<in> set (ns_Analyzers (h_networks (sto_heap s) ! n))" and a': "a' \<in> set (ns_Analyzers (h_networks h ! n'))"
    and nm: "az_Name (h_analyzers h ! a') = az_Name (h_analyzers (sto_heap s) ! a)"
  obtain j where j: "j < length (ns_Analyzers (h_networks h ! n'))" "a' = ns_Analyzers (h_networks h ! n') ! j"
    using a' by (metis in_set_conv_nth)
  have len: "length (ns_Analyzers (h_networks h ! n')) = length (nc_Analyzers nc)"
    using names by (metis length_map)
  have nmj: "ac_Name (nc_Analyzers nc ! j) = az_Name (h_analyzers (sto_heap s) ! a)"
    using arg_cong [OF names, of "\<lambda>xs. xs ! j"] j len nm by simp
  have "map (\<lambda>a. az_Counter (h_analyzers h ! a)) (ns_Analyzers (h_networks h ! n')) = map az_Counter (added_analyzers s nc (Suc c))"
    using sc by (simp add: scopes_def new_scopes_def)
  from arg_cong [OF this, of "\<lambda>xs. xs ! j"]
  have "az_Counter (h_analyzers h ! a') = az_Counter (added_analyzers s nc (Suc c) ! j)" using j len by simp
  moreover have "mget (old_analyzers s (nc_ID nc)) (ac_Name (nc_Analyzers nc ! j)) = Some a"
    using oldAnalyzersOf_iff [OF ok(5)] a byID nc nmj by (simp add: old_analyzers_def)
  ultimately show "az_Counter (h_analyzers h ! a') = az_Counter (h_analyzers (sto_heap s) ! a)"
    using j len by (simp add: nth_added_analyzers analyzerFor_simps)
qed

text \<open>A collector whose routes predate a refresh still counts packets into the counters the new
  store shows, for every network and analyzer that the new catalogue keeps; but the connection
  status it sets is invisible: the new store's contents do not change.\<close>

theorem stale_collector_counts_but_hides_status:
  assumes s: "reachable s" "valid_configs ncs" "s' = store_Update ncs s"
    and old: "n \<in> set (sto_Networks s)" "a \<in> set (ns_Analyzers (h_networks (sto_heap s) ! n))"
    and new: "n' \<in> set (sto_Networks s')" "a' \<in> set (ns_Analyzers (h_networks (sto_heap s') ! n'))"
    and same: "ns_ID (h_networks (sto_heap s') ! n') = ns_ID (h_networks (sto_heap s) ! n)"
      "az_Name (h_analyzers (sto_heap s') ! a') = az_Name (h_analyzers (sto_heap s) ! a)"
  shows "network_Observe n a ev (sto_heap s') = network_Observe n' a' ev (sto_heap s')
    \<and> contents (on_heap (on_analyzer (setConnected now) a) s') = contents s'"
proof
  have wf: "wf_store s" using s(1) by (rule reachable_wf)
  note upd = Update_refines [OF wf s(2), folded s(3)]
  have ok: "net_ok (sto_heap s) n" using wf old(1) by (simp add: wf_store_def wf_nets_def)
  then have a_lt: "a < length (h_analyzers (sto_heap s))" using old(2) by (simp add: net_ok_def)
  have keep: "h_networks (sto_heap s') ! n = h_networks (sto_heap s) ! n"
    "h_analyzers (sto_heap s') ! a = h_analyzers (sto_heap s) ! a"
    using net_ok_extends(4) [OF ok upd(3)] extends_nth(2) [OF upd(3) a_lt] by auto
  note c = inherited_counters [OF wf upd(4) [OF new(1)] old(1) same(1)]
  have obs: "network_Observe m b ev h = Option.bind (observe_at ev (az_Counter (h_analyzers h ! b)) h)
      (observe_at ev (ns_Counter (h_networks h ! m)))" for m b h
    by (auto simp: network_Observe_def dest: observe_at_simps split: bind_splits)
  show "network_Observe n a ev (sto_heap s') = network_Observe n' a' ev (sto_heap s')"
    unfolding obs keep c(1) c(2) [OF old(2) new(2) same(2)] ..
  have far: "b \<noteq> a" if "p \<in> set (sto_Networks s')" "b \<in> set (ns_Analyzers (h_networks (sto_heap s') ! p))" for p b
    using upd(4) [OF that(1)] that(2) a_lt by (auto simp: inherits_def)
  show "contents (on_heap (on_analyzer (setConnected now) a) s') = contents s'"
    unfolding contents_def on_heap_def ns_value_def az_value_def Let_def on_analyzer_def
    by (simp add: far not_sym [OF far] nth_list_update_neq cong: map_cong)
qed

definition ex_net :: "string list \<Rightarrow> NetworkConfig" where
  "ex_net azs = \<lparr>nc_ID = ''cz'', nc_Name = ''Czechia'',
     nc_Analyzers = map (\<lambda>a. \<lparr>ac_Name = a, ac_URL = ''u''\<rparr>) azs, nc_Countries = [], nc_Regions = []\<rparr>"

definition ex_store :: Store where
  "ex_store = on_heap (on_analyzer (setConnected 7) 0) (NewStore [ex_net [''a'', ''b'']])"

lemma ex_store_reachable: "reachable ex_store" "valid_configs [ex_net [''b'', ''c'']]"
  by (auto simp: ex_store_def ex_net_def valid_configs_def intro!: reachable.connect reachable.new)


lemma ex_store_heap:
  "sto_Networks ex_store = [0]" "h_networks (sto_heap ex_store) ! 0 = \<lparr>ns_ID = ''cz'', ns_Name = ''Czechia'',
     ns_Countries = [], ns_Regions = [], ns_Counter = 0, ns_Analyzers = [0, 1]\<rparr>"
  "h_counters (sto_heap ex_store) = [newCounter, newCounter, newCounter]"
  by (simp_all add: ex_store_def NewStore_def store_Update_def addNetworkState_def inherited_def new_counter_def
      new_analyzer_def new_network_def ex_net_def analyzerFor_def on_heap_def on_analyzer_def Let_def)

lemma store_restart_roundtrip_witness:
  "dom (mget (store_Export (store_Restore (store_Export ex_store) (NewStore [ex_net [''b'', ''c'']]))))
     = dom (mget (store_Export (NewStore [ex_net [''b'', ''c'']])))"
proof -
  have "plain_store ex_store" by (simp add: plain_store_def ex_store_heap sepChar_def)
  moreover have "plain_ids [ex_net [''b'', ''c'']]" by (simp add: plain_ids_def ex_net_def sepChar_def)
  moreover have "\<forall>c\<in>set (h_counters (sto_heap ex_store)). 0 \<le> c_lastPacket c"
    by (simp add: ex_store_heap newCounter_def)
  ultimately show ?thesis
    using store_restart_roundtrip [OF ex_store_reachable(1) _ ex_store_reachable(2) _ _ refl] by blast
qed

lemma ex_refreshed:
  "sto_Networks (store_Update [ex_net [''b'', ''c'']] ex_store) = [1]"
  "h_networks (sto_heap (store_Update [ex_net [''b'', ''c'']] ex_store)) ! 1 =
     \<lparr>ns_ID = ''cz'', ns_Name = ''Czechia'', ns_Countries = [], ns_Regions = [], ns_Counter = 0, ns_Analyzers = [2, 3]\<rparr>"
  "az_Name (h_analyzers (sto_heap (store_Update [ex_net [''b'', ''c'']] ex_store)) ! 2) = ''b''"
  "az_Name (h_analyzers (sto_heap ex_store) ! 1) = ''b''"
  by code_simp+

lemma stale_collector_counts_but_hides_status_witness:
  "\<forall>ev. network_Observe 0 1 ev (sto_heap (store_Update [ex_net [''b'', ''c'']] ex_store))
     = network_Observe 1 2 ev (sto_heap (store_Update [ex_net [''b'', ''c'']] ex_store))"
  by (rule allI, rule conjunct1 [OF stale_collector_counts_but_hides_status [OF ex_store_reachable refl]])
     (simp_all add: ex_store_heap ex_refreshed ex_refreshed [simplified])

end
