(* ===== verification/Telemetry.thy ===== *)
theory Telemetry
  imports NetworkStore
begin

text \<open>
  The recording helpers of telemetry.go. The Prometheus client is third-party code: a helper is the
  list of calls it makes to the client, and the model logs them. No metrics (a nil pointer) is
  \<open>None\<close>.
\<close>

datatype metric = packetsReceived | observations | decodeErrors | analyzerConnected | analyzerReconnects
  | analyzerLastPacket | dbFlushItems | dbFlushDuration | dbFlushErrors | dbRowsWritten | registryNodes | sqliteRows
  | apiRequests | apiRequestDuration | apiResponseSize | apiInFlight | buildInfo

datatype metric_call =
    Inc metric "string list"
  | Add metric "string list" float64
  | Set metric "string list" float64
  | ObserveValue metric "string list" float64

type_synonym metrics = "metric_call list option"

definition logged :: "metric_call list \<Rightarrow> metrics \<Rightarrow> metrics" where
  "logged calls m = map_option (\<lambda>l. l @ calls) m"

subsection \<open>Declarations\<close>

datatype metricKind = CounterVec | GaugeVec | HistogramVec "float64 list" | PlainGauge

record metricDecl =
  md_Name :: string
  md_Kind :: metricKind
  md_Labels :: "string list"

definition apiDurationBuckets :: "float64 list" where
  "apiDurationBuckets = [0.0005, 0.001, 0.0025, 0.005, 0.01, 0.025, 0.05, 0.1, 0.25, 0.5, 1, 2.5, 5, 10]"

definition responseSizeBuckets :: "float64 list" where
  "responseSizeBuckets = map (\<lambda>i. 256 * 4 ^ i) [0..<9]"

definition dbFlushBuckets :: "float64 list" where
  "dbFlushBuckets = [0.001, 0.005, 0.01, 0.025, 0.05, 0.1, 0.25, 0.5, 1, 2.5, 5]"

primrec declared :: "metric \<Rightarrow> metricDecl" where
  "declared packetsReceived = \<lparr>md_Name = ''meshcore_packets_received_total'', md_Kind = CounterVec, md_Labels = [''network'', ''payload_type'']\<rparr>"
| "declared observations = \<lparr>md_Name = ''meshcore_observations_total'', md_Kind = CounterVec, md_Labels = [''network'']\<rparr>"
| "declared decodeErrors = \<lparr>md_Name = ''meshcore_packets_decode_errors_total'', md_Kind = CounterVec, md_Labels = [''reason'']\<rparr>"
| "declared analyzerConnected = \<lparr>md_Name = ''meshcore_analyzer_connected'', md_Kind = GaugeVec, md_Labels = [''network'', ''analyzer'']\<rparr>"
| "declared analyzerReconnects = \<lparr>md_Name = ''meshcore_analyzer_reconnects_total'', md_Kind = CounterVec, md_Labels = [''network'', ''analyzer'']\<rparr>"
| "declared analyzerLastPacket = \<lparr>md_Name = ''meshcore_analyzer_last_packet_timestamp_seconds'', md_Kind = GaugeVec, md_Labels = [''network'', ''analyzer'']\<rparr>"
| "declared dbFlushDuration = \<lparr>md_Name = ''meshcore_db_flush_duration_seconds'', md_Kind = HistogramVec dbFlushBuckets, md_Labels = [''op'']\<rparr>"
| "declared dbFlushErrors = \<lparr>md_Name = ''meshcore_db_flush_errors_total'', md_Kind = CounterVec, md_Labels = [''op'']\<rparr>"
| "declared dbFlushItems = \<lparr>md_Name = ''meshcore_db_flush_items'', md_Kind = GaugeVec, md_Labels = [''op'']\<rparr>"
| "declared dbRowsWritten = \<lparr>md_Name = ''meshcore_db_rows_written_total'', md_Kind = CounterVec, md_Labels = [''op'']\<rparr>"
| "declared registryNodes = \<lparr>md_Name = ''meshcore_registry_nodes_current'', md_Kind = GaugeVec, md_Labels = [''source'']\<rparr>"
| "declared sqliteRows = \<lparr>md_Name = ''meshcore_sqlite_rows'', md_Kind = GaugeVec, md_Labels = [''table'']\<rparr>"
| "declared apiRequests = \<lparr>md_Name = ''meshcore_api_requests_total'', md_Kind = CounterVec, md_Labels = [''route'', ''method'', ''code'']\<rparr>"
| "declared apiRequestDuration = \<lparr>md_Name = ''meshcore_api_request_duration_seconds'', md_Kind = HistogramVec apiDurationBuckets, md_Labels = [''route'', ''method'']\<rparr>"
| "declared apiResponseSize = \<lparr>md_Name = ''meshcore_api_response_size_bytes'', md_Kind = HistogramVec responseSizeBuckets, md_Labels = [''route'']\<rparr>"
| "declared apiInFlight = \<lparr>md_Name = ''meshcore_api_requests_in_flight'', md_Kind = PlainGauge, md_Labels = []\<rparr>"
| "declared buildInfo = \<lparr>md_Name = ''meshcore_build_info'', md_Kind = GaugeVec, md_Labels = [''version'']\<rparr>"

text \<open>The registrations of \<open>NewMetrics\<close> in its order; each panics on a name already taken. The names of the runtime
  collectors are an argument. The build marker is set once.\<close>

definition ownMetrics :: "metric list" where
  "ownMetrics = [packetsReceived, observations, decodeErrors, analyzerConnected, analyzerReconnects, analyzerLastPacket,
     dbFlushDuration, dbFlushErrors, dbFlushItems, dbRowsWritten, registryNodes, sqliteRows, apiRequests, apiRequestDuration,
     apiResponseSize, apiInFlight]"

definition register :: "string \<Rightarrow> string list \<Rightarrow> string list option" where
  "register name taken = (if name \<in> set taken then None else Some (name # taken))"

primrec register_all :: "string list \<Rightarrow> string list \<Rightarrow> string list option" where
  "register_all [] taken = Some taken"
| "register_all (x # xs) taken = do { taken \<leftarrow> register x taken; register_all xs taken }"

text \<open>Overridden at build time.\<close>

definition version :: string where
  "version = ''dev''"

definition NewMetrics :: "string list \<Rightarrow> metrics option" where
  "NewMetrics runtime = do {
     taken \<leftarrow> register_all (map (\<lambda>m. md_Name (declared m)) ownMetrics) [];
     taken \<leftarrow> register_all runtime taken;
     taken \<leftarrow> register (md_Name (declared buildInfo)) taken;
     Some (Some [Set buildInfo [version] 1]) }"

primrec call_ok :: "metric_call \<Rightarrow> bool" where
  "call_ok (Inc m ls) = (md_Kind (declared m) = CounterVec \<and> length ls = length (md_Labels (declared m)))"
| "call_ok (Add m ls x) = (md_Kind (declared m) = CounterVec \<and> length ls = length (md_Labels (declared m)) \<and> 0 \<le> x)"
| "call_ok (Set m ls x) = (md_Kind (declared m) = GaugeVec \<and> length ls = length (md_Labels (declared m)))"
| "call_ok (ObserveValue m ls x) = ((\<exists>bs. md_Kind (declared m) = HistogramVec bs) \<and> length ls = length (md_Labels (declared m)))"

definition calls_ok :: "metrics \<Rightarrow> bool" where
  "calls_ok m \<longleftrightarrow> (\<exists>log. m = Some log \<and> list_all call_ok log)"

lemma calls_ok_logged: "list_all call_ok calls \<Longrightarrow> calls_ok m \<Longrightarrow> calls_ok (logged calls m)"
  by (auto simp: calls_ok_def logged_def)

subsection \<open>Recording\<close>

definition recordPacket :: "string \<Rightarrow> string \<Rightarrow> metrics \<Rightarrow> metrics" where
  "recordPacket network payloadType =
     (let payloadType = (if payloadType = '''' then ''unknown'' else payloadType)
      in logged [Inc packetsReceived [network, payloadType], Inc observations [network]])"

definition recordDecodeError :: "string \<Rightarrow> metrics \<Rightarrow> metrics" where
  "recordDecodeError reason = logged [Inc decodeErrors [reason]]"

definition initAnalyzer :: "string \<Rightarrow> string \<Rightarrow> metrics \<Rightarrow> metrics" where
  "initAnalyzer network analyzer = logged [Set analyzerConnected [network, analyzer] 0]"

definition setAnalyzerConnected :: "string \<Rightarrow> string \<Rightarrow> bool \<Rightarrow> metrics \<Rightarrow> metrics" where
  "setAnalyzerConnected network analyzer isConnected =
     logged [Set analyzerConnected [network, analyzer] (if isConnected then 1 else 0)]"

definition incAnalyzerReconnect :: "string \<Rightarrow> string \<Rightarrow> metrics \<Rightarrow> metrics" where
  "incAnalyzerReconnect network analyzer = logged [Inc analyzerReconnects [network, analyzer]]"

definition setAnalyzerLastPacket :: "string \<Rightarrow> string \<Rightarrow> unix_time \<Rightarrow> metrics \<Rightarrow> metrics" where
  "setAnalyzerLastPacket network analyzer unix =
     logged [Set analyzerLastPacket [network, analyzer] (real_of_int unix)]"

definition observeDBFlush :: "string \<Rightarrow> int \<Rightarrow> float64 \<Rightarrow> bool \<Rightarrow> metrics \<Rightarrow> metrics" where
  "observeDBFlush op rows durSeconds failed =
     logged ([Set dbFlushItems [op] (real_of_int rows), ObserveValue dbFlushDuration [op] durSeconds]
       @ (if failed then [Inc dbFlushErrors [op]]
          else if rows > 0 then [Add dbRowsWritten [op] (real_of_int rows)] else []))"

record SQLiteStats =
  sq_Nodes :: int
  sq_ImportedNodes :: int
  sq_Adverts :: int
  sq_ImportedNodeHistory :: int

definition updateStorageStats :: "int \<Rightarrow> int \<Rightarrow> SQLiteStats option \<Rightarrow> metrics \<Rightarrow> metrics" where
  "updateStorageStats liveNodes importedNodes sqlite =
     logged ([Set registryNodes [''live''] (real_of_int liveNodes),
              Set registryNodes [''imported''] (real_of_int importedNodes)]
       @ (case sqlite of None \<Rightarrow> [] | Some sq \<Rightarrow>
           [Set sqliteRows [''nodes''] (real_of_int (sq_Nodes sq)),
            Set sqliteRows [''imported_nodes''] (real_of_int (sq_ImportedNodes sq)),
            Set sqliteRows [''adverts''] (real_of_int (sq_Adverts sq)),
            Set sqliteRows [''imported_node_history''] (real_of_int (sq_ImportedNodeHistory sq))]))"

text \<open>\<open>Store.InitMetrics\<close>.\<close>

definition InitMetrics :: "Store \<Rightarrow> metrics \<Rightarrow> metrics" where
  "InitMetrics s m = fold (\<lambda>p. let ns = h_networks (sto_heap s) ! p in
     fold (\<lambda>a. initAnalyzer (ns_ID ns) (az_Name (h_analyzers (sto_heap s) ! a))) (ns_Analyzers ns))
     (sto_Networks s) m"

subsection \<open>The calls fit\<close>

lemma recorded_ok [intro, simp]:
  "calls_ok m \<Longrightarrow> calls_ok (recordPacket network payloadType m)" "calls_ok m \<Longrightarrow> calls_ok (recordDecodeError reason m)"
  "calls_ok m \<Longrightarrow> calls_ok (initAnalyzer network analyzer m)" "calls_ok m \<Longrightarrow> calls_ok (setAnalyzerConnected network analyzer c m)"
  "calls_ok m \<Longrightarrow> calls_ok (incAnalyzerReconnect network analyzer m)" "calls_ok m \<Longrightarrow> calls_ok (setAnalyzerLastPacket network analyzer t m)"
  "calls_ok m \<Longrightarrow> calls_ok (observeDBFlush op rows dur failed m)" "calls_ok m \<Longrightarrow> calls_ok (updateStorageStats live imported sq m)"
  unfolding recordPacket_def recordDecodeError_def initAnalyzer_def setAnalyzerConnected_def incAnalyzerReconnect_def
    setAnalyzerLastPacket_def observeDBFlush_def updateStorageStats_def Let_def
  by (auto intro!: calls_ok_logged split: option.split)

lemma fold_calls_ok: "(\<And>x m. calls_ok m \<Longrightarrow> calls_ok (f x m)) \<Longrightarrow> calls_ok m \<Longrightarrow> calls_ok (fold f xs m)"
  by (induction xs arbitrary: m) simp_all

lemma InitMetrics_ok [intro, simp]: "calls_ok m \<Longrightarrow> calls_ok (InitMetrics s m)"
  unfolding InitMetrics_def Let_def by (intro fold_calls_ok) auto

text \<open>The names of the metrics are distinct and valid, the buckets ascend: when no runtime metric begins with
  \<open>meshcore_\<close> and the runtime names are distinct, \<open>NewMetrics\<close> does not panic.\<close>

lemma register_all_distinct:
  "distinct xs \<Longrightarrow> set xs \<inter> set taken = {} \<Longrightarrow> register_all xs taken = Some (rev xs @ taken)"
  by (induction xs arbitrary: taken) (auto simp: register_def)

lemma own_names: "distinct (map (\<lambda>m. md_Name (declared m)) (buildInfo # ownMetrics))"
  "m \<in> set (buildInfo # ownMetrics) \<Longrightarrow> has_prefix (md_Name (declared m)) ''meshcore_''"
  "set (buildInfo # ownMetrics) = UNIV"
proof -
  show "distinct (map (\<lambda>m. md_Name (declared m)) (buildInfo # ownMetrics))" by (simp add: ownMetrics_def)
  have "list_all (\<lambda>m. has_prefix (md_Name (declared m)) ''meshcore_'') (buildInfo # ownMetrics)" by code_simp
  then show "m \<in> set (buildInfo # ownMetrics) \<Longrightarrow> has_prefix (md_Name (declared m)) ''meshcore_''" by (auto simp: list_all_iff)
  have "m \<in> set (buildInfo # ownMetrics)" for m by (cases m) (simp_all add: ownMetrics_def)
  then show "set (buildInfo # ownMetrics) = UNIV" by blast
qed

lemma NewMetrics_succeeds:
  assumes "distinct runtime" "\<forall>x\<in>set runtime. \<not> has_prefix x ''meshcore_''"
  shows "NewMetrics runtime = Some (Some [Set buildInfo [version] 1])"
proof -
  let ?names = "map (\<lambda>m. md_Name (declared m)) ownMetrics"
  have names: "distinct ?names" "md_Name (declared buildInfo) \<notin> set ?names" using own_names(1) by auto
  have "set runtime \<inter> set ?names = {}" "md_Name (declared buildInfo) \<notin> set runtime"
    using assms(2) own_names(2) own_names(2) [of buildInfo] by auto
  then show ?thesis using names assms(1)
    by (simp add: NewMetrics_def register_all_distinct register_def)
qed

lemma buckets_ascend: "md_Kind (declared m) = HistogramVec bs \<Longrightarrow> sorted_wrt (<) bs"
  by (cases m) (auto simp: apiDurationBuckets_def responseSizeBuckets_def dbFlushBuckets_def upt_rec)

end
