(* ===== verification/Ingest.thy ===== *)
theory Ingest
  imports Telemetry NodeRegistry ObserverRegistry LinkWalk
begin

text \<open>
  The packet handler (collector.go): one analyzer frame is decoded and fed to the counters, the
  observer registry, the link registry and the node registry. The wire-format decoder meshpkt is
  third-party code: a record of functions with the fields of its results the handler reads. A frame
  is its JSON value, or \<open>None\<close> when it is no JSON; JSON numbers carry their value only, so an integer
  written with a fraction or an exponent counts as an integer.
\<close>

subsection \<open>The wire-format decoder\<close>

record pktInfo =
  pi_Type :: byte
  pi_PathHashSize :: int
  pi_HopCount :: int
  pi_Path :: "byte list"
  pi_Payload :: "byte list"

record advInfo =
  adv_PublicKey :: "byte list"
  adv_Name :: string
  adv_NodeType :: byte
  adv_HasGPS :: bool
  adv_Lat :: float64
  adv_Lon :: float64
  adv_Timestamp :: unix_time

record meshpkt =
  DecodePacket :: "byte list \<Rightarrow> pktInfo option"
  DecodeAdvertPayload :: "byte list \<Rightarrow> advInfo option"
  TraceSNRs :: "byte list \<Rightarrow> float64 list"
  PayloadTypeString :: "byte \<Rightarrow> string"
  PayloadTrace :: byte
  PayloadAdvert :: byte
  RouteTransportFlood :: byte
  RouteFlood :: byte
  RouteDirect :: byte
  RouteTransportDirect :: byte

subsection \<open>Frames\<close>

record wsEnvelope =
  we_Type :: string
  we_Data :: "json option"

record wsPacket =
  wp_Hash :: string
  wp_RawHex :: string
  wp_ObserverID :: string
  wp_ObserverName :: string
  wp_PayloadType :: "int option"
  wp_ResolvedPath :: "string list"

definition dec_envelope :: "json \<Rightarrow> wsEnvelope option" where
  "dec_envelope = dec_struct \<lparr>we_Type = '''', we_Data = None\<rparr> (\<lambda>fs. do {
     t \<leftarrow> dec_field ''type'' dec_string '''' fs;
     Some \<lparr>we_Type = t, we_Data = raw_field ''data'' fs None\<rparr> })"

definition zero_packet :: wsPacket where
  "zero_packet = \<lparr>wp_Hash = '''', wp_RawHex = '''', wp_ObserverID = '''', wp_ObserverName = '''',
     wp_PayloadType = None, wp_ResolvedPath = []\<rparr>"

definition dec_packet :: "json \<Rightarrow> wsPacket option" where
  "dec_packet = dec_struct zero_packet (\<lambda>fs. do {
     h \<leftarrow> dec_field ''hash'' dec_string '''' fs;
     r \<leftarrow> dec_field ''raw_hex'' dec_string '''' fs;
     i \<leftarrow> dec_field ''observer_id'' dec_string '''' fs;
     n \<leftarrow> dec_field ''observer_name'' dec_string '''' fs;
     t \<leftarrow> dec_field ''payload_type'' (\<lambda>j. map_option Some (dec_int j)) None fs;
     p \<leftarrow> dec_field ''resolved_path'' (dec_slice dec_string) [] fs;
     Some \<lparr>wp_Hash = h, wp_RawHex = r, wp_ObserverID = i, wp_ObserverName = n, wp_PayloadType = t,
           wp_ResolvedPath = p\<rparr> })"

subsection \<open>Helpers\<close>

definition decodeRawHex :: "string \<Rightarrow> byte list" where
  "decodeRawHex rawHex =
     (let rawHex = to_lower (trim_space rawHex) in
      if rawHex = '''' then [] else (case hex_decode rawHex of None \<Rightarrow> [] | Some raw \<Rightarrow> raw))"

definition pathWithObserverReceiver :: "string list \<Rightarrow> string \<Rightarrow> string list" where
  "pathWithObserverReceiver path observerID =
     (let observerID = to_lower (trim_space observerID) in
      if normalizePub observerID = None then path
      else if path \<noteq> [] \<and> equal_fold (trim_space (last path)) observerID then path
      else path @ [observerID])"

definition routeTypeName :: "meshpkt \<Rightarrow> byte \<Rightarrow> string" where
  "routeTypeName M header =
     (let t = and header 0x03 in
      if t = RouteTransportFlood M then ''transport_flood''
      else if t = RouteFlood M then ''flood''
      else if t = RouteDirect M then ''direct''
      else if t = RouteTransportDirect M then ''transport_direct''
      else '''')"

definition shouldRecordLinkObservation :: "meshpkt \<Rightarrow> pktInfo \<Rightarrow> bool" where
  "shouldRecordLinkObservation M pkt \<longleftrightarrow>
     pi_Type pkt = PayloadTrace M \<or> pi_PathHashSize pkt \<noteq> 1 \<or> pi_HopCount pkt \<le> 1"

definition payloadType :: "wsPacket \<Rightarrow> byte option" where
  "payloadType p = map_option word_of_int (wp_PayloadType p)"

subsection \<open>The handler\<close>

text \<open>A collector points at its network and analyzer; its registries may be absent.\<close>

record Collector =
  col_net :: ptr
  col_az :: ptr
  col_nodes :: bool
  col_observers :: bool
  col_links :: bool

record System =
  sy_heap :: heap
  sy_nodes :: NodeRegistry
  sy_observers :: ObserverRegistry
  sy_links :: LinkRegistry
  sy_metrics :: metrics
  sy_feed :: "LiveAdvert list"

definition packetEvent :: "meshpkt \<Rightarrow> unix_time \<Rightarrow> wsPacket \<Rightarrow> Event" where
  "packetEvent M now p =
     \<lparr>ev_Hash = to_lower (trim_space (wp_Hash p)),
      ev_ObserverID = to_lower (trim_space (wp_ObserverID p)), ev_ObserverName = wp_ObserverName p,
      ev_PayloadType = (case payloadType p of None \<Rightarrow> '''' | Some t \<Rightarrow> PayloadTypeString M t),
      ev_Nodes = wp_ResolvedPath p, ev_At = now\<rparr>"

definition networkID :: "Collector \<Rightarrow> System \<Rightarrow> string" where
  "networkID col st = ns_ID (h_networks (sy_heap st) ! col_net col)"

definition analyzerName :: "Collector \<Rightarrow> System \<Rightarrow> string" where
  "analyzerName col st = az_Name (h_analyzers (sy_heap st) ! col_az col)"

text \<open>The link observation of a packet, and whether it is recorded.\<close>

definition linkObservation :: "meshpkt \<Rightarrow> Collector \<Rightarrow> wsPacket \<Rightarrow> string \<Rightarrow> unix_time \<Rightarrow> System \<Rightarrow> PathObservation \<times> bool" where
  "linkObservation M col p hash now st =
     (let raw = decodeRawHex (wp_RawHex p);
          pkt = (if raw = [] then None else DecodePacket M raw)
      in (\<lparr>p_Hash = hash, p_NetworkID = networkID col st,
           p_RouteType = (case raw of [] \<Rightarrow> '''' | b # _ \<Rightarrow> routeTypeName M b),
           p_Path = pathWithObserverReceiver (wp_ResolvedPath p) (wp_ObserverID p),
           p_LowConfidence = (case pkt of None \<Rightarrow> False | Some k \<Rightarrow> pi_PathHashSize k = 1 \<and> pi_HopCount k > 0),
           p_SNRs = (case pkt of None \<Rightarrow> []
              | Some k \<Rightarrow> if pi_Type k = PayloadTrace M then TraceSNRs M (pi_Path k) else []),
           p_Now = now,
           p_PosOf = (if col_nodes col then Some (PositionOf (sy_nodes st)) else None)\<rparr>,
          (case pkt of None \<Rightarrow> True | Some k \<Rightarrow> shouldRecordLinkObservation M k)))"

definition advertObservation ::
  "Collector \<Rightarrow> wsPacket \<Rightarrow> string \<Rightarrow> string \<Rightarrow> unix_time \<Rightarrow> advInfo \<Rightarrow> System \<Rightarrow> AdvertObservation" where
  "advertObservation col p hash rawHex now adv st =
     \<lparr>ao_Hash = hash, ao_RawHex = rawHex, ao_PubKey = hex_encode (adv_PublicKey adv), ao_Name = adv_Name adv,
      ao_NodeType = adv_NodeType adv, ao_HasGPS = adv_HasGPS adv, ao_Lat = adv_Lat adv, ao_Lon = adv_Lon adv,
      ao_AdvertTime = adv_Timestamp adv, ao_At = now, ao_NetworkID = networkID col st,
      ao_AnalyzerName = analyzerName col st, ao_ObserverID = wp_ObserverID p, ao_ObserverName = wp_ObserverName p\<rparr>"

definition decode_error :: "string \<Rightarrow> System \<Rightarrow> System" where
  "decode_error reason st = st\<lparr>sy_metrics := recordDecodeError reason (sy_metrics st)\<rparr>"

definition collectAdvert :: "meshpkt \<Rightarrow> Collector \<Rightarrow> wsPacket \<Rightarrow> string \<Rightarrow> unix_time \<Rightarrow> System \<Rightarrow> System" where
  "collectAdvert M col p hash now st =
     (let rawHex = to_lower (trim_space (wp_RawHex p)) in
      case hex_decode rawHex of None \<Rightarrow> decode_error ''advert_hex'' st
      | Some [] \<Rightarrow> decode_error ''advert_hex'' st
      | Some raw \<Rightarrow> (case DecodePacket M raw of None \<Rightarrow> decode_error ''advert_packet'' st
        | Some pkt \<Rightarrow>
            if pi_Type pkt \<noteq> PayloadAdvert M then decode_error ''advert_packet'' st
            else (case DecodeAdvertPayload M (pi_Payload pkt) of None \<Rightarrow> decode_error ''advert_payload'' st
              | Some adv \<Rightarrow>
                  (let (frame, nodes) = nodes_Observe (advertObservation col p hash rawHex now adv st) (sy_nodes st)
                   in st\<lparr>sy_nodes := nodes,
                         sy_feed := sy_feed st @ (case frame of None \<Rightarrow> [] | Some f \<Rightarrow> [f])\<rparr>))))"

definition feedObservers :: "Collector \<Rightarrow> wsPacket \<Rightarrow> unix_time \<Rightarrow> System \<Rightarrow> System" where
  "feedObservers col p now st =
     (if col_observers col
      then st\<lparr>sy_observers := observers_Observe \<lparr>oa_ObserverID = wp_ObserverID p, oa_Name = wp_ObserverName p,
             oa_NetworkID = networkID col st, oa_At = now\<rparr> (sy_observers st)\<rparr>
      else st)"

definition feedLinks :: "meshpkt \<Rightarrow> Collector \<Rightarrow> wsPacket \<Rightarrow> string \<Rightarrow> unix_time \<Rightarrow> System \<Rightarrow> System" where
  "feedLinks M col p hash now st =
     (if col_links col
      then (let (obs, recordLinks) = linkObservation M col p hash now st
            in if recordLinks then st\<lparr>sy_links := ObservePathCtx obs (sy_links st)\<rparr> else st)
      else st)"

definition feedNodes :: "meshpkt \<Rightarrow> Collector \<Rightarrow> wsPacket \<Rightarrow> string \<Rightarrow> unix_time \<Rightarrow> System \<Rightarrow> System" where
  "feedNodes M col p hash now st =
     (if col_nodes col \<and> payloadType p = Some (PayloadAdvert M) then collectAdvert M col p hash now st else st)"

definition handlePacket :: "meshpkt \<Rightarrow> unix_time \<Rightarrow> Collector \<Rightarrow> wsPacket \<Rightarrow> System \<Rightarrow> System option" where
  "handlePacket M now col p st =
     (let hash = to_lower (trim_space (wp_Hash p)) in
      if hash = '''' then Some (decode_error ''empty_hash'' st)
      else do {
        let p = p\<lparr>wp_ObserverID := to_lower (trim_space (wp_ObserverID p))\<rparr>;
        let ev = packetEvent M now p;
        let st = st\<lparr>sy_metrics := setAnalyzerLastPacket (networkID col st) (analyzerName col st) now
               (recordPacket (networkID col st) (ev_PayloadType ev) (sy_metrics st))\<rparr>;
        h \<leftarrow> network_Observe (col_net col) (col_az col) ev (sy_heap st);
        let st = st\<lparr>sy_heap := h\<rparr>;
        let st = feedObservers col p now st;
        let st = feedLinks M col p hash now st;
        Some (feedNodes M col p hash now st) })"

definition handle :: "meshpkt \<Rightarrow> unix_time \<Rightarrow> Collector \<Rightarrow> json option \<Rightarrow> System \<Rightarrow> System option" where
  "handle M now col data st =
     (case Option.bind data dec_envelope of
        None \<Rightarrow> Some (decode_error ''envelope_json'' st)
      | Some env \<Rightarrow>
          (case we_Data env of
             None \<Rightarrow> Some st
           | Some j \<Rightarrow>
               if we_Type env \<noteq> ''packet'' then Some st
               else (case dec_packet j of
                  None \<Rightarrow> Some (decode_error ''packet_json'' st)
                | Some p \<Rightarrow> handlePacket M now col p st)))"

subsection \<open>Rejected frames\<close>

text \<open>The packet of a frame: it is valid JSON, of type packet, with data that decode to a packet with a
  hash. Its observer id is canonical.\<close>

definition frame_packet :: "json option \<Rightarrow> wsPacket option" where
  "frame_packet data = do {
     env \<leftarrow> Option.bind data dec_envelope;
     j \<leftarrow> we_Data env;
     p \<leftarrow> (if we_Type env = ''packet'' then dec_packet j else None);
     if to_lower (trim_space (wp_Hash p)) = '''' then None
     else Some (p\<lparr>wp_ObserverID := to_lower (trim_space (wp_ObserverID p))\<rparr>) }"

definition frame_event :: "meshpkt \<Rightarrow> unix_time \<Rightarrow> json option \<Rightarrow> Event option" where
  "frame_event M now data = map_option (packetEvent M now) (frame_packet data)"

definition decode_errors :: "metric_call list" where
  "decode_errors = map (\<lambda>r. Inc decodeErrors [r]) [''envelope_json'', ''packet_json'', ''empty_hash'']"

lemma rejected_frame:
  assumes "frame_packet data = None"
  shows "\<exists>calls. handle M now col data st = Some (st\<lparr>sy_metrics := logged calls (sy_metrics st)\<rparr>)
    \<and> set calls \<subseteq> set decode_errors \<and> length calls \<le> 1"
proof -
  have ok: "\<exists>calls. Some st = Some (st\<lparr>sy_metrics := logged calls (sy_metrics st)\<rparr>)
    \<and> set calls \<subseteq> set decode_errors \<and> length calls \<le> 1"
    by (rule exI [of _ "[]"]) (simp add: logged_def option.map_ident)
  have err: "\<exists>calls. Some (decode_error r st) = Some (st\<lparr>sy_metrics := logged calls (sy_metrics st)\<rparr>)
    \<and> set calls \<subseteq> set decode_errors \<and> length calls \<le> 1"
    if "r \<in> {''envelope_json'', ''packet_json'', ''empty_hash''}" for r
    by (rule exI [of _ "[Inc decodeErrors [r]]"])
      (use that in \<open>auto simp: decode_error_def recordDecodeError_def decode_errors_def\<close>)
  show ?thesis
    using assms ok err [of "''envelope_json''"] err [of "''packet_json''"] err [of "''empty_hash''"]
    by (auto simp: handle_def frame_packet_def handlePacket_def Let_def split: option.splits if_splits bind_splits)
qed

text \<open>C36: a frame that carries no packet (no JSON, another type, an undecodable packet, or one without a
  hash) leaves every counter and registry as it was; at most one decode error is counted.\<close>

theorem rejected_frame_changes_nothing:
  assumes "frame_packet data = None"
  shows "\<exists>calls. handle M now col data st = Some (st\<lparr>sy_metrics := logged calls (sy_metrics st)\<rparr>)
    \<and> set calls \<subseteq> set decode_errors \<and> length calls \<le> 1"
  using assms by (rule rejected_frame)

subsection \<open>Events\<close>

lemma feed_heap [simp]:
  "sy_heap (feedObservers col p now st) = sy_heap st"
  "sy_heap (feedLinks M col p hash now st) = sy_heap st"
  "sy_heap (feedNodes M col p hash now st) = sy_heap st"
  by (auto simp: feedObservers_def feedLinks_def feedNodes_def collectAdvert_def decode_error_def Let_def
      split: option.split list.split prod.split)

text \<open>On the counters a frame is the observation of its event.\<close>

lemma handle_heap:
  "map_option sy_heap (handle M now col data st) = (case frame_event M now data of
     None \<Rightarrow> Some (sy_heap st) | Some ev \<Rightarrow> network_Observe (col_net col) (col_az col) ev (sy_heap st))"
proof (cases "frame_packet data")
  case None
  from rejected_frame [OF this, of M now col st] None show ?thesis
    by (auto simp: frame_event_def)
next
  case (Some p)
  obtain env j q where e: "Option.bind data dec_envelope = Some env" "we_Data env = Some j" "we_Type env = ''packet''"
    "dec_packet j = Some q" "to_lower (trim_space (wp_Hash q)) \<noteq> ''''"
    "p = q\<lparr>wp_ObserverID := to_lower (trim_space (wp_ObserverID q))\<rparr>"
    using Some by (auto simp: frame_packet_def split: if_splits bind_splits option.splits)
  show ?thesis
    using e Some by (auto simp: handle_def handlePacket_def frame_event_def Let_def split: bind_split)
qed

subsection \<open>Runs of frames\<close>

type_synonym frame = "unix_time \<times> Collector \<times> json option"

primrec ingest_run :: "meshpkt \<Rightarrow> frame list \<Rightarrow> System \<Rightarrow> System option" where
  "ingest_run M [] st = Some st"
| "ingest_run M (f # fs) st = (case f of (now, col, data) \<Rightarrow>
     do { st \<leftarrow> handle M now col data st; ingest_run M fs st })"

definition events :: "meshpkt \<Rightarrow> (Collector \<Rightarrow> bool) \<Rightarrow> frame list \<Rightarrow> Event list" where
  "events M P fs = List.map_filter (\<lambda>(now, col, data). if P col then frame_event M now data else None) fs"

lemma events_simps [simp]:
  "events M P [] = []"
  "events M P ((now, col, data) # fs) =
     (case frame_event M now data of Some ev \<Rightarrow> if P col then ev # events M P fs else events M P fs | None \<Rightarrow> events M P fs)"
  by (simp_all add: events_def map_filter_simps split: option.split)

definition feeds :: "heap \<Rightarrow> ptr \<Rightarrow> Collector \<Rightarrow> bool" where
  "feeds h x col \<longleftrightarrow> x = az_Counter (h_analyzers h ! col_az col) \<or> x = ns_Counter (h_networks h ! col_net col)"

definition two_counters :: "heap \<Rightarrow> Collector \<Rightarrow> bool" where
  "two_counters h col \<longleftrightarrow> az_Counter (h_analyzers h ! col_az col) \<noteq> ns_Counter (h_networks h ! col_net col)
     \<and> az_Counter (h_analyzers h ! col_az col) < length (h_counters h)
     \<and> ns_Counter (h_networks h ! col_net col) < length (h_counters h)"

lemma network_Observe_counters:
  assumes two: "two_counters h col" and ok: "\<And>x. feeds h x col \<Longrightarrow> counter_Observe ev (h_counters h ! x) \<noteq> None"
  shows "\<exists>h'. network_Observe (col_net col) (col_az col) ev h = Some h' \<and> h_networks h' = h_networks h
    \<and> h_analyzers h' = h_analyzers h \<and> length (h_counters h') = length (h_counters h)
    \<and> (\<forall>x. h_counters h' ! x = (if feeds h x col then the (counter_Observe ev (h_counters h ! x)) else h_counters h ! x))"
  using two ok [of "az_Counter (h_analyzers h ! col_az col)"] ok [of "ns_Counter (h_networks h ! col_net col)"]
  by (auto simp: network_Observe_def observe_at_def two_counters_def on_counter_def feeds_def nth_list_update
      split: option.splits)

lemma ingest_run_counters:
  assumes "\<forall>(now, col, data)\<in>set fs. two_counters (sy_heap st) col"
    and "\<And>x. x < length (h_counters (sy_heap st)) \<Longrightarrow> observe_all (events M (feeds (sy_heap st) x) fs) (h_counters (sy_heap st) ! x) \<noteq> None"
  shows "\<exists>st'. ingest_run M fs st = Some st' \<and> h_networks (sy_heap st') = h_networks (sy_heap st)
    \<and> h_analyzers (sy_heap st') = h_analyzers (sy_heap st)
    \<and> (\<forall>x<length (h_counters (sy_heap st)).
         observe_all (events M (feeds (sy_heap st) x) fs) (h_counters (sy_heap st) ! x) = Some (h_counters (sy_heap st') ! x))"
  using assms
proof (induction fs arbitrary: st)
  case (Cons f fs)
  obtain now col data where f: "f = (now, col, data)" by (cases f)
  let ?h = "sy_heap st"
  have two: "two_counters ?h col" using Cons.prems(1) f by simp
  obtain st1 where st1: "handle M now col data st = Some st1" "h_networks (sy_heap st1) = h_networks ?h"
    "h_analyzers (sy_heap st1) = h_analyzers ?h" "length (h_counters (sy_heap st1)) = length (h_counters ?h)"
    and c1: "\<And>x. x < length (h_counters ?h) \<Longrightarrow>
       observe_all (events M (feeds ?h x) (f # fs)) (h_counters ?h ! x) =
       observe_all (events M (feeds ?h x) fs) (h_counters (sy_heap st1) ! x)"
  proof (cases "frame_event M now data")
    case None
    have "map_option sy_heap (handle M now col data st) = Some ?h" unfolding handle_heap None by simp
    then obtain s1 where "handle M now col data st = Some s1" "sy_heap s1 = ?h" by auto
    then show ?thesis using that [of s1] None f by simp
  next
    case (Some ev)
    have "counter_Observe ev (h_counters ?h ! x) \<noteq> None" if x: "feeds ?h x col" for x
    proof -
      have "x < length (h_counters ?h)" using x two by (auto simp: feeds_def two_counters_def)
      from Cons.prems(2) [OF this] show ?thesis using x Some f by (auto split: bind_splits)
    qed
    from network_Observe_counters [OF two this] obtain h' where h':
      "network_Observe (col_net col) (col_az col) ev ?h = Some h'" "h_networks h' = h_networks ?h"
      "h_analyzers h' = h_analyzers ?h" "length (h_counters h') = length (h_counters ?h)"
      "\<And>x. h_counters h' ! x = (if feeds ?h x col then the (counter_Observe ev (h_counters ?h ! x)) else h_counters ?h ! x)"
      by auto
    have "map_option sy_heap (handle M now col data st) = Some h'" unfolding handle_heap Some using h'(1) by simp
    then obtain s1 where s1: "handle M now col data st = Some s1" "sy_heap s1 = h'" by auto
    show ?thesis
    proof (rule that [of s1])
      fix x assume x: "x < length (h_counters ?h)"
      show "observe_all (events M (feeds ?h x) (f # fs)) (h_counters ?h ! x) =
          observe_all (events M (feeds ?h x) fs) (h_counters (sy_heap s1) ! x)"
      proof (cases "feeds ?h x col")
        case True
        then obtain c where "counter_Observe ev (h_counters ?h ! x) = Some c"
          using \<open>\<And>x. feeds ?h x col \<Longrightarrow> counter_Observe ev (h_counters ?h ! x) \<noteq> None\<close> by blast
        then show ?thesis using True Some f s1 h'(5) [of x] by simp
      qed (use Some f s1 h'(5) [of x] in simp)
    qed (use s1 h' in simp_all)
  qed
  have same: "feeds (sy_heap st1) = feeds ?h" "two_counters (sy_heap st1) = two_counters ?h"
    using st1 by (auto simp: feeds_def two_counters_def fun_eq_iff)
  have "\<exists>st'. ingest_run M fs st1 = Some st' \<and> h_networks (sy_heap st') = h_networks (sy_heap st1)
    \<and> h_analyzers (sy_heap st') = h_analyzers (sy_heap st1)
    \<and> (\<forall>x<length (h_counters (sy_heap st1)).
         observe_all (events M (feeds (sy_heap st1) x) fs) (h_counters (sy_heap st1) ! x) = Some (h_counters (sy_heap st') ! x))"
  proof (rule Cons.IH)
    show "\<forall>(now, col, data)\<in>set fs. two_counters (sy_heap st1) col" using Cons.prems(1) unfolding same by simp
    fix x assume "x < length (h_counters (sy_heap st1))"
    then show "observe_all (events M (feeds (sy_heap st1) x) fs) (h_counters (sy_heap st1) ! x) \<noteq> None"
      using Cons.prems(2) [of x] c1 [of x] st1(4) unfolding same by simp
  qed
  then show ?case using st1 c1 f unfolding same by auto
qed simp

subsection \<open>Deduplication across analyzers\<close>

definition col_ok :: "Store \<Rightarrow> Collector \<Rightarrow> bool" where
  "col_ok s col \<longleftrightarrow> col_net col \<in> set (sto_Networks s)
     \<and> col_az col \<in> set (ns_Analyzers (h_networks (sto_heap s) ! col_net col))"

lemma scope_pointers:
  assumes wf: "wf_store s" and p: "p \<in> set (sto_Networks s)" and q: "q \<in> set (sto_Networks s)"
    and b: "b \<in> set (ns_Analyzers (h_networks (sto_heap s) ! q))"
  shows "ns_Counter (h_networks (sto_heap s) ! p) = ns_Counter (h_networks (sto_heap s) ! q) \<longleftrightarrow> p = q"
    "ns_Counter (h_networks (sto_heap s) ! p) \<noteq> az_Counter (h_analyzers (sto_heap s) ! b)"
    "a \<in> set (ns_Analyzers (h_networks (sto_heap s) ! p)) \<Longrightarrow>
       az_Counter (h_analyzers (sto_heap s) ! a) = az_Counter (h_analyzers (sto_heap s) ! b) \<longleftrightarrow> a = b"
proof -
  let ?h = "sto_heap s"
  have byID: "mget (sto_byID s) (ns_ID (h_networks ?h ! p)) = Some p" "mget (sto_byID s) (ns_ID (h_networks ?h ! q)) = Some q"
    using wf p q by (auto simp: wf_store_def)
  have disj: "set (scopes ?h p) \<inter> set (scopes ?h q) = {}" if "p \<noteq> q"
    by (rule scopes_of_distinct_nets [OF wf byID]) (use that byID in auto)
  have d: "distinct (scopes ?h q)" by (rule wf_netD(4) [OF wf byID(2)])
  show "ns_Counter (h_networks ?h ! p) = ns_Counter (h_networks ?h ! q) \<longleftrightarrow> p = q"
    using disj by (cases "p = q") (auto simp: scopes_def)
  show "ns_Counter (h_networks ?h ! p) \<noteq> az_Counter (h_analyzers ?h ! b)"
    using disj d b by (cases "p = q") (auto simp: scopes_def)
  show "az_Counter (h_analyzers ?h ! a) = az_Counter (h_analyzers ?h ! b) \<longleftrightarrow> a = b"
    if a: "a \<in> set (ns_Analyzers (h_networks ?h ! p))"
  proof (cases "p = q")
    case True
    then show ?thesis using d a b by (auto simp: scopes_def distinct_map dest: inj_onD)
  next
    case False
    then have "az_Counter (h_analyzers ?h ! a) \<noteq> az_Counter (h_analyzers ?h ! b)"
      using disj a b by (auto simp: scopes_def)
    then show ?thesis by auto
  qed
qed

lemma frame_event_At: "frame_event M now data = Some ev \<Longrightarrow> ev_At ev = now \<and> ev_Hash ev \<noteq> ''''"
  by (auto simp: frame_event_def frame_packet_def packetEvent_def split: if_splits bind_splits)

lemma in_events: "ev \<in> set (events M P fs) \<Longrightarrow> ev_At ev \<in> fst ` set fs \<and> ev_Hash ev \<noteq> ''''"
proof (induction fs)
  case (Cons f fs)
  obtain now col data where f: "f = (now, col, data)" by (cases f)
  show ?case using Cons frame_event_At [of M now data] f by (auto split: option.splits if_splits)
qed simp

lemma sorted_events: "sorted (map fst fs) \<Longrightarrow> sorted (map ev_At (events M P fs))"
proof (induction fs)
  case (Cons f fs)
  obtain now col data where f: "f = (now, col, data)" by (cases f)
  have "now \<le> ev_At ev" if "ev \<in> set (events M P fs)" for ev
    using in_events [OF that] Cons.prems f by auto
  then show ?case using Cons frame_event_At [of M now data] f by (auto split: option.split)
qed simp

lemma events_cong: "(\<And>now col data. (now, col, data) \<in> set fs \<Longrightarrow> P col = Q col) \<Longrightarrow> events M P fs = events M Q fs"
proof (induction fs)
  case (Cons f fs)
  obtain now col data where f: "f = (now, col, data)" by (cases f)
  have "P col = Q col" using Cons.prems [of now col data] f by simp
  moreover have "events M P fs = events M Q fs" using Cons by (metis list.set_intros(2))
  ultimately show ?case using f by (auto split: option.split)
qed simp

text \<open>What a counter shows after exactly these events.\<close>

definition counts_exactly :: "Counter \<Rightarrow> Event list \<Rightarrow> bool" where
  "counts_exactly c evs \<longleftrightarrow> c_unique c = of_nat (card (ev_Hash ` set evs))
     \<and> c_observations c = of_nat (card (obsKey ` set evs))"

lemma observe_all_counts:
  assumes "sorted (map ev_At evs)" "\<forall>ev\<in>set evs. 0 < ev_At ev \<and> ev_Hash ev \<noteq> ''''"
  shows "\<exists>c. observe_all evs newCounter = Some c \<and> counts_exactly c evs"
proof -
  have "ev_Hash ` set evs - {''''} = ev_Hash ` set evs" using assms(2) by auto
  then show ?thesis using observe_all_new [of evs] assms
    by (fastforce simp: counts_agree_def counts_exactly_def mlen_card)
qed


subsection \<open>Examples\<close>

definition ex_meshpkt :: meshpkt where
  "ex_meshpkt = \<lparr>DecodePacket = (\<lambda>_. None), DecodeAdvertPayload = (\<lambda>_. None), TraceSNRs = (\<lambda>_. []),
     PayloadTypeString = (\<lambda>_. ''ADVERT''), PayloadTrace = 9, PayloadAdvert = 4, RouteTransportFlood = 0,
     RouteFlood = 1, RouteDirect = 2, RouteTransportDirect = 3\<rparr>"

definition ex_frame :: "string \<Rightarrow> string \<Rightarrow> json option" where
  "ex_frame hash obs = Some (JObj [(''type'', JStr ''packet''),
     (''data'', JObj [(''hash'', JStr hash), (''observer_id'', JStr obs), (''payload_type'', JNum 4)])])"

definition ex_col :: "ptr \<Rightarrow> Collector" where
  "ex_col a = \<lparr>col_net = 0, col_az = a, col_nodes = True, col_observers = True, col_links = True\<rparr>"

definition ex_new_store :: Store where
  "ex_new_store = NewStore [ex_net [''a'', ''b'']]"

definition ex_system :: System where
  "ex_system = \<lparr>sy_heap = sto_heap ex_new_store, sy_nodes = newNodeRegistry 0,
     sy_observers = newObserverRegistry, sy_links = newLinkRegistry 0, sy_metrics = Some [], sy_feed = []\<rparr>"

definition ex_frames :: "frame list" where
  "ex_frames = [(5, ex_col 0, ex_frame ''AB'' ''X''), (6, ex_col 1, ex_frame '' ab'' ''Y''), (7, ex_col 1, None)]"

lemma ex_new_store_heap:
  "sto_Networks ex_new_store = [0]" "h_networks (sto_heap ex_new_store) = [\<lparr>ns_ID = ''cz'', ns_Name = ''Czechia'',
     ns_Countries = [], ns_Regions = [], ns_Counter = 0, ns_Analyzers = [0, 1]\<rparr>]"
  "h_counters (sto_heap ex_new_store) = [newCounter, newCounter, newCounter]"
  by (simp_all add: ex_new_store_def NewStore_def store_Update_def addNetworkState_def inherited_def new_counter_def
      new_analyzer_def new_network_def ex_net_def analyzerFor_def Let_def)


lemma rejected_frame_changes_nothing_witness:
  "\<exists>calls. handle ex_meshpkt 5 (ex_col 0) (ex_frame '' '' ''X'') ex_system
      = Some (ex_system\<lparr>sy_metrics := logged calls (sy_metrics ex_system)\<rparr>) \<and> length calls \<le> 1"
proof -
  have "frame_packet (ex_frame '' '' ''X'') = None" by code_simp
  from rejected_frame_changes_nothing [OF this] show ?thesis by blast
qed

end
