(* ===== verification/Tangleveil.thy ===== *)
theory Tangleveil
  imports Ingest Settings
begin

text \<open>
  The multiplexed stream (tangleveil.go): the routing table from source ids to collectors, the
  dispatch of messages, and the reconnect loop. The HTTP answer of /sources and the WebSocket are
  inputs: the JSON value of the answer (or none), and for every connection whether the dial
  succeeded, the messages read and the error that ended it. \<open>url.Parse\<close> is an argument.
\<close>

subsection \<open>Sources and mappings\<close>

record tvSource =
  tvs_ID :: string
  tvs_URL :: string
  tvs_Mapping :: string
  tvs_State :: string

definition dec_source :: "json \<Rightarrow> tvSource option" where
  "dec_source = dec_struct \<lparr>tvs_ID = '''', tvs_URL = '''', tvs_Mapping = '''', tvs_State = ''''\<rparr> (\<lambda>fs. do {
     i \<leftarrow> dec_field ''id'' dec_string '''' fs;
     u \<leftarrow> dec_field ''url'' dec_string '''' fs;
     m \<leftarrow> dec_field ''mapping'' dec_string '''' fs;
     s \<leftarrow> dec_field ''state'' dec_string '''' fs;
     Some \<lparr>tvs_ID = i, tvs_URL = u, tvs_Mapping = m, tvs_State = s\<rparr> })"

definition mappingNetworkID :: "string \<Rightarrow> string option" where
  "mappingNetworkID mapping = (case splitn2 (CHR '':'') mapping of [netID, _] \<Rightarrow> Some netID | _ \<Rightarrow> None)"

datatype mappingError = UnexpectedFormat | NonIntegerIndex | NetworkNotInStore | NoAnalyzerAtIndex

definition resolveMapping :: "Store \<Rightarrow> string \<Rightarrow> mappingError + ptr \<times> ptr" where
  "resolveMapping s mapping =
     (case splitn2 (CHR '':'') mapping of
        [netID, index] \<Rightarrow>
          (case atoi index of None \<Rightarrow> Inl NonIntegerIndex
           | Some idx \<Rightarrow> (case store_Network s netID of None \<Rightarrow> Inl NetworkNotInStore
             | Some n \<Rightarrow>
                 let azs = ns_Analyzers (h_networks (sto_heap s) ! n) in
                 if idx < 0 \<or> idx \<ge> int (length azs) then Inl NoAnalyzerAtIndex
                 else Inr (n, azs ! nat idx)))
      | _ \<Rightarrow> Inl UnexpectedFormat)"

record TangleveilCollector =
  tv_only :: "(string, bool) gomap"
  tv_nodes :: bool
  tv_obs :: bool
  tv_links :: bool
  tv_routes :: "(string, Collector) gomap"

text \<open>\<open>len(t.only) > 0 && !t.only[netID]\<close> for a mapping that names a network.\<close>

definition filteredOut :: "TangleveilCollector \<Rightarrow> string \<Rightarrow> bool" where
  "filteredOut t mapping = (case mappingNetworkID mapping of None \<Rightarrow> False
     | Some netID \<Rightarrow> mlen (tv_only t) > 0 \<and> \<not> mhas (tv_only t) netID)"

definition addRoute :: "TangleveilCollector \<Rightarrow> Store \<Rightarrow> tvSource \<Rightarrow> (string, Collector) gomap \<Rightarrow> (string, Collector) gomap" where
  "addRoute t s src routes =
     (if filteredOut t (tvs_Mapping src) then routes
      else (case resolveMapping s (tvs_Mapping src) of Inl _ \<Rightarrow> routes
        | Inr (n, a) \<Rightarrow> mput routes (tvs_ID src)
            \<lparr>col_net = n, col_az = a, col_nodes = tv_nodes t, col_observers = tv_obs t, col_links = tv_links t\<rparr>))"

definition fetchRoutes :: "json option \<Rightarrow> Store \<Rightarrow> TangleveilCollector \<Rightarrow> (string, Collector) gomap option" where
  "fetchRoutes body s t = do {
     body \<leftarrow> body;
     sources \<leftarrow> dec_slice dec_source body;
     let routes = fold (addRoute t s) sources mempty;
     if mlen routes = 0 then None else Some routes }"

definition RefreshRoutes :: "json option \<Rightarrow> Store \<Rightarrow> TangleveilCollector \<Rightarrow> TangleveilCollector option" where
  "RefreshRoutes body s t = map_option (\<lambda>routes. t\<lparr>tv_routes := routes\<rparr>) (fetchRoutes body s t)"

record url =
  u_Scheme :: string
  u_Host :: string
  u_Path :: string
  u_RawQuery :: string

definition wsToHTTP :: "(string \<Rightarrow> url option) \<Rightarrow> string \<Rightarrow> url option" where
  "wsToHTTP parse wsURL = (case parse wsURL of None \<Rightarrow> None
     | Some u \<Rightarrow>
         (if u_Scheme u = ''wss'' then Some (u\<lparr>u_Scheme := ''https'', u_Path := '''', u_RawQuery := ''''\<rparr>)
          else if u_Scheme u = ''ws'' then Some (u\<lparr>u_Scheme := ''http'', u_Path := '''', u_RawQuery := ''''\<rparr>)
          else None))"

definition NewTangleveilCollector ::
  "(string \<Rightarrow> url option) \<Rightarrow> string \<Rightarrow> json option \<Rightarrow> Store \<Rightarrow> (string, bool) gomap \<Rightarrow> bool \<Rightarrow> bool \<Rightarrow> bool
     \<Rightarrow> TangleveilCollector option" where
  "NewTangleveilCollector parse wsURL body s only nodes obs links = do {
     base \<leftarrow> wsToHTTP parse wsURL;
     RefreshRoutes body s
       \<lparr>tv_only = only, tv_nodes = nodes, tv_obs = obs, tv_links = links, tv_routes = mempty\<rparr> }"

definition RouteCount :: "TangleveilCollector \<Rightarrow> nat" where
  "RouteCount t = mlen (tv_routes t)"

subsection \<open>Messages\<close>

record tvEnvelope =
  te_Source :: string
  te_Payload :: "json option"

definition dec_tvEnvelope :: "json \<Rightarrow> tvEnvelope option" where
  "dec_tvEnvelope = dec_struct \<lparr>te_Source = '''', te_Payload = None\<rparr> (\<lambda>fs. do {
     s \<leftarrow> dec_field ''source'' dec_string '''' fs;
     Some \<lparr>te_Source = s, te_Payload = raw_field ''payload'' fs None\<rparr> })"

definition tv_handle :: "meshpkt \<Rightarrow> TangleveilCollector \<Rightarrow> unix_time \<times> json option \<Rightarrow> System \<Rightarrow> System option" where
  "tv_handle M t msg st = (case msg of (now, data) \<Rightarrow>
     (case Option.bind data dec_tvEnvelope of
        None \<Rightarrow> Some (decode_error ''tv_envelope_json'' st)
      | Some env \<Rightarrow>
          (case te_Payload env of None \<Rightarrow> Some st
           | Some payload \<Rightarrow>
               (case mget (tv_routes t) (te_Source env) of
                  None \<Rightarrow> Some st
                | Some col \<Rightarrow> handle M now col (Some payload) st))))"

subsection \<open>Connection status\<close>

definition on_system_heap :: "(heap \<Rightarrow> heap) \<Rightarrow> System \<Rightarrow> System" where
  "on_system_heap f st = st\<lparr>sy_heap := f (sy_heap st)\<rparr>"

definition routesSnapshot :: "TangleveilCollector \<Rightarrow> Collector list" where
  "routesSnapshot t = map snd (mentries (tv_routes t))"

definition markDisconnected :: "string \<Rightarrow> Collector \<Rightarrow> System \<Rightarrow> System" where
  "markDisconnected errMsg col st =
     (let st = on_system_heap (on_analyzer (setDisconnected errMsg) (col_az col)) st
      in st\<lparr>sy_metrics := setAnalyzerConnected (networkID col st) (analyzerName col st) False (sy_metrics st)\<rparr>)"

definition markAllDisconnected :: "string \<Rightarrow> TangleveilCollector \<Rightarrow> System \<Rightarrow> System" where
  "markAllDisconnected errMsg t = fold (markDisconnected errMsg) (routesSnapshot t)"

definition markConnected :: "unix_time \<Rightarrow> Collector \<Rightarrow> System \<Rightarrow> System" where
  "markConnected now col st =
     (let st = on_system_heap (on_analyzer (setConnected now) (col_az col)) st;
          m = setAnalyzerConnected (networkID col st) (analyzerName col st) True (sy_metrics st)
      in st\<lparr>sy_metrics := incAnalyzerReconnect (networkID col st) (analyzerName col st) m\<rparr>)"

subsection \<open>The reconnect loop\<close>

text \<open>One connection: the time of the dial if it succeeded, the messages read before the error.\<close>

record connection =
  cn_dialed :: "unix_time option"
  cn_messages :: "(unix_time \<times> json option) list"
  cn_error :: string

primrec readLoop :: "meshpkt \<Rightarrow> TangleveilCollector \<Rightarrow> (unix_time \<times> json option) list \<Rightarrow> System \<Rightarrow> System option" where
  "readLoop M t [] st = Some st"
| "readLoop M t (msg # msgs) st = do { st \<leftarrow> tv_handle M t msg st; readLoop M t msgs st }"

definition connectAndRead :: "meshpkt \<Rightarrow> TangleveilCollector \<Rightarrow> connection \<Rightarrow> System \<Rightarrow> System option" where
  "connectAndRead M t cn st =
     (case cn_dialed cn of None \<Rightarrow> Some st
      | Some now \<Rightarrow> do {
          st \<leftarrow> readLoop M t (cn_messages cn) (fold (markConnected now) (routesSnapshot t) st);
          Some (markAllDisconnected '''' t st) })"

definition maxBackoff :: duration where
  "maxBackoff = 30 * seconds"

definition nextBackoff :: "duration \<Rightarrow> duration" where
  "nextBackoff backoff =
     (if backoff < maxBackoff
      then (let backoff = backoff * 2 in if backoff > maxBackoff then maxBackoff else backoff)
      else backoff)"

text \<open>The heap of the store is the system's heap; a store value holds its two tables.\<close>

definition current_store :: "Store \<Rightarrow> System \<Rightarrow> Store" where
  "current_store s st = s\<lparr>sto_heap := sy_heap st\<rparr>"

definition refreshed_routes :: "json option \<Rightarrow> Store \<Rightarrow> TangleveilCollector \<Rightarrow> TangleveilCollector" where
  "refreshed_routes sources s t = (case RefreshRoutes sources s t of None \<Rightarrow> t | Some t' \<Rightarrow> t')"

text \<open>One tick of \<open>refreshNetworks\<close> of main.go.\<close>

record refresh_input =
  rf_response :: "(int \<times> json option) option"
  rf_sources :: "json option"

definition refresh_tick :: "(json \<Rightarrow> string) \<Rightarrow> (string, bool) gomap \<Rightarrow> refresh_input
     \<Rightarrow> TangleveilCollector \<times> Store \<times> System \<Rightarrow> TangleveilCollector \<times> Store \<times> System" where
  "refresh_tick sprint networkFilter rf x = (case x of (t, s, st) \<Rightarrow>
     (case LoadNetworks sprint (rf_response rf) of None \<Rightarrow> (t, s, st)
      | Some configs \<Rightarrow>
          if ValidateNetworkFilter networkFilter (NewStore configs) \<noteq> None then (t, s, st)
          else (let s = store_Update configs (current_store s st);
                    st = st\<lparr>sy_heap := sto_heap s, sy_metrics := InitMetrics s (sy_metrics st)\<rparr>
                in (refreshed_routes (rf_sources rf) s t, s, st))))"

text \<open>One round of \<open>Run\<close>: connect and read until the error, mark everything disconnected, wait for the
  backoff (meanwhile the catalogue may be refreshed), refresh the routes or keep them. The rounds end
  with the context. The last result is the list of waits.\<close>

record round_input =
  rd_connection :: connection
  rd_ticks :: "refresh_input list"
  rd_sources :: "json option"

definition run_round :: "meshpkt \<Rightarrow> (json \<Rightarrow> string) \<Rightarrow> (string, bool) gomap \<Rightarrow> round_input
     \<Rightarrow> TangleveilCollector \<times> Store \<times> System \<Rightarrow> (TangleveilCollector \<times> Store \<times> System) option" where
  "run_round M sprint flt rd x = (case x of (t, s, st) \<Rightarrow> do {
     st \<leftarrow> connectAndRead M t (rd_connection rd) st;
     let st = markAllDisconnected (cn_error (rd_connection rd)) t st;
     let (t, s, st) = fold (refresh_tick sprint flt) (rd_ticks rd) (t, s, st);
     Some (refreshed_routes (rd_sources rd) (current_store s st) t, s, st) })"

primrec run_rounds :: "meshpkt \<Rightarrow> (json \<Rightarrow> string) \<Rightarrow> (string, bool) gomap \<Rightarrow> round_input list \<Rightarrow> duration
     \<Rightarrow> TangleveilCollector \<times> Store \<times> System \<Rightarrow> ((TangleveilCollector \<times> Store \<times> System) \<times> duration list) option" where
  "run_rounds M sprint flt [] backoff x = Some (x, [])"
| "run_rounds M sprint flt (rd # rds) backoff x = do {
     y \<leftarrow> run_round M sprint flt rd x;
     (z, waits) \<leftarrow> run_rounds M sprint flt rds (nextBackoff backoff) y;
     Some (z, backoff # waits) }"

definition tv_Run :: "meshpkt \<Rightarrow> (json \<Rightarrow> string) \<Rightarrow> (string, bool) gomap \<Rightarrow> round_input list
     \<Rightarrow> TangleveilCollector \<times> Store \<times> System \<Rightarrow> ((TangleveilCollector \<times> Store \<times> System) \<times> duration list) option" where
  "tv_Run M sprint flt rds x = run_rounds M sprint flt rds seconds x"

subsection \<open>Routes\<close>

lemma resolveMapping_Inr:
  "resolveMapping s mapping = Inr (n, a) \<Longrightarrow> \<exists>netID index idx. splitn2 (CHR '':'') mapping = [netID, index]
     \<and> atoi index = Some idx \<and> store_Network s netID = Some n \<and> 0 \<le> idx
     \<and> nat idx < length (ns_Analyzers (h_networks (sto_heap s) ! n))
     \<and> a = ns_Analyzers (h_networks (sto_heap s) ! n) ! nat idx"
  by (auto simp: resolveMapping_def Let_def split: list.splits option.splits if_splits)

definition routed :: "TangleveilCollector \<Rightarrow> Store \<Rightarrow> tvSource \<Rightarrow> Collector option" where
  "routed t s src = (if filteredOut t (tvs_Mapping src) then None
     else (case resolveMapping s (tvs_Mapping src) of Inl _ \<Rightarrow> None
       | Inr (n, a) \<Rightarrow> Some \<lparr>col_net = n, col_az = a, col_nodes = tv_nodes t, col_observers = tv_obs t, col_links = tv_links t\<rparr>))"

lemma addRoute_routed: "addRoute t s src routes = (case routed t s src of None \<Rightarrow> routes | Some col \<Rightarrow> mput routes (tvs_ID src) col)"
  by (auto simp: addRoute_def routed_def split: sum.split prod.split)

lemma fold_addRoute:
  "mget (fold (addRoute t s) srcs m) k = Some col \<Longrightarrow>
     mget m k = Some col \<or> (\<exists>src\<in>set srcs. tvs_ID src = k \<and> routed t s src = Some col)"
proof (induction srcs arbitrary: m)
  case (Cons src srcs)
  from Cons.IH [of "addRoute t s src m"] Cons.prems show ?case
    by (auto simp: addRoute_routed gomap split: option.splits if_splits)
qed simp

lemma fold_addRoute_mono:
  "mget m k \<noteq> None \<Longrightarrow> mget (fold (addRoute t s) srcs m) k \<noteq> None"
proof (induction srcs arbitrary: m)
  case (Cons src srcs)
  then show ?case using Cons.IH [of "addRoute t s src m"] by (simp add: addRoute_routed gomap split: option.split)
qed simp

lemma fold_addRoute_complete:
  "src \<in> set srcs \<Longrightarrow> routed t s src \<noteq> None \<Longrightarrow> mget (fold (addRoute t s) srcs m) (tvs_ID src) \<noteq> None"
proof (induction srcs arbitrary: m)
  case (Cons a srcs)
  show ?case
  proof (cases "a = src")
    case True
    then show ?thesis using Cons.prems(2) fold_addRoute_mono [of "addRoute t s src m" "tvs_ID src" t s srcs]
      by (auto simp: addRoute_routed [of t s src] gomap)
  next
    case False
    then show ?thesis using Cons by simp
  qed
qed simp

lemma routed_ok:
  assumes "wf_store s" "routed t s src = Some col"
  shows "col_ok s col \<and> (mlen (tv_only t) > 0 \<longrightarrow> mhas (tv_only t) (ns_ID (h_networks (sto_heap s) ! col_net col)))"
proof -
  obtain n a where r: "resolveMapping s (tvs_Mapping src) = Inr (n, a)" "col_net col = n" "col_az col = a"
    "\<not> filteredOut t (tvs_Mapping src)"
    using assms(2) by (auto simp: routed_def split: if_splits sum.splits prod.splits)
  obtain netID index idx where m: "splitn2 (CHR '':'') (tvs_Mapping src) = [netID, index]" "store_Network s netID = Some n"
    "nat idx < length (ns_Analyzers (h_networks (sto_heap s) ! n))" "a = ns_Analyzers (h_networks (sto_heap s) ! n) ! nat idx"
    using resolveMapping_Inr [OF r(1)] by blast
  have n: "n \<in> set (sto_Networks s)" "ns_ID (h_networks (sto_heap s) ! n) = netID"
    using assms(1) m(2) by (auto simp: wf_store_def store_Network_def)
  show ?thesis using r m n by (auto simp: col_ok_def filteredOut_def mappingNetworkID_def)
qed

text \<open>C31: a successful refresh of the routes gives a non-empty table in which every collector points at
  a network and one of that network's analyzers as the store has them now, the network being one of
  the configured ones if any are configured; every source that names such a pair is routed; and
  the refresh fails exactly when the answer is unusable or no source is.\<close>

theorem routes_follow_store:
  assumes "reachable s"
  shows "(\<forall>t'. RefreshRoutes body s t = Some t' \<longrightarrow> RouteCount t' > 0
      \<and> (\<forall>k col. mget (tv_routes t') k = Some col \<longrightarrow> col_ok s col
          \<and> (mlen (tv_only t) > 0 \<longrightarrow> mhas (tv_only t) (ns_ID (h_networks (sto_heap s) ! col_net col)))))
    \<and> (\<forall>js srcs. body = Some (JArr js) \<and> those (map dec_source js) = Some srcs \<longrightarrow>
        (RefreshRoutes body s t = None \<longleftrightarrow> (\<forall>src\<in>set srcs. routed t s src = None))
        \<and> (\<forall>t' src. RefreshRoutes body s t = Some t' \<and> src \<in> set srcs \<and> routed t s src \<noteq> None \<longrightarrow>
             mget (tv_routes t') (tvs_ID src) \<noteq> None))"
proof (intro conjI allI impI)
  fix t' assume "RefreshRoutes body s t = Some t'"
  then obtain srcs where t': "t' = t\<lparr>tv_routes := fold (addRoute t s) srcs mempty\<rparr>"
    "mlen (fold (addRoute t s) srcs mempty) \<noteq> 0"
    by (auto simp: RefreshRoutes_def fetchRoutes_def Let_def split: bind_splits if_splits)
  then show "RouteCount t' > 0" by (simp add: RouteCount_def)
  fix k col assume "mget (tv_routes t') k = Some col"
  then obtain src where "routed t s src = Some col"
    using fold_addRoute [of t s srcs mempty k col] t' by auto
  from routed_ok [OF reachable_wf [OF assms] this]
  show "col_ok s col" and "mlen (tv_only t) > 0 \<Longrightarrow> mhas (tv_only t) (ns_ID (h_networks (sto_heap s) ! col_net col))"
    by auto
next
  fix js srcs assume b: "body = Some (JArr js) \<and> those (map dec_source js) = Some srcs"
  have eq: "RefreshRoutes body s t = (if mlen (fold (addRoute t s) srcs mempty) = 0 then None
      else Some (t\<lparr>tv_routes := fold (addRoute t s) srcs mempty\<rparr>))"
    using b by (simp add: RefreshRoutes_def fetchRoutes_def Let_def)
  have "mlen (fold (addRoute t s) srcs mempty) = 0 \<longleftrightarrow> (\<forall>src\<in>set srcs. routed t s src = None)"
  proof
    assume "mlen (fold (addRoute t s) srcs mempty) = 0"
    then have "fold (addRoute t s) srcs mempty = mempty" by (simp add: mlen_0_iff)
    then show "\<forall>src\<in>set srcs. routed t s src = None"
      using fold_addRoute_complete [of _ srcs t s mempty] by fastforce
  next
    assume none: "\<forall>src\<in>set srcs. routed t s src = None"
    have "fold (addRoute t s) srcs m = m" if "\<forall>src\<in>set srcs. routed t s src = None" for m
      using that by (induction srcs arbitrary: m) (simp_all add: addRoute_routed)
    then show "mlen (fold (addRoute t s) srcs mempty) = 0" using none by simp
  qed
  then show "RefreshRoutes body s t = None \<longleftrightarrow> (\<forall>src\<in>set srcs. routed t s src = None)" by (simp add: eq)
  fix t' src assume "RefreshRoutes body s t = Some t' \<and> src \<in> set srcs \<and> routed t s src \<noteq> None"
  then show "mget (tv_routes t') (tvs_ID src) \<noteq> None"
    using fold_addRoute_complete [of src srcs t s mempty] by (auto simp: eq split: if_splits)
qed

subsection \<open>Backoff and status\<close>

lemma waits_closed:
  assumes "run_rounds M sprint flt rds (min (2 ^ k * seconds) maxBackoff) x = Some (z, waits)"
  shows "waits = map (\<lambda>i. min (2 ^ (k + i) * seconds) maxBackoff) [0..<length rds]"
  using assms
proof (induction rds arbitrary: k x z waits)
  case (Cons rd rds)
  have next_k: "nextBackoff (min (2 ^ k * seconds) maxBackoff) = min (2 ^ Suc k * seconds) maxBackoff"
    by (auto simp: nextBackoff_def maxBackoff_def Let_def min_def)
  obtain y ws where y: "run_rounds M sprint flt rds (min (2 ^ Suc k * seconds) maxBackoff) y = Some (z, ws)"
    "waits = min (2 ^ k * seconds) maxBackoff # ws"
    using Cons.prems unfolding run_rounds.simps next_k by (auto split: bind_splits prod.splits)
  show ?case
    unfolding y(2) Cons.IH [OF y(1)] length_Cons upt_conv_Cons [OF zero_less_Suc] list.map
    by (simp add: map_Suc_upt [symmetric] comp_def del: upt_Suc)
qed simp

text \<open>The waits between connections double from one second to the cap of thirty and stay there: the
  wait before the (i+1)-th reconnect depends on the number of connections only, so that connections
  that succeeded and worked for any time never shorten it.\<close>

theorem backoff_never_resets:
  assumes "tv_Run M sprint flt rds x = Some (z, waits)"
  shows "waits = map (\<lambda>i. min (2 ^ i * seconds) maxBackoff) [0..<length rds]"
  using waits_closed [of M sprint flt rds 0 x z waits] assms by (simp add: tv_Run_def maxBackoff_def)

lemma mark_keeps:
  "h_networks (sy_heap (markDisconnected err col st)) = h_networks (sy_heap st)"
  "h_counters (sy_heap (markDisconnected err col st)) = h_counters (sy_heap st)"
  "length (h_analyzers (sy_heap (markDisconnected err col st))) = length (h_analyzers (sy_heap st))"
  by (simp_all add: markDisconnected_def on_system_heap_def on_analyzer_def Let_def)

definition shows_disconnected :: "string \<Rightarrow> 'c AnalyzerState \<Rightarrow> bool" where
  "shows_disconnected err a \<longleftrightarrow> az_status a = (False, 0, err)"

lemma mark_disconnects:
  "err \<noteq> '''' \<Longrightarrow> a < length (h_analyzers (sy_heap st)) \<Longrightarrow>
     a = col_az col \<or> shows_disconnected err (h_analyzers (sy_heap st) ! a) \<Longrightarrow>
     shows_disconnected err (h_analyzers (sy_heap (markDisconnected err col st)) ! a)"
  by (cases "a = col_az col")
    (auto simp: markDisconnected_def on_system_heap_def on_analyzer_def shows_disconnected_def az_status_def
      setDisconnected_def Let_def)

lemma fold_mark_keeps:
  "length (h_analyzers (sy_heap (fold (markDisconnected err) cols st))) = length (h_analyzers (sy_heap st))"
  by (induction cols arbitrary: st) (simp_all add: mark_keeps)

lemma fold_mark_disconnects:
  assumes "err \<noteq> ''''" "a < length (h_analyzers (sy_heap st))"
    "a \<in> col_az ` set cols \<or> shows_disconnected err (h_analyzers (sy_heap st) ! a)"
  shows "shows_disconnected err (h_analyzers (sy_heap (fold (markDisconnected err) cols st)) ! a)"
  using assms
proof (induction cols arbitrary: st)
  case (Cons col cols)
  show ?case
    using Cons.IH [of "markDisconnected err col st"] Cons.prems mark_disconnects [of err a st col]
    by (auto simp: mark_keeps)
qed simp

lemma addAnalyzers_extends: "addAnalyzers old acs h = (ps, h') \<Longrightarrow> extends h h'"
proof (induction acs arbitrary: h ps)
  case (Cons ac acs)
  then obtain qs where "addAnalyzers old acs (snd (new_analyzer (analyzerFor old ac (length (h_counters h))
      (snd (new_counter h))) (snd (new_counter h)))) = (qs, h')"
    by (auto simp: new_counter_def new_analyzer_def Let_def split: prod.splits)
  from Cons.IH [OF this] show ?case
    by (rule extends_trans [rotated]) (auto simp: extends_def new_counter_def new_analyzer_def)
qed simp

lemma addNetworkState_extends: "addNetworkState byID nc h = (p, h') \<Longrightarrow> extends h h'"
proof -
  assume add: "addNetworkState byID nc h = (p, h')"
  obtain old c azs h1 where h1: "addAnalyzers old (nc_Analyzers nc) (snd (new_counter h)) = (azs, h1)"
    "h' = snd (new_network \<lparr>ns_ID = nc_ID nc, ns_Name = nc_Name nc, ns_Countries = nc_Countries nc,
           ns_Regions = nc_Regions nc, ns_Counter = c, ns_Analyzers = azs\<rparr> h1)"
    using add by (auto simp: addNetworkState_def new_counter_def Let_def new_network_def split: prod.splits)
  have "extends h (snd (new_counter h))" "extends h1 h'"
    using h1(2) by (auto simp: extends_def new_counter_def new_network_def)
  then show ?thesis using addAnalyzers_extends [OF h1(1)] extends_trans by blast
qed

lemma store_Update_extends: "extends (sto_heap s) (sto_heap (store_Update ncs s))"
proof -
  have "extends h (sto_heap (addNetworkStates byID0 ncs h ps byID))" for byID0 h ps byID
  proof (induction ncs arbitrary: h ps byID)
    case (Cons nc ncs)
    obtain p h' where "addNetworkState byID0 nc h = (p, h')" by fastforce
    then show ?case using Cons.IH [of h'] addNetworkState_extends extends_trans by fastforce
  qed simp
  then show ?thesis by (simp add: store_Update_def)
qed

lemma ticks_extend:
  "extends (sy_heap st) (sy_heap (snd (snd (fold (refresh_tick sprint flt) rfs (t, s, st)))))"
proof (induction rfs arbitrary: t s st)
  case (Cons rf rfs)
  obtain t1 s1 st1 where x: "refresh_tick sprint flt rf (t, s, st) = (t1, s1, st1)" using prod_cases3 by blast
  have "extends (sy_heap st) (sy_heap st1)"
    using x store_Update_extends [of "current_store s st"]
    by (auto simp: refresh_tick_def current_store_def Let_def split: option.splits if_splits)
  then show ?case using Cons.IH [of st1 t1 s1] extends_trans by (auto simp: x)
qed simp

lemma handle_analyzers:
  assumes "handle M now col data st = Some st'"
  shows "h_analyzers (sy_heap st') = h_analyzers (sy_heap st)"
proof -
  have "Some (sy_heap st') = (case frame_event M now data of
     None \<Rightarrow> Some (sy_heap st) | Some ev \<Rightarrow> network_Observe (col_net col) (col_az col) ev (sy_heap st))"
    using handle_heap [of M now col data st] assms by simp
  then show ?thesis
    by (auto simp: network_Observe_def dest!: sym [of "Some (sy_heap st')"] observe_at_simps split: option.splits bind_splits)
qed

lemma readLoop_analyzers:
  "readLoop M t msgs st = Some st' \<Longrightarrow> h_analyzers (sy_heap st') = h_analyzers (sy_heap st)"
proof (induction msgs arbitrary: st)
  case (Cons msg msgs)
  obtain st1 where st1: "tv_handle M t msg st = Some st1" "readLoop M t msgs st1 = Some st'"
    using Cons.prems by (auto split: bind_splits)
  have "h_analyzers (sy_heap st1) = h_analyzers (sy_heap st)"
    using st1(1) handle_analyzers by (auto simp: tv_handle_def decode_error_def split: prod.splits option.splits)
  then show ?case using Cons.IH [OF st1(2)] by simp
qed simp

lemma fold_connect_keeps:
  "length (h_analyzers (sy_heap (fold (markConnected now) cols st))) = length (h_analyzers (sy_heap st))"
  by (induction cols arbitrary: st) (simp_all add: markConnected_def on_system_heap_def on_analyzer_def Let_def)

lemma connectAndRead_analyzers:
  "connectAndRead M t cn st = Some st' \<Longrightarrow> length (h_analyzers (sy_heap st')) = length (h_analyzers (sy_heap st))"
  by (auto simp: connectAndRead_def markAllDisconnected_def fold_mark_keeps fold_connect_keeps
      dest!: readLoop_analyzers split: option.splits bind_splits)


definition ex_sources :: "json option" where
  "ex_sources = Some (JArr [JObj [(''id'', JStr ''s1''), (''mapping'', JStr ''cz:1'')],
     JObj [(''id'', JStr ''s2''), (''mapping'', JStr ''cz:2'')]])"

definition ex_tv :: TangleveilCollector where
  "ex_tv = \<lparr>tv_only = mput mempty ''cz'' True, tv_nodes = True, tv_obs = True, tv_links = True,
     tv_routes = mput mempty ''s1'' (ex_col 1)\<rparr>"

lemma ex_refresh: "map_option RouteCount (RefreshRoutes ex_sources ex_new_store ex_tv) = Some 1"
  by code_simp

lemma ex_new_store_reachable: "reachable ex_new_store"
  unfolding ex_new_store_def by (rule reachable.new) (simp add: valid_configs_def ex_net_def)

lemma routes_follow_store_witness:
  "\<exists>t'. RefreshRoutes ex_sources ex_new_store ex_tv = Some t' \<and> RouteCount t' = 1
     \<and> (\<forall>k col. mget (tv_routes t') k = Some col \<longrightarrow> col_ok ex_new_store col)"
proof -
  obtain t' where "RefreshRoutes ex_sources ex_new_store ex_tv = Some t'" "RouteCount t' = 1"
    using ex_refresh by auto
  then show ?thesis using conjunct1 [OF routes_follow_store [OF ex_new_store_reachable, of ex_sources ex_tv]] by blast
qed

definition ex_round :: round_input where
  "ex_round = \<lparr>rd_connection = \<lparr>cn_dialed = Some 5, cn_messages = [(6, None)], cn_error = ''reset''\<rparr>,
     rd_ticks = [], rd_sources = None\<rparr>"

lemma ex_round_runs:
  "\<exists>t' s' st'. run_round ex_meshpkt ex_sprint mempty ex_round (ex_tv, ex_new_store, ex_system) = Some (t', s', st')"
  by (simp add: run_round_def ex_round_def connectAndRead_def tv_handle_def Let_def split_beta)

lemma backoff_never_resets_witness:
  "\<exists>z waits. tv_Run ex_meshpkt ex_sprint mempty [ex_round] (ex_tv, ex_new_store, ex_system) = Some (z, waits)
     \<and> waits = [seconds]"
proof -
  obtain z waits where run: "tv_Run ex_meshpkt ex_sprint mempty [ex_round] (ex_tv, ex_new_store, ex_system) = Some (z, waits)"
    using ex_round_runs by (auto simp: tv_Run_def)
  have "waits = [seconds]" using backoff_never_resets [OF run] by (simp add: maxBackoff_def)
  then show ?thesis using run by blast
qed


end
