(* ===== verification/Database.thy ===== *)
theory Database
  imports Telemetry NodeRegistry ObserverRegistry ImportedNodes
begin

text \<open>
  The core database (db.go): the tables as maps from their primary keys, the upserts, inserts and
  queries of the SQL statements row by row, and the cached table sizes. A statement fails when a
  64-bit count does not fit SQLite's signed integer; a transaction that fails, in a statement or at
  its commit, leaves the database as it was. The order of a query without \<open>ORDER BY\<close> is that of the
  table. JSON columns hold JSON values; file handling and schema migrations are not modelled.
\<close>

subsection \<open>JSON columns\<close>

definition enc_strings :: "string list \<Rightarrow> json" where
  "enc_strings xs = JArr (map JStr xs)"

definition dec_strings :: "json \<Rightarrow> string list" where
  "dec_strings j = (case dec_slice dec_string j of Some xs \<Rightarrow> xs | None \<Rightarrow> [])"

definition dec_int64 :: "json \<Rightarrow> int option" where
  "dec_int64 j = (case j of JNull \<Rightarrow> Some 0 | JNum x \<Rightarrow> if x = real_of_int \<lfloor>x\<rfloor> then Some \<lfloor>x\<rfloor> else None | _ \<Rightarrow> None)"

definition dec_uint64 :: "json \<Rightarrow> u64 option" where
  "dec_uint64 j = (case dec_int64 j of Some n \<Rightarrow> if 0 \<le> n \<and> n < 2 ^ 64 then Some (word_of_int n) else None | None \<Rightarrow> None)"

definition enc_int64 :: "int \<Rightarrow> json" where
  "enc_int64 n = JNum (real_of_int n)"

definition enc_uint64 :: "u64 \<Rightarrow> json" where
  "enc_uint64 w = JNum (real_of_int (uint w))"

definition enc_map :: "('v \<Rightarrow> json) \<Rightarrow> (string, 'v) gomap \<Rightarrow> json" where
  "enc_map enc m = JObj (map (\<lambda>(k, v). (k, enc v)) (mentries m))"

definition dec_map :: "(json \<Rightarrow> 'v option) \<Rightarrow> json \<Rightarrow> (string, 'v) gomap" where
  "dec_map dec j = (case j of
     JObj fs \<Rightarrow> fold (\<lambda>(k, j) m. case dec j of Some v \<Rightarrow> mput m k v | None \<Rightarrow> m) fs mempty
   | _ \<Rightarrow> mempty)"

definition marshalFlags :: "string list \<Rightarrow> json" where
  "marshalFlags flags = (if length flags = 0 then JArr [] else enc_strings flags)"

definition b2i :: "bool \<Rightarrow> int" where
  "b2i b = (if b then 1 else 0)"

subsection \<open>Statements and transactions\<close>

text \<open>The driver refuses an unsigned value with the high bit set.\<close>

definition bind_u64 :: "u64 \<Rightarrow> int option" where
  "bind_u64 w = (if uint w < 2 ^ 63 then Some (uint w) else None)"

primrec exec_all :: "('r \<Rightarrow> 't \<Rightarrow> 't option) \<Rightarrow> 'r list \<Rightarrow> 't \<Rightarrow> 't option" where
  "exec_all f [] t = Some t"
| "exec_all f (r # rs) t = do { t \<leftarrow> f r t; exec_all f rs t }"

text \<open>The database after a transaction, and whether it was committed.\<close>

definition transaction :: "bool \<Rightarrow> ('db \<Rightarrow> 'db option) \<Rightarrow> 'db \<Rightarrow> bool \<times> 'db" where
  "transaction commits body db = (case body db of
     None \<Rightarrow> (False, db) | Some db' \<Rightarrow> if commits then (True, db') else (False, db))"

subsection \<open>Tables\<close>

record counterRow =
  cr_observations :: int
  cr_unique_packets :: int
  cr_last_packet_at :: int
  cr_payload_types :: json
  cr_observers :: json
  cr_nodes :: json
  cr_updated_at :: int

record nodeRow =
  nw_name :: string
  nw_node_type :: int
  nw_has_gps :: int
  nw_lat :: float64
  nw_lon :: float64
  nw_first_advert_at :: int
  nw_last_advert_at :: int
  nw_advert_count :: int
  nw_networks :: json
  nw_observer_id :: string
  nw_observer_name :: string
  nw_flags :: json
  nw_updated_at :: int

record advertRow =
  aw_id :: int
  aw_hash :: string
  aw_raw_hex :: string
  aw_pubkey :: string
  aw_name :: string
  aw_node_type :: int
  aw_has_gps :: int
  aw_lat :: float64
  aw_lon :: float64
  aw_advert_time :: int
  aw_received_at :: int
  aw_network_id :: string
  aw_analyzer_name :: string
  aw_observer_id :: string
  aw_observer_name :: string

record observerRow =
  ow_name :: string
  ow_first_seen :: int
  ow_last_seen :: int
  ow_observations :: int
  ow_networks :: json
  ow_updated_at :: int

record DB =
  db_counters :: "(string, counterRow) gomap"
  db_nodes :: "(string, nodeRow) gomap"
  db_adverts :: "advertRow list"
  db_observers :: "(string, observerRow) gomap"
  db_stats :: SQLiteStats

subsection \<open>Counters\<close>

definition save_counter :: "unix_time \<Rightarrow> string \<times> CounterState \<Rightarrow> DB \<Rightarrow> DB option" where
  "save_counter now r db = (case r of (scope, st) \<Rightarrow> do {
     obs \<leftarrow> bind_u64 (st_Observations st);
     uniq \<leftarrow> bind_u64 (st_UniquePackets st);
     Some (db\<lparr>db_counters := mput (db_counters db) scope
       \<lparr>cr_observations = obs, cr_unique_packets = uniq, cr_last_packet_at = st_LastPacketAt st,
        cr_payload_types = enc_map enc_uint64 (st_PayloadTypes st), cr_observers = enc_map enc_int64 (st_Observers st),
        cr_nodes = enc_map enc_int64 (st_Nodes st), cr_updated_at = now\<rparr>\<rparr>) })"

definition db_Save :: "bool \<Rightarrow> (string, CounterState) gomap \<Rightarrow> unix_time \<Rightarrow> DB \<Rightarrow> bool \<times> DB" where
  "db_Save commits states now = transaction commits (exec_all (save_counter now) (mentries states))"

definition load_counter :: "counterRow \<Rightarrow> CounterState" where
  "load_counter r = \<lparr>st_Observations = word_of_int (cr_observations r), st_UniquePackets = word_of_int (cr_unique_packets r),
     st_LastPacketAt = cr_last_packet_at r, st_PayloadTypes = dec_map dec_uint64 (cr_payload_types r),
     st_Observers = dec_map dec_int64 (cr_observers r), st_Nodes = dec_map dec_int64 (cr_nodes r)\<rparr>"

definition db_Load :: "DB \<Rightarrow> (string, CounterState) gomap" where
  "db_Load db = fold (\<lambda>(scope, r) out. mput out scope (load_counter r)) (mentries (db_counters db)) mempty"

subsection \<open>Nodes\<close>

definition save_node :: "unix_time \<Rightarrow> NodeRecord \<Rightarrow> DB \<Rightarrow> DB option" where
  "save_node now n db = do {
     cnt \<leftarrow> bind_u64 (nod_AdvertCount n);
     Some (db\<lparr>db_nodes := mput (db_nodes db) (nod_PubKey n)
       \<lparr>nw_name = nod_Name n, nw_node_type = uint (nod_NodeType n), nw_has_gps = b2i (nod_HasGPS n),
        nw_lat = nod_Lat n, nw_lon = nod_Lon n, nw_first_advert_at = nod_FirstAdvertAt n,
        nw_last_advert_at = nod_LastAdvertAt n, nw_advert_count = cnt, nw_networks = enc_strings (nod_Networks n),
        nw_observer_id = nod_ObserverID n, nw_observer_name = nod_ObserverName n,
        nw_flags = marshalFlags (nod_Flags n), nw_updated_at = now\<rparr>\<rparr>) }"

definition SaveNodes :: "bool \<Rightarrow> NodeRecord list \<Rightarrow> unix_time \<Rightarrow> DB \<Rightarrow> bool \<times> DB" where
  "SaveNodes commits nodes now = transaction commits (exec_all (save_node now) nodes)"

definition load_node :: "string \<times> nodeRow \<Rightarrow> NodeRecord" where
  "load_node kr = (case kr of (pubkey, r) \<Rightarrow>
     \<lparr>nod_PubKey = pubkey, nod_Name = nw_name r, nod_NodeType = word_of_int (nw_node_type r),
      nod_HasGPS = (nw_has_gps r \<noteq> 0), nod_Lat = nw_lat r, nod_Lon = nw_lon r,
      nod_FirstAdvertAt = nw_first_advert_at r, nod_LastAdvertAt = nw_last_advert_at r,
      nod_AdvertCount = word_of_int (nw_advert_count r), nod_Networks = dec_strings (nw_networks r),
      nod_ObserverID = nw_observer_id r, nod_ObserverName = nw_observer_name r, nod_LatestAdverts = [],
      nod_Flags = dec_strings (nw_flags r)\<rparr>)"

definition LoadNodes :: "DB \<Rightarrow> NodeRecord list" where
  "LoadNodes db = map load_node (mentries (db_nodes db))"

subsection \<open>Adverts\<close>

definition nextAdvertId :: "advertRow list \<Rightarrow> int" where
  "nextAdvertId rows = (if rows = [] then 1 else aw_id (last rows) + 1)"

definition insert_advert :: "AdvertObservation \<Rightarrow> DB \<Rightarrow> DB option" where
  "insert_advert a db = Some (db\<lparr>db_adverts := db_adverts db @
     [\<lparr>aw_id = nextAdvertId (db_adverts db), aw_hash = ao_Hash a, aw_raw_hex = ao_RawHex a, aw_pubkey = ao_PubKey a,
       aw_name = ao_Name a, aw_node_type = uint (ao_NodeType a), aw_has_gps = b2i (ao_HasGPS a), aw_lat = ao_Lat a,
       aw_lon = ao_Lon a, aw_advert_time = ao_AdvertTime a, aw_received_at = ao_At a, aw_network_id = ao_NetworkID a,
       aw_analyzer_name = ao_AnalyzerName a, aw_observer_id = ao_ObserverID a, aw_observer_name = ao_ObserverName a\<rparr>]\<rparr>)"

definition AppendAdverts :: "bool \<Rightarrow> AdvertObservation list \<Rightarrow> DB \<Rightarrow> bool \<times> DB" where
  "AppendAdverts commits adverts db =
     (if length adverts = 0 then (True, db)
      else (case transaction commits (exec_all insert_advert adverts) db of
          (False, db) \<Rightarrow> (False, db)
        | (True, db) \<Rightarrow> (True, db\<lparr>db_stats := (db_stats db)\<lparr>sq_Adverts := sq_Adverts (db_stats db) + int (length adverts)\<rparr>\<rparr>)))"

definition load_advert :: "advertRow \<Rightarrow> AdvertObservation" where
  "load_advert r = \<lparr>ao_Hash = aw_hash r, ao_RawHex = aw_raw_hex r, ao_PubKey = aw_pubkey r, ao_Name = aw_name r,
     ao_NodeType = word_of_int (aw_node_type r), ao_HasGPS = (aw_has_gps r \<noteq> 0), ao_Lat = aw_lat r, ao_Lon = aw_lon r,
     ao_AdvertTime = aw_advert_time r, ao_At = aw_received_at r, ao_NetworkID = aw_network_id r,
     ao_AnalyzerName = aw_analyzer_name r, ao_ObserverID = aw_observer_id r, ao_ObserverName = aw_observer_name r\<rparr>"

text \<open>\<open>ORDER BY id DESC LIMIT n\<close>: ids ascend in the table; a negative limit is none.\<close>

definition newest_first :: "int \<Rightarrow> advertRow list \<Rightarrow> advertRow list" where
  "newest_first limit rows = (if limit < 0 then rev rows else take (nat limit) (rev rows))"

definition LoadRecentAdverts :: "string list \<Rightarrow> int \<Rightarrow> DB \<Rightarrow> (string, AdvertObservation list) gomap" where
  "LoadRecentAdverts pubkeys perNode db =
     (if perNode \<le> 0 \<or> length pubkeys = 0 then mempty
      else fold (\<lambda>pubkey out. if pubkey = '''' then out
        else fold (\<lambda>r out. mput out (aw_pubkey r)
               ((case mget out (aw_pubkey r) of Some as \<Rightarrow> as | None \<Rightarrow> []) @ [load_advert r]))
             (newest_first perNode (filter (\<lambda>r. aw_pubkey r = pubkey) (db_adverts db))) out) pubkeys mempty)"

definition AdvertsForNode :: "string \<Rightarrow> int \<Rightarrow> int \<Rightarrow> DB \<Rightarrow> AdvertObservation list \<times> int" where
  "AdvertsForNode pubkey limit before db =
     (let rows = newest_first limit (filter (\<lambda>r. aw_pubkey r = pubkey \<and> (before > 0 \<longrightarrow> aw_id r < before)) (db_adverts db))
      in (map load_advert rows, if rows = [] then 0 else aw_id (last rows)))"

record NetworkAdvertStat =
  nas_NetworkID :: string
  nas_Adverts :: int
  nas_FirstAt :: int
  nas_LastAt :: int

record DailyAdvertStat =
  das_Day :: int
  das_Adverts :: int

text \<open>\<open>GROUP BY\<close>: the groups of the distinct keys, in the order of their first rows.\<close>

definition group_by :: "('r \<Rightarrow> 'k) \<Rightarrow> 'r list \<Rightarrow> ('k \<times> 'r list) list" where
  "group_by key rows = map (\<lambda>k. (k, filter (\<lambda>r. key r = k) rows)) (remdups (map key rows))"

definition NetworkAdvertStatsForNode :: "string \<Rightarrow> DB \<Rightarrow> NetworkAdvertStat list" where
  "NetworkAdvertStatsForNode pubkey db =
     sort_by (\<lambda>a b. nas_LastAt a > nas_LastAt b)
       (map (\<lambda>(net, rs). \<lparr>nas_NetworkID = net, nas_Adverts = int (length rs),
              nas_FirstAt = Min (set (map aw_received_at rs)), nas_LastAt = Max (set (map aw_received_at rs))\<rparr>)
         (group_by aw_network_id (filter (\<lambda>r. aw_pubkey r = pubkey) (db_adverts db))))"

definition DailyAdvertStatsForNode :: "string \<Rightarrow> int \<Rightarrow> DB \<Rightarrow> DailyAdvertStat list" where
  "DailyAdvertStatsForNode pubkey since db =
     sort_by (by_key das_Day)
       (map (\<lambda>(day, rs). \<lparr>das_Day = day, das_Adverts = int (length rs)\<rparr>)
         (group_by (\<lambda>r. go_div (aw_received_at r) 86400 * 86400)
           (filter (\<lambda>r. aw_pubkey r = pubkey \<and> aw_received_at r \<ge> since) (db_adverts db))))"

subsection \<open>Observers\<close>

definition save_observer :: "unix_time \<Rightarrow> ObserverRecord \<Rightarrow> DB \<Rightarrow> DB option" where
  "save_observer now ob db = do {
     cnt \<leftarrow> bind_u64 (or_Observations ob);
     Some (db\<lparr>db_observers := mput (db_observers db) (or_ObserverID ob)
       \<lparr>ow_name = or_Name ob, ow_first_seen = or_FirstSeen ob, ow_last_seen = or_LastSeen ob, ow_observations = cnt,
        ow_networks = enc_strings (or_Networks ob), ow_updated_at = now\<rparr>\<rparr>) }"

definition SaveObservers :: "bool \<Rightarrow> ObserverRecord list \<Rightarrow> unix_time \<Rightarrow> DB \<Rightarrow> bool \<times> DB" where
  "SaveObservers commits observers now = transaction commits (exec_all (save_observer now) observers)"

definition load_observer :: "string \<times> observerRow \<Rightarrow> ObserverRecord" where
  "load_observer kr = (case kr of (i, r) \<Rightarrow>
     \<lparr>or_ObserverID = i, or_Name = ow_name r, or_FirstSeen = ow_first_seen r, or_LastSeen = ow_last_seen r,
      or_Observations = word_of_int (ow_observations r), or_Networks = dec_strings (ow_networks r)\<rparr>)"

definition LoadObservers :: "DB \<Rightarrow> ObserverRecord list" where
  "LoadObservers db = map load_observer (mentries (db_observers db))"

subsection \<open>JSON columns come back\<close>

lemma dec_enc_strings [simp]: "dec_strings (enc_strings xs) = xs"
proof -
  have "those (map dec_string (map JStr xs)) = Some xs" by (induction xs) auto
  then show ?thesis by (simp add: dec_strings_def enc_strings_def)
qed

lemma dec_marshalFlags [simp]: "dec_strings (marshalFlags xs) = xs"
  using dec_enc_strings [of xs] dec_enc_strings [of "[]"] by (auto simp: marshalFlags_def enc_strings_def)

lemma dec_enc_int64 [simp]: "dec_int64 (enc_int64 n) = Some n"
  by (simp add: dec_int64_def enc_int64_def)

lemma dec_enc_uint64 [simp]: "dec_uint64 (enc_uint64 w) = Some w"
proof -
  have "uint w < 2 ^ 64" using uint_lt2p [of w] by simp
  then show ?thesis
    unfolding dec_uint64_def enc_uint64_def dec_enc_int64 [unfolded enc_int64_def] by simp
qed

lemma mget_dec_map:
  assumes "\<And>v. dec (enc v) = Some v"
  shows "mget (dec_map dec (enc_map enc m)) k = mget m k"
proof -
  have "fold (\<lambda>(k, j) m. case dec j of Some v \<Rightarrow> mput m k v | None \<Rightarrow> m) (map (\<lambda>(k, v). (k, enc v)) es) n
      = fold (\<lambda>(k, v) m. mput m k v) es n" for es n
    by (induction es arbitrary: n) (auto simp: assms)
  then have "mget (dec_map dec (enc_map enc m)) k = mget (fold (\<lambda>(k, v) m. mput m k v) (mentries m) mempty) k"
    unfolding dec_map_def enc_map_def json.case by metis
  also have "\<dots> = map_of (mentries m) k"
    using mget_fold_mput [of "mentries m" "\<lambda>v. v" mempty k] mkeys_distinct [of m]
    by (simp add: mkeys_def split: option.split)
  finally show ?thesis by (simp add: mget_eq_map_of)
qed

lemma bind_u64_simps: "bind_u64 w = Some i \<longleftrightarrow> i = uint w \<and> uint w < 2 ^ 63" "bind_u64 w = None \<longleftrightarrow> \<not> uint w < 2 ^ 63"
  by (auto simp: bind_u64_def)

subsection \<open>What a table of upserts promises\<close>

text \<open>A statement that stores a value under its key, or fails when the value does not fit: then a
  committed save is the abstract save of the flush loop, and any other changes nothing.\<close>

locale upsert_table =
  fixes exec :: "'v \<Rightarrow> 'd \<Rightarrow> 'd option"
    and table :: "'d \<Rightarrow> 'k \<Rightarrow> 'v option"
    and key :: "'v \<Rightarrow> 'k"
    and fits :: "'v \<Rightarrow> bool"
    and stored :: "'v \<Rightarrow> 'v"
  assumes exec_fits: "fits v \<Longrightarrow> \<exists>d'. exec v d = Some d' \<and> table d' = (table d)(key v \<mapsto> stored v)"
    and exec_refused: "\<not> fits v \<Longrightarrow> exec v d = None"
    and key_stored: "key (stored v) = key v"
begin

lemma exec_all_fits:
  "\<forall>v\<in>set b. fits v \<Longrightarrow> \<exists>d'. exec_all exec b d = Some d' \<and> table d' = db_save key (map stored b) (table d)"
proof (induction b arbitrary: d)
  case (Cons v b)
  obtain d1 where "exec v d = Some d1" "table d1 = (table d)(key v \<mapsto> stored v)"
    using exec_fits [of v d] Cons.prems by auto
  then show ?case using Cons.IH [of d1] Cons.prems by (auto simp: db_save_def fun_upd_def key_stored)
qed (simp add: db_save_def)

lemma exec_all_refused: "\<exists>v\<in>set b. \<not> fits v \<Longrightarrow> exec_all exec b d = None"
proof (induction b arbitrary: d)
  case (Cons v b)
  then show ?case
    by (cases "fits v"; cases "exec v d") (auto simp: exec_refused)
qed simp

lemma saved:
  "\<forall>v\<in>set b. fits v \<Longrightarrow>
     \<exists>d'. transaction True (exec_all exec b) d = (True, d') \<and> table d' = db_save key (map stored b) (table d)"
  using exec_all_fits [of b d] by (auto simp: transaction_def)

lemma rolled_back:
  "\<not> commits \<or> (\<exists>v\<in>set b. \<not> fits v) \<Longrightarrow> transaction commits (exec_all exec b) d = (False, d)"
  using exec_all_refused [of b d] by (auto simp: transaction_def split: option.split)

end

definition node_at :: "DB \<Rightarrow> string \<Rightarrow> NodeRecord option" where
  "node_at db k = map_option (\<lambda>r. load_node (k, r)) (mget (db_nodes db) k)"

definition observer_at :: "DB \<Rightarrow> string \<Rightarrow> ObserverRecord option" where
  "observer_at db k = map_option (\<lambda>r. load_observer (k, r)) (mget (db_observers db) k)"

lemma b2i_0 [simp]: "b2i b = 0 \<longleftrightarrow> \<not> b"
  by (simp add: b2i_def)

interpretation node_table: upsert_table "save_node now" node_at nod_PubKey "\<lambda>n. uint (nod_AdvertCount n) < 2 ^ 63" overview
proof
  fix n :: NodeRecord and db :: DB
  show "uint (nod_AdvertCount n) < 2 ^ 63 \<Longrightarrow>
      \<exists>db'. save_node now n db = Some db' \<and> node_at db' = (node_at db)(nod_PubKey n \<mapsto> overview n)"
    by (auto simp: save_node_def bind_u64_def node_at_def load_node_def overview_def gomap fun_eq_iff)
  show "\<not> uint (nod_AdvertCount n) < 2 ^ 63 \<Longrightarrow> save_node now n db = None"
    by (simp add: save_node_def bind_u64_def)
qed (simp add: overview_def)

interpretation observer_table: upsert_table "save_observer now" observer_at or_ObserverID
  "\<lambda>ob. uint (or_Observations ob) < 2 ^ 63" "\<lambda>ob. ob"
proof
  fix ob :: ObserverRecord and db :: DB
  show "uint (or_Observations ob) < 2 ^ 63 \<Longrightarrow>
      \<exists>db'. save_observer now ob db = Some db' \<and> observer_at db' = (observer_at db)(or_ObserverID ob \<mapsto> ob)"
    by (auto simp: save_observer_def bind_u64_def observer_at_def load_observer_def gomap fun_eq_iff)
  show "\<not> uint (or_Observations ob) < 2 ^ 63 \<Longrightarrow> save_observer now ob db = None"
    by (simp add: save_observer_def bind_u64_def)
qed simp

lemma LoadNodes_iff: "n \<in> set (LoadNodes db) \<longleftrightarrow> node_at db (nod_PubKey n) = Some n"
proof -
  have "n \<in> set (LoadNodes db) \<longleftrightarrow> (\<exists>k r. (k, r) \<in> set (mentries (db_nodes db)) \<and> load_node (k, r) = n)"
    by (force simp: LoadNodes_def)
  also have "\<dots> \<longleftrightarrow> node_at db (nod_PubKey n) = Some n"
    unfolding mentries_iff by (auto simp: node_at_def load_node_def)
  finally show ?thesis .
qed

lemma LoadObservers_iff: "ob \<in> set (LoadObservers db) \<longleftrightarrow> observer_at db (or_ObserverID ob) = Some ob"
proof -
  have "ob \<in> set (LoadObservers db) \<longleftrightarrow> (\<exists>k r. (k, r) \<in> set (mentries (db_observers db)) \<and> load_observer (k, r) = ob)"
    by (force simp: LoadObservers_def)
  also have "\<dots> \<longleftrightarrow> observer_at db (or_ObserverID ob) = Some ob"
    unfolding mentries_iff by (auto simp: observer_at_def load_observer_def)
  finally show ?thesis .
qed

lemma load_keys_distinct:
  "distinct (map nod_PubKey (LoadNodes db))" "distinct (map or_ObserverID (LoadObservers db))"
proof -
  have "map nod_PubKey (LoadNodes db) = mkeys (db_nodes db)" "map or_ObserverID (LoadObservers db) = mkeys (db_observers db)"
    by (auto simp: LoadNodes_def LoadObservers_def mkeys_def load_node_def load_observer_def)
  then show "distinct (map nod_PubKey (LoadNodes db))" "distinct (map or_ObserverID (LoadObservers db))" by simp_all
qed

text \<open>C13: the node and observer tables keep the promise the flush loop relies on: a save of rows whose
  counts fit a signed integer, once committed, replaces exactly the rows of the same keys, and any
  other save reports failure and changes nothing; a load returns each row of the table once, with
  every field as it was saved.\<close>

theorem tables_implement_saves:
  assumes "\<forall>n\<in>set ns. nod_LatestAdverts n = []"
  shows "(case SaveNodes commits ns now db of (ok, db') \<Rightarrow>
      (ok \<longleftrightarrow> commits \<and> (\<forall>n\<in>set ns. uint (nod_AdvertCount n) < 2 ^ 63))
      \<and> (if ok then \<forall>n. n \<in> set (LoadNodes db') \<longleftrightarrow> db_save nod_PubKey ns (node_at db) (nod_PubKey n) = Some n
         else db' = db)
      \<and> distinct (map nod_PubKey (LoadNodes db')))
    \<and> (case SaveObservers commits obs now db of (ok, db') \<Rightarrow>
      (ok \<longleftrightarrow> commits \<and> (\<forall>ob\<in>set obs. uint (or_Observations ob) < 2 ^ 63))
      \<and> (if ok then \<forall>ob. ob \<in> set (LoadObservers db') \<longleftrightarrow>
             db_save or_ObserverID obs (observer_at db) (or_ObserverID ob) = Some ob
         else db' = db)
      \<and> distinct (map or_ObserverID (LoadObservers db')))"
proof
  have ov: "map overview ns = ns" by (rule map_idI) (use assms in \<open>simp add: overview_def\<close>)
  show "case SaveNodes commits ns now db of (ok, db') \<Rightarrow>
      (ok \<longleftrightarrow> commits \<and> (\<forall>n\<in>set ns. uint (nod_AdvertCount n) < 2 ^ 63))
      \<and> (if ok then \<forall>n. n \<in> set (LoadNodes db') \<longleftrightarrow> db_save nod_PubKey ns (node_at db) (nod_PubKey n) = Some n
         else db' = db)
      \<and> distinct (map nod_PubKey (LoadNodes db'))"
  proof (cases "commits \<and> (\<forall>n\<in>set ns. uint (nod_AdvertCount n) < 2 ^ 63)")
    case True
    then obtain d' where "SaveNodes True ns now db = (True, d')" "node_at d' = db_save nod_PubKey ns (node_at db)"
      using node_table.saved [of ns now db] ov by (auto simp: SaveNodes_def)
    then show ?thesis using True by (simp add: LoadNodes_iff load_keys_distinct)
  next
    case False
    then have "SaveNodes commits ns now db = (False, db)"
      unfolding SaveNodes_def by (intro node_table.rolled_back) auto
    then show ?thesis using False by (auto simp: load_keys_distinct)
  qed
  show "case SaveObservers commits obs now db of (ok, db') \<Rightarrow>
      (ok \<longleftrightarrow> commits \<and> (\<forall>ob\<in>set obs. uint (or_Observations ob) < 2 ^ 63))
      \<and> (if ok then \<forall>ob. ob \<in> set (LoadObservers db') \<longleftrightarrow>
             db_save or_ObserverID obs (observer_at db) (or_ObserverID ob) = Some ob
         else db' = db)
      \<and> distinct (map or_ObserverID (LoadObservers db'))"
  proof (cases "commits \<and> (\<forall>ob\<in>set obs. uint (or_Observations ob) < 2 ^ 63)")
    case True
    then obtain d' where "SaveObservers True obs now db = (True, d')" "observer_at d' = db_save or_ObserverID obs (observer_at db)"
      using observer_table.saved [of obs now db] by (auto simp: SaveObservers_def)
    then show ?thesis using True by (simp add: LoadObservers_iff load_keys_distinct)
  next
    case False
    then have "SaveObservers commits obs now db = (False, db)"
      unfolding SaveObservers_def by (intro observer_table.rolled_back) auto
    then show ?thesis using False by (auto simp: load_keys_distinct)
  qed
qed

subsection \<open>The advert history\<close>

definition emptyDB :: DB where
  "emptyDB = \<lparr>db_counters = mempty, db_nodes = mempty, db_adverts = [], db_observers = mempty,
     db_stats = \<lparr>sq_Nodes = 0, sq_ImportedNodes = 0, sq_Adverts = 0, sq_ImportedNodeHistory = 0\<rparr>\<rparr>"

text \<open>Batches of adverts, each with whether its transaction commits, appended in order.\<close>

definition append_batches :: "(bool \<times> AdvertObservation list) list \<Rightarrow> DB \<Rightarrow> DB" where
  "append_batches bs db = fold (\<lambda>(commits, as) db. snd (AppendAdverts commits as db)) bs db"

definition committed :: "(bool \<times> AdvertObservation list) list \<Rightarrow> AdvertObservation list" where
  "committed bs = concat (map snd (filter fst bs))"

definition ids_ok :: "advertRow list \<Rightarrow> bool" where
  "ids_ok rows \<longleftrightarrow> sorted_wrt (<) (map aw_id rows) \<and> (\<forall>r\<in>set rows. 0 < aw_id r)"

lemma ids_ok_snoc: "ids_ok rows \<Longrightarrow> aw_id r = nextAdvertId rows \<Longrightarrow> ids_ok (rows @ [r])"
proof (cases rows rule: rev_cases)
  case (snoc rs x)
  assume "ids_ok rows" "aw_id r = nextAdvertId rows"
  then have lt: "\<forall>y\<in>set rs. aw_id y < aw_id x" and "aw_id r = aw_id x + 1" "0 < aw_id x" "ids_ok (rs @ [x])"
    using snoc by (auto simp: ids_ok_def nextAdvertId_def sorted_wrt_append)
  then show ?thesis using snoc by (fastforce simp: ids_ok_def sorted_wrt_append)
qed (simp add: ids_ok_def nextAdvertId_def)

lemma insert_adverts:
  "ids_ok (db_adverts db) \<Longrightarrow> \<exists>db'. exec_all insert_advert as db = Some db' \<and> ids_ok (db_adverts db')
     \<and> map load_advert (db_adverts db') = map load_advert (db_adverts db) @ as \<and> db_stats db' = db_stats db"
proof (induction as arbitrary: db)
  case (Cons a as)
  obtain db1 r where r: "insert_advert a db = Some db1" "db_adverts db1 = db_adverts db @ [r]"
    "aw_id r = nextAdvertId (db_adverts db)" "load_advert r = a" "db_stats db1 = db_stats db"
    by (auto simp: insert_advert_def load_advert_def)
  then show ?case using Cons.IH [of db1] ids_ok_snoc [OF Cons.prems, of r] by simp
qed simp

lemma AppendAdverts_effect:
  assumes "ids_ok (db_adverts db)"
  shows "ids_ok (db_adverts (snd (AppendAdverts c as db)))"
    "map load_advert (db_adverts (snd (AppendAdverts c as db))) = map load_advert (db_adverts db) @ (if c then as else [])"
    "sq_Adverts (db_stats (snd (AppendAdverts c as db))) = sq_Adverts (db_stats db) + int (length (if c then as else []))"
  using insert_adverts [OF assms, of as] assms
  by (auto simp: AppendAdverts_def transaction_def)

lemma append_batches_effect:
  "ids_ok (db_adverts db) \<Longrightarrow> ids_ok (db_adverts (append_batches bs db))
     \<and> map load_advert (db_adverts (append_batches bs db)) = map load_advert (db_adverts db) @ committed bs
     \<and> sq_Adverts (db_stats (append_batches bs db)) = sq_Adverts (db_stats db) + int (length (committed bs))"
proof (induction bs arbitrary: db)
  case (Cons b bs)
  obtain c as where b: "b = (c, as)" by fastforce
  show ?case
    using Cons.IH [OF AppendAdverts_effect(1) [OF Cons.prems, of c as]] AppendAdverts_effect(2,3) [OF Cons.prems, of c as] b
    by (auto simp: append_batches_def committed_def)
qed (simp add: append_batches_def committed_def)

text \<open>Reading the whole history of a node page by page, as the API's clients do: while a page is full,
  the next one starts below the cursor. The number of pages is bounded by the fuel.\<close>

primrec advert_walk :: "nat \<Rightarrow> string \<Rightarrow> int \<Rightarrow> int \<Rightarrow> DB \<Rightarrow> AdvertObservation list option" where
  "advert_walk 0 pubkey limit before db = None"
| "advert_walk (Suc fuel) pubkey limit before db =
     (case AdvertsForNode pubkey limit before db of (rows, nextBefore) \<Rightarrow>
        if int (length rows) = limit then map_option ((@) rows) (advert_walk fuel pubkey limit nextBefore db)
        else Some rows)"

lemma filter_below:
  "sorted_wrt (<) (map f xs) \<Longrightarrow> k < length xs \<Longrightarrow> filter (\<lambda>x. f x < (f (xs ! k) :: int)) xs = take k xs"
proof (induction xs arbitrary: k)
  case (Cons x xs)
  show ?case
  proof (cases k)
    case 0
    then show ?thesis using Cons.prems(1) by (force simp: filter_empty_conv)
  next
    case (Suc j)
    then have "f x < f (xs ! j)" using Cons.prems by simp
    then show ?thesis using Suc Cons by simp
  qed
qed simp

lemma page_rows:
  assumes ok: "ids_ok rows" and sel: "sel = filter (\<lambda>r. aw_pubkey r = pubkey) rows"
    and cut: "(before = 0 \<and> k = length sel) \<or> (k < length sel \<and> before = aw_id (sel ! k))"
  shows "filter (\<lambda>r. aw_pubkey r = pubkey \<and> (before > 0 \<longrightarrow> aw_id r < before)) rows = take k sel"
proof -
  have srt: "sorted_wrt (<) (map aw_id sel)" and pos: "\<forall>r\<in>set sel. 0 < aw_id r"
    using ok unfolding sel ids_ok_def by (auto simp: sorted_wrt_map sorted_wrt_filter)
  have eq: "filter (\<lambda>r. aw_pubkey r = pubkey \<and> (before > 0 \<longrightarrow> aw_id r < before)) rows
      = filter (\<lambda>r. before > 0 \<longrightarrow> aw_id r < before) sel"
    unfolding sel by (simp add: conj_commute)
  show ?thesis
  proof (cases "before = 0 \<and> k = length sel")
    case False
    then have k: "k < length sel" "before = aw_id (sel ! k)" using cut by auto
    then have "0 < before" using pos by simp
    then show ?thesis unfolding eq using filter_below [OF srt k(1)] k(2) by simp
  qed (simp add: sel)
qed

lemma advert_walk_from:
  assumes ok: "ids_ok (db_adverts db)" and sel: "sel = filter (\<lambda>r. aw_pubkey r = pubkey) (db_adverts db)"
    and lim: "0 < limit"
  shows "(before = 0 \<and> k = length sel) \<or> (k < length sel \<and> before = aw_id (sel ! k)) \<Longrightarrow> k div nat limit < fuel \<Longrightarrow>
    advert_walk fuel pubkey limit before db = Some (map load_advert (rev (take k sel)))"
proof (induction fuel arbitrary: before k)
  case (Suc fuel)
  let ?L = "nat limit"
  have k: "k \<le> length sel" using Suc.prems(1) by auto
  have page: "AdvertsForNode pubkey limit before db =
      (map load_advert (take ?L (rev (take k sel))), if take ?L (rev (take k sel)) = [] then 0 else aw_id (last (take ?L (rev (take k sel)))))"
    using page_rows [OF ok sel Suc.prems(1)] lim by (simp add: AdvertsForNode_def newest_first_def Let_def)
  show ?case
  proof (cases "?L \<le> k")
    case False
    then have "\<not> int (length (take ?L (rev (take k sel)))) = limit" using k lim by (simp add: min_def)
    then show ?thesis using page False k by (simp add: min_def)
  next
    case True
    let ?k = "k - ?L"
    have L: "0 < ?L" using lim by simp
    have len: "int (length (take ?L (rev (take k sel)))) = limit" using True k lim by (simp add: min_def)
    have kL: "?k < length sel" using True k L by linarith
    have "last (take ?L (rev (take k sel))) = rev (take k sel) ! (?L - 1)"
      using True k L by (subst last_conv_nth) (auto simp: min_def)
    also have "\<dots> = sel ! ?k" using True k L by (simp add: rev_nth min_def)
    finally have lst: "last (take ?L (rev (take k sel))) = sel ! ?k" .
    have "k div ?L = Suc (?k div ?L)" using True L by (simp add: le_div_geq)
    then have fuel: "?k div ?L < fuel" using Suc.prems(2) by simp
    have ne: "take ?L (rev (take k sel)) \<noteq> []" using len lim by auto
    have "advert_walk fuel pubkey limit (aw_id (sel ! ?k)) db = Some (map load_advert (rev (take ?k sel)))"
      by (rule Suc.IH) (use kL fuel in auto)
    moreover have "take ?L (rev (take k sel)) @ rev (take ?k sel) = rev (take k sel)"
    proof -
      have "rev (take ?k sel) = drop ?L (rev (take k sel))" using k True by (simp add: drop_rev min_def)
      then show ?thesis by (simp only: append_take_drop_id)
    qed
    ultimately show ?thesis
      using page len ne lst by (simp flip: map_append)
  qed
qed simp

text \<open>C15: paging through a node's advert history with any positive page size ends, after at most one
  page more than the number of full pages, and yields exactly the node's adverts of the committed
  batches, each once, newest first; the cached size of the table is their number.\<close>

theorem advert_pages_enumerate_history:
  assumes "0 < limit"
    and "length (filter (\<lambda>a. ao_PubKey a = pubkey) (committed bs)) div nat limit < fuel"
  shows "advert_walk fuel pubkey limit 0 (append_batches bs emptyDB)
      = Some (rev (filter (\<lambda>a. ao_PubKey a = pubkey) (committed bs)))
    \<and> sq_Adverts (db_stats (append_batches bs emptyDB)) = int (length (committed bs))"
proof -
  let ?db = "append_batches bs emptyDB"
  let ?sel = "filter (\<lambda>r. aw_pubkey r = pubkey) (db_adverts ?db)"
  have "ids_ok (db_adverts emptyDB)" by (simp add: emptyDB_def ids_ok_def)
  note eff = append_batches_effect [OF this, of bs]
  have sel: "map load_advert ?sel = filter (\<lambda>a. ao_PubKey a = pubkey) (committed bs)"
  proof -
    have "filter (\<lambda>a. ao_PubKey a = pubkey) (map load_advert (db_adverts ?db)) = map load_advert ?sel"
      by (simp add: filter_map comp_def load_advert_def)
    then show ?thesis using eff by (simp add: emptyDB_def)
  qed
  have "advert_walk fuel pubkey limit 0 ?db = Some (map load_advert (rev (take (length ?sel) ?sel)))"
    by (rule advert_walk_from [OF _ refl assms(1)])
      (use eff assms(2) sel [symmetric] in auto)
  then show ?thesis using sel eff by (simp add: rev_map [symmetric] emptyDB_def)
qed

subsection \<open>Counters over a restart\<close>

text \<open>A counter state as its JSON columns give it back.\<close>

definition reloaded :: "CounterState \<Rightarrow> CounterState" where
  "reloaded st = st\<lparr>st_PayloadTypes := dec_map dec_uint64 (enc_map enc_uint64 (st_PayloadTypes st)),
     st_Observers := dec_map dec_int64 (enc_map enc_int64 (st_Observers st)),
     st_Nodes := dec_map dec_int64 (enc_map enc_int64 (st_Nodes st))\<rparr>"

lemma reloaded_same: "same_state (reloaded st) st"
  by (simp add: reloaded_def same_state_def same_map_def mget_dec_map fun_eq_iff)

definition counter_at :: "DB \<Rightarrow> string \<Rightarrow> (string \<times> CounterState) option" where
  "counter_at db k = map_option (\<lambda>r. (k, load_counter r)) (mget (db_counters db) k)"

definition counter_fits :: "CounterState \<Rightarrow> bool" where
  "counter_fits st \<longleftrightarrow> uint (st_Observations st) < 2 ^ 63 \<and> uint (st_UniquePackets st) < 2 ^ 63"

interpretation counter_table: upsert_table "save_counter now" counter_at fst "\<lambda>r. counter_fits (snd r)" "\<lambda>r. (fst r, reloaded (snd r))"
proof
  fix r :: "string \<times> CounterState" and db :: DB
  show "counter_fits (snd r) \<Longrightarrow>
      \<exists>db'. save_counter now r db = Some db' \<and> counter_at db' = (counter_at db)(fst r \<mapsto> (fst r, reloaded (snd r)))"
    by (auto simp: save_counter_def bind_u64_def counter_at_def load_counter_def reloaded_def counter_fits_def gomap
        fun_eq_iff split: prod.split)
  show "\<not> counter_fits (snd r) \<Longrightarrow> save_counter now r db = None"
    by (auto simp: save_counter_def bind_u64_def counter_fits_def split: prod.split bind_split)
qed simp

lemma db_save_map_of:
  "distinct (map fst es) \<Longrightarrow> db_save fst es t k = (case map_of es k of None \<Rightarrow> t k | Some v \<Rightarrow> Some (k, v))"
proof (induction es arbitrary: t)
  case (Cons e es)
  obtain k' v where e: "e = (k', v)" by fastforce
  have "map_of es k' = None" using Cons.prems e by (simp add: map_of_eq_None_iff)
  then show ?case using Cons.IH [of "t(k' \<mapsto> (k', v))"] Cons.prems e
    by (simp add: db_save_def fun_upd_def split: option.split)
qed (simp add: db_save_def)

lemma mget_db_Load: "mget (db_Load db) k = map_option load_counter (mget (db_counters db) k)"
proof -
  have "db_Load db = fold (\<lambda>(k, r) out. mput out k (load_counter r)) (mentries (db_counters db)) mempty"
    by (simp add: db_Load_def)
  then show ?thesis
    using mget_fold_mput [of "mentries (db_counters db)" load_counter mempty k] mkeys_distinct [of "db_counters db"]
    by (simp add: mkeys_def mget_eq_map_of [symmetric] split: option.split)
qed

text \<open>The counter table: once a save is committed, a load gives back every saved scope with the same
  durable state and every other scope of the table unchanged; a save that does not commit, or has a
  count that does not fit, changes nothing.\<close>

theorem counters_save_load:
  "case db_Save commits states now db of (ok, db') \<Rightarrow>
     (ok \<longleftrightarrow> commits \<and> (\<forall>st\<in>ran (mget states). counter_fits st))
     \<and> (ok \<longrightarrow> (\<forall>k. case mget states k of
           None \<Rightarrow> mget (db_Load db') k = mget (db_Load db) k
         | Some st \<Rightarrow> (\<exists>st'. mget (db_Load db') k = Some st' \<and> same_state st' st)))
     \<and> (\<not> ok \<longrightarrow> db' = db)"
proof -
  have ran: "(\<forall>st\<in>ran (mget states). counter_fits st) \<longleftrightarrow> (\<forall>r\<in>set (mentries states). counter_fits (snd r))"
    by (auto simp: ran_def mentries_iff [symmetric])
  have load: "mget (db_Load d) k = map_option snd (counter_at d k)" for d k
    by (simp add: mget_db_Load counter_at_def option.map_comp comp_def)
  show ?thesis
  proof (cases "commits \<and> (\<forall>r\<in>set (mentries states). counter_fits (snd r))")
    case True
    then obtain d' where d': "db_Save True states now db = (True, d')"
      "counter_at d' = db_save fst (map (\<lambda>r. (fst r, reloaded (snd r))) (mentries states)) (counter_at db)"
      using counter_table.saved [of "mentries states" now db] by (auto simp: db_Save_def)
    have dist: "distinct (map fst (map (\<lambda>r. (fst r, reloaded (snd r))) (mentries states)))"
      using mkeys_distinct [of states] by (simp add: mkeys_def comp_def)
    have mp: "map_of (map (\<lambda>r. (fst r, reloaded (snd r))) (mentries states)) k = map_option reloaded (mget states k)" for k
      using map_of_map [of reloaded "mentries states"] by (simp add: case_prod_unfold mget_eq_map_of)
    have "case mget states k of None \<Rightarrow> mget (db_Load d') k = mget (db_Load db) k
        | Some st \<Rightarrow> (\<exists>st'. mget (db_Load d') k = Some st' \<and> same_state st' st)" for k
      unfolding load d'(2) db_save_map_of [OF dist] mp by (auto simp: reloaded_same split: option.split)
    then show ?thesis using True d'(1) ran by simp
  next
    case False
    then have "db_Save commits states now db = (False, db)"
      unfolding db_Save_def by (intro counter_table.rolled_back) auto
    then show ?thesis using False ran by auto
  qed
qed

subsection \<open>Examples\<close>

definition ex_row :: NodeRecord where
  "ex_row = \<lparr>nod_PubKey = ''aa'', nod_Name = ''A'', nod_NodeType = 2, nod_HasGPS = True, nod_Lat = 50, nod_Lon = 14,
     nod_FirstAdvertAt = 1, nod_LastAdvertAt = 9, nod_AdvertCount = 3, nod_Networks = [''cz''], nod_ObserverID = ''x'',
     nod_ObserverName = ''X'', nod_LatestAdverts = [], nod_Flags = []\<rparr>"

lemma tables_implement_saves_witness:
  "case SaveNodes True [ex_row] 5 emptyDB of (ok, db') \<Rightarrow> ok \<and> LoadNodes db' = [ex_row]"
proof -
  have "case SaveNodes True [ex_row] 5 emptyDB of (ok, db') \<Rightarrow>
      (ok \<longleftrightarrow> True \<and> (\<forall>n\<in>set [ex_row]. uint (nod_AdvertCount n) < 2 ^ 63))
      \<and> (if ok then \<forall>n. n \<in> set (LoadNodes db') \<longleftrightarrow> db_save nod_PubKey [ex_row] (node_at emptyDB) (nod_PubKey n) = Some n
         else db' = emptyDB)
      \<and> distinct (map nod_PubKey (LoadNodes db'))"
    by (rule conjunct1 [OF tables_implement_saves [where obs = "[]"]]) (simp add: ex_row_def)
  moreover have "uint (nod_AdvertCount ex_row) < 2 ^ 63" by (simp add: ex_row_def)
  moreover have "case SaveNodes True [ex_row] 5 emptyDB of (ok, db') \<Rightarrow> LoadNodes db' = [ex_row]"
    by code_simp
  ultimately show ?thesis by (auto split: prod.splits)
qed

definition ex_advert :: "string \<Rightarrow> string \<Rightarrow> AdvertObservation" where
  "ex_advert pk h = \<lparr>ao_Hash = h, ao_RawHex = '''', ao_PubKey = pk, ao_Name = '''', ao_NodeType = 1, ao_HasGPS = False,
     ao_Lat = 0, ao_Lon = 0, ao_AdvertTime = 0, ao_At = 5, ao_NetworkID = ''cz'', ao_AnalyzerName = '''',
     ao_ObserverID = '''', ao_ObserverName = ''''\<rparr>"

definition ex_batches :: "(bool \<times> AdvertObservation list) list" where
  "ex_batches = [(True, [ex_advert ''aa'' ''1'', ex_advert ''bb'' ''2'']), (False, [ex_advert ''aa'' ''3'']), (True, [ex_advert ''aa'' ''4''])]"

lemma advert_pages_enumerate_history_witness:
  "map_option (map ao_Hash) (advert_walk 3 ''aa'' 1 0 (append_batches ex_batches emptyDB)) = Some [''4'', ''1'']"
  using advert_pages_enumerate_history [of 1 "''aa''" ex_batches 3]
  by (simp add: ex_batches_def committed_def ex_advert_def)

lemma counters_save_load_witness:
  "\<exists>st'. mget (db_Load (snd (db_Save True (mput mempty ''s'' (counter_Export newCounter)) 5 emptyDB))) ''s'' = Some st'
     \<and> same_state st' (counter_Export newCounter)"
  using counters_save_load [where commits = True and states = "mput mempty ''s'' (counter_Export newCounter)" and now = 5 and db = emptyDB]
  by (auto simp: gomap counter_fits_def counter_Export_def ran_def split: prod.splits if_splits)

end
