(* ===== verification/LinkDatabase.thy ===== *)
theory LinkDatabase
  imports Database LinkPersist
begin

text \<open>
  The link store (db.go, links.db): the tables of links and of their networks, the upserts of
  \<open>SaveLinks\<close>, which keep the earliest first and the latest last sighting, and \<open>LoadLinks\<close>. The
  columns and transactions are as in the core database.
\<close>

subsection \<open>Tables\<close>

record linkRow =
  lw_packet_count :: int
  lw_first_seen :: int
  lw_last_seen :: int
  lw_activity_score :: float64
  lw_score_updated_at :: int
  lw_last_hash_ab :: string
  lw_last_hash_ba :: string
  lw_dir_ab :: int
  lw_dir_ba :: int
  lw_snrs_ab :: json
  lw_snrs_ba :: json
  lw_low_confidence_count :: int
  lw_geo :: "json option"
  lw_sources :: json

record linkNetRow =
  lnw_first_seen :: int
  lnw_last_seen :: int
  lnw_packet_count :: int
  lnw_dir_ab :: int
  lnw_dir_ba :: int
  lnw_last_hash_ab :: string
  lnw_last_hash_ba :: string
  lnw_low_confidence_count :: int

record LinkDB =
  ld_links :: "(string \<times> string, linkRow) gomap"
  ld_nets :: "(string \<times> string \<times> string, linkNetRow) gomap"

subsection \<open>JSON columns\<close>

definition marshalLinkSources :: "(string, u64) gomap \<Rightarrow> json" where
  "marshalLinkSources m = (if mlen m = 0 then JObj [] else enc_map enc_uint64 m)"

definition marshalLinkSNRs :: "float64 list \<Rightarrow> json" where
  "marshalLinkSNRs vals = (if length vals = 0 then JArr [] else JArr (map JNum vals))"

definition dec_floats :: "json \<Rightarrow> float64 list" where
  "dec_floats j = (case dec_slice dec_float j of Some xs \<Rightarrow> xs | None \<Rightarrow> [])"

definition dec_bool :: "json \<Rightarrow> bool option" where
  "dec_bool j = (case j of JNull \<Rightarrow> Some False | JBool b \<Rightarrow> Some b | _ \<Rightarrow> None)"

definition enc_segment :: "linkPosSegment \<Rightarrow> json" where
  "enc_segment sg = JObj [(''LatA'', JNum (sg_LatA sg)), (''LonA'', JNum (sg_LonA sg)), (''LatB'', JNum (sg_LatB sg)),
     (''LonB'', JNum (sg_LonB sg)), (''FirstSeen'', enc_int64 (sg_FirstSeen sg)), (''LastSeen'', enc_int64 (sg_LastSeen sg)),
     (''PacketCount'', enc_uint64 (sg_PacketCount sg))]"

definition dec_segment :: "json \<Rightarrow> linkPosSegment option" where
  "dec_segment j = (case j of
     JNull \<Rightarrow> Some \<lparr>sg_LatA = 0, sg_LonA = 0, sg_LatB = 0, sg_LonB = 0, sg_FirstSeen = 0, sg_LastSeen = 0, sg_PacketCount = 0\<rparr>
   | JObj fs \<Rightarrow> do {
       la \<leftarrow> dec_field ''LatA'' dec_float 0 fs; oa \<leftarrow> dec_field ''LonA'' dec_float 0 fs;
       lb \<leftarrow> dec_field ''LatB'' dec_float 0 fs; ob \<leftarrow> dec_field ''LonB'' dec_float 0 fs;
       f \<leftarrow> dec_field ''FirstSeen'' dec_int64 0 fs; l \<leftarrow> dec_field ''LastSeen'' dec_int64 0 fs;
       c \<leftarrow> dec_field ''PacketCount'' dec_uint64 0 fs;
       Some \<lparr>sg_LatA = la, sg_LonA = oa, sg_LatB = lb, sg_LonB = ob, sg_FirstSeen = f, sg_LastSeen = l, sg_PacketCount = c\<rparr> }
   | _ \<Rightarrow> None)"

record linkGeoBlob =
  gb_HasPos :: bool
  gb_LatA :: float64
  gb_LonA :: float64
  gb_LatB :: float64
  gb_LonB :: float64
  gb_SegFirstSeen :: unix_time
  gb_SegPacketCount :: u64
  gb_Segments :: "linkPosSegment list"

definition enc_geo :: "linkGeoBlob \<Rightarrow> json" where
  "enc_geo g = JObj ([(''hasPos'', JBool (gb_HasPos g)), (''latA'', JNum (gb_LatA g)), (''lonA'', JNum (gb_LonA g)),
     (''latB'', JNum (gb_LatB g)), (''lonB'', JNum (gb_LonB g)), (''segFirstSeen'', enc_int64 (gb_SegFirstSeen g)),
     (''segPacketCount'', enc_uint64 (gb_SegPacketCount g))]
     @ (if gb_Segments g = [] then [] else [(''segments'', JArr (map enc_segment (gb_Segments g)))]))"

definition dec_geo :: "json \<Rightarrow> linkGeoBlob option" where
  "dec_geo j = (case j of JObj fs \<Rightarrow> do {
     h \<leftarrow> dec_field ''hasPos'' dec_bool False fs;
     la \<leftarrow> dec_field ''latA'' dec_float 0 fs; oa \<leftarrow> dec_field ''lonA'' dec_float 0 fs;
     lb \<leftarrow> dec_field ''latB'' dec_float 0 fs; ob \<leftarrow> dec_field ''lonB'' dec_float 0 fs;
     f \<leftarrow> dec_field ''segFirstSeen'' dec_int64 0 fs; c \<leftarrow> dec_field ''segPacketCount'' dec_uint64 0 fs;
     s \<leftarrow> dec_field ''segments'' (dec_slice dec_segment) [] fs;
     Some \<lparr>gb_HasPos = h, gb_LatA = la, gb_LonA = oa, gb_LatB = lb, gb_LonB = ob, gb_SegFirstSeen = f,
           gb_SegPacketCount = c, gb_Segments = s\<rparr> } | _ \<Rightarrow> None)"

definition marshalLinkGeo :: "LinkRecord \<Rightarrow> json option" where
  "marshalLinkGeo rec =
     (if \<not> l_HasPos rec \<and> length (l_Segments rec) = 0 then None
      else Some (enc_geo \<lparr>gb_HasPos = l_HasPos rec, gb_LatA = l_LatA rec, gb_LonA = l_LonA rec, gb_LatB = l_LatB rec,
        gb_LonB = l_LonB rec, gb_SegFirstSeen = l_SegFirstSeen rec, gb_SegPacketCount = l_SegPacketCount rec,
        gb_Segments = l_Segments rec\<rparr>))"

definition applyLinkGeo :: "json option \<Rightarrow> LinkRecord \<Rightarrow> LinkRecord" where
  "applyLinkGeo s rec = (case Option.bind s dec_geo of None \<Rightarrow> rec
     | Some g \<Rightarrow> rec\<lparr>l_HasPos := gb_HasPos g, l_LatA := gb_LatA g, l_LonA := gb_LonA g, l_LatB := gb_LatB g,
         l_LonB := gb_LonB g, l_SegFirstSeen := gb_SegFirstSeen g, l_SegPacketCount := gb_SegPacketCount g,
         l_Segments := gb_Segments g\<rparr>)"

subsection \<open>SaveLinks\<close>

definition upsert_link :: "linkRow option \<Rightarrow> linkRow \<Rightarrow> linkRow" where
  "upsert_link old row = (case old of None \<Rightarrow> row
     | Some o' \<Rightarrow> row\<lparr>lw_first_seen := min (lw_first_seen o') (lw_first_seen row),
                     lw_last_seen := max (lw_last_seen o') (lw_last_seen row)\<rparr>)"

definition upsert_net :: "linkNetRow option \<Rightarrow> linkNetRow \<Rightarrow> linkNetRow" where
  "upsert_net old row = (case old of None \<Rightarrow> row
     | Some o' \<Rightarrow> row\<lparr>lnw_first_seen := min (lnw_first_seen o') (lnw_first_seen row),
                     lnw_last_seen := max (lnw_last_seen o') (lnw_last_seen row)\<rparr>)"

definition link_columns :: "LinkRecord \<Rightarrow> linkRow option" where
  "link_columns rec = do {
     pc \<leftarrow> bind_u64 (l_PacketCount rec); ab \<leftarrow> bind_u64 (l_DirAB rec); ba \<leftarrow> bind_u64 (l_DirBA rec);
     lc \<leftarrow> bind_u64 (l_LowConfidenceCount rec);
     Some \<lparr>lw_packet_count = pc, lw_first_seen = l_FirstSeen rec, lw_last_seen = l_LastSeen rec,
       lw_activity_score = l_Score rec, lw_score_updated_at = l_ScoreUpdatedAt rec, lw_last_hash_ab = l_LastHashAB rec,
       lw_last_hash_ba = l_LastHashBA rec, lw_dir_ab = ab, lw_dir_ba = ba, lw_snrs_ab = marshalLinkSNRs (l_SNRsAB rec),
       lw_snrs_ba = marshalLinkSNRs (l_SNRsBA rec), lw_low_confidence_count = lc, lw_geo = marshalLinkGeo rec,
       lw_sources = marshalLinkSources (l_SourceCounts rec)\<rparr> }"

definition net_columns :: "linkNetwork \<Rightarrow> linkNetRow option" where
  "net_columns n = do {
     pc \<leftarrow> bind_u64 (n_PacketCount n); ab \<leftarrow> bind_u64 (n_DirAB n); ba \<leftarrow> bind_u64 (n_DirBA n);
     lc \<leftarrow> bind_u64 (n_LowConfidenceCount n);
     Some \<lparr>lnw_first_seen = n_FirstSeen n, lnw_last_seen = n_LastSeen n, lnw_packet_count = pc, lnw_dir_ab = ab,
       lnw_dir_ba = ba, lnw_last_hash_ab = n_LastHashAB n, lnw_last_hash_ba = n_LastHashBA n,
       lnw_low_confidence_count = lc\<rparr> }"

definition save_net :: "string \<Rightarrow> string \<Rightarrow> linkNetwork \<Rightarrow> LinkDB \<Rightarrow> LinkDB option" where
  "save_net a b n ld = do {
     row \<leftarrow> net_columns n;
     Some (ld\<lparr>ld_nets := mput (ld_nets ld) (a, b, n_NetworkID n) (upsert_net (mget (ld_nets ld) (a, b, n_NetworkID n)) row)\<rparr>) }"

definition save_link :: "LinkRecord \<Rightarrow> LinkDB \<Rightarrow> LinkDB option" where
  "save_link rec ld = do {
     row \<leftarrow> link_columns rec;
     let k = (l_NodeA rec, l_NodeB rec);
     exec_all (save_net (l_NodeA rec) (l_NodeB rec)) (l_Networks rec)
       (ld\<lparr>ld_links := mput (ld_links ld) k (upsert_link (mget (ld_links ld) k) row)\<rparr>) }"

definition SaveLinks :: "bool \<Rightarrow> LinkRecord list \<Rightarrow> LinkDB \<Rightarrow> bool \<times> LinkDB" where
  "SaveLinks commits records ld =
     (if length records = 0 then (True, ld) else transaction commits (exec_all save_link records) ld)"

subsection \<open>LoadLinks\<close>

definition load_net :: "string \<Rightarrow> linkNetRow \<Rightarrow> linkNetwork" where
  "load_net net r = \<lparr>n_NetworkID = net, n_FirstSeen = lnw_first_seen r, n_LastSeen = lnw_last_seen r,
     n_PacketCount = word_of_int (lnw_packet_count r), n_DirAB = word_of_int (lnw_dir_ab r),
     n_DirBA = word_of_int (lnw_dir_ba r), n_LastHashAB = lnw_last_hash_ab r, n_LastHashBA = lnw_last_hash_ba r,
     n_LowConfidenceCount = word_of_int (lnw_low_confidence_count r)\<rparr>"

text \<open>The key of a loaded record is not set; \<open>Restore\<close> computes it from the endpoints.\<close>

definition load_link :: "(string \<times> string) \<times> linkRow \<Rightarrow> LinkRecord" where
  "load_link kr = (case kr of ((a, b), r) \<Rightarrow>
     applyLinkGeo (lw_geo r)
       \<lparr>l_Key = replicate 64 0, l_NodeA = a, l_NodeB = b, l_PacketCount = word_of_int (lw_packet_count r),
        l_FirstSeen = lw_first_seen r, l_LastSeen = lw_last_seen r, l_Score = lw_activity_score r,
        l_ScoreUpdatedAt = lw_score_updated_at r, l_Networks = [], l_DirAB = word_of_int (lw_dir_ab r),
        l_DirBA = word_of_int (lw_dir_ba r), l_LastHashAB = lw_last_hash_ab r, l_LastHashBA = lw_last_hash_ba r,
        l_SNRsAB = dec_floats (lw_snrs_ab r), l_SNRsBA = dec_floats (lw_snrs_ba r),
        l_LowConfidenceCount = word_of_int (lw_low_confidence_count r),
        l_SourceCounts = dec_map dec_uint64 (lw_sources r), l_HasPos = False, l_LatA = 0, l_LonA = 0, l_LatB = 0,
        l_LonB = 0, l_SegFirstSeen = 0, l_SegPacketCount = 0, l_Segments = [], l_dirty = False\<rparr>)"

definition attachNet :: "(string \<times> string \<times> string) \<times> linkNetRow \<Rightarrow> LinkRecord list \<Rightarrow> LinkRecord list" where
  "attachNet e out = (case e of ((a, b, net), r) \<Rightarrow>
     map (\<lambda>rec. if l_NodeA rec = a \<and> l_NodeB rec = b then rec\<lparr>l_Networks := l_Networks rec @ [load_net net r]\<rparr> else rec) out)"

definition LoadLinks :: "LinkDB \<Rightarrow> LinkRecord list" where
  "LoadLinks ld = fold attachNet (mentries (ld_nets ld)) (map load_link (mentries (ld_links ld)))"

subsection \<open>Columns come back\<close>

lemma enc_not_null [simp]: "enc_int64 n \<noteq> JNull" "enc_uint64 w \<noteq> JNull"
  by (simp_all add: enc_int64_def enc_uint64_def)

lemma dec_bool_JBool [simp]: "dec_bool (JBool b) = Some b"
  by (simp add: dec_bool_def)

lemma segment_roundtrip [simp]: "dec_segment (enc_segment sg) = Some sg"
  by (simp add: dec_segment_def enc_segment_def equal_fold_def to_lower_def lower_char_def)

lemma segments_roundtrip: "dec_slice dec_segment (JArr (map enc_segment sgs)) = Some sgs"
  by (induction sgs) simp_all

lemma geo_roundtrip: "dec_geo (enc_geo g) = Some g"
  using segments_roundtrip [of "gb_Segments g"]
  by (simp add: dec_geo_def enc_geo_def equal_fold_def to_lower_def lower_char_def)

lemma floats_roundtrip [simp]: "dec_floats (marshalLinkSNRs xs) = xs"
proof -
  have "those (map dec_float (map JNum xs)) = Some xs" by (induction xs) auto
  then show ?thesis by (auto simp: dec_floats_def marshalLinkSNRs_def)
qed

lemma sources_roundtrip [simp]: "mget (dec_map dec_uint64 (marshalLinkSources m)) = mget m"
proof (cases "mlen m = 0")
  case True
  then have "m = mempty" by (simp add: mlen_def flip: DAList.impl_of_inject)
  then show ?thesis by (simp add: marshalLinkSources_def dec_map_def)
qed (simp add: marshalLinkSources_def mget_dec_map fun_eq_iff)

subsection \<open>What a load gives\<close>

definition link_pair :: "LinkRecord \<Rightarrow> string \<times> string" where
  "link_pair rec = (l_NodeA rec, l_NodeB rec)"

definition nets_of :: "LinkDB \<Rightarrow> string \<times> string \<Rightarrow> linkNetwork list" where
  "nets_of ld p = map (\<lambda>((a, b, net), r). load_net net r)
     (filter (\<lambda>((a, b, net), r). (a, b) = p) (mentries (ld_nets ld)))"

text \<open>The record a load returns for a pair of endpoints.\<close>

definition link_at :: "LinkDB \<Rightarrow> string \<times> string \<Rightarrow> LinkRecord option" where
  "link_at ld p = find (\<lambda>rec. link_pair rec = p) (LoadLinks ld)"

lemma load_link_pair [simp]: "link_pair (load_link (p, r)) = p" "l_Networks (load_link (p, r)) = []"
  by (auto simp: link_pair_def load_link_def applyLinkGeo_def split: prod.split option.split)

lemma link_pair_upd [simp]: "link_pair (rec\<lparr>l_Networks := ns\<rparr>) = link_pair rec"
  by (simp add: link_pair_def)

lemma attach_all:
  "fold attachNet es recs = map (\<lambda>rec. rec\<lparr>l_Networks := l_Networks rec @
     map (\<lambda>((a, b, net), r). load_net net r) (filter (\<lambda>((a, b, net), r). (a, b) = link_pair rec) es)\<rparr>) recs"
proof (induction es arbitrary: recs)
  case (Cons e es)
  obtain a b net r where "e = ((a, b, net), r)" by (cases e) auto
  then show ?case using Cons.IH by (auto simp: attachNet_def link_pair_def)
qed simp

lemma LoadLinks_eq:
  "LoadLinks ld = map (\<lambda>(p, r). (load_link (p, r))\<lparr>l_Networks := nets_of ld p\<rparr>) (mentries (ld_links ld))"
  by (auto simp: LoadLinks_def attach_all nets_of_def)

lemma LoadLinks_distinct: "distinct (map link_pair (LoadLinks ld))"
proof -
  have "map link_pair (LoadLinks ld) = mkeys (ld_links ld)"
    by (auto simp: LoadLinks_eq mkeys_def)
  then show ?thesis by simp
qed

lemma link_at_eq: "link_at ld p = map_option (\<lambda>r. (load_link (p, r))\<lparr>l_Networks := nets_of ld p\<rparr>) (mget (ld_links ld) p)"
proof -
  have "find (\<lambda>rec. link_pair rec = p) (map (\<lambda>(p, r). (load_link (p, r))\<lparr>l_Networks := nets_of ld p\<rparr>) es)
      = map_option (\<lambda>r. (load_link (p, r))\<lparr>l_Networks := nets_of ld p\<rparr>) (map_of es p)" for es
    by (induction es) auto
  then show ?thesis by (simp add: link_at_def LoadLinks_eq mget_eq_map_of)
qed

lemma load_net_id [simp]: "n_NetworkID (load_net net r) = net"
  by (simp add: load_net_def)

lemma nets_of_iff:
  "x \<in> set (nets_of ld p) \<longleftrightarrow>
     (\<exists>r. mget (ld_nets ld) (fst p, snd p, n_NetworkID x) = Some r \<and> load_net (n_NetworkID x) r = x)"
  (is "?l \<longleftrightarrow> ?r")
proof
  assume ?l
  then obtain a b net r where "((a, b, net), r) \<in> set (mentries (ld_nets ld))" "(a, b) = p" "x = load_net net r"
    by (auto simp: nets_of_def)
  then show ?r by (auto simp: mentries_iff)
next
  assume ?r
  then obtain r where "((fst p, snd p, n_NetworkID x), r) \<in> set (mentries (ld_nets ld))" "load_net (n_NetworkID x) r = x"
    by (auto simp: mentries_iff)
  then show ?l
    by (auto simp: nets_of_def intro!: image_eqI [where x = "((fst p, snd p, n_NetworkID x), r)"])
qed

subsection \<open>What a save stores\<close>

definition link_fits :: "LinkRecord \<Rightarrow> bool" where
  "link_fits rec \<longleftrightarrow> link_columns rec \<noteq> None \<and> (\<forall>n\<in>set (l_Networks rec). net_columns n \<noteq> None)"

definition network_of :: "string \<Rightarrow> linkNetwork list \<Rightarrow> linkNetwork option" where
  "network_of i ns = find (\<lambda>n. n_NetworkID n = i) ns"

lemma save_nets:
  "\<forall>n\<in>set ns. net_columns n \<noteq> None \<Longrightarrow> distinct (map n_NetworkID ns) \<Longrightarrow>
   \<exists>ld'. exec_all (save_net a b) ns ld = Some ld' \<and> ld_links ld' = ld_links ld
     \<and> (\<forall>p i. mget (ld_nets ld') (fst p, snd p, i) =
          (case if p = (a, b) then network_of i ns else None of None \<Rightarrow> mget (ld_nets ld) (fst p, snd p, i)
           | Some n \<Rightarrow> Some (upsert_net (mget (ld_nets ld) (a, b, i)) (the (net_columns n)))))"
proof (induction ns arbitrary: ld)
  case (Cons n ns)
  obtain row where row: "net_columns n = Some row" using Cons.prems(1) by auto
  let ?ld1 = "ld\<lparr>ld_nets := mput (ld_nets ld) (a, b, n_NetworkID n) (upsert_net (mget (ld_nets ld) (a, b, n_NetworkID n)) row)\<rparr>"
  have 1: "save_net a b n ld = Some ?ld1" by (simp add: save_net_def row)
  have fresh: "network_of (n_NetworkID n) ns = None"
    using Cons.prems(2) by (auto simp: network_of_def find_None_iff image_iff)
  obtain ld' where ld': "exec_all (save_net a b) ns ?ld1 = Some ld'" "ld_links ld' = ld_links ?ld1"
    "\<And>p i. mget (ld_nets ld') (fst p, snd p, i) =
       (case if p = (a, b) then network_of i ns else None of None \<Rightarrow> mget (ld_nets ?ld1) (fst p, snd p, i)
        | Some n \<Rightarrow> Some (upsert_net (mget (ld_nets ?ld1) (a, b, i)) (the (net_columns n))))"
    using Cons.IH [of ?ld1] Cons.prems by auto
  have "mget (ld_nets ld') (fst p, snd p, i) =
      (case if p = (a, b) then network_of i (n # ns) else None of None \<Rightarrow> mget (ld_nets ld) (fst p, snd p, i)
       | Some n \<Rightarrow> Some (upsert_net (mget (ld_nets ld) (a, b, i)) (the (net_columns n))))" for p i
    using ld'(3) [of p i] fresh row
    by (cases p) (auto simp: network_of_def gomap split: if_splits option.splits)
  then show ?case using 1 ld' by auto
qed (simp add: network_of_def)

lemma save_nets_refused:
  "n \<in> set ns \<Longrightarrow> net_columns n = None \<Longrightarrow> exec_all (save_net a b) ns ld = None"
proof (induction ns arbitrary: ld)
  case (Cons x ns)
  then show ?case by (cases "net_columns x") (auto simp: save_net_def)
qed simp

lemma save_link_effect:
  assumes "link_fits rec" "distinct (map n_NetworkID (l_Networks rec))"
  shows "\<exists>ld'. save_link rec ld = Some ld'
     \<and> mget (ld_links ld') = (mget (ld_links ld))
          (link_pair rec \<mapsto> upsert_link (mget (ld_links ld) (link_pair rec)) (the (link_columns rec)))
     \<and> (\<forall>p i. mget (ld_nets ld') (fst p, snd p, i) =
          (case if p = link_pair rec then network_of i (l_Networks rec) else None of
             None \<Rightarrow> mget (ld_nets ld) (fst p, snd p, i)
           | Some n \<Rightarrow> Some (upsert_net (mget (ld_nets ld) (fst p, snd p, i)) (the (net_columns n)))))"
proof -
  obtain row where row: "link_columns rec = Some row" using assms(1) by (auto simp: link_fits_def)
  let ?ld1 = "ld\<lparr>ld_links := mput (ld_links ld) (link_pair rec) (upsert_link (mget (ld_links ld) (link_pair rec)) row)\<rparr>"
  have "save_link rec ld = exec_all (save_net (l_NodeA rec) (l_NodeB rec)) (l_Networks rec) ?ld1"
    by (simp add: save_link_def row link_pair_def Let_def)
  moreover obtain ld' where "exec_all (save_net (l_NodeA rec) (l_NodeB rec)) (l_Networks rec) ?ld1 = Some ld'"
    "ld_links ld' = ld_links ?ld1"
    "\<forall>p i. mget (ld_nets ld') (fst p, snd p, i) =
       (case if p = (l_NodeA rec, l_NodeB rec) then network_of i (l_Networks rec) else None of
          None \<Rightarrow> mget (ld_nets ?ld1) (fst p, snd p, i)
        | Some n \<Rightarrow> Some (upsert_net (mget (ld_nets ?ld1) (l_NodeA rec, l_NodeB rec, i)) (the (net_columns n))))"
    using save_nets [of "l_Networks rec" "l_NodeA rec" "l_NodeB rec" ?ld1] assms unfolding link_fits_def by blast
  ultimately show ?thesis
    by (intro exI [of _ ld']) (auto simp: row gomap fun_eq_iff link_pair_def split: option.split)
qed

lemma save_link_refused: "\<not> link_fits rec \<Longrightarrow> save_link rec ld = None"
  by (auto simp: save_link_def link_fits_def save_nets_refused Let_def split: bind_split)

lemma exec_all_refused_any: "r \<in> set rs \<Longrightarrow> (\<And>t. f r t = None) \<Longrightarrow> exec_all f rs t = None"
proof (induction rs arbitrary: t)
  case (Cons x rs)
  then show ?case by (cases "f x t") auto
qed simp

abbreviation saved_for :: "LinkRecord list \<Rightarrow> string \<times> string \<Rightarrow> LinkRecord option" where
  "saved_for recs p \<equiv> find (\<lambda>rec. link_pair rec = p) recs"

lemma save_links_effect:
  "\<forall>rec\<in>set recs. link_fits rec \<and> distinct (map n_NetworkID (l_Networks rec)) \<Longrightarrow> distinct (map link_pair recs) \<Longrightarrow>
   \<exists>ld'. exec_all save_link recs ld = Some ld'
     \<and> (\<forall>p. mget (ld_links ld') p = (case saved_for recs p of None \<Rightarrow> mget (ld_links ld) p
          | Some rec \<Rightarrow> Some (upsert_link (mget (ld_links ld) p) (the (link_columns rec)))))
     \<and> (\<forall>p i. mget (ld_nets ld') (fst p, snd p, i) =
          (case Option.bind (saved_for recs p) (\<lambda>rec. network_of i (l_Networks rec)) of
             None \<Rightarrow> mget (ld_nets ld) (fst p, snd p, i)
           | Some n \<Rightarrow> Some (upsert_net (mget (ld_nets ld) (fst p, snd p, i)) (the (net_columns n)))))"
proof (induction recs arbitrary: ld)
  case (Cons rec recs)
  obtain ld1 where 1: "save_link rec ld = Some ld1"
    "mget (ld_links ld1) = (mget (ld_links ld))
        (link_pair rec \<mapsto> upsert_link (mget (ld_links ld) (link_pair rec)) (the (link_columns rec)))"
    "\<forall>p i. mget (ld_nets ld1) (fst p, snd p, i) =
        (case if p = link_pair rec then network_of i (l_Networks rec) else None of
           None \<Rightarrow> mget (ld_nets ld) (fst p, snd p, i)
         | Some n \<Rightarrow> Some (upsert_net (mget (ld_nets ld) (fst p, snd p, i)) (the (net_columns n))))"
    using save_link_effect [of rec ld] Cons.prems(1) by (metis list.set_intros(1))
  have fresh: "saved_for recs (link_pair rec) = None"
    using Cons.prems(2) by (auto simp: find_None_iff image_iff)
  obtain ld' where 2: "exec_all save_link recs ld1 = Some ld'"
    "\<forall>p. mget (ld_links ld') p = (case saved_for recs p of None \<Rightarrow> mget (ld_links ld1) p
          | Some rec \<Rightarrow> Some (upsert_link (mget (ld_links ld1) p) (the (link_columns rec))))"
    "\<forall>p i. mget (ld_nets ld') (fst p, snd p, i) =
        (case Option.bind (saved_for recs p) (\<lambda>rec. network_of i (l_Networks rec)) of
           None \<Rightarrow> mget (ld_nets ld1) (fst p, snd p, i)
         | Some n \<Rightarrow> Some (upsert_net (mget (ld_nets ld1) (fst p, snd p, i)) (the (net_columns n))))"
    using Cons.IH [of ld1] Cons.prems by auto
  show ?case
  proof (intro exI [of _ ld'] conjI allI)
    show "exec_all save_link (rec # recs) ld = Some ld'" using 1(1) 2(1) by simp
    fix p
    show "mget (ld_links ld') p = (case saved_for (rec # recs) p of None \<Rightarrow> mget (ld_links ld) p
          | Some rec \<Rightarrow> Some (upsert_link (mget (ld_links ld) p) (the (link_columns rec))))"
      using fresh by (cases "link_pair rec = p") (auto simp: 2(2) 1(2) split: option.split)
    fix i
    show "mget (ld_nets ld') (fst p, snd p, i) =
        (case Option.bind (saved_for (rec # recs) p) (\<lambda>rec. network_of i (l_Networks rec)) of
           None \<Rightarrow> mget (ld_nets ld) (fst p, snd p, i)
         | Some n \<Rightarrow> Some (upsert_net (mget (ld_nets ld) (fst p, snd p, i)) (the (net_columns n))))"
    proof (cases "link_pair rec = p")
      case True
      then show ?thesis using fresh by (simp add: 2(3) 1(3))
    next
      case False
      then show ?thesis by (auto simp: 2(3) 1(3) split: option.split)
    qed
  qed
qed simp

text \<open>What a save promises for one record: the stored one is replaced, but keeps its earliest first and
  its latest last sighting, also per network, and the networks that the new one does not list.\<close>

definition widen_net :: "linkNetwork option \<Rightarrow> linkNetwork \<Rightarrow> linkNetwork" where
  "widen_net old n = (case old of None \<Rightarrow> n
     | Some m \<Rightarrow> n\<lparr>n_FirstSeen := min (n_FirstSeen m) (n_FirstSeen n), n_LastSeen := max (n_LastSeen m) (n_LastSeen n)\<rparr>)"

definition widen_nets :: "linkNetwork list \<Rightarrow> linkNetwork list \<Rightarrow> linkNetwork list" where
  "widen_nets old ns = map (\<lambda>n. widen_net (network_of (n_NetworkID n) old) n) ns
     @ filter (\<lambda>m. network_of (n_NetworkID m) ns = None) old"

definition upserted :: "LinkRecord option \<Rightarrow> LinkRecord \<Rightarrow> LinkRecord" where
  "upserted old rec = (case old of None \<Rightarrow> rec
     | Some o' \<Rightarrow> rec\<lparr>l_FirstSeen := min (l_FirstSeen o') (l_FirstSeen rec), l_LastSeen := max (l_LastSeen o') (l_LastSeen rec),
         l_Networks := widen_nets (l_Networks o') (l_Networks rec)\<rparr>)"

text \<open>Equal but for the order of the networks and of the source counts; the key and the dirty flag are not
  stored.\<close>

definition same_link :: "LinkRecord \<Rightarrow> LinkRecord \<Rightarrow> bool" where
  "same_link x y \<longleftrightarrow> set (l_Networks x) = set (l_Networks y) \<and> same_map (l_SourceCounts x) (l_SourceCounts y)
     \<and> x\<lparr>l_Networks := l_Networks y, l_SourceCounts := l_SourceCounts y, l_Key := l_Key y, l_dirty := l_dirty y\<rparr> = y"

text \<open>A record without a position and without segments has none of the position's fields.\<close>

definition geo_ok :: "LinkRecord \<Rightarrow> bool" where
  "geo_ok rec \<longleftrightarrow> (\<not> l_HasPos rec \<and> l_Segments rec = [] \<longrightarrow>
     l_LatA rec = 0 \<and> l_LonA rec = 0 \<and> l_LatB rec = 0 \<and> l_LonB rec = 0 \<and> l_SegFirstSeen rec = 0 \<and> l_SegPacketCount rec = 0)"

definition nets_closed :: "LinkDB \<Rightarrow> bool" where
  "nets_closed ld \<longleftrightarrow> (\<forall>(a, b, i) \<in> dom (mget (ld_nets ld)). (a, b) \<in> dom (mget (ld_links ld)))"

lemma network_of_SomeD: "network_of i ns = Some n \<Longrightarrow> n \<in> set ns \<and> n_NetworkID n = i"
  by (auto simp: network_of_def find_Some_iff)

lemma network_of_None: "network_of i ns = None \<longleftrightarrow> i \<notin> n_NetworkID ` set ns"
  by (auto simp: network_of_def find_None_iff)

lemma network_of_mem:
  "distinct (map n_NetworkID ns) \<Longrightarrow> n \<in> set ns \<Longrightarrow> network_of (n_NetworkID n) ns = Some n"
  by (induction ns) (auto simp: network_of_def)

lemma network_of_nets_of: "network_of i (nets_of ld p) = map_option (load_net i) (mget (ld_nets ld) (fst p, snd p, i))"
proof (cases "network_of i (nets_of ld p)")
  case None
  have "mget (ld_nets ld) (fst p, snd p, i) = None"
  proof (rule ccontr)
    assume "mget (ld_nets ld) (fst p, snd p, i) \<noteq> None"
    then obtain r where "mget (ld_nets ld) (fst p, snd p, i) = Some r" by auto
    then have "load_net i r \<in> set (nets_of ld p)" by (simp add: nets_of_iff)
    then show False using None by (force simp: network_of_None)
  qed
  then show ?thesis using None by simp
next
  case (Some m)
  then show ?thesis using network_of_SomeD [OF Some] by (auto simp: nets_of_iff)
qed

lemma load_upsert_net:
  "net_columns n \<noteq> None \<Longrightarrow>
   load_net (n_NetworkID n) (upsert_net old (the (net_columns n))) = widen_net (map_option (load_net (n_NetworkID n)) old) n"
  by (auto simp: net_columns_def bind_u64_simps load_net_def upsert_net_def widen_net_def
      split: bind_splits option.split)

lemma apply_marshal_geo:
  assumes "geo_ok rec"
    and "\<not> l_HasPos blank" "l_LatA blank = 0" "l_LonA blank = 0" "l_LatB blank = 0" "l_LonB blank = 0"
      "l_SegFirstSeen blank = 0" "l_SegPacketCount blank = 0" "l_Segments blank = []"
  shows "applyLinkGeo (marshalLinkGeo rec) blank = blank\<lparr>l_HasPos := l_HasPos rec, l_LatA := l_LatA rec,
     l_LonA := l_LonA rec, l_LatB := l_LatB rec, l_LonB := l_LonB rec, l_SegFirstSeen := l_SegFirstSeen rec,
     l_SegPacketCount := l_SegPacketCount rec, l_Segments := l_Segments rec\<rparr>"
proof (cases "\<not> l_HasPos rec \<and> l_Segments rec = []")
  case True
  then show ?thesis using assms by (cases blank) (simp add: marshalLinkGeo_def applyLinkGeo_def geo_ok_def)
qed (auto simp: marshalLinkGeo_def applyLinkGeo_def geo_roundtrip)

lemma load_upsert_link:
  assumes cols: "link_columns rec = Some row" and geo: "geo_ok rec"
  shows "load_link (link_pair rec, upsert_link old row) = rec
     \<lparr>l_FirstSeen := (case old of None \<Rightarrow> l_FirstSeen rec | Some r \<Rightarrow> min (lw_first_seen r) (l_FirstSeen rec)),
      l_LastSeen := (case old of None \<Rightarrow> l_LastSeen rec | Some r \<Rightarrow> max (lw_last_seen r) (l_LastSeen rec)),
      l_Networks := [], l_SourceCounts := dec_map dec_uint64 (marshalLinkSources (l_SourceCounts rec)),
      l_Key := replicate 64 0, l_dirty := False\<rparr>"
proof -
  have row: "row = \<lparr>lw_packet_count = uint (l_PacketCount rec), lw_first_seen = l_FirstSeen rec, lw_last_seen = l_LastSeen rec,
       lw_activity_score = l_Score rec, lw_score_updated_at = l_ScoreUpdatedAt rec, lw_last_hash_ab = l_LastHashAB rec,
       lw_last_hash_ba = l_LastHashBA rec, lw_dir_ab = uint (l_DirAB rec), lw_dir_ba = uint (l_DirBA rec),
       lw_snrs_ab = marshalLinkSNRs (l_SNRsAB rec), lw_snrs_ba = marshalLinkSNRs (l_SNRsBA rec),
       lw_low_confidence_count = uint (l_LowConfidenceCount rec), lw_geo = marshalLinkGeo rec,
       lw_sources = marshalLinkSources (l_SourceCounts rec)\<rparr>"
    using cols by (auto simp: link_columns_def bind_u64_simps split: bind_splits)
  have g: "lw_geo (upsert_link old row) = marshalLinkGeo rec"
    by (cases old) (simp_all add: row upsert_link_def)
  show ?thesis
    unfolding load_link_def link_pair_def prod.case g
    by (subst apply_marshal_geo [OF geo]) (simp_all add: row upsert_link_def split: option.split)
qed

lemma same_linkI:
  "set ns = set (l_Networks r) \<Longrightarrow> mget m = mget (l_SourceCounts r) \<Longrightarrow>
   same_link (r\<lparr>l_Networks := ns, l_SourceCounts := m, l_Key := k, l_dirty := d\<rparr>) r"
  by (simp add: same_link_def same_map_def)

lemma same_link_refl: "same_link r r"
  by (simp add: same_link_def)

lemma saved_networks:
  assumes nets: "\<And>i. mget (ld_nets ld') (fst p, snd p, i) = (case network_of i ns of
       None \<Rightarrow> mget (ld_nets ld) (fst p, snd p, i)
     | Some n \<Rightarrow> Some (upsert_net (mget (ld_nets ld) (fst p, snd p, i)) (the (net_columns n))))"
    and fits: "\<forall>n\<in>set ns. net_columns n \<noteq> None" and dist: "distinct (map n_NetworkID ns)"
  shows "set (nets_of ld' p) = set (widen_nets (nets_of ld p) ns)"
proof -
  have "x \<in> set (nets_of ld' p) \<longleftrightarrow> x \<in> set (widen_nets (nets_of ld p) ns)" for x
  proof (cases "network_of (n_NetworkID x) ns")
    case None
    then have "n_NetworkID x \<noteq> n_NetworkID (widen_net old n)" if "n \<in> set ns" for n old
      using that by (auto simp: network_of_None widen_net_def split: option.split)
    then have "x \<notin> set (map (\<lambda>n. widen_net (network_of (n_NetworkID n) (nets_of ld p)) n) ns)" by auto
    then show ?thesis using None by (simp add: widen_nets_def nets_of_iff nets)
  next
    case (Some n)
    then have n: "n \<in> set ns" "n_NetworkID n = n_NetworkID x" using network_of_SomeD by auto
    have ids: "n_NetworkID (widen_net old m) = n_NetworkID m" for old m
      by (simp add: widen_net_def split: option.split)
    have "x \<in> set (nets_of ld' p) \<longleftrightarrow> x = widen_net (network_of (n_NetworkID n) (nets_of ld p)) n"
      using load_upsert_net [of n "mget (ld_nets ld) (fst p, snd p, n_NetworkID x)"] fits n Some
      by (auto simp: nets_of_iff nets network_of_nets_of)
    also have "\<dots> \<longleftrightarrow> x \<in> set (widen_nets (nets_of ld p) ns)"
    proof
      assume "x \<in> set (widen_nets (nets_of ld p) ns)"
      then obtain m where m: "m \<in> set ns" "x = widen_net (network_of (n_NetworkID m) (nets_of ld p)) m"
        using Some by (auto simp: widen_nets_def)
      then have "network_of (n_NetworkID x) ns = Some m" using network_of_mem [OF dist m(1)] by (simp add: ids)
      then show "x = widen_net (network_of (n_NetworkID n) (nets_of ld p)) n" using m(2) Some by simp
    qed (use n(1) in \<open>auto simp: widen_nets_def\<close>)
    finally show ?thesis .
  qed
  then show ?thesis by blast
qed

lemma nets_of_closed: "nets_closed ld \<Longrightarrow> mget (ld_links ld) p = None \<Longrightarrow> nets_of ld p = []"
proof (rule ccontr)
  assume "nets_closed ld" "mget (ld_links ld) p = None" "nets_of ld p \<noteq> []"
  then obtain x where "x \<in> set (nets_of ld p)" by (cases "nets_of ld p") auto
  then have "(fst p, snd p, n_NetworkID x) \<in> dom (mget (ld_nets ld))" by (auto simp: nets_of_iff)
  then have "p \<in> dom (mget (ld_links ld))" using \<open>nets_closed ld\<close> unfolding nets_closed_def by (metis (mono_tags, lifting) case_prod_conv prod.collapse)
  then show False using \<open>mget (ld_links ld) p = None\<close> by auto
qed

lemma widen_nets_Nil [simp]: "widen_nets [] ns = ns"
proof -
  have "map (\<lambda>n. widen_net (network_of (n_NetworkID n) []) n) ns = ns"
    by (rule map_idI) (simp add: network_of_def widen_net_def)
  then show ?thesis by (simp add: widen_nets_def)
qed

lemma saved_link:
  assumes closed: "nets_closed ld" and fits: "link_fits rec" and geo: "geo_ok rec"
    and dist: "distinct (map n_NetworkID (l_Networks rec))" and p: "link_pair rec = p"
    and row: "mget (ld_links ld') p = Some (upsert_link (mget (ld_links ld) p) (the (link_columns rec)))"
    and nets: "\<And>i. mget (ld_nets ld') (fst p, snd p, i) = (case network_of i (l_Networks rec) of
       None \<Rightarrow> mget (ld_nets ld) (fst p, snd p, i)
     | Some n \<Rightarrow> Some (upsert_net (mget (ld_nets ld) (fst p, snd p, i)) (the (net_columns n))))"
  shows "\<exists>rec'. link_at ld' p = Some rec' \<and> same_link rec' (upserted (link_at ld p) rec)"
proof -
  obtain cols where cols: "link_columns rec = Some cols" using fits by (auto simp: link_fits_def)
  have ns: "set (nets_of ld' p) = set (widen_nets (nets_of ld p) (l_Networks rec))"
    by (rule saved_networks [OF nets]) (use fits dist in \<open>auto simp: link_fits_def\<close>)
  have first: "l_FirstSeen (load_link (p, r)) = lw_first_seen r" "l_LastSeen (load_link (p, r)) = lw_last_seen r" for r
    by (auto simp: load_link_def applyLinkGeo_def split: prod.split option.split)
  show ?thesis
  proof (cases "mget (ld_links ld) p")
    case None
    then have "nets_of ld p = []" by (rule nets_of_closed [OF closed])
    then have "set (nets_of ld' p) = set (l_Networks rec)" using ns by simp
    then have "same_link (rec\<lparr>l_Networks := nets_of ld' p,
        l_SourceCounts := dec_map dec_uint64 (marshalLinkSources (l_SourceCounts rec)), l_Key := replicate 64 0, l_dirty := False\<rparr>) rec"
      by (intro same_linkI) simp_all
    then show ?thesis using load_upsert_link [OF cols geo, of None] None cols p
      by (simp add: link_at_eq row upserted_def same_link_def)
  next
    case (Some r)
    let ?u = "rec\<lparr>l_FirstSeen := min (lw_first_seen r) (l_FirstSeen rec), l_LastSeen := max (lw_last_seen r) (l_LastSeen rec),
        l_Networks := widen_nets (nets_of ld p) (l_Networks rec)\<rparr>"
    have "same_link (?u\<lparr>l_Networks := nets_of ld' p,
        l_SourceCounts := dec_map dec_uint64 (marshalLinkSources (l_SourceCounts ?u)), l_Key := replicate 64 0, l_dirty := False\<rparr>) ?u"
      by (intro same_linkI) (simp_all add: ns)
    then show ?thesis using load_upsert_link [OF cols geo, of "Some r"] Some cols p
      by (simp add: link_at_eq row upserted_def first same_link_def)
  qed
qed

lemma nets_closed_saved:
  assumes closed: "nets_closed ld"
    and links: "\<And>p. mget (ld_links ld') p = (case saved_for recs p of None \<Rightarrow> mget (ld_links ld) p
          | Some rec \<Rightarrow> Some (upsert_link (mget (ld_links ld) p) (the (link_columns rec))))"
    and nets: "\<And>p i. mget (ld_nets ld') (fst p, snd p, i) =
          (case Option.bind (saved_for recs p) (\<lambda>rec. network_of i (l_Networks rec)) of
             None \<Rightarrow> mget (ld_nets ld) (fst p, snd p, i)
           | Some n \<Rightarrow> Some (upsert_net (mget (ld_nets ld) (fst p, snd p, i)) (the (net_columns n))))"
  shows "nets_closed ld'"
proof -
  have "mget (ld_links ld') (a, b) \<noteq> None" if "mget (ld_nets ld') (a, b, i) \<noteq> None" for a b i
  proof (cases "saved_for recs (a, b)")
    case None
    then have "mget (ld_nets ld) (a, b, i) \<noteq> None" using nets [of "(a, b)" i] that by simp
    then have "mget (ld_links ld) (a, b) \<noteq> None" using closed by (fastforce simp: nets_closed_def dom_def)
    then show ?thesis using None links [of "(a, b)"] by simp
  qed (simp add: links)
  then show ?thesis by (auto simp: nets_closed_def dom_def)
qed

lemma SaveLinks_eq: "recs \<noteq> [] \<Longrightarrow> SaveLinks commits recs ld = transaction commits (exec_all save_link recs) ld"
  by (simp add: SaveLinks_def)

lemma unsaved_link:
  assumes "mget (ld_links ld') p = mget (ld_links ld) p"
    and "\<And>i. mget (ld_nets ld') (fst p, snd p, i) = mget (ld_nets ld) (fst p, snd p, i)"
  shows "rel_option same_link (link_at ld' p) (link_at ld p)"
proof -
  have "set (nets_of ld' p) = set (nets_of ld p)" using assms(2) by (auto simp: nets_of_iff)
  then show ?thesis by (cases "mget (ld_links ld) p") (simp_all add: link_at_eq assms(1) same_link_def same_map_def)
qed

text \<open>C14: the link tables: a save succeeds exactly when its transaction commits and all counts fit a signed
  integer; otherwise nothing changes. After a success a load gives, for the endpoints of each saved
  link, that link with the earlier first and the later last sighting of the stored and the new one
  (also for each network) and with the networks only the stored one had, and every other link as
  before; each pair of endpoints is loaded once, and no network row is left without its link.\<close>

theorem links_save_load:
  assumes "nets_closed ld" "distinct (map link_pair recs)"
    and "\<forall>rec\<in>set recs. geo_ok rec \<and> distinct (map n_NetworkID (l_Networks rec))"
  shows "case SaveLinks commits recs ld of (ok, ld') \<Rightarrow>
      (ok \<longleftrightarrow> recs = [] \<or> commits \<and> (\<forall>rec\<in>set recs. link_fits rec))
    \<and> (if ok then \<forall>p. (case saved_for recs p of
            None \<Rightarrow> rel_option same_link (link_at ld' p) (link_at ld p)
          | Some rec \<Rightarrow> \<exists>rec'. link_at ld' p = Some rec' \<and> same_link rec' (upserted (link_at ld p) rec))
        else ld' = ld)
    \<and> distinct (map link_pair (LoadLinks ld')) \<and> nets_closed ld'"
proof (cases "commits \<and> (\<forall>rec\<in>set recs. link_fits rec) \<and> recs \<noteq> []")
  case True
  then obtain ld' where ld': "exec_all save_link recs ld = Some ld'"
    "\<And>p. mget (ld_links ld') p = (case saved_for recs p of None \<Rightarrow> mget (ld_links ld) p
          | Some rec \<Rightarrow> Some (upsert_link (mget (ld_links ld) p) (the (link_columns rec))))"
    "\<And>p i. mget (ld_nets ld') (fst p, snd p, i) =
          (case Option.bind (saved_for recs p) (\<lambda>rec. network_of i (l_Networks rec)) of
             None \<Rightarrow> mget (ld_nets ld) (fst p, snd p, i)
           | Some n \<Rightarrow> Some (upsert_net (mget (ld_nets ld) (fst p, snd p, i)) (the (net_columns n))))"
    using save_links_effect [of recs ld] assms(2,3) by blast
  have "case saved_for recs p of
            None \<Rightarrow> rel_option same_link (link_at ld' p) (link_at ld p)
          | Some rec \<Rightarrow> \<exists>rec'. link_at ld' p = Some rec' \<and> same_link rec' (upserted (link_at ld p) rec)" for p
  proof (cases "saved_for recs p")
    case None
    then show ?thesis using unsaved_link [of ld' p ld] by (simp add: ld'(2,3))
  next
    case (Some rec)
    then have "rec \<in> set recs" "link_pair rec = p" by (auto simp: find_Some_iff)
    then have "\<exists>rec'. link_at ld' p = Some rec' \<and> same_link rec' (upserted (link_at ld p) rec)"
      by (intro saved_link) (use assms True Some in \<open>auto simp: ld'(2,3)\<close>)
    then show ?thesis using Some by simp
  qed
  moreover have "nets_closed ld'" by (rule nets_closed_saved [OF assms(1) ld'(2,3)])
  moreover have "SaveLinks commits recs ld = (True, ld')" using True ld'(1) by (simp add: SaveLinks_eq transaction_def)
  ultimately show ?thesis using True by (simp add: LoadLinks_distinct)
next
  case False
  show ?thesis
  proof (cases "recs = []")
    case True
    then show ?thesis using assms(1) by (simp add: SaveLinks_def LoadLinks_distinct option.rel_refl same_link_refl)
  next
    case ne: False
    have "exec_all save_link recs ld = None" if "\<not> (\<forall>rec\<in>set recs. link_fits rec)"
      using that exec_all_refused_any [of _ recs save_link] save_link_refused by blast
    then have "SaveLinks commits recs ld = (False, ld)"
      using False ne by (cases "exec_all save_link recs ld") (auto simp: SaveLinks_eq transaction_def)
    then show ?thesis using False ne assms(1) by (auto simp: LoadLinks_distinct)
  qed
qed

subsection \<open>Example\<close>

definition ex_link :: LinkRecord where
  "ex_link = \<lparr>l_Key = [], l_NodeA = ''aa'', l_NodeB = ''bb'', l_PacketCount = 3, l_FirstSeen = 10, l_LastSeen = 20,
     l_Score = 2, l_ScoreUpdatedAt = 20, l_Networks = [\<lparr>n_NetworkID = ''cz'', n_FirstSeen = 10, n_LastSeen = 20,
       n_PacketCount = 3, n_DirAB = 3, n_DirBA = 0, n_LastHashAB = ''h'', n_LastHashBA = '''', n_LowConfidenceCount = 0\<rparr>],
     l_DirAB = 3, l_DirBA = 0, l_LastHashAB = ''h'', l_LastHashBA = '''', l_SNRsAB = [7], l_SNRsBA = [],
     l_LowConfidenceCount = 0, l_SourceCounts = mempty, l_HasPos = False, l_LatA = 0, l_LonA = 0, l_LatB = 0, l_LonB = 0,
     l_SegFirstSeen = 0, l_SegPacketCount = 0, l_Segments = [], l_dirty = False\<rparr>"

definition ex_linkdb :: LinkDB where
  "ex_linkdb = \<lparr>ld_links = mempty, ld_nets = mempty\<rparr>"

lemma links_save_load_witness:
  "\<exists>rec'. link_at (snd (SaveLinks True [ex_link] ex_linkdb)) (''aa'', ''bb'') = Some rec' \<and> same_link rec' ex_link"
proof -
  have "link_at ex_linkdb (''aa'', ''bb'') = None" "link_fits ex_link"
    by (simp_all add: ex_linkdb_def link_at_eq link_fits_def link_columns_def net_columns_def bind_u64_def ex_link_def)
  moreover have "saved_for [ex_link] (''aa'', ''bb'') = Some ex_link" by (simp add: link_pair_def ex_link_def)
  moreover have "nets_closed ex_linkdb" "geo_ok ex_link" "distinct (map n_NetworkID (l_Networks ex_link))"
    by (simp_all add: nets_closed_def ex_linkdb_def geo_ok_def ex_link_def)
  moreover obtain ok ld' where sv: "SaveLinks True [ex_link] ex_linkdb = (ok, ld')" by fastforce
  ultimately have ok: "ok"
    and all: "\<forall>p. (case saved_for [ex_link] p of
            None \<Rightarrow> rel_option same_link (link_at ld' p) (link_at ex_linkdb p)
          | Some rec \<Rightarrow> \<exists>rec'. link_at ld' p = Some rec' \<and> same_link rec' (upserted (link_at ex_linkdb p) rec))"
    using links_save_load [where ld = ex_linkdb and recs = "[ex_link]" and commits = True] by (simp_all del: find.simps split_paired_All)
  have "\<exists>rec'. link_at ld' (''aa'', ''bb'') = Some rec' \<and> same_link rec' (upserted None ex_link)"
    using all [rule_format, of "(''aa'', ''bb'')"] \<open>saved_for _ _ = _\<close> \<open>link_at ex_linkdb _ = _\<close> by simp
  then show ?thesis by (simp add: sv upserted_def)
qed

end
