(* ===== verification/ImportedTables.thy ===== *)
theory ImportedTables
  imports Database
begin

text \<open>
  The tables of the mirrored directory (db.go, importer.go): \<open>imported_nodes\<close>, one row per public key,
  and \<open>imported_node_history\<close>, one row per publish, that is per public key and content hash. The
  hash (\<open>historySig\<close>: SHA-256 of the printed fields) is the argument \<open>sig\<close>, the row id SQLite gives to
  an inserted history row the argument \<open>alloc\<close>, of which only that it exceeds every id of the table is
  used.
\<close>

subsection \<open>Tables\<close>

record importedRow =
  iw_type :: int
  iw_adv_name :: string
  iw_last_advert :: string
  iw_last_advert_at :: int
  iw_adv_lat :: float64
  iw_adv_lon :: float64
  iw_inserted_date :: string
  iw_updated_date :: string
  iw_params :: json
  iw_link :: string
  iw_source :: string
  iw_inserted_by :: string
  iw_updated_by :: string
  iw_synced_at :: int

record historyRow =
  hw_id :: int
  hw_public_key :: string
  hw_sig :: string
  hw_type :: int
  hw_adv_name :: string
  hw_last_advert :: string
  hw_last_advert_at :: int
  hw_adv_lat :: float64
  hw_adv_lon :: float64
  hw_inserted_date :: string
  hw_updated_date :: string
  hw_params :: json
  hw_link :: string
  hw_source :: string
  hw_inserted_by :: string
  hw_updated_by :: string
  hw_first_captured_at :: int
  hw_last_captured_at :: int

record ImportDB =
  idb_core :: DB
  idb_nodes :: "(string, importedRow) gomap"
  idb_history :: "historyRow list"

definition maxHistoryId :: "historyRow list \<Rightarrow> int" where
  "maxHistoryId rows = fold (\<lambda>r m. max m (hw_id r)) rows 0"

subsection \<open>Cached table sizes\<close>

definition upd_stats :: "(SQLiteStats \<Rightarrow> SQLiteStats) \<Rightarrow> ImportDB \<Rightarrow> ImportDB" where
  "upd_stats f d = d\<lparr>idb_core := (idb_core d)\<lparr>db_stats := f (db_stats (idb_core d))\<rparr>\<rparr>"

definition initStats :: "ImportDB \<Rightarrow> ImportDB" where
  "initStats d = upd_stats (\<lambda>_. \<lparr>sq_Nodes = int (mlen (db_nodes (idb_core d))), sq_ImportedNodes = int (mlen (idb_nodes d)),
     sq_Adverts = fold (\<lambda>r m. max m (aw_id r)) (db_adverts (idb_core d)) 0,
     sq_ImportedNodeHistory = maxHistoryId (idb_history d)\<rparr>) d"

definition db_Stats :: "ImportDB \<Rightarrow> SQLiteStats" where
  "db_Stats d = db_stats (idb_core d)"

definition setLoadedNodeCount :: "int \<Rightarrow> ImportDB \<Rightarrow> ImportDB" where
  "setLoadedNodeCount n = upd_stats (sq_Nodes_update (\<lambda>_. n))"

definition setImportedNodeCount :: "int \<Rightarrow> ImportDB \<Rightarrow> ImportDB" where
  "setImportedNodeCount n = upd_stats (sq_ImportedNodes_update (\<lambda>_. n))"

definition refreshImportedNodeCount :: "ImportDB \<Rightarrow> ImportDB" where
  "refreshImportedNodeCount d = upd_stats (sq_ImportedNodes_update (\<lambda>_. int (mlen (idb_nodes d)))) d"

definition refreshImportedNodeHistoryCount :: "ImportDB \<Rightarrow> ImportDB" where
  "refreshImportedNodeHistoryCount d = upd_stats (sq_ImportedNodeHistory_update (\<lambda>_. maxHistoryId (idb_history d))) d"

subsection \<open>The mirror\<close>

text \<open>The raw \<open>params\<close> as a column: no text is stored as an empty object.\<close>

definition params_column :: "ImportedNode \<Rightarrow> json" where
  "params_column n = (case im_Params n of None \<Rightarrow> JObj [] | Some j \<Rightarrow> j)"

definition save_imported :: "int \<Rightarrow> ImportedNode \<Rightarrow> ImportDB \<Rightarrow> ImportDB option" where
  "save_imported now n d = (if im_PublicKey n = '''' then Some d
     else Some (d\<lparr>idb_nodes := mput (idb_nodes d) (im_PublicKey n)
       \<lparr>iw_type = im_Type n, iw_adv_name = im_AdvName n, iw_last_advert = im_LastAdvert n, iw_last_advert_at = im_lastAt n,
        iw_adv_lat = im_AdvLat n, iw_adv_lon = im_AdvLon n, iw_inserted_date = im_InsertedDate n,
        iw_updated_date = im_UpdatedDate n, iw_params = params_column n, iw_link = im_Link n, iw_source = im_Source n,
        iw_inserted_by = im_InsertedBy n, iw_updated_by = im_UpdatedBy n, iw_synced_at = now\<rparr>\<rparr>))"

definition SaveImportedNodes :: "bool \<Rightarrow> ImportedNode list \<Rightarrow> int \<Rightarrow> ImportDB \<Rightarrow> bool \<times> ImportDB" where
  "SaveImportedNodes commits nodes now d =
     (case transaction commits (exec_all (save_imported now) nodes) d of
        (False, d) \<Rightarrow> (False, d) | (True, d) \<Rightarrow> (True, refreshImportedNodeCount d))"

definition load_imported :: "string \<times> importedRow \<Rightarrow> ImportedNode" where
  "load_imported kr = (case kr of (k, r) \<Rightarrow> cacheDerived
     \<lparr>im_PublicKey = k, im_Type = iw_type r, im_AdvName = iw_adv_name r, im_LastAdvert = iw_last_advert r,
      im_AdvLat = iw_adv_lat r, im_AdvLon = iw_adv_lon r, im_InsertedDate = iw_inserted_date r,
      im_UpdatedDate = iw_updated_date r, im_Params = Some (iw_params r), im_Link = iw_link r, im_Source = iw_source r,
      im_InsertedBy = iw_inserted_by r, im_UpdatedBy = iw_updated_by r, im_lastAt = 0, im_freqMHz = 0\<rparr>)"

definition LoadImportedNodes :: "ImportDB \<Rightarrow> ImportedNode list" where
  "LoadImportedNodes d = map load_imported (mentries (idb_nodes d))"

subsection \<open>The history\<close>

definition hkey :: "historyRow \<Rightarrow> string \<times> string" where
  "hkey r = (hw_public_key r, hw_sig r)"

definition new_history :: "(ImportedNode \<Rightarrow> string) \<Rightarrow> int \<Rightarrow> int \<Rightarrow> ImportedNode \<Rightarrow> historyRow" where
  "new_history sig i now n = \<lparr>hw_id = i, hw_public_key = im_PublicKey n, hw_sig = sig n, hw_type = im_Type n,
     hw_adv_name = im_AdvName n, hw_last_advert = im_LastAdvert n, hw_last_advert_at = im_lastAt n, hw_adv_lat = im_AdvLat n,
     hw_adv_lon = im_AdvLon n, hw_inserted_date = im_InsertedDate n, hw_updated_date = im_UpdatedDate n,
     hw_params = params_column n, hw_link = im_Link n, hw_source = im_Source n, hw_inserted_by = im_InsertedBy n,
     hw_updated_by = im_UpdatedBy n, hw_first_captured_at = now, hw_last_captured_at = now\<rparr>"

definition recapture :: "int \<Rightarrow> ImportedNode \<Rightarrow> historyRow \<Rightarrow> historyRow" where
  "recapture now n r = r\<lparr>hw_last_advert := im_LastAdvert n, hw_last_advert_at := im_lastAt n, hw_last_captured_at := now\<rparr>"

definition save_history ::
  "(ImportedNode \<Rightarrow> string) \<Rightarrow> (historyRow list \<Rightarrow> int) \<Rightarrow> int \<Rightarrow> ImportedNode \<Rightarrow> ImportDB \<Rightarrow> ImportDB option" where
  "save_history sig alloc now n d = (if im_PublicKey n = '''' then Some d
     else let rows = idb_history d; k = (im_PublicKey n, sig n) in
       Some (d\<lparr>idb_history := (if k \<in> set (map hkey rows) then map (\<lambda>r. if hkey r = k then recapture now n r else r) rows
         else rows @ [new_history sig (alloc rows) now n])\<rparr>))"

definition SaveImportedNodeHistory ::
  "(ImportedNode \<Rightarrow> string) \<Rightarrow> (historyRow list \<Rightarrow> int) \<Rightarrow> bool \<Rightarrow> ImportedNode list \<Rightarrow> int \<Rightarrow> ImportDB \<Rightarrow> bool \<times> ImportDB" where
  "SaveImportedNodeHistory sig alloc commits nodes now d =
     (case transaction commits (exec_all (save_history sig alloc now) nodes) d of
        (False, d) \<Rightarrow> (False, d) | (True, d) \<Rightarrow> (True, refreshImportedNodeHistoryCount d))"

definition load_history :: "historyRow \<Rightarrow> ImportedSnapshot" where
  "load_history r = \<lparr>is_Type = hw_type r, is_TypeName = nodeTypeName (word_of_int (hw_type r)), is_AdvName = hw_adv_name r,
     is_LastAdvert = hw_last_advert r, is_LastAdvertAt = hw_last_advert_at r, is_AdvLat = hw_adv_lat r,
     is_AdvLon = hw_adv_lon r, is_HasGPS = (hw_adv_lat r \<noteq> 0 \<or> hw_adv_lon r \<noteq> 0), is_InsertedDate = hw_inserted_date r,
     is_UpdatedDate = hw_updated_date r, is_Params = (if hw_params r = JObj [] then None else Some (hw_params r)),
     is_Link = hw_link r, is_Source = hw_source r, is_InsertedBy = hw_inserted_by r, is_UpdatedBy = hw_updated_by r,
     is_FirstCapturedAt = hw_first_captured_at r, is_LastCapturedAt = hw_last_captured_at r\<rparr>"

text \<open>\<open>ORDER BY first_captured_at DESC, id DESC\<close>.\<close>

definition newer_capture :: "historyRow \<Rightarrow> historyRow \<Rightarrow> bool" where
  "newer_capture a b \<longleftrightarrow> hw_first_captured_at a > hw_first_captured_at b
     \<or> (hw_first_captured_at a = hw_first_captured_at b \<and> hw_id a > hw_id b)"

definition ImportedNodeHistory :: "string \<Rightarrow> ImportDB \<Rightarrow> ImportedSnapshot list" where
  "ImportedNodeHistory pubkey d =
     map load_history (sort_by newer_capture (filter (\<lambda>r. hw_public_key r = pubkey) (idb_history d)))"

subsection \<open>The mirror keeps the last record of each key\<close>

definition imported_at :: "ImportDB \<Rightarrow> string \<Rightarrow> ImportedNode option" where
  "imported_at d k = map_option (\<lambda>r. load_imported (k, r)) (mget (idb_nodes d) k)"

text \<open>A record as its row gives it back.\<close>

definition mirrored :: "ImportedNode \<Rightarrow> ImportedNode" where
  "mirrored n = cacheDerived (n\<lparr>im_Params := Some (params_column n)\<rparr>)"

text \<open>The statement of a record with a key; the loop skips the others.\<close>

definition save_keyed :: "int \<Rightarrow> ImportedNode \<Rightarrow> ImportDB \<Rightarrow> ImportDB option" where
  "save_keyed now n d = (if im_PublicKey n = '''' then None else save_imported now n d)"

interpretation imported_table: upsert_table "save_keyed now" imported_at im_PublicKey "\<lambda>n. im_PublicKey n \<noteq> ''''" mirrored
proof
  fix n :: ImportedNode and d :: ImportDB
  show "im_PublicKey n \<noteq> '''' \<Longrightarrow>
      \<exists>d'. save_keyed now n d = Some d' \<and> imported_at d' = (imported_at d)(im_PublicKey n \<mapsto> mirrored n)"
    by (auto simp: save_keyed_def save_imported_def imported_at_def load_imported_def mirrored_def cacheDerived_def
        gomap fun_eq_iff)
  show "\<not> im_PublicKey n \<noteq> '''' \<Longrightarrow> save_keyed now n d = None" by (simp add: save_keyed_def)
qed (simp add: mirrored_def cacheDerived_def)

definition keyed_nodes :: "ImportedNode list \<Rightarrow> ImportedNode list" where
  "keyed_nodes nodes = filter (\<lambda>n. im_PublicKey n \<noteq> '''') nodes"

lemma exec_all_keyed: "exec_all (save_imported now) nodes d = exec_all (save_keyed now) (keyed_nodes nodes) d"
  by (induction nodes arbitrary: d) (auto simp: keyed_nodes_def save_keyed_def save_imported_def)

lemma SaveImportedNodes_effect:
  "case SaveImportedNodes commits nodes now d of (ok, d') \<Rightarrow> ok = commits
     \<and> imported_at d' = (if commits then db_save im_PublicKey (map mirrored (keyed_nodes nodes)) (imported_at d) else imported_at d)"
proof -
  obtain d' where d': "transaction True (exec_all (save_imported now) nodes) d = (True, d')"
    "imported_at d' = db_save im_PublicKey (map mirrored (keyed_nodes nodes)) (imported_at d)"
    using imported_table.saved [of "keyed_nodes nodes" now d] by (auto simp: exec_all_keyed keyed_nodes_def transaction_def)
  moreover have "transaction False f d = (False, d)" for f :: "ImportDB \<Rightarrow> ImportDB option"
    by (simp add: transaction_def split: option.split)
  moreover have "imported_at (refreshImportedNodeCount d) = imported_at d" for d
    by (simp add: imported_at_def refreshImportedNodeCount_def upd_stats_def fun_eq_iff)
  ultimately show ?thesis by (cases commits) (simp_all add: SaveImportedNodes_def)
qed

lemma LoadImportedNodes_iff: "n \<in> set (LoadImportedNodes d) \<longleftrightarrow> imported_at d (im_PublicKey n) = Some n"
proof -
  have "n \<in> set (LoadImportedNodes d) \<longleftrightarrow> (\<exists>k r. (k, r) \<in> set (mentries (idb_nodes d)) \<and> load_imported (k, r) = n)"
    by (force simp: LoadImportedNodes_def)
  also have "\<dots> \<longleftrightarrow> imported_at d (im_PublicKey n) = Some n"
    unfolding mentries_iff by (auto simp: imported_at_def load_imported_def cacheDerived_def)
  finally show ?thesis .
qed

text \<open>The table is only ever added to: a node that the next download no longer has stays in it, so a
  restart serves it again.\<close>

lemma removed_nodes_return:
  assumes "n \<in> set (LoadImportedNodes d)" and "im_PublicKey n \<notin> im_PublicKey ` set nodes"
  shows "n \<in> set (LoadImportedNodes (snd (SaveImportedNodes commits nodes now d)))"
proof -
  have "im_PublicKey n \<notin> im_PublicKey ` set (map mirrored (keyed_nodes nodes))"
    using assms(2) by (auto simp: keyed_nodes_def mirrored_def cacheDerived_def)
  note kept = db_save_other [OF this]
  show ?thesis
    using assms(1) kept SaveImportedNodes_effect [where commits = commits and nodes = nodes and now = now and d = d]
    by (auto simp: LoadImportedNodes_iff split: prod.splits if_splits)
qed

subsection \<open>One history row per publish\<close>

text \<open>The history after a series of synchronisations, each with whether its transaction commits, and the
  times at which a publish was captured.\<close>

definition history_after ::
  "(ImportedNode \<Rightarrow> string) \<Rightarrow> (historyRow list \<Rightarrow> int) \<Rightarrow> (bool \<times> int \<times> ImportedNode list) list \<Rightarrow> ImportDB \<Rightarrow> ImportDB" where
  "history_after sig alloc runs d = fold (\<lambda>(c, now, ns) d. snd (SaveImportedNodeHistory sig alloc c ns now d)) runs d"

definition events :: "(bool \<times> int \<times> ImportedNode list) list \<Rightarrow> (int \<times> ImportedNode) list" where
  "events runs = concat (map (\<lambda>(c, now, ns). if c then map (Pair now) (keyed_nodes ns) else []) runs)"

definition captures :: "(ImportedNode \<Rightarrow> string) \<Rightarrow> (int \<times> ImportedNode) list \<Rightarrow> string \<times> string \<Rightarrow> int list" where
  "captures sig evs k = map fst (filter (\<lambda>(now, n). (im_PublicKey n, sig n) = k) evs)"

definition history_of :: "(ImportedNode \<Rightarrow> string) \<Rightarrow> (int \<times> ImportedNode) list \<Rightarrow> historyRow list \<Rightarrow> bool" where
  "history_of sig evs rows \<longleftrightarrow> distinct (map hkey rows)
     \<and> (\<forall>k. k \<in> hkey ` set rows \<longleftrightarrow> captures sig evs k \<noteq> [])
     \<and> (\<forall>r\<in>set rows. hw_first_captured_at r = hd (captures sig evs (hkey r))
          \<and> hw_last_captured_at r = last (captures sig evs (hkey r)))"

lemma captures_snoc:
  "captures sig (evs @ [(now, n)]) k = captures sig evs k @ (if (im_PublicKey n, sig n) = k then [now] else [])"
  by (auto simp: captures_def)

lemma hkey_recapture [simp]: "hkey (recapture now n r) = hkey r"
  by (simp add: recapture_def hkey_def)

lemma history_step:
  assumes inv: "history_of sig evs (idb_history d)" and key: "im_PublicKey n \<noteq> ''''"
  shows "\<exists>d'. save_history sig alloc now n d = Some d' \<and> history_of sig (evs @ [(now, n)]) (idb_history d')"
proof -
  let ?rows = "idb_history d" and ?k = "(im_PublicKey n, sig n)"
  have dist: "distinct (map hkey ?rows)" and known: "\<And>k. k \<in> hkey ` set ?rows \<longleftrightarrow> captures sig evs k \<noteq> []"
    and times: "\<And>r. r \<in> set ?rows \<Longrightarrow> hw_first_captured_at r = hd (captures sig evs (hkey r))
          \<and> hw_last_captured_at r = last (captures sig evs (hkey r))"
    using inv by (auto simp: history_of_def)
  show ?thesis
  proof (cases "?k \<in> hkey ` set ?rows")
    case True
    let ?f = "\<lambda>r. if hkey r = ?k then recapture now n r else r"
    have keys: "hkey (?f r) = hkey r" for r by simp
    have mk: "map hkey (map ?f ?rows) = map hkey ?rows" by (simp add: keys)
    then have "set (map hkey (map ?f ?rows)) = set (map hkey ?rows)" by (simp only:)
    then have same: "hkey ` set (map ?f ?rows) = hkey ` set ?rows" by (simp only: list.set_map)
    have "distinct (map hkey (map ?f ?rows))" using dist by (simp only: mk)
    moreover have "\<forall>r\<in>set ?rows. hw_first_captured_at (?f r) = hd (captures sig (evs @ [(now, n)]) (hkey r))
          \<and> hw_last_captured_at (?f r) = last (captures sig (evs @ [(now, n)]) (hkey r))"
    proof
      fix r assume r: "r \<in> set ?rows"
      then have "captures sig evs (hkey r) \<noteq> []" using known [of "hkey r"] by blast
      then show "hw_first_captured_at (?f r) = hd (captures sig (evs @ [(now, n)]) (hkey r))
          \<and> hw_last_captured_at (?f r) = last (captures sig (evs @ [(now, n)]) (hkey r))"
        using times [OF r] by (auto simp: captures_snoc recapture_def)
    qed
    moreover have "k \<in> hkey ` set (map ?f ?rows) \<longleftrightarrow> captures sig (evs @ [(now, n)]) k \<noteq> []" for k
      unfolding same known using True known by (auto simp: captures_snoc)
    ultimately have "history_of sig (evs @ [(now, n)]) (map ?f ?rows)"
      unfolding history_of_def by (auto simp only: list.set_map ball_simps keys)
    then show ?thesis using True key by (auto simp: save_history_def Let_def)
  next
    case False
    let ?r = "new_history sig (alloc ?rows) now n"
    have k: "hkey ?r = ?k" "hw_first_captured_at ?r = now" "hw_last_captured_at ?r = now"
      by (simp_all add: new_history_def hkey_def)
    have "captures sig evs ?k = []" using False known by auto
    then have "history_of sig (evs @ [(now, n)]) (?rows @ [?r])"
      using dist False times known k by (auto simp: history_of_def captures_snoc)
    then show ?thesis using False key by (auto simp: save_history_def Let_def)
  qed
qed

lemma history_batch:
  "history_of sig evs (idb_history d) \<Longrightarrow>
   \<exists>d'. exec_all (save_history sig alloc now) ns d = Some d' \<and> history_of sig (evs @ map (Pair now) (keyed_nodes ns)) (idb_history d')"
proof (induction ns arbitrary: evs d)
  case (Cons n ns)
  show ?case
  proof (cases "im_PublicKey n = ''''")
    case True
    then show ?thesis using Cons by (simp add: keyed_nodes_def save_history_def)
  next
    case False
    obtain d1 where d1: "save_history sig alloc now n d = Some d1" "history_of sig (evs @ [(now, n)]) (idb_history d1)"
      using history_step [OF Cons.prems False] by blast
    then show ?thesis using Cons.IH [OF d1(2)] False by (simp add: keyed_nodes_def)
  qed
qed (simp add: keyed_nodes_def)

lemma history_runs:
  "history_of sig evs (idb_history d) \<Longrightarrow> history_of sig (evs @ events runs) (idb_history (history_after sig alloc runs d))"
proof (induction runs arbitrary: evs d)
  case (Cons run runs)
  obtain c now ns where run: "run = (c, now, ns)" by (cases run)
  obtain d' where d': "exec_all (save_history sig alloc now) ns d = Some d'"
    "history_of sig (evs @ map (Pair now) (keyed_nodes ns)) (idb_history d')"
    using history_batch [OF Cons.prems] by blast
  have "history_of sig (evs @ events [run]) (idb_history (snd (SaveImportedNodeHistory sig alloc c ns now d)))"
    using d' Cons.prems run
    by (simp add: SaveImportedNodeHistory_def transaction_def events_def refreshImportedNodeHistoryCount_def upd_stats_def)
  from Cons.IH [OF this] show ?case using run by (simp add: history_after_def events_def)
qed (simp add: events_def history_after_def)

interpretation newer_capture: strict_weak newer_capture
  by unfold_locales (auto simp: newer_capture_def)



text \<open>C30: the publish history of the directory: after any synchronisations, some of which fail to commit,
  the history of a key holds exactly one entry per publish (content hash) of the committed ones, with
  the time the publish was captured first and the time it was captured last, and is served with the
  latest first capture first.\<close>

theorem history_one_row_per_publish:
  assumes "idb_history start = []"
  shows "let d = history_after sig alloc runs start;
             rows = filter (\<lambda>r. hw_public_key r = pubkey) (idb_history d);
             captured = (\<lambda>s. captures sig (events runs) (pubkey, s))
         in mset (ImportedNodeHistory pubkey d) = image_mset load_history (mset rows)
          \<and> sorted_wrt (\<lambda>a b. is_FirstCapturedAt a \<ge> is_FirstCapturedAt b) (ImportedNodeHistory pubkey d)
          \<and> distinct (map hw_sig rows) \<and> hw_sig ` set rows = {s. captured s \<noteq> []}
          \<and> (\<forall>r\<in>set rows. is_FirstCapturedAt (load_history r) = hd (captured (hw_sig r))
               \<and> is_LastCapturedAt (load_history r) = last (captured (hw_sig r)))"
proof -
  let ?d = "history_after sig alloc runs start"
  let ?rows = "filter (\<lambda>r. hw_public_key r = pubkey) (idb_history ?d)"
  have "history_of sig [] (idb_history start)" using assms by (simp add: history_of_def captures_def)
  from history_runs [OF this, of runs alloc]
  have h: "distinct (map hkey (idb_history ?d))"
    "\<And>k. k \<in> hkey ` set (idb_history ?d) \<longleftrightarrow> captures sig (events runs) k \<noteq> []"
    "\<And>r. r \<in> set (idb_history ?d) \<Longrightarrow> hw_first_captured_at r = hd (captures sig (events runs) (hkey r))
       \<and> hw_last_captured_at r = last (captures sig (events runs) (hkey r))"
    by (auto simp: history_of_def)
  have "distinct (map hkey ?rows)" using h(1) by (rule distinct_map_filter)
  moreover have "map hkey ?rows = map (Pair pubkey) (map hw_sig ?rows)" by (simp add: hkey_def)
  ultimately have "distinct (map hw_sig ?rows)" by (metis distinct_map)
  moreover have "s \<in> hw_sig ` set ?rows \<longleftrightarrow> captures sig (events runs) (pubkey, s) \<noteq> []" for s
    unfolding h(2) [symmetric] by (auto simp: hkey_def)
  then have "hw_sig ` set ?rows = {s. captures sig (events runs) (pubkey, s) \<noteq> []}" by blast
  moreover have "sorted_wrt (\<lambda>a b. hw_first_captured_at a \<ge> hw_first_captured_at b) (sort_by newer_capture ?rows)"
    by (rule sorted_wrt_mono_rel [OF _ newer_capture.sorted_sort_by]) (auto simp: newer_capture_def)
  then have "sorted_wrt (\<lambda>a b. is_FirstCapturedAt a \<ge> is_FirstCapturedAt b) (ImportedNodeHistory pubkey ?d)"
    by (simp add: ImportedNodeHistory_def sorted_wrt_map load_history_def)
  moreover have "\<forall>r\<in>set ?rows. is_FirstCapturedAt (load_history r) = hd (captures sig (events runs) (pubkey, hw_sig r))
       \<and> is_LastCapturedAt (load_history r) = last (captures sig (events runs) (pubkey, hw_sig r))"
    using h(3) by (auto simp: load_history_def hkey_def)
  ultimately show ?thesis by (simp add: ImportedNodeHistory_def Let_def)
qed

text \<open>A coordinate outside the valid range: the history says the node has GPS, the live record says no.\<close>

lemma history_gps_differs:
  assumes "im_AdvLat n = 91" "im_PublicKey n \<noteq> ''''"
  shows "is_HasGPS (load_history (new_history sig i now n)) \<and> \<not> is_HasGPS (imported_snapshot n)"
  using assms by (simp add: load_history_def new_history_def imported_snapshot_def hasCoords_def validCoords_def)

subsection \<open>Example\<close>

definition ex_imported :: "string \<Rightarrow> string \<Rightarrow> ImportedNode" where
  "ex_imported pk name = \<lparr>im_PublicKey = pk, im_Type = 2, im_AdvName = name, im_LastAdvert = '''', im_AdvLat = 50, im_AdvLon = 14,
     im_InsertedDate = '''', im_UpdatedDate = '''', im_Params = None, im_Link = '''', im_Source = '''', im_InsertedBy = '''',
     im_UpdatedBy = '''', im_lastAt = 0, im_freqMHz = 0\<rparr>"

definition emptyImportDB :: ImportDB where
  "emptyImportDB = \<lparr>idb_core = emptyDB, idb_nodes = mempty, idb_history = []\<rparr>"

definition ex_runs :: "(bool \<times> int \<times> ImportedNode list) list" where
  "ex_runs = [(True, 10, [ex_imported ''aa'' ''A'', ex_imported '''' ''B'']), (False, 20, [ex_imported ''aa'' ''C'']),
     (True, 30, [ex_imported ''aa'' ''A'', ex_imported ''aa'' ''D''])]"

lemma history_one_row_per_publish_witness:
  "hw_sig ` set (filter (\<lambda>r. hw_public_key r = ''aa'') (idb_history (history_after im_AdvName (\<lambda>rows. 1 + maxHistoryId rows) ex_runs emptyImportDB)))
     = {''A'', ''D''}"
proof -
  have "{s. captures im_AdvName (events ex_runs) (''aa'', s) \<noteq> []} = {''A'', ''D''}"
    by (auto simp: captures_def events_def ex_runs_def keyed_nodes_def ex_imported_def split: if_splits)
  then show ?thesis
    using history_one_row_per_publish [where start = emptyImportDB and sig = im_AdvName and alloc = "\<lambda>rows. 1 + maxHistoryId rows"
        and runs = ex_runs and pubkey = "''aa''"]
    by (simp add: Let_def emptyImportDB_def)
qed

end
