(* ===== verification/ServerStats.thy ===== *)
theory ServerStats
  imports NetworkStore Telemetry ObserverRegistry ImportedTables LinkViews MapQuery
begin

text \<open>
  The server's state and its catalogue-wide endpoints (server.go): \<open>/api/stats\<close> with its 15-second
  cache, \<open>/metrics\<close>, \<open>/api/health\<close>, \<open>/api/networks\<close> and \<open>/api/networks/:id\<close>. A handler is a function
  from the server and the request to a reply, and to the changed state where it has one: the cache,
  and the heap of the store, whose rate windows a counter snapshot moves forward. A nil dereference
  or an index out of range is \<open>None\<close>. Writing JSON and headers is not modelled; one handler reads the
  clock once.
\<close>

subsection \<open>The server\<close>

record directorySourceStats =
  dss_Advert :: int
  dss_Map :: int
  dss_CoreScope :: int

record directoryTypeStats =
  dts_Unknown :: nat
  dts_Companion :: nat
  dts_Repeater :: nat
  dts_Room :: nat
  dts_Sensor :: nat

record directoryFreshStats =
  dfs_Last24h :: nat
  dfs_Last7d :: nat
  dfs_OlderThan30d :: nat

record directoryDataStats =
  dds_WithLocation :: nat
  dds_WithName :: nat

record directoryStats =
  ds_Total :: nat
  ds_Sources :: directorySourceStats
  ds_Types :: directoryTypeStats
  ds_Freshness :: directoryFreshStats
  ds_Data :: directoryDataStats

record statsNodeCounts =
  snc_Live :: int
  snc_Imported :: int
  snc_Total :: int

record statsResponse =
  sp_Nodes :: statsNodeCounts
  sp_Directory :: directoryStats
  sp_SQLite :: "SQLiteStats option"

record Server =
  sv_store :: "Store option"
  sv_nodes :: "NodeRegistry option"
  sv_observers :: "ObserverRegistry option"
  sv_links :: LinkRegistry
  sv_imported :: "ImportRegistry option"
  sv_db :: "ImportDB option"
  sv_flagger :: "Flagger option"
  sv_allowOrigin :: string
  sv_statsCached :: "(int \<times> statsResponse) option"

text \<open>A reply: status 200 with a body, or another status with an error text.\<close>

datatype 'a reply = OkReply 'a | ErrorReply nat string

subsection \<open>Statistics\<close>

definition noDirectory :: directoryStats where
  "noDirectory = \<lparr>ds_Total = 0, ds_Sources = \<lparr>dss_Advert = 0, dss_Map = 0, dss_CoreScope = 0\<rparr>,
     ds_Types = \<lparr>dts_Unknown = 0, dts_Companion = 0, dts_Repeater = 0, dts_Room = 0, dts_Sensor = 0\<rparr>,
     ds_Freshness = \<lparr>dfs_Last24h = 0, dfs_Last7d = 0, dfs_OlderThan30d = 0\<rparr>,
     ds_Data = \<lparr>dds_WithLocation = 0, dds_WithName = 0\<rparr>\<rparr>"

definition countType :: "byte \<Rightarrow> directoryTypeStats \<Rightarrow> directoryTypeStats" where
  "countType typ t =
     (if typ = 1 then t\<lparr>dts_Companion := Suc (dts_Companion t)\<rparr>
      else if typ = 2 then t\<lparr>dts_Repeater := Suc (dts_Repeater t)\<rparr>
      else if typ = 3 then t\<lparr>dts_Room := Suc (dts_Room t)\<rparr>
      else if typ = 4 then t\<lparr>dts_Sensor := Suc (dts_Sensor t)\<rparr>
      else t\<lparr>dts_Unknown := Suc (dts_Unknown t)\<rparr>)"

definition countFresh :: "unix_time \<Rightarrow> unix_time \<Rightarrow> directoryFreshStats \<Rightarrow> directoryFreshStats" where
  "countFresh lastSeen now f = \<lparr>dfs_Last24h = dfs_Last24h f + of_bool (lastSeen \<ge> now - 24 * 3600),
     dfs_Last7d = dfs_Last7d f + of_bool (lastSeen \<ge> now - 7 * 24 * 3600),
     dfs_OlderThan30d = dfs_OlderThan30d f + of_bool (lastSeen \<le> now - 30 * 24 * 3600)\<rparr>"

definition countData :: "bool \<Rightarrow> string \<Rightarrow> directoryDataStats \<Rightarrow> directoryDataStats" where
  "countData hasLocation name d = \<lparr>dds_WithLocation = dds_WithLocation d + of_bool hasLocation,
     dds_WithName = dds_WithName d + of_bool (trim_space name \<noteq> '''')\<rparr>"

definition addDirectoryNode :: "byte \<Rightarrow> unix_time \<Rightarrow> bool \<Rightarrow> string \<Rightarrow> unix_time \<Rightarrow> directoryStats \<Rightarrow> directoryStats" where
  "addDirectoryNode typ lastSeen hasLocation name now stats = stats
     \<lparr>ds_Total := Suc (ds_Total stats), ds_Types := countType typ (ds_Types stats),
      ds_Freshness := countFresh lastSeen now (ds_Freshness stats), ds_Data := countData hasLocation name (ds_Data stats)\<rparr>"

definition addLiveDirectoryStats ::
  "NodeRegistry \<Rightarrow> unix_time \<Rightarrow> directoryStats \<times> (string, unit) gomap \<Rightarrow> directoryStats \<times> (string, unit) gomap" where
  "addLiveDirectoryStats r now acc = mrange (\<lambda>pubkey n (stats, seen).
     (addDirectoryNode (nod_NodeType n) (nod_LastAdvertAt n) (nod_HasGPS n \<and> validCoords (nod_Lat n) (nod_Lon n)) (nod_Name n) now stats,
      mput seen pubkey ())) (nr_nodes r) acc"

definition addImportedDirectoryStats ::
  "ImportedNode list \<Rightarrow> unix_time \<Rightarrow> directoryStats \<times> (string, unit) gomap \<Rightarrow> directoryStats \<times> (string, unit) gomap" where
  "addImportedDirectoryStats records now acc = fold (\<lambda>n (stats, seen).
     if mget seen (im_PublicKey n) \<noteq> None then (stats, seen)
     else (addDirectoryNode (im_byte n) (im_lastAt n) (hasCoords n) (im_AdvName n) now stats, mput seen (im_PublicKey n) ()))
     records acc"

definition nowUnixOf :: "int \<Rightarrow> unix_time" where
  "nowUnixOf ns = go_div ns 1000000000"

definition statsCacheTTL :: int where
  "statsCacheTTL = 15 * 1000000000"

text \<open>The answer of a cache miss, at a clock reading in nanoseconds.\<close>

definition liveDirectory :: "Server \<Rightarrow> unix_time \<Rightarrow> int \<times> directoryStats \<times> (string, unit) gomap" where
  "liveDirectory s now = (case sv_nodes s of None \<Rightarrow> (0, noDirectory, mempty)
     | Some r \<Rightarrow> let n = int (nodes_Count r) in
         (n, addLiveDirectoryStats r now
            (noDirectory\<lparr>ds_Sources := (ds_Sources noDirectory)\<lparr>dss_Advert := n, dss_CoreScope := n\<rparr>\<rparr>, mempty)))"

definition importedDirectory ::
  "Server \<Rightarrow> unix_time \<Rightarrow> directoryStats \<times> (string, unit) gomap \<Rightarrow> int \<times> directoryStats" where
  "importedDirectory s now acc = (case acc of (directory, seen) \<Rightarrow> case sv_imported s of None \<Rightarrow> (0, directory)
     | Some records \<Rightarrow> let n = int (length records) in
         (n, fst (addImportedDirectoryStats records now
            (directory\<lparr>ds_Sources := (ds_Sources directory)\<lparr>dss_Map := n\<rparr>\<rparr>, seen))))"

definition computeStats :: "int \<Rightarrow> Server \<Rightarrow> statsResponse" where
  "computeStats now s =
     (let (liveNodes, acc) = liveDirectory s (nowUnixOf now);
          (importedNodes, directory) = importedDirectory s (nowUnixOf now) acc
      in \<lparr>sp_Nodes = \<lparr>snc_Live = liveNodes, snc_Imported = importedNodes, snc_Total = liveNodes + importedNodes\<rparr>,
          sp_Directory = directory, sp_SQLite = map_option db_Stats (sv_db s)\<rparr>)"

definition statsSnapshot :: "int \<Rightarrow> Server \<Rightarrow> statsResponse \<times> Server" where
  "statsSnapshot now s = (case sv_statsCached s of
     Some (cachedAt, out) \<Rightarrow> if now - cachedAt < statsCacheTTL then (out, s)
       else (computeStats now s, s\<lparr>sv_statsCached := Some (now, computeStats now s)\<rparr>)
   | None \<Rightarrow> (computeStats now s, s\<lparr>sv_statsCached := Some (now, computeStats now s)\<rparr>))"

definition handleStats :: "int \<Rightarrow> Server \<Rightarrow> statsResponse reply \<times> Server" where
  "handleStats now s = (case statsSnapshot now s of (stats, s) \<Rightarrow> (OkReply stats, s))"

text \<open>The scrape: the storage gauges are set from the statistics, then the handler of the metrics
  library runs; without metrics the page is not found.\<close>

definition handleMetrics :: "int \<Rightarrow> metrics \<Rightarrow> Server \<Rightarrow> unit reply \<times> metrics \<times> Server" where
  "handleMetrics now m s = (if m = None then (ErrorReply 404 ''404 page not found'', m, s)
     else case statsSnapshot now s of (stats, s) \<Rightarrow>
       (OkReply (), updateStorageStats (snc_Live (sp_Nodes stats)) (snc_Imported (sp_Nodes stats)) (sp_SQLite stats) m, s))"

subsection \<open>Networks\<close>

record networkSummary =
  nsu_ID :: string
  nsu_Name :: string
  nsu_PktPerMin :: float64
  nsu_UniquePackets :: u64
  nsu_Observations :: u64
  nsu_Observers :: nat
  nsu_Nodes :: nat
  nsu_TotalNodes :: nat
  nsu_NodesOnMap :: nat
  nsu_NodesByType :: "(string, nat) gomap"
  nsu_AnalyzersTotal :: nat
  nsu_AnalyzersConnected :: nat
  nsu_LastPacketAt :: unix_time

record analyzerDetail =
  ad_Name :: string
  ad_URL :: string
  ad_Connected :: bool
  ad_ConnectedSince :: unix_time
  ad_LastError :: string
  ad_PktPerMin :: float64
  ad_UniquePackets :: u64
  ad_Observations :: u64
  ad_Observers :: nat
  ad_Nodes :: nat
  ad_PayloadTypes :: "(string, u64) gomap"
  ad_LastPacketAt :: unix_time

record networkDetailView =
  ndv_Summary :: networkSummary
  ndv_PayloadTypes :: "(string, u64) gomap"
  ndv_Analyzers :: "analyzerDetail list"

text \<open>A snapshot of a counter of the heap.\<close>

definition snapshot_at :: "unix_time \<Rightarrow> ptr \<Rightarrow> heap \<Rightarrow> (CounterSnapshot \<times> heap) option" where
  "snapshot_at now p h = do {
     (snap, c) \<leftarrow> counter_Snapshot now (h_counters h ! p);
     Some (snap, h\<lparr>h_counters := (h_counters h)[p := c]\<rparr>) }"

definition analyzers_of :: "heap \<Rightarrow> ptr \<Rightarrow> ptr AnalyzerState list" where
  "analyzers_of h p = map ((!) (h_analyzers h)) (ns_Analyzers (h_networks h ! p))"

definition connectedCount :: "ptr AnalyzerState list \<Rightarrow> nat" where
  "connectedCount azs = length (filter (\<lambda>a. fst (az_status a)) azs)"

definition summaryFor :: "ptr \<Rightarrow> unix_time \<Rightarrow> NetworkNodeStats option \<Rightarrow> heap \<Rightarrow> (networkSummary \<times> heap) option" where
  "summaryFor p now nodeStats h = do {
     let ns = h_networks h ! p;
     (snap, h) \<leftarrow> snapshot_at now (ns_Counter ns) h;
     Some (\<lparr>nsu_ID = ns_ID ns, nsu_Name = ns_Name ns, nsu_PktPerMin = cs_PktPerMin snap,
            nsu_UniquePackets = cs_UniquePackets snap, nsu_Observations = cs_Observations snap,
            nsu_Observers = cs_Observers snap, nsu_Nodes = cs_Nodes snap,
            nsu_TotalNodes = (case nodeStats of None \<Rightarrow> 0 | Some st \<Rightarrow> nns_Total st),
            nsu_NodesOnMap = (case nodeStats of None \<Rightarrow> 0 | Some st \<Rightarrow> nns_OnMap st),
            nsu_NodesByType = (case nodeStats of None \<Rightarrow> mempty | Some st \<Rightarrow> nns_ByType st),
            nsu_AnalyzersTotal = length (ns_Analyzers ns), nsu_AnalyzersConnected = connectedCount (analyzers_of h p),
            nsu_LastPacketAt = cs_LastPacketAt snap\<rparr>, h) }"

primrec map_heap :: "('a \<Rightarrow> heap \<Rightarrow> ('b \<times> heap) option) \<Rightarrow> 'a list \<Rightarrow> heap \<Rightarrow> ('b list \<times> heap) option" where
  "map_heap f [] h = Some ([], h)"
| "map_heap f (x # xs) h = do { (y, h) \<leftarrow> f x h; (ys, h) \<leftarrow> map_heap f xs h; Some (y # ys, h) }"

definition with_heap :: "('a \<times> heap) option \<Rightarrow> Store \<Rightarrow> ('a \<times> Store) option" where
  "with_heap res st = map_option (\<lambda>(y, h). (y, st\<lparr>sto_heap := h\<rparr>)) res"

text \<open>A nil store panics in these handlers; the server keeps the store with the changed heap.\<close>

definition on_store :: "(Store \<Rightarrow> ('a \<times> Store) option) \<Rightarrow> Server \<Rightarrow> ('a \<times> Server) option" where
  "on_store f s = do { st \<leftarrow> sv_store s; (y, st) \<leftarrow> f st; Some (y, s\<lparr>sv_store := Some st\<rparr>) }"

definition memberStats :: "Server \<Rightarrow> string \<Rightarrow> NetworkNodeStats option" where
  "memberStats s i = (case sv_nodes s of None \<Rightarrow> None | Some r \<Rightarrow> mget (NodeStatsByNetwork r) i)"

definition handleNetworks :: "unix_time \<Rightarrow> Server \<Rightarrow> (networkSummary list reply \<times> Server) option" where
  "handleNetworks now s = on_store (\<lambda>st. with_heap (map_option (\<lambda>(out, h). (OkReply out, h))
     (map_heap (\<lambda>p h. summaryFor p now (memberStats s (ns_ID (h_networks h ! p))) h) (sto_Networks st) (sto_heap st))) st) s"

definition analyzerDetailOf :: "unix_time \<Rightarrow> ptr \<Rightarrow> heap \<Rightarrow> (analyzerDetail \<times> heap) option" where
  "analyzerDetailOf now p h = do {
     let a = h_analyzers h ! p;
     (snap, h) \<leftarrow> snapshot_at now (az_Counter a) h;
     let (isConnected, since, lastErr) = az_status a;
     Some (\<lparr>ad_Name = az_Name a, ad_URL = az_URL a, ad_Connected = isConnected, ad_ConnectedSince = since,
            ad_LastError = lastErr, ad_PktPerMin = cs_PktPerMin snap, ad_UniquePackets = cs_UniquePackets snap,
            ad_Observations = cs_Observations snap, ad_Observers = cs_Observers snap, ad_Nodes = cs_Nodes snap,
            ad_PayloadTypes = cs_PayloadTypes snap, ad_LastPacketAt = cs_LastPacketAt snap\<rparr>, h) }"

text \<open>\<open>strings.Trim(s, "/")\<close> and \<open>strings.TrimPrefix\<close>.\<close>

definition trim_slashes :: "string \<Rightarrow> string" where
  "trim_slashes s = rev (dropWhile (\<lambda>c. c = CHR ''/'') (rev (dropWhile (\<lambda>c. c = CHR ''/'') s)))"

definition trim_prefix :: "string \<Rightarrow> string \<Rightarrow> string" where
  "trim_prefix s p = (if has_prefix s p then drop (length p) s else s)"

definition networkDetailAt :: "unix_time \<Rightarrow> NetworkNodeStats option \<Rightarrow> ptr \<Rightarrow> heap \<Rightarrow> (networkDetailView \<times> heap) option" where
  "networkDetailAt now nodeStats p h = do {
     let ns = h_networks h ! p;
     (netSnap, h) \<leftarrow> snapshot_at now (ns_Counter ns) h;
     (azs, h) \<leftarrow> map_heap (analyzerDetailOf now) (ns_Analyzers ns) h;
     (summary, h) \<leftarrow> summaryFor p now nodeStats h;
     Some (\<lparr>ndv_Summary = summary, ndv_PayloadTypes = cs_PayloadTypes netSnap, ndv_Analyzers = azs\<rparr>, h) }"

definition handleNetworkDetail :: "string \<Rightarrow> unix_time \<Rightarrow> Server \<Rightarrow> (networkDetailView reply \<times> Server) option" where
  "handleNetworkDetail path now s =
     (let i = trim_slashes (trim_prefix path ''/api/networks/'') in
      on_store (\<lambda>st. case store_Network st i of
          None \<Rightarrow> Some (ErrorReply 404 ''unknown network'', st)
        | Some p \<Rightarrow> with_heap (map_option (\<lambda>(v, h). (OkReply v, h))
            (networkDetailAt now (memberStats s i) p (sto_heap st))) st) s)"

record health =
  he_ok :: bool
  he_networks :: nat
  he_analyzers :: nat
  he_analyzersConnected :: nat
  he_time :: unix_time

definition countHealth :: "heap \<Rightarrow> ptr \<Rightarrow> nat \<times> nat \<Rightarrow> nat \<times> nat" where
  "countHealth h p acc = fold (\<lambda>a (analyzers, connectedAzs).
     (Suc analyzers, if fst (az_status a) then Suc connectedAzs else connectedAzs)) (analyzers_of h p) acc"

definition handleHealth :: "unix_time \<Rightarrow> Server \<Rightarrow> health reply option" where
  "handleHealth now s = (case sv_store s of None \<Rightarrow> None
     | Some st \<Rightarrow> (case fold (countHealth (sto_heap st)) (sto_Networks st) (0, 0) of (analyzers, connectedAzs) \<Rightarrow>
         Some (OkReply \<lparr>he_ok = True, he_networks = length (sto_Networks st), he_analyzers = analyzers,
           he_analyzersConnected = connectedAzs, he_time = now\<rparr>)))"

subsection \<open>The directory statistics count each key once\<close>

text \<open>What the statistics say of a key: its live row, or else its first record in the mirror.\<close>

record dirEntry =
  de_Type :: byte
  de_LastSeen :: unix_time
  de_HasLocation :: bool
  de_Name :: string

definition liveEntry :: "NodeRecord \<Rightarrow> dirEntry" where
  "liveEntry n = \<lparr>de_Type = nod_NodeType n, de_LastSeen = nod_LastAdvertAt n,
     de_HasLocation = (nod_HasGPS n \<and> validCoords (nod_Lat n) (nod_Lon n)), de_Name = nod_Name n\<rparr>"

definition mirrorEntry :: "ImportedNode \<Rightarrow> dirEntry" where
  "mirrorEntry n = \<lparr>de_Type = im_byte n, de_LastSeen = im_lastAt n, de_HasLocation = hasCoords n, de_Name = im_AdvName n\<rparr>"

definition live_of :: "Server \<Rightarrow> (string, NodeRecord) gomap" where
  "live_of s = (case sv_nodes s of None \<Rightarrow> mempty | Some r \<Rightarrow> nr_nodes r)"

definition mirror_of :: "Server \<Rightarrow> ImportedNode list" where
  "mirror_of s = (case sv_imported s of None \<Rightarrow> [] | Some records \<Rightarrow> records)"

definition describe :: "Server \<Rightarrow> string \<Rightarrow> dirEntry option" where
  "describe s k = (case mget (live_of s) k of Some n \<Rightarrow> Some (liveEntry n)
     | None \<Rightarrow> map_option mirrorEntry (find (\<lambda>n. im_PublicKey n = k) (mirror_of s)))"

definition addEntry :: "unix_time \<Rightarrow> dirEntry \<Rightarrow> directoryStats \<Rightarrow> directoryStats" where
  "addEntry now d = addDirectoryNode (de_Type d) (de_LastSeen d) (de_HasLocation d) (de_Name d) now"

text \<open>The records of the mirror that are counted: the first of each key not seen before.\<close>

fun unseen :: "string set \<Rightarrow> ImportedNode list \<Rightarrow> ImportedNode list" where
  "unseen S [] = []"
| "unseen S (n # ns) = (if im_PublicKey n \<in> S then unseen S ns else n # unseen (insert (im_PublicKey n) S) ns)"

lemma unseen_keys: "im_PublicKey ` set (unseen S ns) = im_PublicKey ` set ns - S"
  by (induction S ns rule: unseen.induct) auto

lemma unseen_distinct: "distinct (map im_PublicKey (unseen S ns))"
proof (induction S ns rule: unseen.induct)
  case (2 S n ns)
  have "im_PublicKey n \<notin> im_PublicKey ` set (unseen (insert (im_PublicKey n) S) ns)" by (simp add: unseen_keys)
  then show ?case using 2 by simp
qed simp

lemma unseen_find: "n \<in> set (unseen S ns) \<Longrightarrow> find (\<lambda>m. im_PublicKey m = im_PublicKey n) ns = Some n"
proof (induction S ns rule: unseen.induct)
  case (2 S m ns)
  show ?case
  proof (cases "im_PublicKey m = im_PublicKey n")
    case True
    have "im_PublicKey n \<notin> S"
      using unseen_keys [of S "m # ns"] 2(3) by (metis Diff_iff imageI)
    moreover have "n \<notin> set (unseen (insert (im_PublicKey m) S) ns)"
      using unseen_keys [of "insert (im_PublicKey m) S" ns] True by (metis Diff_iff imageI insertI1)
    ultimately show ?thesis using 2(3) True by simp
  next
    case False
    then show ?thesis using 2 by (auto split: if_splits)
  qed
qed simp

lemma addImported_fold:
  "fst (addImportedDirectoryStats ns now (d, seen)) = fold (addEntry now) (map mirrorEntry (unseen (dom (mget seen)) ns)) d"
proof (induction ns arbitrary: d seen)
  case (Cons n ns)
  then show ?case
    by (auto simp: addImportedDirectoryStats_def addEntry_def mirrorEntry_def domIff)
qed (simp add: addImportedDirectoryStats_def)

lemma addLive_fold:
  "addLiveDirectoryStats r now (d, mempty) =
     (fold (addEntry now) (map (liveEntry \<circ> snd) (mentries (nr_nodes r))) d,
      fold (\<lambda>(k, n) seen. mput seen k ()) (mentries (nr_nodes r)) mempty)"
proof -
  have "fold (\<lambda>(k, n) (stats, seen). (addDirectoryNode (nod_NodeType n) (nod_LastAdvertAt n)
        (nod_HasGPS n \<and> validCoords (nod_Lat n) (nod_Lon n)) (nod_Name n) now stats, mput seen k ())) es (d, seen)
      = (fold (addEntry now) (map (liveEntry \<circ> snd) es) d, fold (\<lambda>(k, n) seen. mput seen k ()) es seen)" for es seen
    by (induction es arbitrary: d seen) (auto simp: addEntry_def liveEntry_def)
  then show ?thesis by (simp add: addLiveDirectoryStats_def mrange_def case_prod_unfold)
qed

lemma dom_seen: "dom (mget (fold (\<lambda>(k, n) seen. mput seen k ()) es m)) = fst ` set es \<union> dom (mget m)"
  by (induction es arbitrary: m) (simp_all add: case_prod_unfold)

text \<open>The rows that are counted, each with its key.\<close>

definition counted :: "Server \<Rightarrow> (string \<times> dirEntry) list" where
  "counted s = map (\<lambda>(k, n). (k, liveEntry n)) (mentries (live_of s))
     @ map (\<lambda>n. (im_PublicKey n, mirrorEntry n)) (unseen (dom (mget (live_of s))) (mirror_of s))"

definition dir_keys :: "Server \<Rightarrow> string set" where
  "dir_keys s = dom (mget (live_of s)) \<union> im_PublicKey ` set (mirror_of s)"

lemma counted_distinct: "distinct (map fst (counted s))"
proof -
  have "map fst (counted s) = mkeys (live_of s) @ map im_PublicKey (unseen (dom (mget (live_of s))) (mirror_of s))"
    by (simp add: counted_def mkeys_def comp_def case_prod_unfold)
  moreover have "set (mkeys (live_of s)) \<inter> set (map im_PublicKey (unseen (dom (mget (live_of s))) (mirror_of s))) = {}"
    by (simp add: unseen_keys)
  ultimately show ?thesis by (simp add: unseen_distinct)
qed

lemma counted_keys: "fst ` set (counted s) = dir_keys s"
proof -
  have "fst ` set (counted s) = set (mkeys (live_of s)) \<union> im_PublicKey ` set (unseen (dom (mget (live_of s))) (mirror_of s))"
    by (simp add: counted_def mkeys_def image_Un image_image case_prod_unfold)
  then show ?thesis by (auto simp: unseen_keys dir_keys_def)
qed

lemma counted_describe: "(k, d) \<in> set (counted s) \<Longrightarrow> describe s k = Some d"
proof -
  assume "(k, d) \<in> set (counted s)"
  then consider n where "(k, n) \<in> set (mentries (live_of s))" "d = liveEntry n"
    | n where "n \<in> set (unseen (dom (mget (live_of s))) (mirror_of s))" "k = im_PublicKey n" "d = mirrorEntry n"
    by (auto simp: counted_def)
  then show ?thesis
  proof cases
    case 1
    then show ?thesis by (simp add: mentries_iff describe_def)
  next
    case 2
    then have "k \<notin> dom (mget (live_of s))" using unseen_keys [of "dom (mget (live_of s))" "mirror_of s"] by blast
    then show ?thesis using 2 unseen_find [OF 2(1)] by (auto simp: describe_def domIff)
  qed
qed

definition keys_with :: "Server \<Rightarrow> (dirEntry \<Rightarrow> bool) \<Rightarrow> nat" where
  "keys_with s P = card {k \<in> dir_keys s. \<exists>d. describe s k = Some d \<and> P d}"

lemma count_counted: "length (filter P (map snd (counted s))) = keys_with s P"
proof -
  have "length (filter P (map snd (counted s))) = length (map fst (filter (P \<circ> snd) (counted s)))"
    by (simp add: filter_map)
  also have "\<dots> = card (fst ` set (filter (P \<circ> snd) (counted s)))"
    using distinct_card [OF distinct_map_filter [OF counted_distinct [of s], of "P \<circ> snd"]] by simp
  also have "fst ` set (filter (P \<circ> snd) (counted s)) = {k \<in> dir_keys s. \<exists>d. describe s k = Some d \<and> P d}"
  proof
    show "fst ` set (filter (P \<circ> snd) (counted s)) \<subseteq> {k \<in> dir_keys s. \<exists>d. describe s k = Some d \<and> P d}"
      unfolding counted_keys [symmetric] by (force dest: counted_describe)
    show "{k \<in> dir_keys s. \<exists>d. describe s k = Some d \<and> P d} \<subseteq> fst ` set (filter (P \<circ> snd) (counted s))"
    proof
      fix k assume "k \<in> {k \<in> dir_keys s. \<exists>d. describe s k = Some d \<and> P d}"
      then obtain d d' where "(k, d') \<in> set (counted s)" "describe s k = Some d" "P d"
        unfolding counted_keys [symmetric] by auto
      moreover from this have "d' = d" using counted_describe by fastforce
      ultimately show "k \<in> fst ` set (filter (P \<circ> snd) (counted s))" by force
    qed
  qed
  finally show ?thesis by (simp add: keys_with_def)
qed

lemma addEntry_simps [simp]:
  "ds_Total (addEntry now d st) = Suc (ds_Total st)" "ds_Sources (addEntry now d st) = ds_Sources st"
  "ds_Types (addEntry now d st) = countType (de_Type d) (ds_Types st)"
  "ds_Freshness (addEntry now d st) = countFresh (de_LastSeen d) now (ds_Freshness st)"
  "ds_Data (addEntry now d st) = countData (de_HasLocation d) (de_Name d) (ds_Data st)"
  by (simp_all add: addEntry_def addDirectoryNode_def)

lemma addEntry_counts:
  "ds_Total (fold (addEntry now) ds st) = ds_Total st + length ds"
  "dts_Companion (ds_Types (fold (addEntry now) ds st)) = dts_Companion (ds_Types st) + length (filter (\<lambda>d. de_Type d = 1) ds)"
  "dts_Repeater (ds_Types (fold (addEntry now) ds st)) = dts_Repeater (ds_Types st) + length (filter (\<lambda>d. de_Type d = 2) ds)"
  "dts_Room (ds_Types (fold (addEntry now) ds st)) = dts_Room (ds_Types st) + length (filter (\<lambda>d. de_Type d = 3) ds)"
  "dts_Sensor (ds_Types (fold (addEntry now) ds st)) = dts_Sensor (ds_Types st) + length (filter (\<lambda>d. de_Type d = 4) ds)"
  "dts_Unknown (ds_Types (fold (addEntry now) ds st)) = dts_Unknown (ds_Types st) + length (filter (\<lambda>d. de_Type d \<notin> {1, 2, 3, 4}) ds)"
  "dfs_Last24h (ds_Freshness (fold (addEntry now) ds st)) = dfs_Last24h (ds_Freshness st)
     + length (filter (\<lambda>d. de_LastSeen d \<ge> now - 24 * 3600) ds)"
  "dfs_Last7d (ds_Freshness (fold (addEntry now) ds st)) = dfs_Last7d (ds_Freshness st)
     + length (filter (\<lambda>d. de_LastSeen d \<ge> now - 7 * 24 * 3600) ds)"
  "dfs_OlderThan30d (ds_Freshness (fold (addEntry now) ds st)) = dfs_OlderThan30d (ds_Freshness st)
     + length (filter (\<lambda>d. de_LastSeen d \<le> now - 30 * 24 * 3600) ds)"
  "dds_WithLocation (ds_Data (fold (addEntry now) ds st)) = dds_WithLocation (ds_Data st) + length (filter de_HasLocation ds)"
  "dds_WithName (ds_Data (fold (addEntry now) ds st)) = dds_WithName (ds_Data st)
     + length (filter (\<lambda>d. trim_space (de_Name d) \<noteq> '''') ds)"
  by (induction ds arbitrary: st) (simp_all add: countType_def countFresh_def countData_def)

lemma addEntry_sources: "addEntry now d (st\<lparr>ds_Sources := x\<rparr>) = (addEntry now d st)\<lparr>ds_Sources := x\<rparr>"
  by (simp add: addEntry_def addDirectoryNode_def)

lemma fold_addEntry_sources:
  "fold (addEntry now) ds (st\<lparr>ds_Sources := x\<rparr>) = (fold (addEntry now) ds st)\<lparr>ds_Sources := x\<rparr>"
  by (induction ds arbitrary: st) (simp_all add: addEntry_sources)

lemma liveDirectory_eq:
  "\<exists>seen. liveDirectory s now = (int (mlen (live_of s)),
      (fold (addEntry now) (map (liveEntry \<circ> snd) (mentries (live_of s))) noDirectory)
        \<lparr>ds_Sources := \<lparr>dss_Advert = int (mlen (live_of s)), dss_Map = 0, dss_CoreScope = int (mlen (live_of s))\<rparr>\<rparr>, seen)
    \<and> dom (mget seen) = dom (mget (live_of s))"
proof (cases "sv_nodes s")
  case None
  have "noDirectory\<lparr>ds_Sources := \<lparr>dss_Advert = 0, dss_Map = 0, dss_CoreScope = 0\<rparr>\<rparr> = noDirectory"
    by (simp add: noDirectory_def)
  then show ?thesis using None by (simp add: liveDirectory_def live_of_def fun_eq_iff)
next
  case (Some r)
  have "dom (mget (fold (\<lambda>(k, n) seen. mput seen k ()) (mentries (nr_nodes r)) mempty)) = dom (mget (nr_nodes r))"
    using mkeys_set [of "nr_nodes r"] by (simp add: dom_seen mkeys_def)
  moreover have "noDirectory\<lparr>ds_Sources := (ds_Sources noDirectory)\<lparr>dss_Advert := n, dss_CoreScope := n\<rparr>\<rparr>
      = noDirectory\<lparr>ds_Sources := \<lparr>dss_Advert = n, dss_Map = 0, dss_CoreScope = n\<rparr>\<rparr>" for n
    by (simp add: noDirectory_def)
  ultimately show ?thesis using Some
    by (simp add: liveDirectory_def live_of_def nodes_Count_def addLive_fold fold_addEntry_sources Let_def)
qed

lemma computeStats_eq:
  "sp_Directory (computeStats now s) = (fold (addEntry (nowUnixOf now)) (map snd (counted s)) noDirectory)
     \<lparr>ds_Sources := \<lparr>dss_Advert = int (mlen (live_of s)), dss_Map = int (length (mirror_of s)),
        dss_CoreScope = int (mlen (live_of s))\<rparr>\<rparr>"
  "sp_Nodes (computeStats now s) = \<lparr>snc_Live = int (mlen (live_of s)), snc_Imported = int (length (mirror_of s)),
     snc_Total = int (mlen (live_of s)) + int (length (mirror_of s))\<rparr>"
  "sp_SQLite (computeStats now s) = map_option db_Stats (sv_db s)"
proof -
  obtain seen where l: "liveDirectory s (nowUnixOf now) = (int (mlen (live_of s)),
      (fold (addEntry (nowUnixOf now)) (map (liveEntry \<circ> snd) (mentries (live_of s))) noDirectory)
        \<lparr>ds_Sources := \<lparr>dss_Advert = int (mlen (live_of s)), dss_Map = 0, dss_CoreScope = int (mlen (live_of s))\<rparr>\<rparr>, seen)"
    "dom (mget seen) = dom (mget (live_of s))"
    using liveDirectory_eq by blast
  have rows: "map snd (counted s) = map (liveEntry \<circ> snd) (mentries (live_of s))
      @ map mirrorEntry (unseen (dom (mget (live_of s))) (mirror_of s))"
    by (simp add: counted_def comp_def case_prod_unfold)
  then show "sp_Directory (computeStats now s) = (fold (addEntry (nowUnixOf now)) (map snd (counted s)) noDirectory)
     \<lparr>ds_Sources := \<lparr>dss_Advert = int (mlen (live_of s)), dss_Map = int (length (mirror_of s)),
        dss_CoreScope = int (mlen (live_of s))\<rparr>\<rparr>"
    using l by (cases "sv_imported s")
      (simp_all add: computeStats_def importedDirectory_def mirror_of_def addImported_fold fold_addEntry_sources Let_def)
  show "sp_Nodes (computeStats now s) = \<lparr>snc_Live = int (mlen (live_of s)), snc_Imported = int (length (mirror_of s)),
     snc_Total = int (mlen (live_of s)) + int (length (mirror_of s))\<rparr>" "sp_SQLite (computeStats now s) = map_option db_Stats (sv_db s)"
    using l by (cases "sv_imported s"; simp add: computeStats_def importedDirectory_def mirror_of_def Let_def)+
qed

text \<open>C23: a fresh statistics answer counts every public key of the live registry and the mirror exactly
  once, by its live row where there is one and else by its first record in the mirror: the total, the
  five types (which sum to it), the three freshness classes, and the keys with a location and with a
  name are the cardinalities of the sets of such keys.\<close>

theorem stats_count_each_key_once:
  "case computeStats ns s of r \<Rightarrow>
     ds_Total (sp_Directory r) = card (dir_keys s)
   \<and> (case ds_Types (sp_Directory r) of t \<Rightarrow>
        dts_Companion t = keys_with s (\<lambda>d. de_Type d = 1) \<and> dts_Repeater t = keys_with s (\<lambda>d. de_Type d = 2)
      \<and> dts_Room t = keys_with s (\<lambda>d. de_Type d = 3) \<and> dts_Sensor t = keys_with s (\<lambda>d. de_Type d = 4)
      \<and> dts_Unknown t + dts_Companion t + dts_Repeater t + dts_Room t + dts_Sensor t = card (dir_keys s))
   \<and> (case ds_Freshness (sp_Directory r) of f \<Rightarrow>
        dfs_Last24h f = keys_with s (\<lambda>d. de_LastSeen d \<ge> nowUnixOf ns - 86400)
      \<and> dfs_Last7d f = keys_with s (\<lambda>d. de_LastSeen d \<ge> nowUnixOf ns - 604800)
      \<and> dfs_OlderThan30d f = keys_with s (\<lambda>d. de_LastSeen d \<le> nowUnixOf ns - 2592000))
   \<and> dds_WithLocation (ds_Data (sp_Directory r)) = keys_with s de_HasLocation
   \<and> dds_WithName (ds_Data (sp_Directory r)) = keys_with s (\<lambda>d. trim_space (de_Name d) \<noteq> '''')
   \<and> snc_Total (sp_Nodes r) = int (card (dom (mget (live_of s)))) + int (length (mirror_of s))"
proof -
  have len: "length (map snd (counted s)) = card (dir_keys s)"
    using distinct_card [OF counted_distinct [of s]] counted_keys [of s] by simp
  have parts: "length (filter (\<lambda>d. de_Type d \<notin> {1, 2, 3, 4}) ds) + length (filter (\<lambda>d. de_Type d = 1) ds)
      + length (filter (\<lambda>d. de_Type d = 2) ds) + length (filter (\<lambda>d. de_Type d = 3) ds)
      + length (filter (\<lambda>d. de_Type d = 4) ds) = length ds" for ds
    by (induction ds) auto
  show ?thesis
    using len parts [of "map snd (counted s)"]
    by (simp add: computeStats_eq addEntry_counts count_counted [unfolded length_filter_map] noDirectory_def mlen_card del: length_map)
qed

subsection \<open>The cache is at most 15 seconds old\<close>

text \<open>Calls at given clock readings, the rest of the server changing freely in between.\<close>

primrec stats_calls :: "(int \<times> Server) list \<Rightarrow> (int \<times> statsResponse) option \<Rightarrow> statsResponse list" where
  "stats_calls [] cache = []"
| "stats_calls (call # calls) cache =
     (case statsSnapshot (fst call) ((snd call)\<lparr>sv_statsCached := cache\<rparr>) of (r, s) \<Rightarrow>
        r # stats_calls calls (sv_statsCached s))"

lemma computeStats_cache [simp]: "computeStats now (s\<lparr>sv_statsCached := c\<rparr>) = computeStats now s"
  by (simp add: computeStats_def liveDirectory_def importedDirectory_def split: prod.split)

lemma statsSnapshot_cases:
  "(\<exists>at' out. cache = Some (at', out) \<and> now - at' < statsCacheTTL
      \<and> statsSnapshot now (s\<lparr>sv_statsCached := cache\<rparr>) = (out, s\<lparr>sv_statsCached := cache\<rparr>))
   \<or> statsSnapshot now (s\<lparr>sv_statsCached := cache\<rparr>) = (computeStats now s, s\<lparr>sv_statsCached := Some (now, computeStats now s)\<rparr>)"
  by (cases cache) (auto simp: statsSnapshot_def split: if_splits)

definition fresh_answer :: "(int \<times> Server) list \<Rightarrow> int \<Rightarrow> statsResponse \<Rightarrow> bool" where
  "fresh_answer calls now r \<longleftrightarrow> (\<exists>(t, s)\<in>set calls. r = computeStats t s \<and> now - t < statsCacheTTL)"

lemma stats_calls_fresh:
  "case cache of None \<Rightarrow> True | Some (t, r) \<Rightarrow> \<exists>s. (t, s) \<in> set before \<and> r = computeStats t s \<Longrightarrow>
   i < length calls \<Longrightarrow>
   fresh_answer (before @ take (Suc i) calls) (fst (calls ! i)) (stats_calls calls cache ! i)"
proof (induction calls arbitrary: cache before i)
  case (Cons call calls)
  obtain now s where call: "call = (now, s)" by fastforce
  consider (hit) t r where "cache = Some (t, r)" "now - t < statsCacheTTL"
      "statsSnapshot now (s\<lparr>sv_statsCached := cache\<rparr>) = (r, s\<lparr>sv_statsCached := cache\<rparr>)"
    | (miss) "statsSnapshot now (s\<lparr>sv_statsCached := cache\<rparr>)
        = (computeStats now s, s\<lparr>sv_statsCached := Some (now, computeStats now s)\<rparr>)"
    using statsSnapshot_cases [of cache now s] by blast
  then show ?case
  proof cases
    case hit
    then obtain s' where s': "(t, s') \<in> set before" "r = computeStats t s'" using Cons.prems(1) by auto
    show ?thesis
    proof (cases i)
      case 0
      then show ?thesis using hit s' call by (auto simp: fresh_answer_def)
    next
      case (Suc k)
      have "fresh_answer ((before @ [call]) @ take (Suc k) calls) (fst (calls ! k)) (stats_calls calls cache ! k)"
        by (rule Cons.IH) (use s' hit Cons.prems(2) Suc in auto)
      then show ?thesis using hit call Suc by simp
    qed
  next
    case miss
    show ?thesis
    proof (cases i)
      case 0
      then show ?thesis using miss call by (auto simp: fresh_answer_def statsCacheTTL_def)
    next
      case (Suc k)
      have "fresh_answer ((before @ [call]) @ take (Suc k) calls) (fst (calls ! k))
          (stats_calls calls (Some (now, computeStats now s)) ! k)"
        by (rule Cons.IH) (use Cons.prems(2) Suc call in auto)
      then show ?thesis using miss call Suc by simp
    qed
  qed
qed simp

text \<open>However often the statistics are asked for and whatever changes in between, each answer is the one
  computed from the server's state at some call so far that is less than 15 seconds old.\<close>

theorem stats_less_than_ttl_old:
  assumes "i < length calls"
  shows "\<exists>j\<le>i. stats_calls calls None ! i = computeStats (fst (calls ! j)) (snd (calls ! j))
     \<and> fst (calls ! i) - fst (calls ! j) < statsCacheTTL"
proof -
  have "fresh_answer ([] @ take (Suc i) calls) (fst (calls ! i)) (stats_calls calls None ! i)"
    by (rule stats_calls_fresh) (use assms in simp_all)
  then obtain t s where "(t, s) \<in> set (take (Suc i) calls)" "stats_calls calls None ! i = computeStats t s"
    "fst (calls ! i) - t < statsCacheTTL"
    by (auto simp: fresh_answer_def)
  then show ?thesis using assms by (auto simp: in_set_conv_nth less_Suc_eq_le)
qed

subsection \<open>Health and the network list agree\<close>

text \<open>No rate window of the heap is before 1970: then a snapshot never panics.\<close>

definition rates_ok :: "heap \<Rightarrow> bool" where
  "rates_ok h \<longleftrightarrow> (\<forall>c\<in>set (h_counters h). 0 \<le> lastSec (c_rate c))"

lemma zeroBuckets_total: "0 \<le> s \<Longrightarrow> \<exists>bs'. zeroBuckets s now bs = Some bs'"
proof (induction s now bs rule: zeroBuckets.induct)
  case (1 s now bs)
  show ?case
    using 1 by (subst zeroBuckets.simps) (auto simp: bucketIdx_nonneg)
qed

lemma rw_advance_total: "0 \<le> lastSec r \<Longrightarrow> 0 \<le> now \<Longrightarrow> \<exists>r'. rw_advance now r = Some r' \<and> 0 \<le> lastSec r'"
  using zeroBuckets_total [of "lastSec r + 1" now "buckets r"] by (auto simp: rw_advance_def Let_def)

lemma counter_Snapshot_total:
  assumes "0 \<le> lastSec (c_rate c)" "0 \<le> now"
  shows "\<exists>snap c'. counter_Snapshot now c = Some (snap, c') \<and> 0 \<le> lastSec (c_rate c')"
proof -
  obtain r' where "rw_advance now (c_rate c) = Some r'" "0 \<le> lastSec r'"
    using rw_advance_total [OF assms] by blast
  then show ?thesis by (auto simp: counter_Snapshot_def rw_perMin_def Let_def)
qed

definition same_nets :: "heap \<Rightarrow> heap \<Rightarrow> bool" where
  "same_nets h h' \<longleftrightarrow> h_networks h' = h_networks h \<and> h_analyzers h' = h_analyzers h \<and> length (h_counters h') = length (h_counters h)"

lemma snapshot_at_total:
  assumes "rates_ok h" "0 \<le> now" "p < length (h_counters h)"
  shows "\<exists>snap h'. snapshot_at now p h = Some (snap, h') \<and> rates_ok h' \<and> same_nets h h'"
proof -
  have "0 \<le> lastSec (c_rate (h_counters h ! p))" using assms by (simp add: rates_ok_def)
  from counter_Snapshot_total [OF this assms(2)] obtain snap c' where
    "counter_Snapshot now (h_counters h ! p) = Some (snap, c')" "0 \<le> lastSec (c_rate c')" by blast
  then show ?thesis using assms
    by (auto simp: snapshot_at_def rates_ok_def same_nets_def dest: set_update_subset_insert [THEN subsetD])
qed

lemma same_nets_refl [simp]: "same_nets h h"
  by (simp add: same_nets_def)

lemma same_nets_trans: "same_nets h1 h2 \<Longrightarrow> same_nets h2 h3 \<Longrightarrow> same_nets h1 h3"
  by (simp add: same_nets_def)

lemma map_heap_total:
  assumes step: "\<And>x h. x \<in> set xs \<Longrightarrow> rates_ok h \<Longrightarrow> same_nets h0 h \<Longrightarrow>
      \<exists>y h'. f x h = Some (y, h') \<and> rates_ok h' \<and> same_nets h h' \<and> Q x y"
    and h: "rates_ok h" "same_nets h0 h"
  shows "\<exists>ys h'. map_heap f xs h = Some (ys, h') \<and> rates_ok h' \<and> same_nets h0 h' \<and> list_all2 Q xs ys"
  using assms
proof (induction xs arbitrary: h)
  case (Cons x xs)
  obtain y h1 where 1: "f x h = Some (y, h1)" "rates_ok h1" "same_nets h h1" "Q x y"
    using Cons.prems(1) [of x h] Cons.prems(2,3) by auto
  have "same_nets h0 h1" using Cons.prems(3) 1(3) by (rule same_nets_trans)
  then obtain ys h2 where "map_heap f xs h1 = Some (ys, h2)" "rates_ok h2" "same_nets h0 h2" "list_all2 Q xs ys"
    using Cons.IH [OF _ 1(2)] Cons.prems(1) by (metis list.set_intros(2))
  then show ?case using 1 by simp
qed simp

definition describes :: "heap \<Rightarrow> ptr \<Rightarrow> networkSummary \<Rightarrow> bool" where
  "describes h p sm \<longleftrightarrow> nsu_ID sm = ns_ID (h_networks h ! p) \<and> nsu_Name sm = ns_Name (h_networks h ! p)
     \<and> nsu_AnalyzersTotal sm = length (analyzers_of h p) \<and> nsu_AnalyzersConnected sm = connectedCount (analyzers_of h p)"

lemma analyzers_of_same: "same_nets h h' \<Longrightarrow> analyzers_of h' p = analyzers_of h p"
  by (simp add: same_nets_def analyzers_of_def)

lemma summaryFor_total:
  assumes "rates_ok h" "0 \<le> now" "same_nets h0 h" "ns_Counter (h_networks h0 ! p) < length (h_counters h0)"
  shows "\<exists>sm h'. summaryFor p now st h = Some (sm, h') \<and> rates_ok h' \<and> same_nets h h' \<and> describes h0 p sm"
proof -
  have "ns_Counter (h_networks h ! p) < length (h_counters h)" using assms(3,4) by (simp add: same_nets_def)
  from snapshot_at_total [OF assms(1,2) this] obtain snap h' where
    s: "snapshot_at now (ns_Counter (h_networks h ! p)) h = Some (snap, h')" "rates_ok h'" "same_nets h h'" by blast
  have "same_nets h0 h'" using assms(3) s(3) by (rule same_nets_trans)
  note azs = analyzers_of_same [OF this, of p]
  have "h_networks h = h_networks h0" using assms(3) by (simp add: same_nets_def)
  then show ?thesis using s azs
    by (simp add: summaryFor_def describes_def analyzers_of_def [of h0] Let_def)
qed

lemma countHealth_eq:
  "countHealth h p (a, c) = (a + length (analyzers_of h p), c + connectedCount (analyzers_of h p))"
proof -
  have "fold (\<lambda>az (analyzers, connectedAzs). (Suc analyzers, if fst (az_status az) then Suc connectedAzs else connectedAzs)) azs (a, c)
      = (a + length azs, c + connectedCount azs)" for azs :: "ptr AnalyzerState list"
    by (induction azs arbitrary: a c) (auto simp: connectedCount_def)
  then show ?thesis by (simp add: countHealth_def)
qed

lemma fold_countHealth:
  "fold (countHealth h) ps (a, c) = (a + (\<Sum>p\<leftarrow>ps. length (analyzers_of h p)), c + (\<Sum>p\<leftarrow>ps. connectedCount (analyzers_of h p)))"
  by (induction ps arbitrary: a c) (simp_all add: countHealth_eq)

lemma describes_sums:
  "list_all2 (describes h) ps out \<Longrightarrow> map nsu_ID out = map (\<lambda>p. ns_ID (h_networks h ! p)) ps
     \<and> sum_list (map nsu_AnalyzersTotal out) = (\<Sum>p\<leftarrow>ps. length (analyzers_of h p))
     \<and> sum_list (map nsu_AnalyzersConnected out) = (\<Sum>p\<leftarrow>ps. connectedCount (analyzers_of h p))"
  by (induction rule: list_all2_induct) (simp_all add: describes_def)

text \<open>The list of networks and the health report never panic on a well-formed store, and they agree: the
  list has the networks of the catalogue in their order, and the report's numbers of networks, of
  analyzers and of connected analyzers are the sums over that list.\<close>

theorem health_agrees_with_networks:
  assumes "sv_store s = Some st" "wf_store st" "rates_ok (sto_heap st)" "0 \<le> now"
  shows "\<exists>out s' h. handleNetworks now s = Some (OkReply out, s') \<and> handleHealth now s = Some (OkReply h)
     \<and> map nsu_ID out = map (\<lambda>p. ns_ID (h_networks (sto_heap st) ! p)) (sto_Networks st)
     \<and> he_networks h = length out \<and> he_analyzers h = sum_list (map nsu_AnalyzersTotal out)
     \<and> he_analyzersConnected h = sum_list (map nsu_AnalyzersConnected out)"
proof -
  let ?h = "sto_heap st" and ?ps = "sto_Networks st"
  let ?f = "\<lambda>p h. summaryFor p now (memberStats s (ns_ID (h_networks h ! p))) h"
  have step: "\<exists>y h'. ?f p h = Some (y, h') \<and> rates_ok h' \<and> same_nets h h' \<and> describes ?h p y"
    if "p \<in> set ?ps" "rates_ok h" "same_nets ?h h" for p h
  proof -
    have "ns_Counter (h_networks ?h ! p) < length (h_counters ?h)"
      using assms(2) that(1) by (auto simp: wf_store_def wf_nets_def net_ok_def scopes_def)
    from summaryFor_total [OF that(2) assms(4) that(3) this] show ?thesis .
  qed
  obtain out h' where out: "map_heap ?f ?ps ?h = Some (out, h')" "list_all2 (describes ?h) ?ps out"
    using map_heap_total [of ?ps ?h ?f "describes ?h" ?h, OF step assms(3)] by auto
  have "handleNetworks now s = Some (OkReply out, s\<lparr>sv_store := Some (st\<lparr>sto_heap := h'\<rparr>)\<rparr>)"
    using out(1) assms(1) by (simp add: handleNetworks_def on_store_def with_heap_def)
  then show ?thesis using describes_sums [OF out(2)] list_all2_lengthD [OF out(2)] assms(1)
    by (simp add: handleHealth_def fold_countHealth)
qed

subsection \<open>Examples\<close>

definition ex_server :: Server where
  "ex_server = \<lparr>sv_store = Some ex_store, sv_nodes = None, sv_observers = None, sv_links = newLinkRegistry 1,
     sv_imported = Some [ex_imported ''aa'' ''A'', ex_imported ''aa'' ''B'', ex_imported ''bb'' ''''], sv_db = None,
     sv_flagger = None, sv_allowOrigin = ''*'', sv_statsCached = None\<rparr>"

lemma stats_less_than_ttl_old_witness:
  "\<exists>j\<le>1. stats_calls [(5, ex_server), (6, ex_server)] None ! 1 = computeStats (fst ([(5, ex_server), (6, ex_server)] ! j)) ex_server"
  using stats_less_than_ttl_old [of 1 "[(5, ex_server), (6, ex_server)]"]
  by (metis One_nat_def le_SucE le_zero_eq length_Cons lessI list.size(3) nth_Cons_0 nth_Cons_Suc snd_conv)

lemma ex_server_store: "wf_store ex_store" "rates_ok (sto_heap ex_store)"
  by (rule reachable_wf [OF ex_store_reachable(1)])
     (simp add: rates_ok_def ex_store_heap newCounter_def new_rateWindow_def)

lemma health_agrees_with_networks_witness:
  "\<exists>out s' h. handleNetworks 9 ex_server = Some (OkReply out, s') \<and> handleHealth 9 ex_server = Some (OkReply h)
     \<and> map nsu_ID out = [''cz''] \<and> he_networks h = length out"
proof -
  have "sv_store ex_server = Some ex_store" "(0 :: int) \<le> 9" by (simp_all add: ex_server_def)
  from health_agrees_with_networks [OF this(1) ex_server_store this(2)]
  show ?thesis by (auto simp: ex_store_heap)
qed

end
