(* ===== verification/ServerSearch.thy ===== *)
theory ServerSearch
  imports ServerStats
begin

text \<open>
  The directory search of the server (server.go): the parameters of \<open>/api/search\<close> and their checks, the
  translation of country and region into networks, the merge of live nodes and mirrored directory
  records, and the options offered to clients. \<open>strconv.ParseFloat\<close> is the argument \<open>parseFloat\<close>; it
  gives real numbers, so NaN does not occur.
\<close>

subsection \<open>Query parameters\<close>

type_synonym httpQuery = "(string, string list) gomap"

definition q_all :: "httpQuery \<Rightarrow> string \<Rightarrow> string list" where
  "q_all qv k = (case mget qv k of Some vs \<Rightarrow> vs | None \<Rightarrow> [])"

definition q_get :: "httpQuery \<Rightarrow> string \<Rightarrow> string" where
  "q_get qv k = (case q_all qv k of v # vs \<Rightarrow> v | [] \<Rightarrow> '''')"

text \<open>The parts of a comma-separated value, trimmed.\<close>

definition parts_of :: "string \<Rightarrow> string list" where
  "parts_of v = map trim_space (split_on CHR '','' v)"

definition addSet :: "(string, bool) gomap \<Rightarrow> string list \<Rightarrow> (string, bool) gomap" where
  "addSet dst values = fold (\<lambda>v dst. fold (\<lambda>part dst. if part = '''' then dst else mput dst part True) (parts_of v) dst)
     values dst"

text \<open>A step that may fail with an error text, and a loop of such steps.\<close>

definition and_then :: "'e + 'a \<Rightarrow> ('a \<Rightarrow> 'e + 'b) \<Rightarrow> 'e + 'b" where
  "and_then r f = (case r of Inl e \<Rightarrow> Inl e | Inr x \<Rightarrow> f x)"

primrec each_or_fail :: "('x \<Rightarrow> 's \<Rightarrow> 'e + 's) \<Rightarrow> 'x list \<Rightarrow> 's \<Rightarrow> 'e + 's" where
  "each_or_fail f [] s = Inr s"
| "each_or_fail f (x # xs) s = and_then (f x s) (each_or_fail f xs)"

definition ensure :: "bool \<Rightarrow> 'e \<Rightarrow> 'a \<Rightarrow> 'e + 'a" where
  "ensure b e x = (if b then Inr x else Inl e)"

subsection \<open>Countries and regions\<close>

definition networks_of :: "Store \<Rightarrow> (ptr, ptr) NetworkState list" where
  "networks_of st = map ((!) (h_networks (sto_heap st))) (sto_Networks st)"

definition add_all :: "string list \<Rightarrow> (string, bool) gomap \<Rightarrow> (string, bool) gomap" where
  "add_all xs m = fold (\<lambda>x m. mput m x True) xs m"

definition supportedSearchMeta :: "Server \<Rightarrow> (string, bool) gomap \<times> (string, bool) gomap" where
  "supportedSearchMeta s = (case sv_store s of None \<Rightarrow> (mempty, mempty)
     | Some st \<Rightarrow> fold (\<lambda>ns (countries, regions). (add_all (ns_Countries ns) countries, add_all (ns_Regions ns) regions))
         (networks_of st) (mempty, mempty))"

text \<open>No filter, or one of the values is in it.\<close>

definition meta_ok :: "(string, bool) gomap \<Rightarrow> string list \<Rightarrow> bool" where
  "meta_ok flt values \<longleftrightarrow> mlen flt = 0 \<or> list_ex (mhas flt) values"

definition metaNetworksOf :: "MapParams \<Rightarrow> Store \<Rightarrow> (string, bool) gomap" where
  "metaNetworksOf p st = fold (\<lambda>ns m.
     if meta_ok (mp_Countries p) (ns_Countries ns) \<and> meta_ok (mp_Regions p) (ns_Regions ns) then mput m (ns_ID ns) True else m)
     (networks_of st) mempty"

text \<open>Whether the network set is nil, which it is when the request has no (or a blank) \<open>networks\<close>, decides
  between taking the matching networks and intersecting with them.\<close>

definition expandNetworkMetadata :: "bool \<Rightarrow> Server \<Rightarrow> MapParams \<Rightarrow> MapParams" where
  "expandNetworkMetadata nilNetworks s p =
     (if mlen (mp_Countries p) = 0 \<and> mlen (mp_Regions p) = 0 then p
      else (case sv_store s of None \<Rightarrow> p\<lparr>mp_Networks := mput mempty ''__no_matching_network__'' True\<rparr>
        | Some st \<Rightarrow> let metaNetworks = metaNetworksOf p st in
            if nilNetworks then p\<lparr>mp_Networks := metaNetworks\<rparr>
            else p\<lparr>mp_Networks := mkeep (\<lambda>(i, _). mhas metaNetworks i) (mp_Networks p)\<rparr>))"

subsection \<open>Parsing\<close>

definition hex_lower :: "char \<Rightarrow> bool" where
  "hex_lower c \<longleftrightarrow> (CHR ''0'' \<le> c \<and> c \<le> CHR ''9'') \<or> (CHR ''a'' \<le> c \<and> c \<le> CHR ''f'')"

definition caretPrefixQuery :: "string \<Rightarrow> string option" where
  "caretPrefixQuery q =
     (if \<not> has_prefix q ''^'' then None
      else let hexPart = to_lower (drop 1 q) in
        if length hexPart < 2 then None else if list_all hex_lower hexPart then Some hexPart else None)"

definition baseParams :: "httpQuery \<Rightarrow> MapParams" where
  "baseParams qv = \<lparr>mp_BBox = (0, 0, 0, 0), mp_HasBBox = False, mp_Zoom = 0, mp_Types = parseByteSet (q_get qv ''types''),
     mp_Networks = parseStringSet (q_get qv ''networks''), mp_Countries = mempty, mp_Regions = mempty, mp_Since = 0,
     mp_OlderThan = 0, mp_HasLocation = None, mp_HasName = None, mp_Sources = mempty, mp_NearLat = 0, mp_NearLon = 0,
     mp_RadiusKM = 0, mp_HasNear = False, mp_Sort = trim_space (q_get qv ''sort''), mp_Q = trim_space (q_get qv ''q''),
     mp_PrefixOnly = False, mp_Limit = 0, mp_All = False\<rparr>"

definition setPrefix :: "MapParams \<Rightarrow> MapParams" where
  "setPrefix p = (case caretPrefixQuery (mp_Q p) of Some hexPart \<Rightarrow> p\<lparr>mp_Q := hexPart, mp_PrefixOnly := True\<rparr> | None \<Rightarrow> p)"

definition addType :: "string \<Rightarrow> MapParams \<Rightarrow> string + MapParams" where
  "addType v p = (let v = to_lower v in
     if v = '''' then Inr p
     else if v = ''companion'' \<or> v = ''chat'' then Inr (p\<lparr>mp_Types := mput (mp_Types p) 1 True\<rparr>)
     else if v = ''repeater'' then Inr (p\<lparr>mp_Types := mput (mp_Types p) 2 True\<rparr>)
     else if v = ''room'' then Inr (p\<lparr>mp_Types := mput (mp_Types p) 3 True\<rparr>)
     else Inl ''unsupported type'')"

definition countryOk :: "(string, bool) gomap \<Rightarrow> string \<Rightarrow> bool" where
  "countryOk supported cc \<longleftrightarrow> length cc = 2 \<and> to_upper cc = cc \<and> (mlen supported > 0 \<longrightarrow> mhas supported cc)"

definition regionOk :: "(string, bool) gomap \<Rightarrow> string \<Rightarrow> bool" where
  "regionOk supported r \<longleftrightarrow> r \<noteq> '''' \<and> to_upper r = r \<and> (mlen supported > 0 \<longrightarrow> mhas supported r)"

definition setMeta :: "httpQuery \<Rightarrow> Server \<Rightarrow> MapParams \<Rightarrow> string + MapParams" where
  "setMeta qv s p = (let p = p\<lparr>mp_Countries := addSet (mp_Countries p) (q_all qv ''country'')\<rparr>;
       (supportedCountries, supportedRegions) = supportedSearchMeta s in
     and_then (ensure (list_all (countryOk supportedCountries) (mkeys (mp_Countries p))) ''unsupported country'' p) (\<lambda>p.
     let p = p\<lparr>mp_Regions := addSet (mp_Regions p) (q_all qv ''region'')\<rparr> in
     and_then (ensure (list_all (regionOk supportedRegions) (mkeys (mp_Regions p))) ''unsupported region'' p) (\<lambda>p.
     Inr (expandNetworkMetadata (trim_space (q_get qv ''networks'') = '''') s p))))"

definition setSince :: "httpQuery \<Rightarrow> unix_time \<Rightarrow> MapParams \<Rightarrow> MapParams" where
  "setSince qv now p =
     (if q_get qv ''since'' \<noteq> '''' then p\<lparr>mp_Since := atoiDefault (q_get qv ''since'') 0\<rparr>
      else (case parseActive (q_get qv ''active'') of Some d \<Rightarrow> p\<lparr>mp_Since := now - d\<rparr> | None \<Rightarrow> p))"

definition addSeenFilter :: "unix_time \<Rightarrow> string \<Rightarrow> MapParams \<Rightarrow> string + MapParams" where
  "addSeenFilter now seen p = (let v = trim_space seen in
     if v = '''' \<or> v = ''all'' then Inr p
     else if v = ''<24h'' then Inr (p\<lparr>mp_Since := now - 24 * 3600\<rparr>)
     else if v = ''<7d'' then Inr (p\<lparr>mp_Since := now - 7 * 24 * 3600\<rparr>)
     else if v = ''>30d'' then Inr (p\<lparr>mp_OlderThan := now - 30 * 24 * 3600\<rparr>)
     else Inl ''unsupported seen'')"

definition addHas :: "string \<Rightarrow> MapParams \<Rightarrow> string + MapParams" where
  "addHas has p = (let v = trim_space has in
     if v = '''' then Inr p
     else if v = ''location'' then Inr (p\<lparr>mp_HasLocation := Some True\<rparr>)
     else if v = ''name'' then Inr (p\<lparr>mp_HasName := Some True\<rparr>)
     else Inl ''unsupported has'')"

definition setSources :: "httpQuery \<Rightarrow> MapParams \<Rightarrow> string + MapParams" where
  "setSources qv p = (let p = p\<lparr>mp_Sources := addSet (mp_Sources p) (q_all qv ''source'')\<rparr> in
     ensure (list_all (\<lambda>src. src = ''advert'' \<or> src = ''map'' \<or> src = ''corescope'') (mkeys (mp_Sources p))) ''unsupported source'' p)"

definition setNear :: "(string \<Rightarrow> float64 option) \<Rightarrow> httpQuery \<Rightarrow> MapParams \<Rightarrow> string + MapParams" where
  "setNear parseFloat qv p = (let near = trim_space (q_get qv ''near'') in
     if near = '''' then Inr p
     else (case map parseFloat (parts_of near) of
        [Some lat, Some lon] \<Rightarrow>
          if lat < -90 \<or> lat > 90 \<or> lon < -180 \<or> lon > 180 then Inl ''invalid near''
          else (case parseFloat (trim_space (q_get qv ''radius'')) of
             None \<Rightarrow> Inl ''invalid radius''
           | Some radius \<Rightarrow> if radius \<le> 0 \<or> radius > 20000 then Inl ''invalid radius''
               else Inr (p\<lparr>mp_NearLat := lat, mp_NearLon := lon, mp_RadiusKM := radius, mp_HasNear := True\<rparr>))
      | _ \<Rightarrow> Inl ''invalid near''))"

definition checkSort :: "MapParams \<Rightarrow> string + MapParams" where
  "checkSort p = (if mp_Sort p = '''' \<or> mp_Sort p = ''recent'' \<or> mp_Sort p = ''name'' then Inr p
     else if mp_Sort p = ''distance'' then ensure (mp_HasNear p) ''sort distance requires near'' p
     else Inl ''unsupported sort'')"

definition defaultSearchLimit :: int where "defaultSearchLimit = 50"

definition maxSearchLimit :: int where "maxSearchLimit = 200"

text \<open>A limit parameter: the default unless positive, at most the maximum.\<close>

definition limitParam :: "int \<Rightarrow> int \<Rightarrow> string \<Rightarrow> int" where
  "limitParam dflt maximum v = (let limit = atoiDefault v dflt;
     limit = (if limit \<le> 0 then dflt else limit) in if limit > maximum then maximum else limit)"

definition parseSearchParams ::
  "(string \<Rightarrow> float64 option) \<Rightarrow> unix_time \<Rightarrow> Server \<Rightarrow> httpQuery \<Rightarrow> string + MapParams \<times> int" where
  "parseSearchParams parseFloat now s qv =
     and_then (each_or_fail addType (concat (map parts_of (q_all qv ''type''))) (setPrefix (baseParams qv))) (\<lambda>p.
     and_then (setMeta qv s p) (\<lambda>p.
     and_then (each_or_fail (addSeenFilter now) (q_all qv ''seen'') (setSince qv now p)) (\<lambda>p.
     and_then (each_or_fail addHas (q_all qv ''has'') p) (\<lambda>p.
     and_then (setSources qv p) (\<lambda>p.
     and_then (setNear parseFloat qv p) (\<lambda>p.
     and_then (checkSort p) (\<lambda>p.
     Inr (p, limitParam defaultSearchLimit maxSearchLimit (q_get qv ''limit'')))))))))"

subsection \<open>The merged search\<close>

definition importedSearchResult :: "ImportedNode \<Rightarrow> SearchResult" where
  "importedSearchResult n = \<lparr>sr_PubKey = im_PublicKey n, sr_Name = im_AdvName n, sr_Type = im_byte n,
     sr_TypeName = nodeTypeName (im_byte n), sr_HasGPS = hasCoords n, sr_Lat = (if hasCoords n then im_AdvLat n else 0),
     sr_Lon = (if hasCoords n then im_AdvLon n else 0), sr_FirstAdvertAt = 0, sr_LastAdvertAt = im_lastAt n,
     sr_AdvertCount = 0, sr_Networks = [], sr_Flags = [], sr_DistanceKM = 0, sr_Source = ''map'', sr_IsObserver = False\<rparr>"

text \<open>A result with its distance and observer mark, and with its rank.\<close>

definition enrichResult :: "Server \<Rightarrow> MapParams \<Rightarrow> SearchResult \<Rightarrow> SearchResult" where
  "enrichResult s p r = r
     \<lparr>sr_DistanceKM := (if mp_HasNear p \<and> sr_HasGPS r then haversineKM (mp_NearLat p) (mp_NearLon p) (sr_Lat r) (sr_Lon r)
        else sr_DistanceKM r),
      sr_IsObserver := (case sv_observers s of None \<Rightarrow> sr_IsObserver r
        | Some obs \<Rightarrow> observers_Has (sr_PubKey r) obs \<or> sr_IsObserver r)\<rparr>"

type_synonym scored = "SearchResult \<times> nat"

definition scoredResult :: "Server \<Rightarrow> MapParams \<Rightarrow> string \<Rightarrow> SearchResult \<Rightarrow> scored" where
  "scoredResult s p q r = (enrichResult s p r, rankMatch (sr_Name r) (sr_PubKey r) q)"

definition scoreImported ::
  "Server \<Rightarrow> MapParams \<Rightarrow> string \<Rightarrow> ImportedNode \<Rightarrow> scored list \<times> (string, bool) gomap \<Rightarrow> scored list \<times> (string, bool) gomap" where
  "scoreImported s p q n acc = (case acc of (all, seen) \<Rightarrow>
     if mhas seen (im_PublicKey n) \<or> \<not> matchesImported p n then (all, seen)
     else (all @ [scoredResult s p q (importedSearchResult n)], mput seen (im_PublicKey n) True))"

text \<open>The order of the results: by name, by distance, or by relevance and recency.\<close>

definition resultLess :: "string \<Rightarrow> scored \<Rightarrow> scored \<Rightarrow> bool" where
  "resultLess srt x y =
     (if srt = ''name'' then
        (let ni = to_lower (sr_Name (fst x)); nj = to_lower (sr_Name (fst y)) in
         if ni \<noteq> nj then ni < nj else sr_PubKey (fst x) < sr_PubKey (fst y))
      else if srt = ''distance'' then
        (if sr_DistanceKM (fst x) \<noteq> sr_DistanceKM (fst y) then sr_DistanceKM (fst x) < sr_DistanceKM (fst y)
         else if snd x \<noteq> snd y then snd x < snd y else sr_PubKey (fst x) < sr_PubKey (fst y))
      else if snd x \<noteq> snd y then snd x < snd y
      else if sr_LastAdvertAt (fst x) \<noteq> sr_LastAdvertAt (fst y) then sr_LastAdvertAt (fst x) > sr_LastAdvertAt (fst y)
      else sr_PubKey (fst x) < sr_PubKey (fst y))"

definition allScored :: "Server \<Rightarrow> NodeRegistry \<Rightarrow> MapParams \<Rightarrow> scored list" where
  "allScored s r p =
     (let q = to_lower (trim_space (mp_Q p));
          live = fst (Search p 0 r);
          all = map (scoredResult s p q) live;
          seen = fold (\<lambda>r seen. mput seen (sr_PubKey r) True) live mempty
      in (case sv_imported s of None \<Rightarrow> all
          | Some records \<Rightarrow> fst (fold (scoreImported s p q) records (all, seen))))"

text \<open>A server without a node registry panics.\<close>

definition mergedSearch :: "MapParams \<Rightarrow> int \<Rightarrow> Server \<Rightarrow> (SearchResult list \<times> nat \<times> bool) option" where
  "mergedSearch p limit s = (case sv_nodes s of None \<Rightarrow> None
     | Some r \<Rightarrow>
        let all = sort_by (resultLess (mp_Sort p)) (allScored s r p); total = length all;
            capped = (limit > 0 \<and> int (length all) > limit);
            all = (if capped then take (nat limit) all else all)
        in Some (map fst all, total, capped))"

record searchBody =
  se_results :: "SearchResult list"
  se_returned :: nat
  se_total :: nat
  se_capped :: bool

definition handleSearch :: "(string \<Rightarrow> float64 option) \<Rightarrow> unix_time \<Rightarrow> httpQuery \<Rightarrow> Server \<Rightarrow> searchBody reply option" where
  "handleSearch parseFloat now qv s = (case parseSearchParams parseFloat now s qv of
     Inl bad \<Rightarrow> Some (ErrorReply 400 bad)
   | Inr (p, limit) \<Rightarrow> map_option (\<lambda>(results, total, capped).
       OkReply \<lparr>se_results = results, se_returned = length results, se_total = total, se_capped = capped\<rparr>)
       (mergedSearch p limit s))"

subsection \<open>The options offered\<close>

record searchOptionValue =
  so_Value :: string
  so_Label :: string

record searchOptionCommand =
  sc_Key :: string
  sc_Label :: string
  sc_Values :: "searchOptionValue list"
  sc_Placeholder :: string

definition optionValues :: "(string, bool) gomap \<Rightarrow> searchOptionValue list" where
  "optionValues m = sort_by (by_key so_Value) (map (\<lambda>v. \<lparr>so_Value = v, so_Label = v\<rparr>) (mkeys m))"

definition searchOption :: "string \<times> string \<Rightarrow> searchOptionValue" where
  "searchOption vl = \<lparr>so_Value = fst vl, so_Label = snd vl\<rparr>"

definition command :: "string \<Rightarrow> string \<Rightarrow> searchOptionValue list \<Rightarrow> string \<Rightarrow> searchOptionCommand" where
  "command key label vals placeholder = \<lparr>sc_Key = key, sc_Label = label, sc_Values = vals, sc_Placeholder = placeholder\<rparr>"

definition searchOptions :: "Server \<Rightarrow> searchOptionCommand list" where
  "searchOptions s = (case supportedSearchMeta s of (countries, regions) \<Rightarrow>
     [command ''type'' ''Type'' (map searchOption [(''repeater'', ''Repeater''), (''companion'', ''Companion''), (''room'', ''Room'')]) '''',
      command ''country'' ''Country'' (optionValues countries) ''CZ'',
      command ''region'' ''Region'' (optionValues regions) ''EU868'',
      command ''seen'' ''Seen'' (map searchOption [(''<24h'', ''Last 24 hours''), (''<7d'', ''Last 7 days''), (''>30d'', ''Older than 30 days'')]) '''',
      command ''has'' ''Has'' (map searchOption [(''location'', ''Location''), (''name'', ''Name'')]) '''',
      command ''source'' ''Source'' (map searchOption [(''advert'', ''Advert''), (''map'', ''Map''), (''corescope'', ''CoreScope'')]) '''',
      command ''near'' ''Near'' [] ''50.0755,14.4378'',
      command ''radius'' ''Radius'' [] ''25'',
      command ''sort'' ''Sort'' (map searchOption [(''recent'', ''Recent''), (''name'', ''Name''), (''distance'', ''Distance'')]) ''''])"

definition handleSearchOptions :: "Server \<Rightarrow> searchOptionCommand list reply" where
  "handleSearchOptions s = OkReply (searchOptions s)"

subsection \<open>What the merge returns\<close>

lemma sorted_by_desc: "sorted_wrt (\<lambda>x y. f x \<ge> f y) (sort_by (by_desc_then f g) xs)"
  using desc_then.sorted_sort_by [of f g xs]
  by (rule sorted_wrt_mono_rel [rotated]) (auto simp: by_desc_then_def split: if_splits)

interpretation resultLess: strict_weak "resultLess srt" for srt
proof
  fix x y z :: scored
  show "resultLess srt x y \<Longrightarrow> \<not> resultLess srt y x"
    by (auto simp: resultLess_def Let_def split: if_splits)
  show "\<not> resultLess srt x y \<Longrightarrow> \<not> resultLess srt y z \<Longrightarrow> \<not> resultLess srt x z"
    by (auto simp: resultLess_def Let_def split: if_splits)
qed

lemma resultLess_total: "sr_PubKey (fst x) \<noteq> sr_PubKey (fst y) \<Longrightarrow> resultLess srt x y \<or> resultLess srt y x"
  by (auto simp: resultLess_def Let_def)

text \<open>What the search finds under a key: the live row when it matches, or else the first record of the
  directory with this key that matches.\<close>

definition found :: "Server \<Rightarrow> NodeRegistry \<Rightarrow> MapParams \<Rightarrow> string \<Rightarrow> SearchResult option" where
  "found s r p k = (case mget (nr_nodes r) k of
     Some n \<Rightarrow> if matches p n then Some (searchResult n)
               else map_option importedSearchResult (find (\<lambda>i. im_PublicKey i = k \<and> matchesImported p i) (mirror_of s))
   | None \<Rightarrow> map_option importedSearchResult (find (\<lambda>i. im_PublicKey i = k \<and> matchesImported p i) (mirror_of s)))"

lemma scored_key [simp]: "sr_PubKey (fst (scoredResult s p q r)) = sr_PubKey r"
  by (simp add: scoredResult_def enrichResult_def)

lemma result_keys [simp]: "sr_PubKey (searchResult n) = nod_PubKey n" "sr_PubKey (importedSearchResult i) = im_PublicKey i"
  by (simp_all add: searchResult_def importedSearchResult_def)

lemma found_key: "keyed nod_PubKey (nr_nodes r) \<Longrightarrow> found s r p k = Some res \<Longrightarrow> sr_PubKey res = k"
  by (auto simp: found_def find_Some_iff dest: keyedD split: option.splits if_splits)

lemma find_filter: "find P (filter Q xs) = find (\<lambda>x. P x \<and> Q x) xs"
  by (induction xs) auto

lemma fold_scoreImported:
  "fst (fold (scoreImported s p q) records (all, seen)) = all @ map (scoredResult s p q \<circ> importedSearchResult)
     (unseen {k. mhas seen k} (filter (matchesImported p) records))"
proof (induction records arbitrary: all seen)
  case (Cons i records)
  have "{k. mhas (mput seen (im_PublicKey i) True) k} = insert (im_PublicKey i) {k. mhas seen k}"
    by (auto simp: gomap)
  then show ?case using Cons by (simp add: scoreImported_def)
qed simp

lemma mhas_fold_seen: "{k. mhas (fold (\<lambda>r seen. mput seen (sr_PubKey r) True) rs m) k} = sr_PubKey ` set rs \<union> {k. mhas m k}"
proof (induction rs arbitrary: m)
  case (Cons x rs)
  then show ?case by (auto simp: gomap)
qed simp

text \<open>The live rows that match, in the order of the registry's own search.\<close>

definition live_hits :: "NodeRegistry \<Rightarrow> MapParams \<Rightarrow> NodeRecord list" where
  "live_hits r p = sort_by (by_relevance (to_lower (trim_space (mp_Q p)))) (filter (matches p) (map snd (mentries (nr_nodes r))))"

lemma Search_unlimited: "fst (Search p 0 r) = map searchResult (live_hits r p)"
  by (simp add: Search_def live_hits_def Let_def)

lemma set_live_hits: "keyed nod_PubKey (nr_nodes r) \<Longrightarrow> n \<in> set (live_hits r p) \<longleftrightarrow> mget (nr_nodes r) (nod_PubKey n) = Some n \<and> matches p n"
  by (auto simp: live_hits_def image_iff Bex_def mentries_iff dest: keyedD)

lemma live_hits_distinct:
  assumes "keyed nod_PubKey (nr_nodes r)"
  shows "distinct (map nod_PubKey (live_hits r p))"
proof -
  have "map nod_PubKey (map snd (mentries (nr_nodes r))) = mkeys (nr_nodes r)"
    using assms by (auto simp: mkeys_def mentries_iff dest: keyedD)
  then have "distinct (map nod_PubKey (map snd (mentries (nr_nodes r))))" by simp
  then have "distinct (map nod_PubKey (filter (matches p) (map snd (mentries (nr_nodes r)))))" by (rule distinct_map_filter)
  moreover have "mset (map nod_PubKey (live_hits r p)) = mset (map nod_PubKey (filter (matches p) (map snd (mentries (nr_nodes r)))))"
    unfolding live_hits_def by (simp only: mset_map mset_sort_by)
  ultimately show ?thesis by (metis mset_eq_imp_distinct_iff)
qed

lemma allScored_eq:
  "allScored s r p = map (scoredResult s p (to_lower (trim_space (mp_Q p)))) (map searchResult (live_hits r p)
     @ map importedSearchResult (unseen (nod_PubKey ` set (live_hits r p)) (filter (matchesImported p) (mirror_of s))))"
proof (cases "sv_imported s")
  case None
  then show ?thesis by (simp add: allScored_def Search_unlimited mirror_of_def Let_def)
next
  case (Some records)
  have "{k. mhas (fold (\<lambda>r seen. mput seen (sr_PubKey r) True) (map searchResult (live_hits r p)) mempty) k}
      = nod_PubKey ` set (live_hits r p)"
    by (simp only: mhas_fold_seen) (auto simp: image_image)
  then show ?thesis using Some
    by (simp add: allScored_def Search_unlimited mirror_of_def fold_scoreImported Let_def)
qed

lemma allScored_distinct:
  assumes "keyed nod_PubKey (nr_nodes r)"
  shows "distinct (map (sr_PubKey \<circ> fst) (allScored s r p))"
proof -
  have "map (sr_PubKey \<circ> fst) (allScored s r p) = map nod_PubKey (live_hits r p)
      @ map im_PublicKey (unseen (nod_PubKey ` set (live_hits r p)) (filter (matchesImported p) (mirror_of s)))"
    by (simp add: allScored_eq comp_def)
  then show ?thesis
    using live_hits_distinct [OF assms, of p] unseen_distinct unseen_keys by auto
qed

lemma set_allScored:
  assumes keyed: "keyed nod_PubKey (nr_nodes r)" and q: "q = to_lower (trim_space (mp_Q p))"
  shows "x \<in> set (allScored s r p) \<longleftrightarrow>
    (\<exists>k res. found s r p k = Some res \<and> x = scoredResult s p q res)"
proof -
  let ?S = "nod_PubKey ` set (live_hits r p)"
  have S: "k \<in> ?S \<longleftrightarrow> (\<exists>n. mget (nr_nodes r) k = Some n \<and> matches p n)" for k
    using keyedD [OF keyed] unfolding image_iff set_live_hits [OF keyed] Bex_def by metis
  have live: "found s r p k = Some (searchResult n)" if "mget (nr_nodes r) k = Some n" "matches p n" for k n
    using that by (simp add: found_def)
  have mirror: "found s r p k = map_option importedSearchResult (find (\<lambda>i. im_PublicKey i = k \<and> matchesImported p i) (mirror_of s))"
    if "k \<notin> ?S" for k
    using that unfolding S by (auto simp: found_def split: option.split)
  have picks: "i \<in> set (unseen ?S (filter (matchesImported p) (mirror_of s))) \<longleftrightarrow>
      im_PublicKey i \<notin> ?S \<and> find (\<lambda>j. im_PublicKey j = im_PublicKey i \<and> matchesImported p j) (mirror_of s) = Some i" for i
  proof
    assume i: "i \<in> set (unseen ?S (filter (matchesImported p) (mirror_of s)))"
    then have "im_PublicKey i \<notin> ?S" using unseen_keys [of ?S "filter (matchesImported p) (mirror_of s)"] by blast
    then show "im_PublicKey i \<notin> ?S \<and> find (\<lambda>j. im_PublicKey j = im_PublicKey i \<and> matchesImported p j) (mirror_of s) = Some i"
      using unseen_find [OF i] by (simp add: find_filter)
  next
    assume i: "im_PublicKey i \<notin> ?S \<and> find (\<lambda>j. im_PublicKey j = im_PublicKey i \<and> matchesImported p j) (mirror_of s) = Some i"
    then have "i \<in> set (filter (matchesImported p) (mirror_of s))" by (auto simp: find_Some_iff)
    then have "im_PublicKey i \<in> im_PublicKey ` set (unseen ?S (filter (matchesImported p) (mirror_of s)))"
      using i by (simp only: unseen_keys) blast
    then obtain j where j: "j \<in> set (unseen ?S (filter (matchesImported p) (mirror_of s)))" "im_PublicKey j = im_PublicKey i"
      by (metis imageE)
    have "find (\<lambda>m. im_PublicKey m = im_PublicKey i \<and> matchesImported p m) (mirror_of s) = Some j"
      using unseen_find [OF j(1)] unfolding j(2) find_filter .
    then have "i = j" using i by (metis option.inject)
    then show "i \<in> set (unseen ?S (filter (matchesImported p) (mirror_of s)))" using j(1) by simp
  qed
  note eq = allScored_eq [of s r p, folded q]
  show ?thesis
  proof
    assume "x \<in> set (allScored s r p)"
    then have "x \<in> scoredResult s p q ` (searchResult ` set (live_hits r p)
        \<union> importedSearchResult ` set (unseen ?S (filter (matchesImported p) (mirror_of s))))"
      unfolding eq by (simp only: set_map set_append)
    then consider n where "n \<in> set (live_hits r p)" "x = scoredResult s p q (searchResult n)"
      | i where "i \<in> set (unseen ?S (filter (matchesImported p) (mirror_of s)))" "x = scoredResult s p q (importedSearchResult i)"
      by blast
    then show "\<exists>k res. found s r p k = Some res \<and> x = scoredResult s p q res"
    proof cases
      case 1
      then show ?thesis using live set_live_hits [OF keyed] by blast
    next
      case 2
      then show ?thesis using mirror [of "im_PublicKey i"] unfolding picks by auto
    qed
  next
    assume "\<exists>k res. found s r p k = Some res \<and> x = scoredResult s p q res"
    then obtain k res where k: "found s r p k = Some res" "x = scoredResult s p q res" by blast
    show "x \<in> set (allScored s r p)"
    proof (cases "k \<in> ?S")
      case True
      then obtain n where "n \<in> set (live_hits r p)" "k = nod_PubKey n" by blast
      then show ?thesis using k live [of k n] set_live_hits [OF keyed, of n p] by (auto simp: eq)
    next
      case False
      then obtain i where i: "find (\<lambda>i. im_PublicKey i = k \<and> matchesImported p i) (mirror_of s) = Some i" "res = importedSearchResult i"
        using k mirror by auto
      then have "im_PublicKey i = k" by (auto simp: find_Some_iff)
      then have "i \<in> set (unseen ?S (filter (matchesImported p) (mirror_of s)))" unfolding picks using False i by simp
      then show ?thesis using i k by (auto simp: eq)
    qed
  qed
qed


text \<open>A live row that does not match does not keep a directory record with its key out, so the comment that
  live nodes win on duplicate keys holds only for those that match.\<close>

lemma unmatched_live_row_replaced:
  assumes "sv_nodes s = Some r" "keyed nod_PubKey (nr_nodes r)" "mergedSearch p 0 s = Some (results, tot, capped)"
    and "mget (nr_nodes r) k = Some n" "\<not> matches p n" "mirror_of s = [i]" "im_PublicKey i = k" "matchesImported p i"
  shows "\<exists>res\<in>set results. sr_PubKey res = k \<and> sr_Source res = ''map''"
proof -
  have "found s r p k = Some (importedSearchResult i)" using assms(4-8) by (simp add: found_def)
  then have "scoredResult s p (to_lower (trim_space (mp_Q p))) (importedSearchResult i) \<in> set (allScored s r p)"
    using set_allScored [OF assms(2) refl] by blast
  then have "fst (scoredResult s p (to_lower (trim_space (mp_Q p))) (importedSearchResult i)) \<in> set results"
    using assms(1,3) by (auto simp: mergedSearch_def Let_def)
  moreover have "sr_Source (fst (scoredResult s p q (importedSearchResult i))) = ''map''"
    "sr_PubKey (fst (scoredResult s p q (importedSearchResult i))) = k" for q
    using assms(7) by (simp_all add: scoredResult_def enrichResult_def importedSearchResult_def)
  ultimately show ?thesis by blast
qed

subsection \<open>Country and region\<close>

lemma mhas_metaNetworksOf:
  "mhas (metaNetworksOf p st) i \<longleftrightarrow> (\<exists>ns\<in>set (networks_of st). ns_ID ns = i
     \<and> meta_ok (mp_Countries p) (ns_Countries ns) \<and> meta_ok (mp_Regions p) (ns_Regions ns))"
proof -
  have "mhas (fold (\<lambda>ns m. if P ns then mput m (ns_ID ns) True else m) nss m) i
      \<longleftrightarrow> mhas m i \<or> (\<exists>ns\<in>set nss. ns_ID ns = i \<and> P ns)" for P :: "(ptr, ptr) NetworkState \<Rightarrow> bool" and nss m
    by (induction nss arbitrary: m) (auto simp: gomap)
  then show ?thesis by (simp add: metaNetworksOf_def)
qed

lemma mget_metaNetworksOf: "mget (metaNetworksOf p st) i = (if mhas (metaNetworksOf p st) i then Some True else None)"
proof -
  have "mget m i \<noteq> Some False \<Longrightarrow> mget (fold (\<lambda>ns m. if P ns then mput m (ns_ID ns) True else m) nss m) i \<noteq> Some False"
    for P :: "(ptr, ptr) NetworkState \<Rightarrow> bool" and nss m
    by (induction nss arbitrary: m) (auto simp: gomap)
  from this [of mempty] have "mget (metaNetworksOf p st) i \<noteq> Some False" by (simp add: metaNetworksOf_def)
  then show ?thesis by (cases "mget (metaNetworksOf p st) i") (auto simp: mhas_def)
qed

text \<open>The networks a country or region filter allows: those of the catalogue with one of the countries and
  one of the regions asked for and, when the request names networks, among these.\<close>

definition allowed_networks :: "bool \<Rightarrow> Store \<Rightarrow> MapParams \<Rightarrow> string set" where
  "allowed_networks nilNetworks st p = {ns_ID ns | ns. ns \<in> set (networks_of st)
     \<and> meta_ok (mp_Countries p) (ns_Countries ns) \<and> meta_ok (mp_Regions p) (ns_Regions ns)
     \<and> (nilNetworks \<or> mhas (mp_Networks p) (ns_ID ns))}"

text \<open>The network part of the filter that \<open>matches\<close> applies to a live node.\<close>

definition network_rejects :: "MapParams \<Rightarrow> NodeRecord \<Rightarrow> bool" where
  "network_rejects p n \<longleftrightarrow> mlen (mp_Networks p) > 0 \<and> \<not> list_ex (mhas (mp_Networks p)) (nod_Networks n)"

lemma expanded_networks:
  assumes "sv_store s = Some st" "mlen (mp_Countries p) > 0 \<or> mlen (mp_Regions p) > 0"
    and "nilNetworks \<or> (\<forall>i b. mget (mp_Networks p) i = Some b \<longrightarrow> b)"
  shows "mhas (mp_Networks (expandNetworkMetadata nilNetworks s p)) i \<longleftrightarrow> i \<in> allowed_networks nilNetworks st p"
    "mget (mp_Networks (expandNetworkMetadata nilNetworks s p)) i = Some b \<Longrightarrow> b"
  using assms mget_metaNetworksOf [of p st i] mhas_metaNetworksOf [of p st i]
  by (auto simp: expandNetworkMetadata_def Let_def allowed_networks_def mhas_def mget_mkeep split: option.splits if_splits)

text \<open>With a country or region filter, a live node is rejected for its networks exactly when some network
  is allowed and the node was heard on none of the allowed ones. When no network is allowed (none has
  both a country and a region asked for, or none of the networks asked for is in the country) the
  filter rejects no node at all, instead of every node.\<close>

theorem metadata_filter_semantics:
  assumes "sv_store s = Some st" "mlen (mp_Countries p) > 0 \<or> mlen (mp_Regions p) > 0"
    and "nilNetworks \<or> (\<forall>i b. mget (mp_Networks p) i = Some b \<longrightarrow> b)"
  shows "network_rejects (expandNetworkMetadata nilNetworks s p) n
     \<longleftrightarrow> allowed_networks nilNetworks st p \<noteq> {} \<and> set (nod_Networks n) \<inter> allowed_networks nilNetworks st p = {}"
proof -
  let ?m = "mp_Networks (expandNetworkMetadata nilNetworks s p)"
  have has: "mhas ?m i \<longleftrightarrow> i \<in> allowed_networks nilNetworks st p" for i by (rule expanded_networks(1) [OF assms])
  have "mlen ?m > 0 \<longleftrightarrow> dom (mget ?m) \<noteq> {}" by (simp add: mlen_card card_gt_0_iff)
  also have "dom (mget ?m) = {i. mhas ?m i}"
    using expanded_networks(2) [OF assms] unfolding mhas_def dom_def by fastforce
  finally have "mlen ?m > 0 \<longleftrightarrow> allowed_networks nilNetworks st p \<noteq> {}" by (simp add: has)
  then show ?thesis by (auto simp: network_rejects_def list_ex_iff has)
qed

subsection \<open>Examples\<close>

definition ex_country :: "string \<Rightarrow> string \<Rightarrow> NetworkConfig" where
  "ex_country i cc = \<lparr>nc_ID = i, nc_Name = i, nc_Analyzers = [], nc_Countries = [cc], nc_Regions = []\<rparr>"

definition ex_world :: Server where
  "ex_world = ex_server\<lparr>sv_store := Some (NewStore [ex_country ''cz'' ''CZ'', ex_country ''de'' ''DE''])\<rparr>"

definition ex_query :: httpQuery where
  "ex_query = mput (mput mempty ''country'' [''CZ'']) ''networks'' [''de'']"

definition ex_asked :: MapParams where
  "ex_asked = (baseParams ex_query)\<lparr>mp_Countries := mput mempty ''CZ'' True\<rparr>"

lemma metadata_filter_semantics_witness:
  "\<forall>n. \<not> network_rejects (expandNetworkMetadata False ex_world ex_asked) n"
proof
  fix n
  have st: "sv_store ex_world = Some (NewStore [ex_country ''cz'' ''CZ'', ex_country ''de'' ''DE''])"
    by (simp add: ex_world_def)
  have nets: "map (\<lambda>ns. (ns_ID ns, ns_Countries ns)) (networks_of (NewStore [ex_country ''cz'' ''CZ'', ex_country ''de'' ''DE'']))
      = [(''cz'', [''CZ'']), (''de'', [''DE''])]"
    by code_simp
  have p: "mp_Countries ex_asked = mput mempty ''CZ'' True" "mp_Networks ex_asked = mput mempty ''de'' True"
    by code_simp+
  have "ns_ID ns = ''cz''"
    if "ns \<in> set (networks_of (NewStore [ex_country ''cz'' ''CZ'', ex_country ''de'' ''DE'']))" "meta_ok (mp_Countries ex_asked) (ns_Countries ns)"
    for ns
  proof -
    have "(ns_ID ns, ns_Countries ns) \<in> set [(''cz'', [''CZ'']), (''de'', [''DE''])]"
      unfolding nets [symmetric] using that(1) by simp
    then show ?thesis using that(2) by (auto simp: p meta_ok_def mlen_mput gomap)
  qed
  then have none: "allowed_networks False (NewStore [ex_country ''cz'' ''CZ'', ex_country ''de'' ''DE'']) ex_asked = {}"
    by (auto simp: allowed_networks_def p gomap)
  have "mlen (mp_Countries ex_asked) > 0 \<or> mlen (mp_Regions ex_asked) > 0" by (simp add: p mlen_mput)
  moreover have "False \<or> (\<forall>i b. mget (mp_Networks ex_asked) i = Some b \<longrightarrow> b)" by (simp add: p gomap)
  ultimately show "\<not> network_rejects (expandNetworkMetadata False ex_world ex_asked) n"
    using metadata_filter_semantics [OF st, of ex_asked False n] none by simp
qed


end
