(* ===== verification/ServerPrefixes.thy ===== *)
theory ServerPrefixes
  imports ServerSearch
begin

text \<open>
  The prefix occupancy endpoint (prefixes.go): a histogram of the leading bytes of the public keys of
  every node the search finds, for picking a free routing prefix. It is shown to be the exact count
  of the results per prefix.
\<close>

definition maxPrefixBytes :: int where
  "maxPrefixBytes = 3"

definition maxInt :: int where
  "maxInt = 2 ^ 63 - 1"

record prefixNode =
  pn_PubKey :: string
  pn_Name :: string
  pn_Type :: byte
  pn_TypeName :: string

record prefixBucket =
  pb_Prefix :: string
  pb_Count :: nat
  pb_Nodes :: "prefixNode list"

record prefixBody =
  px_bytes :: int
  px_counted :: nat
  px_space :: int
  px_used :: nat
  px_collisions :: int
  px_prefixes :: "prefixBucket list"

definition prefixGlobalNetwork :: "(string, bool) gomap \<Rightarrow> bool" where
  "prefixGlobalNetwork networks = list_ex (\<lambda>i. to_lower (trim_space i) \<in> {''global'', ''all'', ''*''}) (mkeys networks)"

definition prefixNodeOf :: "SearchResult \<Rightarrow> prefixNode" where
  "prefixNodeOf res = \<lparr>pn_PubKey = sr_PubKey res, pn_Name = sr_Name res, pn_Type = sr_Type res, pn_TypeName = sr_TypeName res\<rparr>"

definition countPrefix ::
  "bool \<Rightarrow> nat \<Rightarrow> SearchResult \<Rightarrow> nat \<times> (string, prefixBucket) gomap \<Rightarrow> nat \<times> (string, prefixBucket) gomap" where
  "countPrefix withNodes hexLen res acc = (case acc of (cnt, bks) \<Rightarrow>
     let pk = to_lower (sr_PubKey res) in
     if length pk < hexLen then (cnt, bks)
     else let key = take hexLen pk;
              b = (case mget bks key of None \<Rightarrow> \<lparr>pb_Prefix = key, pb_Count = 0, pb_Nodes = []\<rparr> | Some b \<Rightarrow> b)
          in (Suc cnt, mput bks key (b\<lparr>pb_Count := Suc (pb_Count b),
                pb_Nodes := (if withNodes then pb_Nodes b @ [prefixNodeOf res] else pb_Nodes b)\<rparr>)))"

definition bytesParam :: "string \<Rightarrow> int" where
  "bytesParam v = (let bytes = atoiDefault v 1; bytes = (if bytes < 1 then 1 else bytes) in
     if bytes > maxPrefixBytes then maxPrefixBytes else bytes)"

text \<open>The loop that computes the size of the prefix space.\<close>

primrec prefixSpace :: "nat \<Rightarrow> int" where
  "prefixSpace 0 = 1"
| "prefixSpace (Suc i) = prefixSpace i * 16"

definition prefixHistogram :: "bool \<Rightarrow> int \<Rightarrow> SearchResult list \<Rightarrow> prefixBody" where
  "prefixHistogram withNodes bytes results =
     (let hexLen = nat (bytes * 2);
          (cnt, bks) = fold (countPrefix withNodes hexLen) results (0, mempty);
          out = sort_by (by_desc_then pb_Count pb_Prefix) (map snd (mentries bks))
      in \<lparr>px_bytes = bytes, px_counted = cnt, px_space = prefixSpace hexLen, px_used = mlen bks,
          px_collisions = int cnt - int (mlen bks), px_prefixes = out\<rparr>)"

definition handlePrefixes :: "(string \<Rightarrow> float64 option) \<Rightarrow> unix_time \<Rightarrow> httpQuery \<Rightarrow> Server \<Rightarrow> prefixBody reply option" where
  "handlePrefixes parseFloat now qv s = (case parseSearchParams parseFloat now s qv of
     Inl bad \<Rightarrow> Some (ErrorReply 400 bad)
   | Inr (p, _) \<Rightarrow>
       let p = (if prefixGlobalNetwork (mp_Networks p) then p\<lparr>mp_Networks := mempty\<rparr> else p) in
       map_option (\<lambda>(results, _, _). OkReply (prefixHistogram (q_get qv ''details'' = ''1'') (bytesParam (q_get qv ''bytes'')) results))
         (mergedSearch p maxInt s))"

subsection \<open>The histogram is exact\<close>

text \<open>The results with a key of at least the prefix width, and their prefixes.\<close>

definition prefixes_of :: "nat \<Rightarrow> SearchResult list \<Rightarrow> string list" where
  "prefixes_of w results = map (take w) (filter (\<lambda>pk. w \<le> length pk) (map (to_lower \<circ> sr_PubKey) results))"

definition bucket_ok :: "bool \<Rightarrow> nat \<Rightarrow> SearchResult list \<Rightarrow> string \<Rightarrow> prefixBucket option \<Rightarrow> bool" where
  "bucket_ok withNodes w results key b \<longleftrightarrow> (case b of None \<Rightarrow> key \<notin> set (prefixes_of w results)
     | Some b \<Rightarrow> key \<in> set (prefixes_of w results) \<and> pb_Prefix b = key \<and> pb_Count b = count_list (prefixes_of w results) key
        \<and> pb_Nodes b = (if withNodes then map prefixNodeOf (filter (\<lambda>r. w \<le> length (sr_PubKey r) \<and>
             take w (to_lower (sr_PubKey r)) = key) results) else []))"

lemma prefixes_of_snoc: "prefixes_of w (results @ [r]) =
  prefixes_of w results @ (if w \<le> length (sr_PubKey r) then [take w (to_lower (sr_PubKey r))] else [])"
  by (simp add: prefixes_of_def)

lemma bucket_ok_skip: "\<not> w \<le> length (sr_PubKey r) \<Longrightarrow> bucket_ok wn w (results @ [r]) key b = bucket_ok wn w results key b"
  by (auto simp: bucket_ok_def prefixes_of_snoc split: option.split)

lemma bucket_ok_other:
  "take w (to_lower (sr_PubKey r)) \<noteq> key \<Longrightarrow> bucket_ok wn w (results @ [r]) key b = bucket_ok wn w results key b"
  by (auto simp: bucket_ok_def prefixes_of_snoc split: option.split)

lemma no_prefix:
  assumes "key \<notin> set (prefixes_of w results)"
  shows "count_list (prefixes_of w results) key = 0"
    "filter (\<lambda>r. w \<le> length (sr_PubKey r) \<and> take w (to_lower (sr_PubKey r)) = key) results = []"
  using assms by (auto simp: count_list_0_iff filter_empty_conv) (force simp: prefixes_of_def)

lemma bucket_ok_count:
  assumes "w \<le> length (sr_PubKey r)" "key = take w (to_lower (sr_PubKey r))" "bucket_ok wn w results key b"
    and "b' = (case b of None \<Rightarrow> \<lparr>pb_Prefix = key, pb_Count = 0, pb_Nodes = []\<rparr> | Some b \<Rightarrow> b)"
  shows "bucket_ok wn w (results @ [r]) key (Some (b'\<lparr>pb_Count := Suc (pb_Count b'),
     pb_Nodes := (if wn then pb_Nodes b' @ [prefixNodeOf r] else pb_Nodes b')\<rparr>))"
proof (cases b)
  case None
  then have "key \<notin> set (prefixes_of w results)" using assms(3) by (simp add: bucket_ok_def)
  note no = no_prefix [OF this]
  show ?thesis using assms(1,2,4) None no by (simp add: bucket_ok_def prefixes_of_snoc)
next
  case (Some b0)
  then show ?thesis using assms by (simp add: bucket_ok_def prefixes_of_snoc)
qed

lemma countPrefix_step:
  assumes "\<forall>key. bucket_ok wn w results key (mget bks key)"
  shows "case countPrefix wn w r (cnt, bks) of (cnt', bks') \<Rightarrow>
     cnt' = cnt + length (prefixes_of w [r]) \<and> (\<forall>key. bucket_ok wn w (results @ [r]) key (mget bks' key))"
proof (cases "w \<le> length (sr_PubKey r)")
  case False
  then show ?thesis using assms by (simp add: countPrefix_def Let_def prefixes_of_def bucket_ok_skip)
next
  case True
  let ?k = "take w (to_lower (sr_PubKey r))"
  let ?b = "case mget bks ?k of None \<Rightarrow> \<lparr>pb_Prefix = ?k, pb_Count = 0, pb_Nodes = []\<rparr> | Some b \<Rightarrow> b"
  let ?bks = "mput bks ?k (?b\<lparr>pb_Count := Suc (pb_Count ?b), pb_Nodes := (if wn then pb_Nodes ?b @ [prefixNodeOf r] else pb_Nodes ?b)\<rparr>)"
  have "countPrefix wn w r (cnt, bks) = (Suc cnt, ?bks)" using True by (simp add: countPrefix_def Let_def)
  moreover have "bucket_ok wn w (results @ [r]) key (mget ?bks key)" for key
  proof (cases "?k = key")
    case eq: True
    show ?thesis unfolding mget_mput eq if_P [OF refl]
      by (rule bucket_ok_count [OF True eq [symmetric] assms [rule_format] refl, unfolded eq])
  next
    case False
    then show ?thesis using assms by (simp add: mget_mput bucket_ok_other)
  qed
  ultimately show ?thesis using True by (simp add: prefixes_of_def)
qed

lemma fold_countPrefix:
  "case fold (countPrefix wn w) results (0, mempty) of (cnt, bks) \<Rightarrow>
     cnt = length (prefixes_of w results) \<and> (\<forall>key. bucket_ok wn w results key (mget bks key))"
proof (induction results rule: rev_induct)
  case Nil
  then show ?case by (simp add: prefixes_of_def bucket_ok_def)
next
  case (snoc r results)
  obtain cnt bks where f: "fold (countPrefix wn w) results (0, mempty) = (cnt, bks)" by fastforce
  with snoc have c: "cnt = length (prefixes_of w results)" "\<forall>key. bucket_ok wn w results key (mget bks key)" by auto
  have "length (prefixes_of w (results @ [r])) = length (prefixes_of w results) + length (prefixes_of w [r])"
    by (simp add: prefixes_of_def)
  moreover have "fold (countPrefix wn w) (results @ [r]) (0, mempty) = countPrefix wn w r (cnt, bks)"
    unfolding fold_append comp_def f by simp
  ultimately show ?case using countPrefix_step [OF c(2), where r = r and cnt = cnt] c(1) by (simp only:)
qed

lemma prefixSpace_eq: "prefixSpace n = 16 ^ n"
  by (induction n) simp_all

lemma bucket_count_excess: "int (sum_list (map pb_Count bs)) - int (length bs) = (\<Sum>bk\<leftarrow>bs. int (pb_Count bk) - 1)"
  by (induction bs) simp_all

lemma sum_list_map_through:
  "(\<And>x. x \<in> set xs \<Longrightarrow> f x = g (h x)) \<Longrightarrow> sum_list (map f xs) = sum_list (map g (map h xs))"
  by (induction xs) auto

lemma prefixHistogram_buckets:
  assumes "bks = snd (fold (countPrefix wn w) results (0, mempty))" "bs = map snd (mentries bks)"
  shows "distinct (map pb_Prefix bs)" "pb_Prefix ` set bs = set (prefixes_of w results)"
    "bk \<in> set bs \<Longrightarrow> bucket_ok wn w results (pb_Prefix bk) (Some bk)" "length bs = mlen bks"
proof -
  have ok: "bucket_ok wn w results key (mget bks key)" for key
    using fold_countPrefix [where wn = wn and w = w and results = results] assms by (auto split: prod.splits)
  have own: "pb_Prefix bk = k" if "mget bks k = Some bk" for k bk
    using ok [of k] that by (simp add: bucket_ok_def)
  have names: "map pb_Prefix bs = mkeys bks"
    unfolding assms(2) mkeys_def map_map by (rule map_cong [OF refl]) (auto simp: mentries_iff own)
  then show "distinct (map pb_Prefix bs)" using mkeys_distinct [of bks] by simp
  have "key \<in> dom (mget bks) \<longleftrightarrow> key \<in> set (prefixes_of w results)" for key
    using ok [of key] by (auto simp: bucket_ok_def split: option.splits)
  then show "pb_Prefix ` set bs = set (prefixes_of w results)"
    using mkeys_set [of bks] names by (metis list.set_map set_eqI)
  show "length bs = mlen bks" by (simp add: assms(2) mlen_def)
  assume "bk \<in> set bs"
  then obtain k where "mget bks k = Some bk" by (auto simp: assms(2) mentries_iff)
  then show "bucket_ok wn w results (pb_Prefix bk) (Some bk)" using own ok by metis
qed

text \<open>C20: the prefix histogram is exact: it counts every result whose key is at least as long as the prefix,
  has one bucket per prefix that occurs, with the number of results of that prefix (and, when asked
  for, these nodes in order), the most crowded first; the counts sum to the number counted, and the
  collisions are what the counts exceed one by, summed over the buckets.\<close>

theorem prefix_histogram_exact:
  assumes "b = prefixHistogram wn bytes results" "w = nat (bytes * 2)"
  shows "px_counted b = length (prefixes_of w results)
    \<and> distinct (map pb_Prefix (px_prefixes b)) \<and> pb_Prefix ` set (px_prefixes b) = set (prefixes_of w results)
    \<and> (\<forall>bk\<in>set (px_prefixes b). pb_Count bk = count_list (prefixes_of w results) (pb_Prefix bk)
         \<and> pb_Nodes bk = (if wn then map prefixNodeOf (filter (\<lambda>r. w \<le> length (sr_PubKey r) \<and>
             take w (to_lower (sr_PubKey r)) = pb_Prefix bk) results) else []))
    \<and> sorted_wrt (\<lambda>x y. pb_Count x \<ge> pb_Count y) (px_prefixes b)
    \<and> sum_list (map pb_Count (px_prefixes b)) = px_counted b
    \<and> px_used b = length (px_prefixes b) \<and> px_collisions b = (\<Sum>bk\<leftarrow>px_prefixes b. int (pb_Count bk) - 1)
    \<and> px_space b = 16 ^ w"
proof -
  obtain cnt bks where f: "fold (countPrefix wn w) results (0, mempty) = (cnt, bks)" by fastforce
  let ?bs = "map snd (mentries bks)"
  have b: "b = \<lparr>px_bytes = bytes, px_counted = cnt, px_space = prefixSpace w, px_used = mlen bks,
      px_collisions = int cnt - int (mlen bks), px_prefixes = sort_by (by_desc_then pb_Count pb_Prefix) ?bs\<rparr>"
    unfolding assms(1) prefixHistogram_def Let_def assms(2) [symmetric] f by simp
  have c: "cnt = length (prefixes_of w results)" using fold_countPrefix [where wn = wn and w = w and results = results] f by simp
  have bks: "bks = snd (fold (countPrefix wn w) results (0, mempty))" by (simp add: f)
  note hist = prefixHistogram_buckets [OF bks refl]
  have ms: "mset (px_prefixes b) = mset ?bs" by (simp add: b)
  have sets: "set (px_prefixes b) = set ?bs" by (metis ms set_mset_mset)
  have counts: "pb_Count bk = count_list (prefixes_of w results) (pb_Prefix bk)" if "bk \<in> set ?bs" for bk
    using hist(3) [OF that] by (simp add: bucket_ok_def)
  have "sum_list (map pb_Count ?bs) = sum_list (map (count_list (prefixes_of w results)) (map pb_Prefix ?bs))"
    by (rule sum_list_map_through) (rule counts)
  also have "\<dots> = sum (count_list (prefixes_of w results)) (set (prefixes_of w results))"
    using hist(1,2) by (simp only: sum_list_distinct_conv_sum_set set_map)
  also have "\<dots> = length (prefixes_of w results)" by (rule sum_count_set) simp_all
  finally have sum_c: "sum_list (map pb_Count (px_prefixes b)) = cnt" using ms c by (metis mset_map sum_mset_sum_list)
  have len: "length (px_prefixes b) = mlen bks" using hist(4) ms by (metis mset_eq_length)
  have "distinct (map pb_Prefix (px_prefixes b))" using hist(1) ms by (metis mset_eq_imp_distinct_iff mset_map)
  moreover have "sorted_wrt (\<lambda>x y. pb_Count x \<ge> pb_Count y) (px_prefixes b)"
    by (simp add: b sorted_by_desc)
  moreover have "int cnt - int (mlen bks) = (\<Sum>bk\<leftarrow>px_prefixes b. int (pb_Count bk) - 1)"
    using bucket_count_excess [of "px_prefixes b"] by (simp add: sum_c len)
  ultimately show ?thesis
    using hist(2,3) sum_c len c by (simp add: sets b prefixSpace_eq bucket_ok_def del: mset_sort_by)
qed

theorem prefix_histogram_exact_witness: "px_counted (prefixHistogram True 1 []) = 0"
  using prefix_histogram_exact [OF refl refl, of True 1 "[]"] by (simp add: prefixes_of_def)

end
