(* ===== verification/ServerNodes.thy ===== *)
theory ServerNodes
  imports ServerSearch
begin

text \<open>
  The per-node endpoints of server.go: the overview of all nodes, one node's profile, its advert
  history page by page, its daily and per-network advert counts, its publishes in the external
  directory, and the lists of observers and flagged nodes. Every per-node handler starts from the raw
  key in the path, which \<open>normalizePub\<close> checks. A handler with a query gets whether the database
  answers it (\<open>queries\<close>); when it does not, the reply is the error 500.
\<close>

subsection \<open>Profiles\<close>

text \<open>The nil registry is dereferenced by these handlers, which is \<open>None\<close>.\<close>

definition observerOf :: "ObserverView \<Rightarrow> NodeObserverView" where
  "observerOf ob = \<lparr>nov_ObserverID = ov_ObserverID ob, nov_Name = ov_Name ob, nov_FirstSeen = ov_FirstSeen ob,
     nov_LastSeen = ov_LastSeen ob, nov_Observations = ov_Observations ob, nov_Networks = ov_Networks ob\<rparr>"

definition enrichNodeObserver :: "Server \<Rightarrow> NodeView \<Rightarrow> NodeView" where
  "enrichNodeObserver s v = (case sv_observers s of None \<Rightarrow> v
     | Some obs \<Rightarrow> (case observers_Lookup (nv_PubKey v) obs of None \<Rightarrow> v
         | Some ob \<Rightarrow> v\<lparr>nv_IsObserver := True, nv_Observer := Some (observerOf ob)\<rparr>))"

definition handleNodes :: "Server \<Rightarrow> NodeView list reply option" where
  "handleNodes s = map_option (\<lambda>r. OkReply (map (enrichNodeObserver s) (nodes_Snapshot r))) (sv_nodes s)"

definition importedNodeView :: "ImportedNode \<Rightarrow> NodeView" where
  "importedNodeView n =
     \<lparr>nv_PubKey = im_PublicKey n, nv_Name = im_AdvName n, nv_Type = im_byte n, nv_TypeName = nodeTypeName (im_byte n),
      nv_HasGPS = hasCoords n, nv_Lat = (if hasCoords n then im_AdvLat n else 0),
      nv_Lon = (if hasCoords n then im_AdvLon n else 0), nv_FirstAdvertAt = 0, nv_LastAdvertAt = im_lastAt n,
      nv_AdvertCount = 0, nv_Networks = [], nv_ObserverName = '''', nv_LatestAdverts = [], nv_Flags = [],
      nv_Source = ''map'', nv_OnMap = True, nv_IsObserver = False, nv_Observer = None\<rparr>"

text \<open>Every handler of a node first reads the key of the path.\<close>

definition with_pubkey :: "string \<Rightarrow> (pubKey \<Rightarrow> 'a reply option) \<Rightarrow> 'a reply option" where
  "with_pubkey rawPub f = (case normalizePub rawPub of None \<Rightarrow> Some (ErrorReply 400 ''invalid pubkey'') | Some node \<Rightarrow> f node)"

definition handleNodeDetail :: "string \<Rightarrow> Server \<Rightarrow> NodeView reply option" where
  "handleNodeDetail rawPub s = with_pubkey rawPub (\<lambda>node. let pubHex = hex_encode node in
     case sv_nodes s of None \<Rightarrow> None
     | Some r \<Rightarrow> (case GetView pubHex r of
         Some view \<Rightarrow> Some (OkReply (enrichNodeObserver s (view\<lparr>nv_Source := ''live'',
           nv_OnMap := (case sv_imported s of None \<Rightarrow> False | Some ir \<Rightarrow> imports_Has pubHex ir)\<rparr>)))
       | None \<Rightarrow> (case (case sv_imported s of None \<Rightarrow> [] | Some ir \<Rightarrow> ForPubKey pubHex ir) of
             rec # recs \<Rightarrow> Some (OkReply (enrichNodeObserver s (importedNodeView rec)))
           | [] \<Rightarrow> Some (ErrorReply 404 ''unknown node''))))"

subsection \<open>Advert history\<close>

definition defaultAdvertsLimit :: int where "defaultAdvertsLimit = 50"

definition maxAdvertsLimit :: int where "maxAdvertsLimit = 500"

record advertPage =
  ap_node :: string
  ap_adverts :: "AdvertView list"
  ap_returned :: nat
  ap_hasMore :: bool
  ap_nextBefore :: "int option"

definition recentAdverts :: "string \<Rightarrow> int \<Rightarrow> NodeRegistry \<Rightarrow> advertPage reply" where
  "recentAdverts pubHex limit r = (case GetView pubHex r of None \<Rightarrow> ErrorReply 404 ''unknown node''
     | Some view \<Rightarrow> (let adverts = nv_LatestAdverts view;
           adverts = (if int (length adverts) > limit then take (nat limit) adverts else adverts)
         in OkReply \<lparr>ap_node = pubHex, ap_adverts = adverts, ap_returned = length adverts, ap_hasMore = False, ap_nextBefore = None\<rparr>))"

definition advertPageOf :: "string \<Rightarrow> int \<Rightarrow> int \<Rightarrow> DB \<Rightarrow> advertPage" where
  "advertPageOf pubHex limit before db = (case AdvertsForNode pubHex limit before db of (rows, nextBefore) \<Rightarrow>
     let hasMore = (int (length rows) = limit) in
     \<lparr>ap_node = pubHex, ap_adverts = advertViews rows, ap_returned = length (advertViews rows), ap_hasMore = hasMore,
      ap_nextBefore = (if hasMore then Some nextBefore else None)\<rparr>)"

definition handleNodeAdverts :: "bool \<Rightarrow> httpQuery \<Rightarrow> string \<Rightarrow> Server \<Rightarrow> advertPage reply option" where
  "handleNodeAdverts queries qv rawPub s = with_pubkey rawPub (\<lambda>node.
     let pubHex = hex_encode node;
         limit = limitParam defaultAdvertsLimit maxAdvertsLimit (q_get qv ''limit'');
         before = atoiDefault (q_get qv ''before'') 0
     in case sv_db s of None \<Rightarrow> map_option (recentAdverts pubHex limit) (sv_nodes s)
        | Some d \<Rightarrow> Some (if queries then OkReply (advertPageOf pubHex limit before (idb_core d)) else ErrorReply 500 ''query failed''))"

subsection \<open>Activity\<close>

definition defaultActivityDays :: int where "defaultActivityDays = 365"

definition maxActivityDays :: int where "maxActivityDays = 730"

record activityBody =
  ac_node :: string
  ac_days :: int
  ac_from :: int
  ac_to :: int
  ac_activity :: "DailyAdvertStat list"

definition query_or :: "bool \<Rightarrow> 'd option \<Rightarrow> ('d \<Rightarrow> 'a list) \<Rightarrow> ('a list \<Rightarrow> 'b reply) \<Rightarrow> 'b reply" where
  "query_or queries db f k = (case db of None \<Rightarrow> k []
     | Some d \<Rightarrow> if queries then k (f d) else ErrorReply 500 ''query failed'')"

definition handleNodeActivity :: "bool \<Rightarrow> unix_time \<Rightarrow> httpQuery \<Rightarrow> string \<Rightarrow> Server \<Rightarrow> activityBody reply option" where
  "handleNodeActivity queries now qv rawPub s = with_pubkey rawPub (\<lambda>node.
     let pubHex = hex_encode node;
         days = limitParam defaultActivityDays maxActivityDays (q_get qv ''days'');
         today = go_div now 86400 * 86400;
         since = today - (days - 1) * 86400
     in Some (query_or queries (sv_db s) (\<lambda>d. DailyAdvertStatsForNode pubHex since (idb_core d))
          (\<lambda>activity. OkReply \<lparr>ac_node = pubHex, ac_days = days, ac_from = since, ac_to = today, ac_activity = activity\<rparr>)))"

definition handleNodeNetworks :: "bool \<Rightarrow> string \<Rightarrow> Server \<Rightarrow> (string \<times> NetworkAdvertStat list) reply option" where
  "handleNodeNetworks queries rawPub s = with_pubkey rawPub (\<lambda>node. let pubHex = hex_encode node in
     Some (query_or queries (sv_db s) (\<lambda>d. NetworkAdvertStatsForNode pubHex (idb_core d)) (\<lambda>stats. OkReply (pubHex, stats))))"

definition handleNodeMapPublishes :: "bool \<Rightarrow> string \<Rightarrow> Server \<Rightarrow> (string \<times> ImportedSnapshot list) reply option" where
  "handleNodeMapPublishes queries rawPub s = with_pubkey rawPub (\<lambda>node. let pubHex = hex_encode node in
     Some (query_or queries (sv_db s) (ImportedNodeHistory pubHex) (\<lambda>publishes.
       OkReply (pubHex, if length publishes = 0
         then (case sv_imported s of None \<Rightarrow> publishes | Some ir \<Rightarrow> publishes @ map imported_snapshot (ForPubKey pubHex ir))
         else publishes))))"

subsection \<open>Observers and flags\<close>

definition handleObservers :: "Server \<Rightarrow> ObserverView list reply option" where
  "handleObservers s = map_option (\<lambda>r. OkReply (observers_Snapshot r)) (sv_observers s)"

record flaggedNodeView =
  fv_PubKey :: string
  fv_Name :: string
  fv_Type :: byte
  fv_TypeName :: string
  fv_Lat :: float64
  fv_Lon :: float64
  fv_Networks :: "string list"
  fv_Flags :: "string list"
  fv_LastAdvertAt :: unix_time

record flagsBody =
  fb_count :: nat
  fb_nodes :: "flaggedNodeView list"
  fb_thresholdKm :: "float64 option"
  fb_lastScanAt :: "unix_time option"

definition ThresholdKM :: "Flagger \<Rightarrow> float64" where
  "ThresholdKM f = fl_farKM f"

definition LastScan :: "Flagger \<Rightarrow> unix_time" where
  "LastScan f = fl_lastScan f"

definition flaggedNodeOf :: "NodeRecord \<Rightarrow> flaggedNodeView" where
  "flaggedNodeOf n = \<lparr>fv_PubKey = nod_PubKey n, fv_Name = nod_Name n, fv_Type = nod_NodeType n,
     fv_TypeName = nodeTypeName (nod_NodeType n), fv_Lat = nod_Lat n, fv_Lon = nod_Lon n, fv_Networks = nod_Networks n,
     fv_Flags = nod_Flags n, fv_LastAdvertAt = nod_LastAdvertAt n\<rparr>"

definition handleFlags :: "Server \<Rightarrow> flagsBody reply option" where
  "handleFlags s = map_option (\<lambda>r. let nodes = map flaggedNodeOf (FlaggedNodes r) in
     OkReply \<lparr>fb_count = length nodes, fb_nodes = nodes, fb_thresholdKm = map_option ThresholdKM (sv_flagger s),
       fb_lastScanAt = (case sv_flagger s of None \<Rightarrow> None
         | Some f \<Rightarrow> if LastScan f = 0 then None else Some (LastScan f))\<rparr>) (sv_nodes s)"

subsection \<open>A profile agrees with the directory\<close>

lemma find_ForPubKey:
  "find (\<lambda>n. im_PublicKey n = k) ir = (case ForPubKey k ir of [] \<Rightarrow> None | n # _ \<Rightarrow> Some n)"
  by (induction ir) (auto simp: ForPubKey_def)

lemma imports_Has_iff: "imports_Has k ir \<longleftrightarrow> k \<in> im_PublicKey ` set ir"
  by (induction ir) auto

lemma enrich_keeps [simp]:
  "nv_PubKey (enrichNodeObserver s v) = nv_PubKey v" "nv_Type (enrichNodeObserver s v) = nv_Type v"
  "nv_Name (enrichNodeObserver s v) = nv_Name v" "nv_LastAdvertAt (enrichNodeObserver s v) = nv_LastAdvertAt v"
  "nv_Source (enrichNodeObserver s v) = nv_Source v" "nv_OnMap (enrichNodeObserver s v) = nv_OnMap v"
  by (simp_all add: enrichNodeObserver_def split: option.split)

definition reports :: "Server \<Rightarrow> string \<Rightarrow> bool" where
  "reports s k = (case sv_observers s of None \<Rightarrow> False | Some obs \<Rightarrow> observers_Has k obs)"

lemma enrich_observer: "\<not> nv_IsObserver v \<Longrightarrow> nv_IsObserver (enrichNodeObserver s v) = reports s (nv_PubKey v)"
  by (auto simp: enrichNodeObserver_def reports_def observers_Lookup_def observers_Has_def Let_def split: option.splits)


subsection \<open>A client that follows the cursor gets the history\<close>

text \<open>The cursor in a request: the decimal digits of the \<open>nextBefore\<close> the last page carried.\<close>

fun decimal :: "nat \<Rightarrow> string" where
  "decimal n = (if n < 10 then [char_of (48 + n)] else decimal (n div 10) @ [char_of (48 + n mod 10)])"

declare decimal.simps [simp del]

lemma digit_val_char: "d < 10 \<Longrightarrow> digit_val (char_of (48 + d :: nat)) = Some (int d)"
  by (simp add: digit_val_def Let_def)

lemma digits_val_snoc:
  "digits_val acc (s @ [c]) = (case digits_val acc s of None \<Rightarrow> None
     | Some a \<Rightarrow> map_option (\<lambda>d. 10 * a + d) (digit_val c))"
  by (induction acc s rule: digits_val.induct) (auto split: option.split)

lemma digits_val_decimal: "digits_val 0 (decimal n) = Some (int n)"
proof (induction n rule: decimal.induct)
  case (1 n)
  show ?case
  proof (cases "n < 10")
    case True
    then show ?thesis by (simp add: decimal.simps [of n] digit_val_char)
  next
    case False
    then have "digits_val 0 (decimal (n div 10)) = Some (int (n div 10))" by (rule 1)
    then have "digits_val 0 (decimal n) = Some (10 * int (n div 10) + int (n mod 10))"
      using False by (simp add: decimal.simps [of n] digits_val_snoc digit_val_char)
    moreover have "10 * int (n div 10) + int (n mod 10) = int n" by presburger
    ultimately show ?thesis by simp
  qed
qed

lemma decimal_digits: "decimal n \<noteq> [] \<and> (\<forall>c\<in>set (decimal n). (of_char c :: nat) \<in> {48..57})"
proof (induction n rule: decimal.induct)
  case (1 n)
  then show ?case by (cases "n < 10") (auto simp: decimal.simps [of n])
qed

lemma atoiDefault_decimal: "int n < 2 ^ 63 \<Longrightarrow> atoiDefault (decimal n) d = int n"
proof -
  assume n: "int n < 2 ^ 63"
  have "trim_space (decimal n) = decimal n"
    using decimal_digits [of n] by (intro trim_space_no_space) (auto simp: is_space_def)
  moreover obtain c cs where "decimal n = c # cs" "(of_char c :: nat) \<in> {48..57}"
    using decimal_digits [of n] by (cases "decimal n") auto
  moreover from this have "c \<noteq> CHR ''-''" "c \<noteq> CHR ''+''" by auto
  ultimately show ?thesis using n digits_val_decimal [of n] by (simp add: atoiDefault_def atoi_def)
qed

definition page_query :: "string \<Rightarrow> string \<Rightarrow> httpQuery" where
  "page_query limit before = mput (mput mempty ''limit'' [limit]) ''before'' [before]"

text \<open>The client: one request per server state of the list, each with the cursor of the page before,
  until a page carries no cursor. \<open>None\<close> is a client that has not finished.\<close>

primrec client_walk :: "string \<Rightarrow> string \<Rightarrow> string \<Rightarrow> Server list \<Rightarrow> AdvertView list option" where
  "client_walk limit rawPub before [] = None"
| "client_walk limit rawPub before (s # ss) =
     (case handleNodeAdverts True (page_query limit before) rawPub s of
        Some (OkReply page) \<Rightarrow> (case ap_nextBefore page of None \<Rightarrow> Some (ap_adverts page)
          | Some nb \<Rightarrow> map_option ((@) (ap_adverts page)) (client_walk limit rawPub (decimal (nat nb)) ss))
      | _ \<Rightarrow> None)"

declare client_walk.simps(2) [simp del]

lemma limitParam_bounds: "0 < dflt \<Longrightarrow> dflt \<le> maximum \<Longrightarrow> 0 < limitParam dflt maximum v \<and> limitParam dflt maximum v \<le> maximum"
  by (auto simp: limitParam_def Let_def)

text \<open>One page below the \<open>k\<close>-th row of a node, newest first; \<open>sel\<close> are the rows of the node.\<close>

lemma advert_page:
  assumes ok: "ids_ok rows" and sel: "sel = filter (\<lambda>r. aw_pubkey r = pubkey) rows" "db_adverts db = rows"
    and cut: "(before = 0 \<and> k = length sel) \<or> (k < length sel \<and> before = aw_id (sel ! k))" and lim: "0 < limit"
  shows "k < nat limit \<Longrightarrow> \<exists>nb. AdvertsForNode pubkey limit before db = (map load_advert (rev (take k sel)), nb)"
    and "nat limit \<le> k \<Longrightarrow> \<exists>rs. AdvertsForNode pubkey limit before db = (map load_advert rs, aw_id (sel ! (k - nat limit)))
      \<and> length rs = nat limit \<and> rs @ rev (take (k - nat limit) sel) = rev (take k sel)"
proof -
  let ?L = "nat limit"
  have k: "k \<le> length sel" using cut by auto
  have page: "AdvertsForNode pubkey limit before db =
      (map load_advert (take ?L (rev (take k sel))), if take ?L (rev (take k sel)) = [] then 0 else aw_id (last (take ?L (rev (take k sel)))))"
    using page_rows [OF ok sel(1) cut] lim sel(2) by (simp add: AdvertsForNode_def newest_first_def Let_def)
  show "\<exists>nb. AdvertsForNode pubkey limit before db = (map load_advert (rev (take k sel)), nb)" if "k < ?L"
    using page that k by simp
  show "\<exists>rs. AdvertsForNode pubkey limit before db = (map load_advert rs, aw_id (sel ! (k - ?L)))
      \<and> length rs = ?L \<and> rs @ rev (take (k - ?L) sel) = rev (take k sel)" if le: "?L \<le> k"
  proof (intro exI conjI)
    have L: "0 < ?L" using lim by simp
    show len: "length (take ?L (rev (take k sel))) = ?L" using le k by simp
    have "last (take ?L (rev (take k sel))) = rev (take k sel) ! (?L - 1)"
      using le k L by (subst last_conv_nth) (auto simp: min_def)
    also have "\<dots> = sel ! (k - ?L)" using le k L by (simp add: rev_nth min_def)
    finally show "AdvertsForNode pubkey limit before db = (map load_advert (take ?L (rev (take k sel))), aw_id (sel ! (k - ?L)))"
      using page len L by auto
    have "rev (take (k - ?L) sel) = drop ?L (rev (take k sel))" using k le by (simp add: drop_rev min_def)
    then show "take ?L (rev (take k sel)) @ rev (take (k - ?L) sel) = rev (take k sel)" by (simp only: append_take_drop_id)
  qed
qed

lemma advert_page_old:
  assumes ok: "ids_ok (rows @ new)" and sel: "sel = filter (\<lambda>r. aw_pubkey r = pubkey) rows" "db_adverts db = rows @ new"
    and cut: "k < length sel" "before = aw_id (sel ! k)" and lim: "0 < limit"
  shows "k < nat limit \<Longrightarrow> \<exists>nb. AdvertsForNode pubkey limit before db = (map load_advert (rev (take k sel)), nb)"
    and "nat limit \<le> k \<Longrightarrow> \<exists>rs. AdvertsForNode pubkey limit before db = (map load_advert rs, aw_id (sel ! (k - nat limit)))
      \<and> length rs = nat limit \<and> rs @ rev (take (k - nat limit) sel) = rev (take k sel)"
proof -
  let ?all = "sel @ filter (\<lambda>r. aw_pubkey r = pubkey) new"
  have all: "?all = filter (\<lambda>r. aw_pubkey r = pubkey) (rows @ new)" by (simp add: sel)
  have "(before = 0 \<and> k = length ?all) \<or> (k < length ?all \<and> before = aw_id (?all ! k))" using cut by (simp add: nth_append)
  note page = advert_page [OF ok all sel(2) this lim]
  show "k < nat limit \<Longrightarrow> \<exists>nb. AdvertsForNode pubkey limit before db = (map load_advert (rev (take k sel)), nb)"
    using page(1) cut(1) by simp
  have "k - nat limit < length sel" using cut(1) by simp
  then show "nat limit \<le> k \<Longrightarrow> \<exists>rs. AdvertsForNode pubkey limit before db = (map load_advert rs, aw_id (sel ! (k - nat limit)))
      \<and> length rs = nat limit \<and> rs @ rev (take (k - nat limit) sel) = rev (take k sel)"
    using page(2) cut(1) by (simp add: nth_append)
qed

lemma answered_page:
  assumes "normalizePub rawPub = Some node" "sv_db s = Some d" "atoiDefault before 0 = c"
    and "AdvertsForNode (hex_encode node) (limitParam defaultAdvertsLimit maxAdvertsLimit limit) c (idb_core d) = (rows, nb)"
  shows "client_walk limit rawPub before (s # ss) =
    (if int (length rows) = limitParam defaultAdvertsLimit maxAdvertsLimit limit
     then map_option ((@) (advertViews rows)) (client_walk limit rawPub (decimal (nat nb)) ss) else Some (advertViews rows))"
  using assms by (simp add: client_walk.simps(2) handleNodeAdverts_def with_pubkey_def page_query_def q_get_def q_all_def mget_mput advertPageOf_def Let_def)

text \<open>The servers a client meets later: their table holds the rows of the first one, and newer ones.\<close>

definition later_servers :: "advertRow list \<Rightarrow> Server list \<Rightarrow> bool" where
  "later_servers rows ss \<longleftrightarrow> (\<forall>s\<in>set ss. \<exists>d new. sv_db s = Some d \<and> db_adverts (idb_core d) = rows @ new \<and> ids_ok (rows @ new))"

lemma client_walk_from:
  assumes pub: "normalizePub rawPub = Some node" and sel: "sel = filter (\<lambda>r. aw_pubkey r = hex_encode node) rows"
    and small: "\<forall>r\<in>set rows. 0 < aw_id r \<and> aw_id r < 2 ^ 63" and L: "L = limitParam defaultAdvertsLimit maxAdvertsLimit limit"
  shows "later_servers rows ss \<Longrightarrow> k < length sel \<Longrightarrow> k div nat L < length ss \<Longrightarrow>
    client_walk limit rawPub (decimal (nat (aw_id (sel ! k)))) ss = Some (advertViews (map load_advert (rev (take k sel))))"
proof (induction ss arbitrary: k)
  case (Cons s ss)
  obtain d new where d: "sv_db s = Some d" "db_adverts (idb_core d) = rows @ new" "ids_ok (rows @ new)"
    using Cons.prems(1) by (auto simp: later_servers_def)
  have lim: "0 < L" using limitParam_bounds [of 50 500 limit] by (simp add: L defaultAdvertsLimit_def maxAdvertsLimit_def)
  have "sel ! k \<in> set rows" using Cons.prems(2) nth_mem [of k sel] by (auto simp: sel)
  then have cur: "atoiDefault (decimal (nat (aw_id (sel ! k)))) 0 = aw_id (sel ! k)"
    using small by (simp add: atoiDefault_decimal less_imp_le)
  note page = advert_page_old [OF d(3) sel d(2) Cons.prems(2) refl lim]
  note answer = answered_page [OF pub d(1) cur, where limit = limit, folded L]
  show ?case
  proof (cases "k < nat L")
    case True
    then obtain nb where "AdvertsForNode (hex_encode node) L (aw_id (sel ! k)) (idb_core d) = (map load_advert (rev (take k sel)), nb)"
      using page(1) by blast
    moreover have "\<not> int (length (map load_advert (rev (take k sel)))) = L" using True Cons.prems(2) by (simp add: min_def)
    ultimately show ?thesis using answer by simp
  next
    case False
    then obtain rs where rs: "AdvertsForNode (hex_encode node) L (aw_id (sel ! k)) (idb_core d) = (map load_advert rs, aw_id (sel ! (k - nat L)))"
      "length rs = nat L" "rs @ rev (take (k - nat L) sel) = rev (take k sel)" using page(2) by force
    have "(k - nat L) div nat L < length ss" using False Cons.prems(3) lim by (simp add: le_div_geq)
    then have "client_walk limit rawPub (decimal (nat (aw_id (sel ! (k - nat L))))) ss =
        Some (advertViews (map load_advert (rev (take (k - nat L) sel))))"
      using Cons.prems(1,2) by (intro Cons.IH) (auto simp: later_servers_def)
    then show ?thesis using answer [OF rs(1)] rs(2) lim by (simp add: advertViews_def flip: rs(3))
  qed
qed simp

lemma ids_small:
  "ids_ok (db_adverts db) \<Longrightarrow> \<forall>r\<in>set (db_adverts db). aw_id r \<le> int (length (db_adverts db)) \<Longrightarrow>
    exec_all insert_advert as db = Some db' \<Longrightarrow> \<forall>r\<in>set (db_adverts db'). aw_id r \<le> int (length (db_adverts db'))"
proof (induction as arbitrary: db)
  case (Cons a as)
  obtain db1 r where r: "insert_advert a db = Some db1" "db_adverts db1 = db_adverts db @ [r]"
    "aw_id r = nextAdvertId (db_adverts db)" by (auto simp: insert_advert_def)
  have "aw_id r \<le> int (length (db_adverts db)) + 1" using Cons.prems(2) r(3) by (auto simp: nextAdvertId_def)
  then show ?case using Cons.IH [of db1] ids_ok_snoc [OF Cons.prems(1), of r] Cons.prems r by force
qed simp

lemma append_batches_small:
  "ids_ok (db_adverts db) \<Longrightarrow> \<forall>r\<in>set (db_adverts db). aw_id r \<le> int (length (db_adverts db)) \<Longrightarrow>
    \<forall>r\<in>set (db_adverts (append_batches bs db)). aw_id r \<le> int (length (db_adverts (append_batches bs db)))"
proof (induction bs arbitrary: db)
  case (Cons b bs)
  obtain c as where b: "b = (c, as)" by fastforce
  have "\<forall>r\<in>set (db_adverts (snd (AppendAdverts c as db))). aw_id r \<le> int (length (db_adverts (snd (AppendAdverts c as db))))"
    using ids_small [OF Cons.prems] Cons.prems(2)
    by (auto simp: AppendAdverts_def transaction_def split: option.split)
  then show ?case using Cons.IH [OF AppendAdverts_effect(1) [OF Cons.prems(1), of c as]] b by (simp add: append_batches_def)
qed (simp add: append_batches_def)

lemma append_batches_extends: "\<exists>new. db_adverts (append_batches bs db) = db_adverts db @ new"
proof (induction bs arbitrary: db)
  case (Cons b bs)
  have ins: "exec_all insert_advert as db = Some db' \<Longrightarrow> \<exists>new. db_adverts db' = db_adverts db @ new" for as db db'
    by (induction as arbitrary: db) (force simp: insert_advert_def)+
  obtain c as where b: "b = (c, as)" by fastforce
  have "\<exists>new. db_adverts (snd (AppendAdverts c as db)) = db_adverts db @ new"
    using ins [of as db] by (auto simp: AppendAdverts_def transaction_def split: option.split)
  then show ?case using Cons.IH [of "snd (AppendAdverts c as db)"] b by (auto simp: append_batches_def)
qed (simp add: append_batches_def)

text \<open>C16: a client that follows the cursor through the API gets the whole advert history of a node: whatever
  page size it asks for, after at most one request more than there are full pages it has received
  exactly the adverts committed when it started, each once, newest first, even when the collectors
  append more adverts between its requests.\<close>

theorem history_client_finishes:
  assumes pub: "normalizePub rawPub = Some node"
    and first: "sv_db s = Some d" "idb_core d = append_batches bs emptyDB" "length (committed bs) < 2 ^ 63"
    and later: "\<forall>s'\<in>set ss. \<exists>d' bs'. sv_db s' = Some d' \<and> idb_core d' = append_batches bs' (append_batches bs emptyDB)"
    and enough: "length (filter (\<lambda>a. ao_PubKey a = hex_encode node) (committed bs))
      div nat (limitParam defaultAdvertsLimit maxAdvertsLimit limit) \<le> length ss"
  shows "client_walk limit rawPub '''' (s # ss) =
    Some (advertViews (rev (filter (\<lambda>a. ao_PubKey a = hex_encode node) (committed bs))))"
proof -
  let ?db = "append_batches bs emptyDB" and ?L = "limitParam defaultAdvertsLimit maxAdvertsLimit limit"
  let ?sel = "filter (\<lambda>r. aw_pubkey r = hex_encode node) (db_adverts ?db)"
  have e: "ids_ok (db_adverts emptyDB)" by (simp add: emptyDB_def ids_ok_def)
  note eff = append_batches_effect [OF e, of bs]
  have rows: "map load_advert (db_adverts ?db) = committed bs" using eff by (simp add: emptyDB_def)
  then have sel: "map load_advert ?sel = filter (\<lambda>a. ao_PubKey a = hex_encode node) (committed bs)"
    by (simp add: filter_map comp_def load_advert_def flip: rows)
  have len: "length (db_adverts ?db) = length (committed bs)" using rows by (metis length_map)
  have "\<forall>r\<in>set (db_adverts ?db). aw_id r \<le> int (length (db_adverts ?db))"
    using append_batches_small [OF e, of bs] by (simp add: emptyDB_def)
  then have small: "\<forall>r\<in>set (db_adverts ?db). 0 < aw_id r \<and> aw_id r < 2 ^ 63"
    using eff len first(3) unfolding ids_ok_def by fastforce
  have ls: "later_servers (db_adverts ?db) ss"
    unfolding later_servers_def
    using later append_batches_extends [of _ ?db] append_batches_effect [OF conjunct1 [OF eff]] by metis
  have lim: "0 < ?L" using limitParam_bounds [of 50 500 limit] by (simp add: defaultAdvertsLimit_def maxAdvertsLimit_def)
  have "atoiDefault '''' 0 = 0" by (simp add: atoiDefault_def atoi_def trim_space_def trim_right_def)
  note answer = answered_page [OF pub first(1) this]
  note page = advert_page [OF conjunct1 [OF eff] refl refl, of 0 "length ?sel" "hex_encode node" ?L]
  show ?thesis
  proof (cases "length ?sel < nat ?L")
    case True
    then obtain nb where "AdvertsForNode (hex_encode node) ?L 0 ?db = (map load_advert (rev ?sel), nb)"
      using page(1) lim by auto
    moreover have "\<not> int (length (map load_advert (rev ?sel))) = ?L" using True by simp
    ultimately show ?thesis using answer [of limit "map load_advert (rev ?sel)" nb ss] first(2)
      by (simp only: if_False rev_map [symmetric] sel)
  next
    case False
    then obtain rs where rs: "AdvertsForNode (hex_encode node) ?L 0 ?db = (map load_advert rs, aw_id (?sel ! (length ?sel - nat ?L)))"
      "length rs = nat ?L" "rs @ rev (take (length ?sel - nat ?L) ?sel) = rev ?sel" using page(2) lim by force
    have "length ?sel div nat ?L \<le> length ss" using enough by (metis sel length_map)
    then have "(length ?sel - nat ?L) div nat ?L < length ss" using False lim by (simp add: le_div_geq)
    then have "client_walk limit rawPub (decimal (nat (aw_id (?sel ! (length ?sel - nat ?L))))) ss =
        Some (advertViews (map load_advert (rev (take (length ?sel - nat ?L) ?sel))))"
      using False lim by (intro client_walk_from [OF pub refl small refl ls]) auto
    moreover have "int (length (map load_advert rs)) = ?L" using rs(2) lim by simp
    ultimately have "client_walk limit rawPub '''' (s # ss) = Some (advertViews (map load_advert (rs @ rev (take (length ?sel - nat ?L) ?sel))))"
      using answer [of limit "map load_advert rs" _ ss] rs(1) first(2) by (simp add: advertViews_def)
    then show ?thesis by (simp only: rs(3) rev_map [symmetric] sel)
  qed
qed

subsection \<open>Daily activity\<close>

definition day_of :: "int \<Rightarrow> int" where
  "day_of t = t div 86400 * 86400"

lemma day_of_iff: "day_of t = d \<longleftrightarrow> 86400 dvd d \<and> d \<le> t \<and> t < d + 86400"
proof
  assume "86400 dvd d \<and> d \<le> t \<and> t < d + 86400"
  then obtain q where q: "d = 86400 * q" "86400 * q \<le> t" "t < 86400 * q + 86400" by auto
  then have "t div 86400 = q" by (intro int_div_pos_eq [where r = "t - 86400 * q"]) auto
  then show "day_of t = d" using q(1) by (simp add: day_of_def)
next
  have "day_of t = t - t mod 86400" "0 \<le> t mod 86400" "t mod 86400 < 86400"
    by (simp_all add: day_of_def minus_mod_eq_div_mult)
  then show "day_of t = d \<Longrightarrow> 86400 dvd d \<and> d \<le> t \<and> t < d + 86400" by (auto simp: day_of_def)
qed

lemma day_of_mono: "86400 dvd d \<Longrightarrow> d \<le> t \<Longrightarrow> d \<le> day_of t"
proof -
  assume "86400 dvd d" "d \<le> t"
  then have "d div 86400 * 86400 = d" "d div 86400 \<le> t div 86400" by (simp_all add: zdiv_mono1)
  then show ?thesis unfolding day_of_def by linarith
qed

lemma activity_rows:
  assumes "\<forall>r\<in>set (db_adverts db). 0 \<le> aw_received_at r" and "86400 dvd since"
    and "rows = DailyAdvertStatsForNode k since db" and "mine = filter (\<lambda>r. aw_pubkey r = k) (db_adverts db)"
  shows "sorted_wrt (<) (map das_Day rows)"
    and "das_Day ` set rows = {day_of (aw_received_at r) | r. r \<in> set mine \<and> since \<le> aw_received_at r}"
    and "x \<in> set rows \<Longrightarrow> das_Adverts x = int (length (filter (\<lambda>r. day_of (aw_received_at r) = das_Day x) mine))"
proof -
  let ?sel = "filter (\<lambda>r. aw_pubkey r = k \<and> aw_received_at r \<ge> since) (db_adverts db)"
  let ?rows = "map (\<lambda>(day, rs). \<lparr>das_Day = day, das_Adverts = int (length rs)\<rparr>) (group_by (\<lambda>r. day_of (aw_received_at r)) ?sel)"
  have day: "map (\<lambda>r. go_div (aw_received_at r) 86400 * 86400) ?sel = map (\<lambda>r. day_of (aw_received_at r)) ?sel"
    and fil: "filter (\<lambda>r. go_div (aw_received_at r) 86400 * 86400 = d) ?sel = filter (\<lambda>r. day_of (aw_received_at r) = d) ?sel" for d
    using assms(1) by (auto simp: day_of_def go_div_nonneg intro!: filter_cong)
  have rows: "rows = sort_by (by_key das_Day) ?rows"
    unfolding assms(3) DailyAdvertStatsForNode_def group_by_def day fil ..
  have days: "map das_Day ?rows = remdups (map (\<lambda>r. day_of (aw_received_at r)) ?sel)" by (simp add: group_by_def comp_def)
  have sets: "set rows = set ?rows" by (simp add: rows)
  show "das_Day ` set rows = {day_of (aw_received_at r) | r. r \<in> set mine \<and> since \<le> aw_received_at r}"
  proof -
    have "das_Day ` set rows = set (map das_Day ?rows)" by (simp only: sets set_map)
    then show ?thesis unfolding days assms(4) by auto
  qed
  have "mset (map das_Day rows) = mset (map das_Day ?rows)" by (simp only: rows mset_map mset_sort_by)
  then have "distinct (map das_Day rows)" unfolding days by (metis distinct_remdups mset_eq_imp_distinct_iff)
  moreover have "sorted (map das_Day rows)"
    using by_key.sorted_sort_by [of das_Day ?rows] by (simp add: rows by_key_def sorted_map not_less)
  ultimately show "sorted_wrt (<) (map das_Day rows)" by (simp add: strict_sorted_iff)
  assume "x \<in> set rows"
  then obtain d where x: "x = \<lparr>das_Day = d, das_Adverts = int (length (filter (\<lambda>r. day_of (aw_received_at r) = d) ?sel))\<rparr>"
      "d \<in> (\<lambda>r. day_of (aw_received_at r)) ` set ?sel"
    unfolding sets by (auto simp: group_by_def)
  then have "since \<le> d" using day_of_mono [OF assms(2)] by auto
  then have "since \<le> aw_received_at r" if "day_of (aw_received_at r) = d" for r
    using that by (auto simp: day_of_iff)
  then have "filter (\<lambda>r. day_of (aw_received_at r) = d) ?sel = filter (\<lambda>r. day_of (aw_received_at r) = d) mine"
    unfolding assms(4) filter_filter by (intro filter_cong) auto
  then show "das_Adverts x = int (length (filter (\<lambda>r. day_of (aw_received_at r) = das_Day x) mine))" by (simp add: x(1))
qed

text \<open>The activity answer covers the last 1 to 730 days, today included: it lists in ascending order exactly
  the days of the window on which the node was heard, and with each day the number of all the node's
  adverts of that day.\<close>

theorem activity_counts_days:
  assumes "normalizePub rawPub = Some node" "sv_db s = Some d" "0 \<le> now"
    and "\<forall>r\<in>set (db_adverts (idb_core d)). 0 \<le> aw_received_at r"
  shows "\<exists>body. handleNodeActivity True now qv rawPub s = Some (OkReply body)
    \<and> 1 \<le> ac_days body \<and> ac_days body \<le> 730 \<and> ac_to body = day_of now
    \<and> ac_from body = day_of now - (ac_days body - 1) * 86400
    \<and> sorted_wrt (<) (map das_Day (ac_activity body))
    \<and> das_Day ` set (ac_activity body) = {day_of (aw_received_at r) | r.
         r \<in> set (db_adverts (idb_core d)) \<and> aw_pubkey r = hex_encode node \<and> ac_from body \<le> aw_received_at r}
    \<and> (\<forall>x\<in>set (ac_activity body). das_Adverts x = int (length (filter
         (\<lambda>r. aw_pubkey r = hex_encode node \<and> day_of (aw_received_at r) = das_Day x) (db_adverts (idb_core d)))))"
proof -
  let ?days = "limitParam defaultActivityDays maxActivityDays (q_get qv ''days'')"
  let ?since = "day_of now - (?days - 1) * 86400"
  have "0 < ?days \<and> ?days \<le> 730"
    using limitParam_bounds [of defaultActivityDays maxActivityDays] by (simp add: defaultActivityDays_def maxActivityDays_def)
  moreover have "86400 dvd ?since" by (simp add: day_of_def)
  note rows = activity_rows [OF assms(4) this refl refl, where k = "hex_encode node"]
  have "handleNodeActivity True now qv rawPub s = Some (OkReply \<lparr>ac_node = hex_encode node, ac_days = ?days, ac_from = ?since,
      ac_to = day_of now, ac_activity = DailyAdvertStatsForNode (hex_encode node) ?since (idb_core d)\<rparr>)"
    using assms(1-3) by (simp add: handleNodeActivity_def with_pubkey_def query_or_def Let_def day_of_def go_div_nonneg)
  ultimately show ?thesis using rows
    by (intro exI [of _ "\<lparr>ac_node = hex_encode node, ac_days = ?days, ac_from = ?since, ac_to = day_of now,
      ac_activity = DailyAdvertStatsForNode (hex_encode node) ?since (idb_core d)\<rparr>"] conjI)
      (auto simp: conj_commute)
qed

subsection \<open>Lists\<close>

text \<open>The overview of all nodes leaves source and mirror presence unset; the flag list is ordered by key.\<close>

lemma overview_never_on_map:
  "handleNodes s = Some (OkReply vs) \<Longrightarrow> v \<in> set vs \<Longrightarrow> \<not> nv_OnMap v \<and> nv_Source v = ''''"
  by (auto simp: handleNodes_def nodes_Snapshot_def nodeView_def)

lemma flags_ordered_by_key:
  assumes "handleFlags s = Some (OkReply b)"
  shows "sorted (map fv_PubKey (fb_nodes b))"
proof -
  obtain r where b: "fb_nodes b = map flaggedNodeOf (FlaggedNodes r)" using assms by (auto simp: handleFlags_def Let_def)
  have "sorted (map nod_PubKey (FlaggedNodes r))"
    unfolding FlaggedNodes_def using by_key.sorted_sort_by by (simp add: by_key_def sorted_map not_less)
  then show ?thesis by (simp add: b comp_def flaggedNodeOf_def)
qed

subsection \<open>Examples\<close>

definition ex_history :: "(bool \<times> AdvertObservation list) list" where
  "ex_history = [(True, [ex_advert (ex_pub 170) ''1'']), (True, [ex_advert (ex_pub 170) ''2''])]"

definition ex_history_server :: Server where
  "ex_history_server = ex_server\<lparr>sv_db := Some (emptyImportDB\<lparr>idb_core := append_batches ex_history emptyDB\<rparr>)\<rparr>"

lemma ex_history_committed: "filter (\<lambda>a. ao_PubKey a = hex_encode (ex_node 170)) (committed ex_history) = committed ex_history"
    "length (committed ex_history) = 2" "map ao_Hash (committed ex_history) = [''1'', ''2'']"
  by (simp_all add: ex_history_def committed_def ex_advert_def ex_pub_def)

lemma ex_limit: "limitParam defaultAdvertsLimit maxAdvertsLimit ''1'' = 1"
  by (simp add: limitParam_def defaultAdvertsLimit_def maxAdvertsLimit_def atoiDefault_def atoi_def digit_val_def
      trim_space_def trim_right_def is_space_def)

lemma history_client_finishes_witness:
  "map_option (map av_Hash) (client_walk ''1'' (ex_pub 170) '''' [ex_history_server, ex_history_server, ex_history_server]) = Some [''2'', ''1'']"
proof -
  have "append_batches [] db = db" for db by (simp add: append_batches_def)
  then have "\<forall>s'\<in>set [ex_history_server, ex_history_server]. \<exists>d' bs'. sv_db s' = Some d' \<and>
      idb_core d' = append_batches bs' (append_batches ex_history emptyDB)"
    by (auto simp: ex_history_server_def) metis+
  then have "client_walk ''1'' (ex_pub 170) '''' (ex_history_server # [ex_history_server, ex_history_server])
      = Some (advertViews (rev (filter (\<lambda>a. ao_PubKey a = hex_encode (ex_node 170)) (committed ex_history))))"
    by (intro history_client_finishes [OF normalizePub_ex, where d = "emptyImportDB\<lparr>idb_core := append_batches ex_history emptyDB\<rparr>"])
      (simp_all add: ex_history_server_def ex_history_committed ex_limit)
  then show ?thesis
    using ex_history_committed(1,3) by (simp add: advertViews_def advertView_def comp_def) (simp flip: rev_map)
qed


lemma activity_counts_days_witness:
  "\<exists>body. handleNodeActivity True 100000 mempty (ex_pub 170) ex_history_server = Some (OkReply body) \<and> ac_days body \<le> 730 \<and> ac_to body = 86400"
proof -
  have "\<forall>r\<in>set (db_adverts (append_batches ex_history emptyDB)). 0 \<le> aw_received_at r"
    by (simp add: ex_history_def append_batches_def AppendAdverts_def transaction_def insert_advert_def ex_advert_def emptyDB_def)
  then show ?thesis
    using activity_counts_days [OF normalizePub_ex [of 170], where s = ex_history_server and now = 100000 and qv = mempty]
    by (simp add: ex_history_server_def day_of_def) blast
qed

end
