(* ===== verification/ServerLinks.thy ===== *)
theory ServerLinks
  imports ServerNodes Route
begin

text \<open>
  The link endpoints of server.go: the observed links of one node with the neighbours' metadata, and
  the route between two nodes. The links answer is shown to hold the most active of exactly the links
  the filters let through; the route answer to be drawable: one more node than hops, from source to
  destination.
\<close>

subsection \<open>Neighbours\<close>

definition defaultLinksLimit :: int where "defaultLinksLimit = 50"

definition maxLinksLimit :: int where "maxLinksLimit = 200"

record linkNeighborView =
  lnv_PubKey :: string
  lnv_Name :: string
  lnv_Type :: byte
  lnv_TypeName :: string
  lnv_HasGPS :: bool
  lnv_Lat :: float64
  lnv_Lon :: float64

definition neighborView :: "NodeRegistry \<Rightarrow> string \<Rightarrow> ImportedNode list \<Rightarrow> linkNeighborView" where
  "neighborView r pubkey imported = (case nodes_Lookup pubkey r of
      Some n \<Rightarrow> \<lparr>lnv_PubKey = nod_PubKey n, lnv_Name = nod_Name n, lnv_Type = nod_NodeType n, lnv_TypeName = nodeTypeName (nod_NodeType n),
        lnv_HasGPS = nod_HasGPS n, lnv_Lat = nod_Lat n, lnv_Lon = nod_Lon n\<rparr>
    | None \<Rightarrow> (case find (\<lambda>n. im_PublicKey n = pubkey) imported of
        Some n \<Rightarrow> \<lparr>lnv_PubKey = pubkey, lnv_Name = im_AdvName n, lnv_Type = im_byte n, lnv_TypeName = nodeTypeName (im_byte n),
          lnv_HasGPS = hasCoords n, lnv_Lat = (if hasCoords n then im_AdvLat n else 0), lnv_Lon = (if hasCoords n then im_AdvLon n else 0)\<rparr>
      | None \<Rightarrow> \<lparr>lnv_PubKey = pubkey, lnv_Name = '''', lnv_Type = 0, lnv_TypeName = nodeTypeName 0, lnv_HasGPS = False, lnv_Lat = 0, lnv_Lon = 0\<rparr>))"

definition roundFloatSlice :: "float64 list \<Rightarrow> float64 list" where
  "roundFloatSlice vals = map round2 vals"

subsection \<open>The links of a node\<close>

record linkNetworkDetailView =
  ldv_NetworkID :: string
  ldv_PacketCount :: u64
  ldv_SentByNode :: u64
  ldv_RecvByNode :: u64
  ldv_LastHashSentByNode :: string
  ldv_LastHashRecvByNode :: string
  ldv_FirstSeen :: unix_time
  ldv_LastSeen :: unix_time
  ldv_Quality :: string
  ldv_LowConfidence :: bool
  ldv_LowConfidenceCount :: u64

record linkGeometryView =
  lg_NodeLat :: float64
  lg_NodeLon :: float64
  lg_NeighborLat :: float64
  lg_NeighborLon :: float64
  lg_Moved :: bool
  lg_Segments :: nat

record linkView_json =
  lv_Neighbor :: linkNeighborView
  lv_PacketCount :: u64
  lv_RecentActivity :: float64
  lv_FirstSeen :: unix_time
  lv_LastSeen :: unix_time
  lv_Networks :: "string list"
  lv_NetworkDetails :: "linkNetworkDetailView list"
  lv_Quality :: string
  lv_LowConfidence :: bool
  lv_LowConfidenceCount :: u64
  lv_SentByNode :: u64
  lv_RecvByNode :: u64
  lv_LastHashSentByNode :: string
  lv_LastHashRecvByNode :: string
  lv_LastSNRSentByNode :: "float64 option"
  lv_LastSNRRecvByNode :: "float64 option"
  lv_SNRSentByNode :: "float64 list"
  lv_SNRRecvByNode :: "float64 list"
  lv_Sources :: "(string, u64) gomap"
  lv_Geometry :: "linkGeometryView option"

definition linkNetworkDetailViews :: "LinkNetworkDetail list \<Rightarrow> linkNetworkDetailView list" where
  "linkNetworkDetailViews ds = map (\<lambda>n.
     \<lparr>ldv_NetworkID = nd_NetworkID n, ldv_PacketCount = nd_PacketCount n, ldv_SentByNode = nd_SentByNode n,
      ldv_RecvByNode = nd_RecvByNode n, ldv_LastHashSentByNode = nd_LastHashSentByNode n,
      ldv_LastHashRecvByNode = nd_LastHashRecvByNode n, ldv_FirstSeen = nd_FirstSeen n, ldv_LastSeen = nd_LastSeen n,
      ldv_Quality = nd_Quality n, ldv_LowConfidence = nd_LowConfidence n, ldv_LowConfidenceCount = nd_LowConfidenceCount n\<rparr>) ds"

definition linkBody :: "NodeRegistry \<Rightarrow> ImportedNode list \<Rightarrow> LinkNeighbor \<Rightarrow> linkView_json" where
  "linkBody r imported l =
     \<lparr>lv_Neighbor = neighborView r (ln_Neighbor l) imported, lv_PacketCount = ln_PacketCount l,
      lv_RecentActivity = round2 (ln_RecentActivity l), lv_FirstSeen = ln_FirstSeen l, lv_LastSeen = ln_LastSeen l,
      lv_Networks = ln_Networks l, lv_NetworkDetails = linkNetworkDetailViews (ln_NetworkDetails l), lv_Quality = ln_Quality l,
      lv_LowConfidence = ln_LowConfidence l, lv_LowConfidenceCount = ln_LowConfidenceCount l,
      lv_SentByNode = ln_SentByNode l, lv_RecvByNode = ln_RecvByNode l,
      lv_LastHashSentByNode = ln_LastHashSentByNode l, lv_LastHashRecvByNode = ln_LastHashRecvByNode l,
      lv_LastSNRSentByNode = (if ln_HasSNRSentByNode l then Some (round2 (ln_LastSNRSentByNode l)) else None),
      lv_LastSNRRecvByNode = (if ln_HasSNRRecvByNode l then Some (round2 (ln_LastSNRRecvByNode l)) else None),
      lv_SNRSentByNode = (if ln_HasSNRSentByNode l then roundFloatSlice (ln_SNRSentByNode l) else []),
      lv_SNRRecvByNode = (if ln_HasSNRRecvByNode l then roundFloatSlice (ln_SNRRecvByNode l) else []),
      lv_Sources = ln_Sources l,
      lv_Geometry = (if ln_HasPos l then Some \<lparr>lg_NodeLat = ln_NodeLat l, lg_NodeLon = ln_NodeLon l,
         lg_NeighborLat = ln_NeighborLat l, lg_NeighborLon = ln_NeighborLon l, lg_Moved = ln_Moved l,
         lg_Segments = ln_SegmentCount l\<rparr> else None)\<rparr>"

text \<open>The loop over the links: the network filter narrows a link or drops it, then the activity filter.\<close>

definition filterLink :: "(string, bool) gomap \<Rightarrow> unix_time \<Rightarrow> LinkNeighbor \<Rightarrow> LinkNeighbor option" where
  "filterLink netFilter since l = do {
     l \<leftarrow> (if mlen netFilter > 0 then withNetworkFilter netFilter l else Some l);
     if since > 0 \<and> ln_LastSeen l < since then None else Some l }"

definition activeSince :: "unix_time \<Rightarrow> httpQuery \<Rightarrow> unix_time" where
  "activeSince now qv = (case parseActive (q_get qv ''active'') of Some d \<Rightarrow> now - d | None \<Rightarrow> 0)"

record linksBody =
  lb_node :: string
  lb_links :: "linkView_json list"
  lb_returned :: nat
  lb_total :: nat
  lb_capped :: bool

definition recordsOf :: "Server \<Rightarrow> ImportedNode list" where
  "recordsOf s = (case sv_imported s of None \<Rightarrow> [] | Some ir \<Rightarrow> ir)"

text \<open>Looking up a neighbour in a nil registry panics, so no answer with a link is given without one.\<close>

definition handleNodeLinks :: "unix_time \<Rightarrow> httpQuery \<Rightarrow> string \<Rightarrow> Server \<Rightarrow> linksBody reply option" where
  "handleNodeLinks now qv rawPub s = with_pubkey rawPub (\<lambda>node.
     let limit = limitParam defaultLinksLimit maxLinksLimit (q_get qv ''limit'');
         netFilter = parseStringSet (q_get qv ''networks'');
         filtered = sortNeighborsByActivity (List.map_filter (filterLink netFilter (activeSince now qv)) (LinksForNode (sv_links s) node now));
         shown = (if int (length filtered) > limit then take (nat limit) filtered else filtered)
     in do { views \<leftarrow> (case sv_nodes s of Some r \<Rightarrow> Some (map (linkBody r (recordsOf s)) shown)
                | None \<Rightarrow> if shown = [] then Some [] else None);
             Some (OkReply \<lparr>lb_node = hex_encode node, lb_links = views, lb_returned = length views,
               lb_total = length filtered, lb_capped = (int (length filtered) > limit)\<rparr>) })"

subsection \<open>Routes\<close>

record routeHopView =
  rv_PacketCount :: u64
  rv_RecentActivity :: float64
  rv_FirstSeen :: unix_time
  rv_LastSeen :: unix_time
  rv_Networks :: "string list"

record routeBody =
  rb_from :: string
  rb_to :: string
  rb_found :: bool
  rb_nodes :: "linkNeighborView list"
  rb_hops :: "routeHopView list"

definition routeHopOf :: "RouteHop \<Rightarrow> routeHopView" where
  "routeHopOf h = \<lparr>rv_PacketCount = h_PacketCount h, rv_RecentActivity = round2 (h_RecentActivity h),
     rv_FirstSeen = h_FirstSeen h, rv_LastSeen = h_LastSeen h, rv_Networks = h_Networks h\<rparr>"

definition handleRoute :: "unix_time \<Rightarrow> httpQuery \<Rightarrow> Server \<Rightarrow> routeBody reply option \<times> Server" where
  "handleRoute now qv s = (case (normalizePub (q_get qv ''from''), normalizePub (q_get qv ''to'')) of
     (Some src, Some dst) \<Rightarrow>
       (case RouteBetween src dst now (activeSince now qv) (parseStringSet (q_get qv ''networks'')) (sv_links s) of (res, links) \<Rightarrow>
         (do { res \<leftarrow> res;
               nodes \<leftarrow> (case sv_nodes s of Some r \<Rightarrow> Some (map (\<lambda>pk. neighborView r pk (recordsOf s)) (rr_Nodes res))
                  | None \<Rightarrow> if rr_Nodes res = [] then Some [] else None);
               Some (OkReply \<lparr>rb_from = hex_encode src, rb_to = hex_encode dst, rb_found = rr_Found res, rb_nodes = nodes,
                 rb_hops = map routeHopOf (rr_Hops res)\<rparr>) }, s\<lparr>sv_links := links\<rparr>))
   | _ \<Rightarrow> (Some (ErrorReply 400 ''invalid from/to pubkey''), s))"

subsection \<open>The links answer\<close>

lemma lnv_PubKey_neighborView [simp]:
  "keyed nod_PubKey (nr_nodes r) \<Longrightarrow> lnv_PubKey (neighborView r k imported) = k"
  by (auto simp: neighborView_def nodes_Lookup_def overview_def keyed_def split: option.split)

lemma withNetworkFilter_Neighbor: "withNetworkFilter flt l = Some l' \<Longrightarrow> ln_Neighbor l' = ln_Neighbor l"
  by (auto simp: withNetworkFilter_def Let_def split: if_splits)

lemma filterLink_Neighbor: "filterLink flt since l = Some l' \<Longrightarrow> ln_Neighbor l' = ln_Neighbor l"
  by (auto simp: filterLink_def withNetworkFilter_Neighbor split: if_splits bind_splits)

lemma map_filter_distinct:
  "distinct (map g xs) \<Longrightarrow> (\<And>x y. f x = Some y \<Longrightarrow> g y = g x) \<Longrightarrow> distinct (map g (List.map_filter f xs))"
proof (induction xs)
  case (Cons x xs)
  have "g x \<notin> g ` set (List.map_filter f xs)"
  proof
    assume "g x \<in> g ` set (List.map_filter f xs)"
    then obtain y z where "z \<in> set xs" "f z = Some y" "g x = g y" by (auto simp: set_map_filter)
    then show False using Cons.prems(1) Cons.prems(2) [of z y] by (metis distinct.simps(2) image_eqI list.simps(9) set_map)
  qed
  moreover have "distinct (map g (List.map_filter f xs))" using Cons by auto
  ultimately show ?case using Cons.prems(2) [of x] by (simp add: List.map_filter_simps split: option.split)
qed (simp add: List.map_filter_simps)

text \<open>The links of a node that pass the filters of a request, as its answer counts them.\<close>

definition passing_links :: "unix_time \<Rightarrow> httpQuery \<Rightarrow> pubKey \<Rightarrow> Server \<Rightarrow> LinkNeighbor list" where
  "passing_links now qv node s = List.map_filter
     (filterLink (parseStringSet (q_get qv ''networks'')) (activeSince now qv)) (LinksForNode (sv_links s) node now)"

lemma handleNodeLinks_eq:
  assumes "sv_nodes s = Some r" "normalizePub rawPub = Some node"
    and "limit = limitParam defaultLinksLimit maxLinksLimit (q_get qv ''limit'')"
    and "links = sortNeighborsByActivity (passing_links now qv node s)"
  shows "handleNodeLinks now qv rawPub s = Some (OkReply
    \<lparr>lb_node = hex_encode node, lb_links = map (linkBody r (recordsOf s)) (take (nat limit) links),
     lb_returned = length (take (nat limit) links), lb_total = length links, lb_capped = (int (length links) > limit)\<rparr>)"
proof -
  have "(if int (length xs) > l then take (nat l) xs else xs) = take (nat l) xs" for l and xs :: "LinkNeighbor list" by auto
  then show ?thesis
    using assms by (simp add: handleNodeLinks_def with_pubkey_def passing_links_def Let_def)
qed


text \<open>With a network filter the packet count shown is that of the networks asked for.\<close>

lemma filter_narrows_packet_count:
  assumes "filterLink flt since l = Some l'" "mlen flt > 0"
  shows "ln_PacketCount l' = sum_list (map nd_PacketCount (filter (\<lambda>d. mhas flt (nd_NetworkID d)) (ln_NetworkDetails l)))"
  using assms network_filter_exact [of flt l]
  by (auto simp: filterLink_def Let_def split: if_splits bind_splits)

subsection \<open>The route answer\<close>

lemma length_routeHops [simp]: "length (routeHops a es) = length es"
  by (induction es arbitrary: a) auto

lemma routeHops_pass:
  "is_walk adj passes a es b \<Longrightarrow> h \<in> set (routeHops a es) \<Longrightarrow> \<exists>p e. passes e \<and> h = routeHop p (e_to e) e"
  by (induction es arbitrary: a) auto

definition hop_passes :: "unix_time \<Rightarrow> (string, bool) gomap \<Rightarrow> routeHopView \<Rightarrow> bool" where
  "hop_passes since flt h \<longleftrightarrow> (since > 0 \<longrightarrow> since \<le> rv_LastSeen h) \<and> (mlen flt > 0 \<longrightarrow> (\<exists>i\<in>set (rv_Networks h). mhas flt i))"

lemma edgePasses_hop: "edgePasses since flt e \<Longrightarrow> hop_passes since flt (routeHopOf (routeHop p n e))"
  by (auto simp: edgePasses_def hop_passes_def routeHopOf_def routeHop_def anyInSet_def list_ex_iff split: if_splits)

lemma adjacency_links: "adjacency now r = (adj, r') \<Longrightarrow> lookup_link r' = lookup_link r"
  by (auto simp: adjacency_def Let_def lookup_link_def shardFor_def fun_eq_iff split: option.splits if_splits)

text \<open>The route answer can be drawn: for two well-formed keys it is always given, and when a route is found it
  names one node more than it has hops, from the source to the destination, each hop a link that
  passes the activity and network filters of the request; else it is empty. The request changes no
  link, and keeps the registry and its cached graph well-formed.\<close>

theorem route_answer_drawable:
  assumes "registry_ok (sv_links s)" "cache_ok (sv_links s)" "sv_nodes s = Some r" "keyed nod_PubKey (nr_nodes r)"
    and "normalizePub (q_get qv ''from'') = Some src" "normalizePub (q_get qv ''to'') = Some dst"
  shows "\<exists>body s'. handleRoute now qv s = (Some (OkReply body), s')
    \<and> (if rb_found body then length (rb_nodes body) = Suc (length (rb_hops body))
         \<and> lnv_PubKey (hd (rb_nodes body)) = hex_encode src \<and> lnv_PubKey (last (rb_nodes body)) = hex_encode dst
         \<and> (\<forall>h\<in>set (rb_hops body). hop_passes (activeSince now qv) (parseStringSet (q_get qv ''networks'')) h)
       else rb_nodes body = [] \<and> rb_hops body = [])
    \<and> lookup_link (sv_links s') = lookup_link (sv_links s) \<and> registry_ok (sv_links s') \<and> cache_ok (sv_links s')"
proof (cases "src = dst")
  case True
  then show ?thesis using assms by (simp add: handleRoute_def RouteBetween_def)
next
  case False
  obtain adj links where adj: "adjacency now (sv_links s) = (adj, links)" by fastforce
  note keeps = adjacency_links [OF adj] adjacency_ok [OF assms(1,2) adj]
  show ?thesis
  proof (cases rule: RouteBetween_outcome [OF assms(1,2) False adj, of "activeSince now qv" "parseStringSet (q_get qv ''networks'')"])
    case (1 es)
    have "\<forall>h\<in>set (map routeHopOf (routeHops src es)). hop_passes (activeSince now qv) (parseStringSet (q_get qv ''networks'')) h"
      using routeHops_pass [OF 1(2)] edgePasses_hop by fastforce
    then show ?thesis
      using assms(3-6) 1(1) keeps last_walkNodes [OF 1(2)]
      by (simp add: handleRoute_def routeAlong_def walkNodes_def last_map hd_map split: if_splits)
  next
    case 2
    then show ?thesis using assms(3-6) keeps by (simp add: handleRoute_def noRoute_def)
  qed
qed

subsection \<open>Examples\<close>

definition ex_link_server :: Server where
  "ex_link_server = ex_server\<lparr>sv_nodes := Some (newNodeRegistry 3), sv_links := observeLink (ex_ob ''aa'' True 10) (newLinkRegistry 60)\<rparr>"

lemma ex_link_server_ok: "registry_ok (sv_links ex_link_server)" "cache_ok (sv_links ex_link_server)"
    "sv_nodes ex_link_server = Some (newNodeRegistry 3)" "keyed nod_PubKey (nr_nodes (newNodeRegistry 3))"
  using ex_reg_ok by (simp_all add: ex_link_server_def keyed_def newNodeRegistry_def)


definition ex_route_query :: httpQuery where
  "ex_route_query = mput (mput mempty ''from'' [ex_pub 170]) ''to'' [ex_pub 187]"

lemma route_answer_drawable_witness:
  "\<exists>body s'. handleRoute 20 ex_route_query ex_link_server = (Some (OkReply body), s')
     \<and> (rb_found body \<longrightarrow> length (rb_nodes body) = Suc (length (rb_hops body)))"
proof -
  have "normalizePub (q_get ex_route_query ''from'') = Some (ex_node 170)" "normalizePub (q_get ex_route_query ''to'') = Some (ex_node 187)"
    by (simp_all add: ex_route_query_def q_get_def q_all_def mget_mput)
  from route_answer_drawable [OF ex_link_server_ok this, of 20] show ?thesis by (auto split: if_splits)
qed

end
