(* ===== verification/ServerRoutes.thy ===== *)
theory ServerRoutes
  imports ServerLinks ServerPrefixes
begin

text \<open>
  From a request to its answer (\<open>Handler\<close>, \<open>handleNodeSub\<close> and the middleware of server.go, \<open>instrument\<close> of
  telemetry.go). A path is clean, as \<open>ServeMux\<close> makes it. The theorems show that requests read only:
  whatever is asked, no registry, table or counter changes; and which labels the request metrics take.
  The bodies of the snapshot and live endpoints are those of snapshot.go and live.go; durations and
  sizes of responses are not modelled.
\<close>

subsection \<open>Requests and answers\<close>

record httpRequest =
  rq_Method :: string
  rq_Path :: string
  rq_AcceptEncoding :: string
  rq_Query :: httpQuery

datatype endpoint = HealthEP | StatsEP | NetworksEP | NetworkDetailEP | NodesEP | NodeSubEP | SearchOptionsEP | SearchEP
  | PrefixesEP | RouteEP | ObserversEP | FlagsEP | MetricsEP | ManifestEP | SnapshotEP | LiveEP

datatype apiAnswer = HealthA "health reply" | StatsA "statsResponse reply" | NetworksA "networkSummary list reply"
  | NetworkDetailA "networkDetailView reply" | NodesA "NodeView list reply" | NodeDetailA "NodeView reply"
  | AdvertsA "advertPage reply" | LinksA "linksBody reply" | NodeNetworksA "(string \<times> NetworkAdvertStat list) reply"
  | ActivityA "activityBody reply" | MapPublishesA "(string \<times> ImportedSnapshot list) reply"
  | SearchOptionsA "searchOptionCommand list reply" | SearchA "searchBody reply" | PrefixesA "prefixBody reply"
  | RouteA "routeBody reply" | ObserversA "ObserverView list reply" | FlagsA "flagsBody reply" | MetricsA "unit reply"
  | NotFoundA "unit reply"

fun status_code :: "'a reply \<Rightarrow> nat" where
  "status_code (OkReply _) = 200"
| "status_code (ErrorReply c _) = c"

primrec answer_status :: "apiAnswer \<Rightarrow> nat" where
  "answer_status (HealthA r) = status_code r" | "answer_status (StatsA r) = status_code r"
| "answer_status (NetworksA r) = status_code r" | "answer_status (NetworkDetailA r) = status_code r"
| "answer_status (NodesA r) = status_code r" | "answer_status (NodeDetailA r) = status_code r"
| "answer_status (AdvertsA r) = status_code r" | "answer_status (LinksA r) = status_code r"
| "answer_status (NodeNetworksA r) = status_code r" | "answer_status (ActivityA r) = status_code r"
| "answer_status (MapPublishesA r) = status_code r" | "answer_status (SearchOptionsA r) = status_code r"
| "answer_status (SearchA r) = status_code r" | "answer_status (PrefixesA r) = status_code r"
| "answer_status (RouteA r) = status_code r" | "answer_status (ObserversA r) = status_code r"
| "answer_status (FlagsA r) = status_code r" | "answer_status (MetricsA r) = status_code r"
| "answer_status (NotFoundA r) = status_code r"

subsection \<open>Routing\<close>

definition handleNodeSub :: "bool \<Rightarrow> unix_time \<Rightarrow> httpRequest \<Rightarrow> Server \<Rightarrow> apiAnswer option" where
  "handleNodeSub queries now rq s =
     (let rest = trim_prefix (rq_Path rq) ''/api/nodes/'';
          pubkey = takeWhile (\<lambda>c. c \<noteq> CHR ''/'') rest;
          sub = trim_slashes (tl (dropWhile (\<lambda>c. c \<noteq> CHR ''/'') rest))
      in if sub = '''' then map_option NodeDetailA (handleNodeDetail pubkey s)
         else if sub = ''adverts'' then map_option AdvertsA (handleNodeAdverts queries (rq_Query rq) pubkey s)
         else if sub = ''links'' then map_option LinksA (handleNodeLinks now (rq_Query rq) pubkey s)
         else if sub = ''networks'' then map_option NodeNetworksA (handleNodeNetworks queries pubkey s)
         else if sub = ''activity'' then map_option ActivityA (handleNodeActivity queries now (rq_Query rq) pubkey s)
         else if sub = ''map'' then map_option MapPublishesA (handleNodeMapPublishes queries pubkey s)
         else Some (NotFoundA (ErrorReply 404 ''not found'')))"

text \<open>\<open>ServeMux\<close>: an exact pattern, else a redirect to the registered subtree root, else the longest
  subtree pattern (one that ends in a slash).\<close>

datatype 'h muxed = Handled 'h | MovedTo string | Unmatched

definition mux_lookup :: "(string \<times> 'h) list \<Rightarrow> string \<Rightarrow> 'h muxed" where
  "mux_lookup pats path = (case map_of pats path of
     Some h \<Rightarrow> Handled h
   | None \<Rightarrow> if map_of pats (path @ ''/'') \<noteq> None then MovedTo (path @ ''/'')
       else (case filter (\<lambda>(p, h). p \<noteq> [] \<and> last p = CHR ''/'' \<and> has_prefix path p) pats of
           [] \<Rightarrow> Unmatched
         | m # ms \<Rightarrow> Handled (snd (fold (\<lambda>x best. if length (fst x) > length (fst best) then x else best) ms m))))"

text \<open>The table of the API: patterns, metric labels and handlers. The scrape endpoint has no label.\<close>

definition apiRoutes :: "bool \<Rightarrow> (string \<times> string option \<times> endpoint) list" where
  "apiRoutes hasMetrics =
     [(''/api/health'', Some ''/api/health'', HealthEP), (''/api/stats'', Some ''/api/stats'', StatsEP),
      (''/api/networks'', Some ''/api/networks'', NetworksEP), (''/api/networks/'', Some ''/api/networks/:id'', NetworkDetailEP),
      (''/api/nodes'', Some ''/api/nodes'', NodesEP), (''/api/nodes/'', Some ''/api/nodes/:pubkey'', NodeSubEP),
      (''/api/search/options'', Some ''/api/search/options'', SearchOptionsEP), (''/api/search'', Some ''/api/search'', SearchEP),
      (''/api/prefixes'', Some ''/api/prefixes'', PrefixesEP), (''/api/route'', Some ''/api/route'', RouteEP),
      (''/api/observers'', Some ''/api/observers'', ObserversEP), (''/api/flags'', Some ''/api/flags'', FlagsEP)]
     @ (if hasMetrics then [(''/metrics'', None, MetricsEP)] else [])"

type_synonym headers = "(string \<times> string) list"

datatype target = Preflight | Missing | Redirect string | Serve "string option" endpoint

definition corsHeaders :: "string \<Rightarrow> headers" where
  "corsHeaders origin = [(''Access-Control-Allow-Origin'', origin), (''Access-Control-Allow-Methods'', ''GET, OPTIONS''), (''Vary'', ''Origin'')]"

definition withCORS :: "string \<Rightarrow> httpRequest \<Rightarrow> headers \<times> target \<Rightarrow> headers \<times> target" where
  "withCORS origin rq next = (if rq_Method rq = ''OPTIONS'' then (corsHeaders origin, Preflight)
     else (corsHeaders origin @ fst next, snd next))"

definition gzipMiddleware :: "httpRequest \<Rightarrow> target \<Rightarrow> headers \<times> target" where
  "gzipMiddleware rq next = (if contains_sub (rq_AcceptEncoding rq) ''gzip''
     then [(''Content-Encoding'', ''gzip''), (''Vary'', ''Accept-Encoding'')] else [], next)"

definition muxTarget :: "'h muxed \<Rightarrow> ('h \<Rightarrow> target) \<Rightarrow> target" where
  "muxTarget m f = (case m of Handled h \<Rightarrow> f h | MovedTo p \<Rightarrow> Redirect p | Unmatched \<Rightarrow> Missing)"

text \<open>The root: the API behind CORS and gzip, the snapshots behind CORS alone, the live feed behind neither.\<close>

definition Handler :: "bool \<Rightarrow> bool \<Rightarrow> bool \<Rightarrow> Server \<Rightarrow> httpRequest \<Rightarrow> headers \<times> target" where
  "Handler hasMetrics hasSnapshotter hasHub s rq =
     (let wrapped = withCORS (sv_allowOrigin s) rq (gzipMiddleware rq
            (muxTarget (mux_lookup (apiRoutes hasMetrics) (rq_Path rq)) (\<lambda>(label, ep). Serve label ep)));
          single = (\<lambda>ep. withCORS (sv_allowOrigin s) rq ([], Serve None ep));
          root = [(''/'', wrapped)]
            @ (if hasSnapshotter then [(''/api/snapshots/latest.json'', single ManifestEP), (''/api/snapshots/'', single SnapshotEP)] else [])
            @ (if hasHub then [(''/api/live'', ([], Serve None LiveEP))] else [])
      in case mux_lookup root (rq_Path rq) of Handled h \<Rightarrow> h | MovedTo p \<Rightarrow> ([], Redirect p) | Unmatched \<Rightarrow> ([], Missing))"

subsection \<open>Serving\<close>

text \<open>An answer, or \<open>None\<close> for a panic, and the server after it. \<open>now\<close> is in nanoseconds.\<close>

definition keep :: "Server \<Rightarrow> apiAnswer option \<Rightarrow> apiAnswer option \<times> Server" where
  "keep s a = (a, s)"

definition state_of :: "Server \<Rightarrow> ('a \<Rightarrow> apiAnswer) \<Rightarrow> ('a \<times> Server) option \<Rightarrow> apiAnswer option \<times> Server" where
  "state_of s f r = (case r of None \<Rightarrow> (None, s) | Some (a, s') \<Rightarrow> (Some (f a), s'))"

primrec runEndpoint :: "(string \<Rightarrow> float64 option) \<Rightarrow> bool \<Rightarrow> int \<Rightarrow> metrics \<Rightarrow> httpRequest \<Rightarrow> Server \<Rightarrow> endpoint \<Rightarrow> apiAnswer option \<times> Server" where
  "runEndpoint pf queries now m rq s HealthEP = keep s (map_option HealthA (handleHealth (nowUnixOf now) s))"
| "runEndpoint pf queries now m rq s StatsEP = map_prod (\<lambda>r. Some (StatsA r)) (\<lambda>s. s) (handleStats now s)"
| "runEndpoint pf queries now m rq s NetworksEP = state_of s NetworksA (handleNetworks (nowUnixOf now) s)"
| "runEndpoint pf queries now m rq s NetworkDetailEP = state_of s NetworkDetailA (handleNetworkDetail (rq_Path rq) (nowUnixOf now) s)"
| "runEndpoint pf queries now m rq s NodesEP = keep s (map_option NodesA (handleNodes s))"
| "runEndpoint pf queries now m rq s NodeSubEP = keep s (handleNodeSub queries (nowUnixOf now) rq s)"
| "runEndpoint pf queries now m rq s SearchOptionsEP = keep s (Some (SearchOptionsA (handleSearchOptions s)))"
| "runEndpoint pf queries now m rq s SearchEP = keep s (map_option SearchA (handleSearch pf (nowUnixOf now) (rq_Query rq) s))"
| "runEndpoint pf queries now m rq s PrefixesEP = keep s (map_option PrefixesA (handlePrefixes pf (nowUnixOf now) (rq_Query rq) s))"
| "runEndpoint pf queries now m rq s RouteEP = map_prod (map_option RouteA) (\<lambda>s. s) (handleRoute (nowUnixOf now) (rq_Query rq) s)"
| "runEndpoint pf queries now m rq s ObserversEP = keep s (map_option ObserversA (handleObservers s))"
| "runEndpoint pf queries now m rq s FlagsEP = keep s (map_option FlagsA (handleFlags s))"
| "runEndpoint pf queries now m rq s MetricsEP = map_prod (\<lambda>r. Some (MetricsA r)) snd (handleMetrics now m s)"
| "runEndpoint pf queries now m rq s ManifestEP = keep s None"
| "runEndpoint pf queries now m rq s SnapshotEP = keep s None"
| "runEndpoint pf queries now m rq s LiveEP = keep s None"

text \<open>The request metrics: requests in flight, and one count per label, method and status.\<close>

record apiMetrics =
  am_inFlight :: int
  am_requests :: "(string \<times> string \<times> nat) list"

definition instrument :: "string option \<Rightarrow> string \<Rightarrow> apiAnswer option \<Rightarrow> apiMetrics option \<Rightarrow> apiMetrics option" where
  "instrument label method a am = (case (label, am) of
     (Some route, Some m) \<Rightarrow>
       (let m = m\<lparr>am_inFlight := am_inFlight m + 1\<rparr>;
            m = (case a of None \<Rightarrow> m | Some a \<Rightarrow> m\<lparr>am_requests := am_requests m @ [(route, method, answer_status a)]\<rparr>)
        in Some (m\<lparr>am_inFlight := am_inFlight m - 1\<rparr>))
   | _ \<Rightarrow> am)"

record site =
  si_server :: Server
  si_metrics :: metrics
  si_api :: "apiMetrics option"

definition serve :: "(string \<Rightarrow> float64 option) \<Rightarrow> bool \<Rightarrow> bool \<Rightarrow> bool \<Rightarrow> int \<Rightarrow> httpRequest \<Rightarrow> site \<Rightarrow> apiAnswer option \<times> site" where
  "serve pf hasSnapshotter hasHub queries now rq st =
     (case Handler (si_metrics st \<noteq> None) hasSnapshotter hasHub (si_server st) rq of
        (_, Serve label ep) \<Rightarrow> (case runEndpoint pf queries now (si_metrics st) rq (si_server st) ep of
            (a, s) \<Rightarrow> (a, st\<lparr>si_server := s, si_api := instrument label (rq_Method rq) a (si_api st)\<rparr>))
      | _ \<Rightarrow> (None, st))"

subsection \<open>Requests only read\<close>

text \<open>What must not change: the registries, the database, the links, and of every network and analyzer
  all but the moving rate window, that is, what is exported.\<close>

definition same_store :: "Store \<Rightarrow> Store \<Rightarrow> bool" where
  "same_store st st' \<longleftrightarrow> sto_Networks st' = sto_Networks st \<and> sto_byID st' = sto_byID st
     \<and> same_nets (sto_heap st) (sto_heap st')
     \<and> map counter_Export (h_counters (sto_heap st')) = map counter_Export (h_counters (sto_heap st))"

definition same_data :: "Server \<Rightarrow> Server \<Rightarrow> bool" where
  "same_data s s' \<longleftrightarrow> rel_option same_store (sv_store s) (sv_store s') \<and> sv_nodes s' = sv_nodes s
     \<and> sv_observers s' = sv_observers s \<and> lookup_link (sv_links s') = lookup_link (sv_links s)
     \<and> sv_imported s' = sv_imported s \<and> sv_db s' = sv_db s \<and> sv_flagger s' = sv_flagger s
     \<and> sv_allowOrigin s' = sv_allowOrigin s"

lemma same_store_refl [simp]: "same_store st st"
  by (simp add: same_store_def)

lemma same_store_trans: "same_store a b \<Longrightarrow> same_store b c \<Longrightarrow> same_store a c"
  by (auto simp: same_store_def elim: same_nets_trans)

lemma same_data_refl [simp]: "same_data s s"
  by (simp add: same_data_def option.rel_refl)

lemma same_data_trans: "same_data a b \<Longrightarrow> same_data b c \<Longrightarrow> same_data a c"
  unfolding same_data_def using same_store_trans by (auto simp: option_rel_Some1 elim!: option.rel_cases)

definition same_counters :: "heap \<Rightarrow> heap \<Rightarrow> bool" where
  "same_counters h h' \<longleftrightarrow> same_nets h h' \<and> map counter_Export (h_counters h') = map counter_Export (h_counters h)"

lemma same_counters_refl [simp]: "same_counters h h"
  by (simp add: same_counters_def)

lemma same_counters_trans: "same_counters a b \<Longrightarrow> same_counters b c \<Longrightarrow> same_counters a c"
  by (auto simp: same_counters_def elim: same_nets_trans)

lemma snapshot_at_same: "snapshot_at now p h = Some (snap, h') \<Longrightarrow> same_counters h h'"
proof -
  assume "snapshot_at now p h = Some (snap, h')"
  then obtain r where h': "h' = h\<lparr>h_counters := (h_counters h)[p := (h_counters h ! p)\<lparr>c_rate := r\<rparr>]\<rparr>"
    by (auto simp: snapshot_at_def counter_Snapshot_def Let_def split: bind_splits prod.splits)
  have "counter_Export (c\<lparr>c_rate := r\<rparr>) = counter_Export c" for c by (simp add: counter_Export_def)
  then have "map counter_Export ((h_counters h)[p := (h_counters h ! p)\<lparr>c_rate := r\<rparr>]) = map counter_Export (h_counters h)"
    by (simp add: map_update) (metis list_update_id map_update)
  then show ?thesis by (simp add: same_counters_def same_nets_def h')
qed

lemma map_heap_same:
  "(\<And>x h y h'. f x h = Some (y, h') \<Longrightarrow> same_counters h h') \<Longrightarrow> map_heap f xs h = Some (ys, h') \<Longrightarrow> same_counters h h'"
  by (induction xs arbitrary: h ys) (auto split: bind_splits prod.splits, metis same_counters_trans)

lemma summaryFor_same: "summaryFor p now ns h = Some (y, h') \<Longrightarrow> same_counters h h'"
  by (auto simp: summaryFor_def Let_def split: bind_splits prod.splits dest: snapshot_at_same)

lemma analyzerDetailOf_same: "analyzerDetailOf now p h = Some (y, h') \<Longrightarrow> same_counters h h'"
  by (auto simp: analyzerDetailOf_def Let_def split: bind_splits prod.splits dest: snapshot_at_same)

lemma networkDetailAt_same: "networkDetailAt now ns p h = Some (y, h') \<Longrightarrow> same_counters h h'"
proof -
  assume "networkDetailAt now ns p h = Some (y, h')"
  then obtain snap h1 azs h2 sm where "snapshot_at now (ns_Counter (h_networks h ! p)) h = Some (snap, h1)"
      "map_heap (analyzerDetailOf now) (ns_Analyzers (h_networks h ! p)) h1 = Some (azs, h2)" "summaryFor p now ns h2 = Some (sm, h')"
    by (auto simp: networkDetailAt_def Let_def split: bind_splits prod.splits)
  then have "same_counters h h1" "same_counters h1 h2" "same_counters h2 h'"
    by (auto intro: snapshot_at_same map_heap_same [OF analyzerDetailOf_same] summaryFor_same)
  then show ?thesis using same_counters_trans by blast
qed

lemma on_store_same:
  assumes "on_store f s = Some (a, s')" "\<And>st a st'. f st = Some (a, st') \<Longrightarrow> same_store st st'"
  shows "same_data s s'"
  using assms by (auto simp: on_store_def same_data_def split: bind_splits prod.splits)

lemma with_heap_same:
  "with_heap r st = Some (a, st') \<Longrightarrow> (\<And>a h'. r = Some (a, h') \<Longrightarrow> same_counters (sto_heap st) h') \<Longrightarrow> same_store st st'"
  by (auto simp: with_heap_def same_store_def same_counters_def)

lemma handleNetworks_same: "handleNetworks now s = Some (a, s') \<Longrightarrow> same_data s s'"
  unfolding handleNetworks_def
  by (erule on_store_same, erule with_heap_same) (auto dest!: map_heap_same [rotated] dest: summaryFor_same)

lemma handleNetworkDetail_same: "handleNetworkDetail path now s = Some (a, s') \<Longrightarrow> same_data s s'"
  unfolding handleNetworkDetail_def Let_def
  by (erule on_store_same) (auto split: option.splits elim!: with_heap_same dest!: networkDetailAt_same)

lemma statsSnapshot_same: "statsSnapshot now s = (a, s') \<Longrightarrow> same_data s s'"
  by (auto simp: statsSnapshot_def same_data_def option.rel_refl split: option.splits if_splits)

lemma RouteBetween_links: "RouteBetween src dst now since flt r = (res, r') \<Longrightarrow> lookup_link r' = lookup_link r"
  by (auto simp: RouteBetween_def Let_def split: if_splits prod.splits dest: adjacency_links)

lemma handleRoute_same: "handleRoute now qv s = (a, s') \<Longrightarrow> same_data s s'"
  by (auto simp: handleRoute_def same_data_def option.rel_refl split: option.splits prod.splits dest: RouteBetween_links)

lemma runEndpoint_same: "runEndpoint pf queries now m rq s ep = (a, s') \<Longrightarrow> same_data s s'"
  by (cases ep) (auto simp: keep_def state_of_def handleStats_def handleMetrics_def map_prod_def split: option.splits prod.splits if_splits
      dest: handleNetworks_same handleNetworkDetail_same statsSnapshot_same handleRoute_same)

text \<open>A request as it arrives: the clock, whether the database answers, and the request.\<close>

type_synonym arrival = "int \<times> bool \<times> httpRequest"

definition serve_all :: "(string \<Rightarrow> float64 option) \<Rightarrow> bool \<Rightarrow> bool \<Rightarrow> arrival list \<Rightarrow> site \<Rightarrow> site" where
  "serve_all pf hasSnapshotter hasHub rqs st =
     fold (\<lambda>(now, queries, rq) st. snd (serve pf hasSnapshotter hasHub queries now rq st)) rqs st"

lemma serve_same: "serve pf sn hub queries now rq st = (a, st') \<Longrightarrow>
    same_data (si_server st) (si_server st') \<and> si_metrics st' = si_metrics st"
  by (auto simp: serve_def split: prod.splits target.splits dest: runEndpoint_same)

text \<open>C38: the API reads only: whatever requests arrive, in whatever order and at whatever times, no registry,
  link, database table or flag state changes, no network or analyzer is added or changed, and every
  counter exports what it exported before.\<close>

theorem requests_read_only:
  "same_data (si_server st) (si_server (serve_all pf hasSnapshotter hasHub rqs st))"
proof (induction rqs arbitrary: st)
  case (Cons rq rqs)
  obtain now queries r where rq: "rq = (now, queries, r)" by (cases rq)
  obtain a st1 where s: "serve pf hasSnapshotter hasHub queries now r st = (a, st1)" by fastforce
  have "same_data (si_server st) (si_server st1)" using serve_same [OF s] by simp
  then show ?case using Cons.IH [of st1] same_data_trans by (fastforce simp: serve_all_def rq s)
qed (simp add: serve_all_def)

subsection \<open>Labels of the request metrics\<close>

definition apiLabels :: "string set" where
  "apiLabels = {''/api/health'', ''/api/stats'', ''/api/networks'', ''/api/networks/:id'', ''/api/nodes'', ''/api/nodes/:pubkey'',
     ''/api/search/options'', ''/api/search'', ''/api/prefixes'', ''/api/route'', ''/api/observers'', ''/api/flags''}"

lemma fold_longest_mem: "fold (\<lambda>x best. if length (fst x) > length (fst best) then x else best) ms m \<in> set (m # ms)"
proof (induction ms arbitrary: m)
  case (Cons x ms)
  show ?case using Cons.IH [of x] Cons.IH [of m] by auto
qed simp

lemma mux_lookup_mem: "mux_lookup pats path = Handled h \<Longrightarrow> \<exists>p. (p, h) \<in> set pats"
proof -
  assume m: "mux_lookup pats path = Handled h"
  show ?thesis
  proof (cases "map_of pats path")
    case (Some h')
    then show ?thesis using m by (auto simp: mux_lookup_def dest: map_of_SomeD)
  next
    case None
    let ?f = "filter (\<lambda>(p, h). p \<noteq> [] \<and> last p = CHR ''/'' \<and> has_prefix path p) pats"
    obtain x ms where f: "?f = x # ms" "h = snd (fold (\<lambda>x best. if length (fst x) > length (fst best) then x else best) ms x)"
      using m None by (auto simp: mux_lookup_def split: if_splits list.splits)
    then have "(fst (fold (\<lambda>x best. if length (fst x) > length (fst best) then x else best) ms x), h) \<in> set ?f"
      using fold_longest_mem [of ms x] by (simp add: f(1))
    then show ?thesis by auto
  qed
qed

lemma apiRoutes_labels: "(p, Some label, ep) \<in> set (apiRoutes b) \<Longrightarrow> label \<in> apiLabels"
  by (auto simp: apiRoutes_def apiLabels_def split: if_splits)

lemma Handler_label:
  assumes "Handler hasMetrics sn hub s rq = (hs, Serve (Some label) ep)"
  shows "label \<in> apiLabels"
proof -
  let ?api = "mux_lookup (apiRoutes hasMetrics) (rq_Path rq)"
  have "\<exists>p. (p, Some label, ep) \<in> set (apiRoutes hasMetrics)"
    if "muxTarget ?api (\<lambda>(label, ep). Serve label ep) = Serve (Some label) ep"
    using that mux_lookup_mem [of "apiRoutes hasMetrics" "rq_Path rq"] by (auto simp: muxTarget_def split: muxed.splits prod.splits)
  moreover
  let ?root = "[(''/'', withCORS (sv_allowOrigin s) rq (gzipMiddleware rq (muxTarget ?api (\<lambda>(label, ep). Serve label ep))))]
      @ (if sn then [(''/api/snapshots/latest.json'', withCORS (sv_allowOrigin s) rq ([], Serve None ManifestEP)),
           (''/api/snapshots/'', withCORS (sv_allowOrigin s) rq ([], Serve None SnapshotEP))] else [])
      @ (if hub then [(''/api/live'', ([], Serve None LiveEP))] else [])"
  have "mux_lookup ?root (rq_Path rq) = Handled (hs, Serve (Some label) ep)"
    using assms unfolding Handler_def Let_def by (cases "mux_lookup ?root (rq_Path rq)") simp_all
  from mux_lookup_mem [OF this] obtain p where "(p, hs, Serve (Some label) ep) \<in> set ?root" by (rule exE)
  ultimately show ?thesis
    using apiRoutes_labels by (auto simp: withCORS_def gzipMiddleware_def split: if_splits)
qed

definition seen_requests :: "site \<Rightarrow> (string \<times> string \<times> nat) list" where
  "seen_requests st = (case si_api st of None \<Rightarrow> [] | Some m \<Rightarrow> am_requests m)"

definition in_flight :: "site \<Rightarrow> int" where
  "in_flight st = (case si_api st of None \<Rightarrow> 0 | Some m \<Rightarrow> am_inFlight m)"

lemma serve_metrics:
  "serve pf sn hub queries now rq st = (a, st') \<Longrightarrow> in_flight st' = in_flight st
    \<and> (seen_requests st' = seen_requests st \<or> (\<exists>label\<in>apiLabels. \<exists>c. seen_requests st' = seen_requests st @ [(label, rq_Method rq, c)]))"
proof -
  assume "serve pf sn hub queries now rq st = (a, st')"
  then consider "st' = st" | hs label ep s where
      "Handler (si_metrics st \<noteq> None) sn hub (si_server st) rq = (hs, Serve label ep)"
      "st' = st\<lparr>si_server := s, si_api := instrument label (rq_Method rq) a (si_api st)\<rparr>"
    unfolding serve_def by (auto split: prod.splits target.splits)
  then show ?thesis
  proof cases
    case (2 hs label ep s)
    have "label = Some l \<Longrightarrow> l \<in> apiLabels" for l using Handler_label 2(1) by blast
    then show ?thesis
      using 2(2) by (cases label) (auto simp: instrument_def in_flight_def seen_requests_def Let_def split: option.splits)
  qed simp
qed

text \<open>C37: the request metrics never hold more than the twelve fixed route labels, whatever paths are asked for, so
  that no public key or network id ever becomes a label; a request is counted at most once, and none
  stays counted as in flight, even when its handler panics.\<close>

theorem route_labels_bounded:
  assumes "si_api st = Some \<lparr>am_inFlight = 0, am_requests = []\<rparr>"
  shows "fst ` set (seen_requests (serve_all pf hasSnapshotter hasHub rqs st)) \<subseteq> apiLabels \<and> card apiLabels = 12
    \<and> length (seen_requests (serve_all pf hasSnapshotter hasHub rqs st)) \<le> length rqs
    \<and> in_flight (serve_all pf hasSnapshotter hasHub rqs st) = 0"
proof -
  have "fst ` set (seen_requests (serve_all pf hasSnapshotter hasHub rqs st)) \<subseteq> fst ` set (seen_requests st) \<union> apiLabels
    \<and> length (seen_requests (serve_all pf hasSnapshotter hasHub rqs st)) \<le> length (seen_requests st) + length rqs
    \<and> in_flight (serve_all pf hasSnapshotter hasHub rqs st) = in_flight st" for st
  proof (induction rqs arbitrary: st)
    case (Cons rq rqs)
    obtain now queries r where rq: "rq = (now, queries, r)" by (cases rq)
    obtain a st1 where s: "serve pf hasSnapshotter hasHub queries now r st = (a, st1)" by fastforce
    have "serve_all pf hasSnapshotter hasHub (rq # rqs) st = serve_all pf hasSnapshotter hasHub rqs st1"
      by (simp add: serve_all_def rq s)
    moreover have "fst ` set (seen_requests st1) \<union> apiLabels \<subseteq> fst ` set (seen_requests st) \<union> apiLabels"
        "length (seen_requests st1) \<le> Suc (length (seen_requests st))" "in_flight st1 = in_flight st"
      using serve_metrics [OF s] by auto
    moreover note Cons.IH [of st1]
    ultimately show ?case by (simp only: list.size(4)) (intro conjI; (linarith | blast))
  qed (simp add: serve_all_def)
  from this [of st] show ?thesis using assms by (simp add: seen_requests_def in_flight_def apiLabels_def)
qed

text \<open>The method label, though, is whatever the client sends.\<close>

definition ex_site :: site where
  "ex_site = \<lparr>si_server = ex_server, si_metrics = Some [], si_api = Some \<lparr>am_inFlight = 0, am_requests = []\<rparr>\<rparr>"

definition ex_request :: "string \<Rightarrow> httpRequest" where
  "ex_request method = \<lparr>rq_Method = method, rq_Path = ''/api/search/options'', rq_AcceptEncoding = '''', rq_Query = mempty\<rparr>"

lemma method_label_unbounded:
  "method \<noteq> ''OPTIONS'' \<Longrightarrow> seen_requests (snd (serve pf sn hub queries now (ex_request method) ex_site)) =
     [(''/api/search/options'', method, 200)]"
  by (cases sn; cases hub) (simp_all add: serve_def ex_site_def ex_request_def Handler_def mux_lookup_def has_prefix_def apiRoutes_def withCORS_def
      gzipMiddleware_def muxTarget_def keep_def handleSearchOptions_def instrument_def seen_requests_def)

lemma route_labels_bounded_witness:
  "in_flight (serve_all (\<lambda>_. None) False False [(5, True, ex_request ''GET'')] ex_site) = 0"
  using route_labels_bounded [of ex_site "\<lambda>_. None" False False "[(5, True, ex_request ''GET'')]"] by (simp add: ex_site_def)

end
