(* ===== verification/GoTime.thy ===== *)
theory GoTime
  imports ImportedNodes
begin

text \<open>
  \<open>time.Time.Format\<close> for the layouts the code uses, on UTC seconds since 1970: the calendar date by
  counting off years and months, fields of fixed width. Time stamps of fixed width order as the times
  they show, which is what sorting snapshot files by name relies on.
\<close>

primrec pad :: "nat \<Rightarrow> nat \<Rightarrow> string" where
  "pad 0 n = ''''"
| "pad (Suc k) n = pad k (n div 10) @ [char_of (48 + n mod 10)]"

definition year_length :: "nat \<Rightarrow> nat" where
  "year_length y = (if leap_year (int y) then 366 else 365)"

definition month_length :: "nat \<Rightarrow> nat \<Rightarrow> nat" where
  "month_length y m = nat (days_in (int y) (int m))"

lemma lengths_pos [simp]: "0 < year_length y" "0 < month_length y m"
  by (simp_all add: year_length_def month_length_def days_in_def)

function year_from :: "nat \<Rightarrow> nat \<Rightarrow> nat \<times> nat" where
  "year_from y d = (if d < year_length y then (y, d) else year_from (Suc y) (d - year_length y))"
  by auto
termination
  by (relation "measure (\<lambda>(y, d). d)") (simp, simp add: not_less order.strict_trans2 [OF lengths_pos(1)])

function month_from :: "nat \<Rightarrow> nat \<Rightarrow> nat \<Rightarrow> nat \<times> nat" where
  "month_from y m d = (if 12 \<le> m \<or> d < month_length y m then (m, d) else month_from y (Suc m) (d - month_length y m))"
  by auto
termination by (relation "measure (\<lambda>(y, m, d). 12 - m)") auto

declare year_from.simps [simp del] month_from.simps [simp del]

record civil =
  cv_year :: nat
  cv_month :: nat
  cv_day :: nat
  cv_hour :: nat
  cv_min :: nat
  cv_sec :: nat

definition civil_of :: "nat \<Rightarrow> civil" where
  "civil_of t = (case year_from 1970 (t div 86400) of (y, yd) \<Rightarrow> case month_from y 1 yd of (m, md) \<Rightarrow>
     \<lparr>cv_year = y, cv_month = m, cv_day = Suc md, cv_hour = t mod 86400 div 3600, cv_min = t mod 86400 div 60 mod 60,
      cv_sec = t mod 86400 mod 60\<rparr>)"

text \<open>The layout \<open>20060102T150405Z\<close>, and RFC 3339 in UTC.\<close>

definition stamp :: "nat \<Rightarrow> string" where
  "stamp t = (let c = civil_of t in pad 4 (cv_year c) @ pad 2 (cv_month c) @ pad 2 (cv_day c) @ ''T''
     @ pad 2 (cv_hour c) @ pad 2 (cv_min c) @ pad 2 (cv_sec c) @ ''Z'')"

definition rfc3339 :: "nat \<Rightarrow> string" where
  "rfc3339 t = (let c = civil_of t in pad 4 (cv_year c) @ ''-'' @ pad 2 (cv_month c) @ ''-'' @ pad 2 (cv_day c) @ ''T''
     @ pad 2 (cv_hour c) @ '':'' @ pad 2 (cv_min c) @ '':'' @ pad 2 (cv_sec c) @ ''Z'')"

subsection \<open>Stamps order as times\<close>

lemma length_pad [simp]: "length (pad k n) = k"
  by (induction k arbitrary: n) auto

lemma less_append: "length xs = length ys \<Longrightarrow> xs < ys \<Longrightarrow> xs @ us < ys @ (vs :: string)"
  by (simp add: list_less_def lexord_sufI)

lemma less_same_append: "us < vs \<Longrightarrow> xs @ us < xs @ (vs :: string)"
  by (simp add: list_less_def lexord_append_leftI)

lemma digit_less: "a < b \<Longrightarrow> b < 10 \<Longrightarrow> (char_of (48 + a :: nat)) < (char_of (48 + b) :: char)"
  by (simp add: less_char_def)

lemma pad_less: "a < b \<Longrightarrow> b < 10 ^ k \<Longrightarrow> pad k a < pad k b"
proof (induction k arbitrary: a b)
  case (Suc k)
  show ?case
  proof (cases "a div 10 = b div 10")
    case True
    then have "a mod 10 < b mod 10" using Suc.prems(1) by (metis div_mult_mod_eq nat_add_left_cancel_less)
    then have "char_of (48 + a mod 10) < (char_of (48 + b mod 10) :: char)" by (intro digit_less) auto
    then show ?thesis using True by (auto intro!: less_same_append)
  next
    case False
    then have "a div 10 < b div 10" using Suc.prems(1) by (meson div_le_mono le_neq_implies_less less_imp_le)
    moreover have "b div 10 < 10 ^ k" using Suc.prems(2) by (simp add: less_mult_imp_div_less)
    ultimately show ?thesis using Suc.IH by (auto intro!: less_append)
  qed
qed simp

lemma year_from_less:
  "d < d' \<Longrightarrow> fst (year_from y d) < fst (year_from y d') \<or>
    fst (year_from y d) = fst (year_from y d') \<and> snd (year_from y d) < snd (year_from y d')"
proof (induction y d' arbitrary: d rule: year_from.induct)
  case (1 y d')
  have ge: "y \<le> fst (year_from y d)" for y d
    by (induction y d rule: year_from.induct) (subst year_from.simps, auto)
  consider "d' < year_length y" | "d < year_length y" "\<not> d' < year_length y" | "\<not> d < year_length y" "\<not> d' < year_length y"
    by blast
  then show ?case
  proof cases
    case 1
    then show ?thesis using "1.prems" by (simp add: year_from.simps [of y])
  next
    case 2
    then show ?thesis using ge [of "Suc y" "d' - year_length y"] by (simp add: year_from.simps [of y])
  next
    case 3
    then have "d - year_length y < d' - year_length y" using "1.prems" by auto
    then show ?thesis using "1.IH" [OF 3(2)] 3 by (simp add: year_from.simps [of y])
  qed
qed

lemma month_from_less:
  "d < d' \<Longrightarrow> fst (month_from y m d) < fst (month_from y m d') \<or>
    fst (month_from y m d) = fst (month_from y m d') \<and> snd (month_from y m d) < snd (month_from y m d')"
proof (induction y m d' arbitrary: d rule: month_from.induct)
  case (1 y m d')
  have ge: "m \<le> fst (month_from y m d)" for m d
    by (induction y m d rule: month_from.induct) (subst month_from.simps, auto)
  let ?stop = "\<lambda>d. 12 \<le> m \<or> d < month_length y m"
  consider "?stop d'" | "?stop d" "\<not> ?stop d'" | "\<not> ?stop d" "\<not> ?stop d'" by blast
  then show ?case
  proof cases
    case 1
    then show ?thesis using "1.prems" by (auto simp: month_from.simps [of y m])
  next
    case 2
    then show ?thesis using ge [of "Suc m" "d' - month_length y m"] by (auto simp: month_from.simps [of y m])
  next
    case 3
    then have "d - month_length y m < d' - month_length y m" using "1.prems" by auto
    then show ?thesis using "1.IH" [OF 3(2)] 3 by (auto simp: month_from.simps [of y m])
  qed
qed

lemma year_from_bound: "fst (year_from y d) * 365 \<le> y * 365 + d"
proof (induction y d rule: year_from.induct)
  case (1 y d)
  show ?case
  proof (cases "d < year_length y")
    case False
    then have "365 \<le> d" "365 \<le> year_length y" "year_length y \<le> d" by (auto simp: year_length_def split: if_splits)
    then show ?thesis using 1 [OF False] False by (simp add: year_from.simps [of y])
  qed (simp add: year_from.simps)
qed

lemma month_from_bound: "m \<le> 12 \<Longrightarrow> fst (month_from y m d) \<le> 12"
  by (induction y m d rule: month_from.induct) (subst month_from.simps, auto)

lemma year_from_rest: "snd (year_from y d) < year_length (fst (year_from y d))"
  by (induction y d rule: year_from.induct) (subst (1 2) year_from.simps, auto)

lemma month_from_day: "m \<le> 12 \<Longrightarrow> snd (month_from y m d) < 31 \<or> snd (month_from y m d) + 28 * (12 - m) \<le> d"
proof (induction y m d rule: month_from.induct)
  case (1 y m d)
  have len: "28 \<le> month_length y m" "month_length y m \<le> 31" by (auto simp: month_length_def days_in_def)
  show ?case
  proof (cases "12 \<le> m \<or> d < month_length y m")
    case True
    then show ?thesis using len 1(2) by (auto simp: month_from.simps [of y m])
  next
    case False
    then show ?thesis using 1(1) [OF False] len by (auto simp: month_from.simps [of y m])
  qed
qed

lemma civil_bounds:
  assumes "t < 253200000000"
  shows "cv_year (civil_of t) < 10 ^ 4" "cv_month (civil_of t) < 10 ^ 2" "cv_day (civil_of t) < 10 ^ 2"
    "cv_hour (civil_of t) < 10 ^ 2" "cv_min (civil_of t) < 10 ^ 2" "cv_sec (civil_of t) < 10 ^ 2"
proof -
  obtain y yd where y: "year_from 1970 (t div 86400) = (y, yd)" by fastforce
  obtain m md where m: "month_from y 1 yd = (m, md)" by fastforce
  have c: "cv_year (civil_of t) = y" "cv_month (civil_of t) = m" "cv_day (civil_of t) = Suc md"
    "cv_hour (civil_of t) = t mod 86400 div 3600" "cv_min (civil_of t) = t mod 86400 div 60 mod 60" "cv_sec (civil_of t) = t mod 86400 mod 60"
    using y m by (simp_all add: civil_of_def)
  have "t div 86400 < 2930556" using assms by (intro less_mult_imp_div_less) simp
  then show "cv_year (civil_of t) < 10 ^ 4" using year_from_bound [of 1970 "t div 86400"] y c by simp
  show "cv_month (civil_of t) < 10 ^ 2" using month_from_bound [of 1 y yd] m c by simp
  have "yd < 366" using year_from_rest [of 1970 "t div 86400"] y by (simp add: year_length_def split: if_splits)
  then show "cv_day (civil_of t) < 10 ^ 2" using month_from_day [of 1 y yd] m c by auto
  have "t mod 86400 < 24 * 3600" by simp
  then have "t mod 86400 div 3600 < 24" by (intro less_mult_imp_div_less)
  then show "cv_hour (civil_of t) < 10 ^ 2" using c by simp
  have "n mod 60 < 100" for n :: nat by (rule less_trans [of _ 60]) simp_all
  then show "cv_min (civil_of t) < 10 ^ 2" "cv_sec (civil_of t) < 10 ^ 2" using c by simp_all
qed

text \<open>The fields as a list: later times come later in lexicographic order.\<close>

definition fields :: "civil \<Rightarrow> nat list" where
  "fields c = [cv_year c, cv_month c, cv_day c, cv_hour c, cv_min c, cv_sec c]"

lemma seconds_less:
  assumes "(a :: nat) < b"
  shows "a div 3600 < b div 3600 \<or> a div 3600 = b div 3600 \<and>
    (a div 60 mod 60 < b div 60 mod 60 \<or> a div 60 mod 60 = b div 60 mod 60 \<and> a mod 60 < b mod 60)"
proof -
  have split: "n div 60 = 60 * (n div 3600) + n div 60 mod 60" "n = 60 * (n div 60) + n mod 60" for n :: nat
    by (simp_all add: div_mult2_eq [of n 60 60, simplified])
  have "a div 3600 \<le> b div 3600" "a div 60 \<le> b div 60" using assms by (simp_all add: div_le_mono)
  note le = this
  have "a div 60 mod 60 \<le> b div 60 mod 60" if "a div 3600 = b div 3600"
    using that le split(1) [of a] split(1) [of b] by linarith
  moreover have "a mod 60 < b mod 60" if "a div 3600 = b div 3600" "a div 60 mod 60 = b div 60 mod 60"
    using that assms split [of a] split [of b] by linarith
  ultimately show ?thesis using le(1) by (metis le_neq_implies_less)
qed

lemma civil_less:
  assumes "a < b"
  shows "fields (civil_of a) < fields (civil_of b)"
proof (cases "a div 86400 < b div 86400")
  case True
  from year_from_less [OF this, of 1970] month_from_less show ?thesis
    by (auto simp: civil_of_def fields_def split: prod.split) (metis fst_conv snd_conv)+
next
  case False
  then have day: "a div 86400 = b div 86400" using assms by (meson div_le_mono less_imp_le not_le_imp_less order_antisym_conv not_less)
  then have "a mod 86400 < b mod 86400" using assms by (metis div_mult_mod_eq nat_add_left_cancel_less)
  from seconds_less [OF this] show ?thesis
    using day by (auto simp: civil_of_def fields_def split: prod.split)
qed

lemma pads_less:
  "length ws = length xs \<Longrightarrow> length xs = length ys \<Longrightarrow> length ys = length seps \<Longrightarrow> xs < ys \<Longrightarrow> list_all2 (\<lambda>w y. y < 10 ^ w) ws ys \<Longrightarrow>
    concat (map2 (@) (map2 pad ws xs) seps) < concat (map2 (@) (map2 pad ws ys) seps)"
proof (induction ws xs ys seps rule: list_induct4)
  case (Cons w ws x xs y ys sep seps)
  show ?case
  proof (cases "x = y")
    case True
    then show ?thesis using Cons by (auto intro!: less_same_append simp: append_assoc)
  next
    case False
    then have "x < y" using Cons.prems by simp
    then have "pad w x < pad w y" using Cons.prems by (intro pad_less) auto
    then show ?thesis by (auto intro!: less_append simp: append_assoc)
  qed
qed simp

lemma stamp_less:
  assumes "a < b" "b < 253200000000"
  shows "stamp a < stamp b"
proof -
  have eq: "stamp t = concat (map2 (@) (map2 pad [4, 2, 2, 2, 2, 2] (fields (civil_of t))) ['''', '''', ''T'', '''', '''', ''Z''])" for t
    by (simp add: stamp_def Let_def fields_def)
  show ?thesis unfolding eq
    by (rule pads_less) (use civil_less [OF assms(1)] civil_bounds [OF assms(2)] in \<open>auto simp: fields_def\<close>)
qed

lemma stamp_inj: "a < 253200000000 \<Longrightarrow> b < 253200000000 \<Longrightarrow> stamp a = stamp b \<longleftrightarrow> a = b"
  using stamp_less [of a b] stamp_less [of b a] by (metis less_irrefl linorder_neqE_nat)

lemma ex_stamp: "stamp 31535999 = ''19701231T235959Z''"
proof -
  have p: "pad (numeral k) n = pad (pred_numeral k) (n div 10) @ [char_of (48 + n mod 10)]" for k n
    by (metis pad.simps(2) numeral_eq_Suc)
  have "civil_of 31535999 = \<lparr>cv_year = 1970, cv_month = 12, cv_day = 31, cv_hour = 23, cv_min = 59, cv_sec = 59\<rparr>"
  proof -
    have "year_from 1970 364 = (1970, 364)" by (simp add: year_from.simps year_length_def leap_year_def)
    moreover have "month_from 1970 1 364 = (12, 30)" by (simp add: month_from.simps month_length_def leap_year_def days_in_def)
    ultimately show ?thesis by (simp add: civil_of_def)
  qed
  then show ?thesis by (simp add: stamp_def p char_of_eq_iff take_bit_eq_mod)
qed

end
