(* ===== verification/Snapshot.thy ===== *)
theory Snapshot
  imports GoTime ServerNodes
begin

text \<open>
  Map snapshots (snapshot.go): the node tuples of a snapshot, the publication of a snapshot and its
  manifest in a directory, pruning, and the two endpoints that serve them. The directory is a map from
  file names; JSON and zstd together are an argument \<open>pack\<close>, and every file operation may fail.
  The theorems say which nodes a snapshot shows and that the manifest never names a missing file.
\<close>

subsection \<open>The tuples\<close>

definition snapshotFormatVersion :: int where
  "snapshotFormatVersion = 3"

record snapTuple =
  tp_pubkey :: string
  tp_name :: string
  tp_type :: byte
  tp_lat :: float64
  tp_lon :: float64
  tp_lastAdvertAt :: unix_time
  tp_advertCount :: u64
  tp_networks :: "string list"
  tp_freqMHz :: float64
  tp_flags :: "string list"
  tp_observer :: "NodeObserverView option"

definition observerNodes :: "ObserverRegistry option \<Rightarrow> (string, NodeObserverView) gomap" where
  "observerNodes observers = (case observers of None \<Rightarrow> mempty
     | Some r \<Rightarrow> fold (\<lambda>ob out. if normalizePub (ov_ObserverID ob) = None then out else mput out (ov_ObserverID ob) (observerOf ob))
         (observers_Snapshot r) mempty)"

definition liveTuple :: "(string, NodeObserverView) gomap \<Rightarrow> NodeRecord \<Rightarrow> snapTuple" where
  "liveTuple observers n = \<lparr>tp_pubkey = nod_PubKey n, tp_name = nod_Name n, tp_type = nod_NodeType n, tp_lat = nod_Lat n, tp_lon = nod_Lon n,
     tp_lastAdvertAt = nod_LastAdvertAt n, tp_advertCount = nod_AdvertCount n, tp_networks = nod_Networks n, tp_freqMHz = 0,
     tp_flags = nod_Flags n, tp_observer = mget observers (nod_PubKey n)\<rparr>"

definition importedTuple :: "(string, NodeObserverView) gomap \<Rightarrow> ImportedNode \<Rightarrow> snapTuple" where
  "importedTuple observers n = \<lparr>tp_pubkey = im_PublicKey n, tp_name = im_AdvName n, tp_type = im_byte n, tp_lat = im_AdvLat n, tp_lon = im_AdvLon n,
     tp_lastAdvertAt = im_lastAt n, tp_advertCount = 0, tp_networks = [], tp_freqMHz = im_freqMHz n, tp_flags = [],
     tp_observer = mget observers (im_PublicKey n)\<rparr>"

definition collectLive :: "(string, NodeObserverView) gomap \<Rightarrow> NodeRecord \<Rightarrow> snapTuple list \<times> (string, bool) gomap \<Rightarrow> snapTuple list \<times> (string, bool) gomap" where
  "collectLive observers n acc = (case acc of (out, seen) \<Rightarrow>
     if \<not> nod_HasGPS n \<or> \<not> validCoords (nod_Lat n) (nod_Lon n) then (out, seen)
     else let seen = mput seen (nod_PubKey n) True in
       if locationFlagged (nod_Flags n) then (out, seen) else (out @ [liveTuple observers n], seen))"

definition collectNodes :: "NodeRegistry \<Rightarrow> ImportRegistry \<Rightarrow> ObserverRegistry option \<Rightarrow> snapTuple list" where
  "collectNodes r imported obs =
     (let observers = observerNodes obs;
          (out, seen) = fold (collectLive observers) (map snd (mentries (nr_nodes r))) ([], mempty)
      in fold (\<lambda>n out. if mhas seen (im_PublicKey n) \<or> \<not> hasCoords n then out else out @ [importedTuple observers n]) imported out)"

subsection \<open>Publication\<close>

record snapshotPayload =
  sp_FormatVersion :: int
  sp_GeneratedAt :: string
  sp_Tuples :: "snapTuple list"

record SnapshotManifest =
  mf_FormatVersion :: int
  mf_GeneratedAt :: string
  mf_URL :: string
  mf_NodeCount :: nat
  mf_CompressedSize :: nat

text \<open>A file of the directory: a packed snapshot, a manifest, or anything else, a torn write included.\<close>

datatype 'z dirFile = SnapFile 'z | ManifestFile SnapshotManifest | OtherFile

type_synonym 'z dir = "(string, 'z dirFile) gomap"

record 'z MapSnapshotter =
  ms_dir :: "'z dir"
  ms_baseURL :: string
  ms_manifest :: "SnapshotManifest option"

text \<open>Which file operations of one run fail: creating the directory, writing and renaming the snapshot and the
  manifest, reading the directory, removing a file.\<close>

record faults =
  no_mkdir :: bool
  no_write :: bool
  no_rename :: bool
  no_manifest_write :: bool
  no_manifest_rename :: bool
  no_readdir :: bool
  no_remove :: "string \<Rightarrow> bool"

definition has_suffix :: "string \<Rightarrow> string \<Rightarrow> bool" where
  "has_suffix s p \<longleftrightarrow> has_prefix (rev s) (rev p)"

definition trim_right_slashes :: "string \<Rightarrow> string" where
  "trim_right_slashes s = rev (dropWhile (\<lambda>c. c = CHR ''/'') (rev s))"

definition snap_name :: "string \<Rightarrow> string" where
  "snap_name ts = ''map-'' @ ts @ ''.json.zst''"

definition snapshot_file :: "string \<Rightarrow> bool" where
  "snapshot_file n \<longleftrightarrow> has_prefix n ''map-'' \<and> has_suffix n ''.json.zst''"

definition pruneOld :: "faults \<Rightarrow> 'z dir \<Rightarrow> 'z dir" where
  "pruneOld fl d = (if no_readdir fl then d
     else let snaps = sort (filter snapshot_file (mkeys d)) in
       if length snaps \<le> 2 then d
       else fold (\<lambda>name d. if no_remove fl name then d else mdel d name) (take (length snaps - 2) snaps) d)"

definition drop_tmp :: "faults \<Rightarrow> string \<Rightarrow> 'z dir \<Rightarrow> 'z dir" where
  "drop_tmp fl tmp d = (if no_remove fl tmp then d else mdel d tmp)"

text \<open>\<open>os.Rename\<close>: the file moves under its new name, replacing what was there.\<close>

definition rename_file :: "string \<Rightarrow> string \<Rightarrow> 'z dir \<Rightarrow> 'z dir" where
  "rename_file tmp name d = (case mget d tmp of None \<Rightarrow> d | Some f \<Rightarrow> mput (mdel d tmp) name f)"

text \<open>Write to a temporary name, then rename: the directory after it, and whether it succeeded.\<close>

definition publish :: "bool \<Rightarrow> bool \<Rightarrow> faults \<Rightarrow> string \<Rightarrow> 'z dirFile \<Rightarrow> 'z dir \<Rightarrow> bool \<times> 'z dir" where
  "publish noWrite noRename fl name f d = (let tmp = name @ ''.tmp'' in
     if noWrite then (False, mput d tmp OtherFile)
     else if noRename then (False, drop_tmp fl tmp (mput d tmp f))
     else (True, rename_file tmp name (mput d tmp f)))"

definition generateOnce :: "(snapshotPayload \<Rightarrow> 'z) \<Rightarrow> ('z \<Rightarrow> nat) \<Rightarrow> faults \<Rightarrow> nat \<Rightarrow> snapTuple list \<Rightarrow> 'z MapSnapshotter \<Rightarrow> bool \<times> 'z MapSnapshotter" where
  "generateOnce pack size_of fl now nodes s =
     (let compressed = pack \<lparr>sp_FormatVersion = snapshotFormatVersion, sp_GeneratedAt = rfc3339 now, sp_Tuples = nodes\<rparr>;
          manifest = \<lparr>mf_FormatVersion = snapshotFormatVersion, mf_GeneratedAt = rfc3339 now,
            mf_URL = trim_right_slashes (ms_baseURL s) @ ''/api/snapshots/map-'' @ stamp now @ ''.json'',
            mf_NodeCount = length nodes, mf_CompressedSize = size_of compressed\<rparr>
      in if no_mkdir fl then (False, s)
         else case publish (no_write fl) (no_rename fl) fl (snap_name (stamp now)) (SnapFile compressed) (ms_dir s) of
           (False, d) \<Rightarrow> (False, s\<lparr>ms_dir := d\<rparr>)
         | (True, d) \<Rightarrow> (case publish (no_manifest_write fl) (no_manifest_rename fl) fl ''latest.json'' (ManifestFile manifest) d of
             (False, d) \<Rightarrow> (False, s\<lparr>ms_dir := d\<rparr>)
           | (True, d) \<Rightarrow> (True, s\<lparr>ms_dir := pruneOld fl d, ms_manifest := Some manifest\<rparr>)))"

definition CurrentManifest :: "'z MapSnapshotter \<Rightarrow> SnapshotManifest option" where
  "CurrentManifest s = ms_manifest s"

text \<open>\<open>Run\<close>: one generation at startup and one per tick; a failed one is only logged.\<close>



definition snapshot_run :: "(snapshotPayload \<Rightarrow> 'z) \<Rightarrow> ('z \<Rightarrow> nat) \<Rightarrow> (faults \<times> nat \<times> snapTuple list) list \<Rightarrow> 'z MapSnapshotter \<Rightarrow> 'z MapSnapshotter" where
  "snapshot_run pack size_of runs s = fold (\<lambda>(fl, now, nodes) s. snd (generateOnce pack size_of fl now nodes s)) runs s"

subsection \<open>Serving\<close>

text \<open>\<open>filepath.Base\<close>: the last component.\<close>

definition base_name :: "string \<Rightarrow> string" where
  "base_name p = (if p = '''' then ''.'' else let q = trim_right_slashes p in
     if q = '''' then ''/'' else rev (takeWhile (\<lambda>c. c \<noteq> CHR ''/'') (rev q)))"

text \<open>Reading a file may fail for another reason than its absence (\<open>readable\<close> is false).\<close>

definition ServeSnapshot :: "bool \<Rightarrow> string \<Rightarrow> string \<Rightarrow> 'z MapSnapshotter \<Rightarrow> 'z dirFile reply" where
  "ServeSnapshot readable acceptEncoding path s =
     (let name = base_name path in
      if \<not> has_prefix name ''map-'' \<or> \<not> has_suffix name ''.json'' then ErrorReply 404 ''404 page not found''
      else if \<not> contains_sub acceptEncoding ''zstd'' then ErrorReply 406 ''zstd encoding required''
      else case mget (ms_dir s) (name @ ''.zst'') of
          None \<Rightarrow> ErrorReply 404 ''404 page not found''
        | Some f \<Rightarrow> if readable then OkReply f else ErrorReply 500 ''internal error'')"

definition ServeManifest :: "bool \<Rightarrow> 'z MapSnapshotter \<Rightarrow> 'z dirFile reply" where
  "ServeManifest readable s = (case mget (ms_dir s) ''latest.json'' of
     None \<Rightarrow> ErrorReply 404 ''404 page not found''
   | Some f \<Rightarrow> if readable then OkReply f else ErrorReply 500 ''internal error'')"

subsection \<open>What a snapshot shows\<close>

definition located :: "NodeRecord \<Rightarrow> bool" where
  "located n \<longleftrightarrow> nod_HasGPS n \<and> validCoords (nod_Lat n) (nod_Lon n)"

lemma collectLive_fold:
  "fold (collectLive obs) ns (out, seen) =
     (out @ map (liveTuple obs) (filter (\<lambda>n. located n \<and> \<not> locationFlagged (nod_Flags n)) ns),
      fold (\<lambda>n seen. mput seen (nod_PubKey n) True) (filter located ns) seen)"
  by (induction ns arbitrary: out seen) (auto simp: collectLive_def located_def Let_def)

lemma collectImported_fold:
  "fold (\<lambda>n out. if mhas seen (im_PublicKey n) \<or> \<not> hasCoords n then out else out @ [importedTuple obs n]) ns out =
     out @ map (importedTuple obs) (filter (\<lambda>n. \<not> mhas seen (im_PublicKey n) \<and> hasCoords n) ns)"
  by (induction ns arbitrary: out) auto

lemma mhas_fold_keys: "mhas (fold (\<lambda>n seen. mput seen (key n) True) ns seen) k \<longleftrightarrow> k \<in> key ` set ns \<or> mhas seen k"
  by (induction ns arbitrary: seen) (auto simp: mhas_mput)


text \<open>A live row without coordinates does not hide the directory record of its key.\<close>

lemma unlocated_live_row_replaced:
  assumes "keyed nod_PubKey (nr_nodes r)" "mget (nr_nodes r) k = Some n" "\<not> nod_HasGPS n" "im_PublicKey i = k" "hasCoords i"
  shows "collectNodes r [i] obs = collectNodes r [] obs @ [importedTuple (observerNodes obs) i]"
proof -
  let ?rows = "map snd (mentries (nr_nodes r))"
  have "k \<notin> nod_PubKey ` set (filter located ?rows)"
    using assms(1-3) by (fastforce simp: keyed_def mentries_iff located_def)
  then show ?thesis using assms(4,5)
    by (simp add: collectNodes_def collectLive_fold mhas_fold_keys Let_def del: filter.simps map_map)
qed

subsection \<open>The manifest names a file that is there\<close>

lemma snap_name_file [simp]: "snapshot_file (snap_name ts)"
  by (simp add: snapshot_file_def snap_name_def has_prefix_def has_suffix_def)

lemma stamp_length [simp]: "length (stamp t) = 16"
  by (simp add: stamp_def Let_def)

lemma snap_name_less: "a < b \<Longrightarrow> b < 253200000000 \<Longrightarrow> snap_name (stamp a) < snap_name (stamp b)"
  unfolding snap_name_def by (intro less_same_append less_append stamp_less) simp_all

lemma pad_no_slash: "CHR ''/'' \<notin> set (pad k n)"
proof (induction k arbitrary: n)
  case (Suc k)
  have "char_of (48 + n mod 10 :: nat) \<noteq> CHR ''/''"
  proof
    assume "char_of (48 + n mod 10 :: nat) = CHR ''/''"
    then have "(of_char (char_of (48 + n mod 10 :: nat) :: char) :: nat) = of_char CHR ''/''" by (rule arg_cong)
    then show False by simp
  qed
  then show ?case using Suc by auto
qed simp

lemma stamp_no_slash: "CHR ''/'' \<notin> set (stamp t)"
  by (simp add: stamp_def Let_def pad_no_slash)

lemma base_name_snapshot: "base_name (''/api/snapshots/map-'' @ stamp t @ ''.json'') = ''map-'' @ stamp t @ ''.json''"
proof -
  have tw: "takeWhile (\<lambda>c. c \<noteq> CHR ''/'') (rev (stamp t) @ xs) = rev (stamp t) @ takeWhile (\<lambda>c. c \<noteq> CHR ''/'') xs" for xs
    using stamp_no_slash [of t] by (intro takeWhile_append2) auto
  show ?thesis by (simp add: base_name_def trim_right_slashes_def tw)
qed

lemma publish_effect:
  assumes "publish w rn fl name f d = (ok, d')"
  shows "n \<noteq> name \<Longrightarrow> n \<noteq> name @ ''.tmp'' \<Longrightarrow> mget d' n = mget d n"
    and "mget d' name = (if ok then Some f else mget d name)"
  using assms by (auto simp: publish_def Let_def drop_tmp_def rename_file_def mget_mput mget_mdel split: if_splits)

lemma mget_removals:
  "mget (fold (\<lambda>name d. if no_remove fl name then d else mdel d name) xs d) n =
     (if n \<in> set xs \<and> \<not> no_remove fl n then None else mget d n)"
  by (induction xs arbitrary: d) (auto simp: mget_mdel)

lemma take_less_last:
  assumes "sorted_wrt (<) xs" "x \<in> set (take n xs)" "n < length xs"
  shows "x < (last xs :: string)"
proof -
  have "last xs \<in> set (drop n xs)" using assms(3) by (metis drop_eq_Nil last_drop last_in_set not_le)
  moreover have "sorted_wrt (<) (take n xs @ drop n xs)" using assms(1) by simp
  ultimately show ?thesis using assms(2) unfolding sorted_wrt_append by blast
qed

lemma pruneOld_effect:
  "mget (pruneOld fl d) n \<noteq> None \<Longrightarrow> mget (pruneOld fl d) n = mget d n"
  "\<not> snapshot_file n \<or> (\<forall>m. mget d m \<noteq> None \<longrightarrow> snapshot_file m \<longrightarrow> m \<le> n) \<Longrightarrow> mget (pruneOld fl d) n = mget d n"
proof -
  let ?snaps = "sort (filter snapshot_file (mkeys d))"
  have set: "set ?snaps = {m. mget d m \<noteq> None \<and> snapshot_file m}" by (auto simp: mkeys_set)
  have srt: "sorted_wrt (<) ?snaps" using mkeys_distinct [of d] by (simp add: strict_sorted_iff)
  show "mget (pruneOld fl d) n \<noteq> None \<Longrightarrow> mget (pruneOld fl d) n = mget d n"
    by (auto simp: pruneOld_def Let_def mget_removals split: if_splits)
  assume n: "\<not> snapshot_file n \<or> (\<forall>m. mget d m \<noteq> None \<longrightarrow> snapshot_file m \<longrightarrow> m \<le> n)"
  have "n \<notin> set (take (length ?snaps - 2) ?snaps)" if "2 < length ?snaps"
  proof
    assume take: "n \<in> set (take (length ?snaps - 2) ?snaps)"
    have "length ?snaps - 2 < length ?snaps" using that by linarith
    with srt take have "n < last ?snaps" by (rule take_less_last)
    moreover have "?snaps \<noteq> []" using that by (metis list.size(3) not_less_zero)
    then have "last ?snaps \<in> set ?snaps" by (rule last_in_set)
    moreover have "n \<in> set ?snaps" using take by (rule in_set_takeD)
    ultimately show False using n unfolding set mem_Collect_eq by (metis leD)
  qed
  then show "mget (pruneOld fl d) n = mget d n" by (auto simp: pruneOld_def Let_def mget_removals)
qed

text \<open>No snapshot file is newer than \<open>t\<close>, and the manifest, when there is one, is that of a generation whose
  file is there.\<close>

definition manifest_of :: "(snapshotPayload \<Rightarrow> 'z) \<Rightarrow> ('z \<Rightarrow> nat) \<Rightarrow> 'z dir \<Rightarrow> SnapshotManifest \<Rightarrow> string \<Rightarrow> snapshotPayload \<Rightarrow> nat \<Rightarrow> bool" where
  "manifest_of pack size_of d mf origin p t \<longleftrightarrow> mget d (snap_name (stamp t)) = Some (SnapFile (pack p))
     \<and> mf_URL mf = origin @ ''/api/snapshots/map-'' @ stamp t @ ''.json'' \<and> mf_GeneratedAt mf = sp_GeneratedAt p
     \<and> mf_NodeCount mf = length (sp_Tuples p) \<and> mf_CompressedSize mf = size_of (pack p)"

definition published_ok :: "(snapshotPayload \<Rightarrow> 'z) \<Rightarrow> ('z \<Rightarrow> nat) \<Rightarrow> nat \<Rightarrow> 'z MapSnapshotter \<Rightarrow> bool" where
  "published_ok pack size_of t s \<longleftrightarrow>
     (\<forall>n. mget (ms_dir s) n \<noteq> None \<longrightarrow> snapshot_file n \<longrightarrow> n \<le> snap_name (stamp t))
     \<and> (\<forall>f. mget (ms_dir s) ''latest.json'' = Some f \<longrightarrow> (\<exists>mf origin p t'. f = ManifestFile mf \<and> manifest_of pack size_of (ms_dir s) mf origin p t'))"

lemma snap_name_ne [simp]: "snap_name ts \<noteq> ''latest.json''" "snap_name ts \<noteq> ''latest.json.tmp''"
  "''latest.json'' \<noteq> snap_name ts" "''latest.json.tmp'' \<noteq> snap_name ts"
  by (auto simp: snap_name_def)

lemma tmp_not_snapshot [simp]: "\<not> snapshot_file (n @ ''.tmp'')" "\<not> snapshot_file ''latest.json''" "\<not> snapshot_file ''latest.json.tmp''"
  by (auto simp: snapshot_file_def has_suffix_def has_prefix_def)

lemma tmp_ne [simp]: "n @ ''.tmp'' \<noteq> ''latest.json''" "''latest.json'' \<noteq> n @ ''.tmp''" "snap_name a \<noteq> snap_name b @ ''.tmp''"
proof -
  have "last (n @ ''.tmp'') \<noteq> last ''latest.json''" by simp
  then show "n @ ''.tmp'' \<noteq> ''latest.json''" "''latest.json'' \<noteq> n @ ''.tmp''" by metis+
  have "last (snap_name a) \<noteq> last (snap_name b @ ''.tmp'')" by (simp add: snap_name_def)
  then show "snap_name a \<noteq> snap_name b @ ''.tmp''" by metis
qed

lemma manifest_of_keeps:
  "manifest_of pack size_of d mf origin p t \<Longrightarrow> mget d' (snap_name (stamp t)) = mget d (snap_name (stamp t)) \<Longrightarrow>
    manifest_of pack size_of d' mf origin p t"
  by (simp add: manifest_of_def)

lemma generateOnce_published:
  assumes ok: "published_ok pack size_of t s" and later: "t < now" "now < 253200000000"
  shows "published_ok pack size_of now (snd (generateOnce pack size_of fl now nodes s))"
proof -
  let ?name = "snap_name (stamp now)" and ?tmp = "snap_name (stamp now) @ ''.tmp''"
  let ?p = "\<lparr>sp_FormatVersion = snapshotFormatVersion, sp_GeneratedAt = rfc3339 now, sp_Tuples = nodes\<rparr>"
  have less: "snap_name (stamp t) < ?name" using later by (rule snap_name_less)
  have old: "mget (ms_dir s) n \<noteq> None \<Longrightarrow> snapshot_file n \<Longrightarrow> n < ?name" for n
    using ok less unfolding published_ok_def by (meson order.strict_trans1)
  then have new: "mget (ms_dir s) ?name = None" by fastforce
  have keeps: "published_ok pack size_of now (s\<lparr>ms_dir := d\<rparr>)"
    if unch: "\<And>n. n \<noteq> ?name \<Longrightarrow> n \<noteq> ?tmp \<Longrightarrow> n \<noteq> ''latest.json.tmp'' \<Longrightarrow> mget d n = mget (ms_dir s) n" for d
    unfolding published_ok_def
  proof (intro conjI allI impI)
    fix n assume n: "mget (ms_dir (s\<lparr>ms_dir := d\<rparr>)) n \<noteq> None" "snapshot_file n"
    have "n = ?name \<or> mget (ms_dir s) n \<noteq> None"
    proof (rule ccontr)
      assume c: "\<not> (n = ?name \<or> mget (ms_dir s) n \<noteq> None)"
      moreover have "n \<noteq> ?tmp" "n \<noteq> ''latest.json.tmp''" using n(2) by auto
      ultimately have "mget d n = mget (ms_dir s) n" using unch by blast
      then show False using c n(1) by simp
    qed
    then show "n \<le> ?name" using old [of n] n(2) by auto
  next
    fix f assume "mget (ms_dir (s\<lparr>ms_dir := d\<rparr>)) ''latest.json'' = Some f"
    then obtain mf origin p t' where mf: "f = ManifestFile mf" "manifest_of pack size_of (ms_dir s) mf origin p t'"
      using ok unch [of "''latest.json''"] by (auto simp: published_ok_def)
    then have "snap_name (stamp t') \<noteq> ?name" using new by (auto simp: manifest_of_def)
    then show "\<exists>mf origin p t'. f = ManifestFile mf \<and> manifest_of pack size_of (ms_dir (s\<lparr>ms_dir := d\<rparr>)) mf origin p t'"
      using mf unch [of "snap_name (stamp t')"] manifest_of_keeps by fastforce
  qed
  obtain ok1 d1 where p1: "publish (no_write fl) (no_rename fl) fl ?name (SnapFile (pack ?p)) (ms_dir s) = (ok1, d1)" by fastforce
  note e1 = publish_effect [OF p1]
  define mf where "mf = \<lparr>mf_FormatVersion = snapshotFormatVersion, mf_GeneratedAt = rfc3339 now,
            mf_URL = trim_right_slashes (ms_baseURL s) @ ''/api/snapshots/map-'' @ stamp now @ ''.json'',
            mf_NodeCount = length nodes, mf_CompressedSize = size_of (pack ?p)\<rparr>"
  obtain ok2 d2 where p2: "publish (no_manifest_write fl) (no_manifest_rename fl) fl ''latest.json'' (ManifestFile mf) d1 = (ok2, d2)" by fastforce
  note e2 = publish_effect [OF p2]
  let ?g = "snd (generateOnce pack size_of fl now nodes s)"
  have "?g = s\<lparr>ms_dir := ms_dir s\<rparr> \<or> ?g = s\<lparr>ms_dir := d1\<rparr> \<or> ?g = s\<lparr>ms_dir := d2\<rparr> \<and> \<not> ok2
      \<or> ?g = s\<lparr>ms_dir := pruneOld fl d2, ms_manifest := Some mf\<rparr> \<and> ok1 \<and> ok2"
    using p1 p2 unfolding mf_def by (cases "no_mkdir fl"; cases ok1; cases ok2) (simp_all add: generateOnce_def Let_def)
  then consider (fails) d where "snd (generateOnce pack size_of fl now nodes s) = s\<lparr>ms_dir := d\<rparr>"
      "d = ms_dir s \<or> d = d1 \<or> (d = d2 \<and> \<not> ok2)"
    | (succeeds) "snd (generateOnce pack size_of fl now nodes s) = s\<lparr>ms_dir := pruneOld fl d2, ms_manifest := Some mf\<rparr>" "ok1" "ok2"
    by blast
  then show ?thesis
  proof cases
    case fails
    have "mget d n = mget (ms_dir s) n" if "n \<noteq> ?name" "n \<noteq> ?tmp" "n \<noteq> ''latest.json.tmp''" for n
      using fails(2) that e1(1) [of n] e2(1) [of n] e2(2) e1(1) [of "''latest.json''"] by (cases "n = ''latest.json''") auto
    then show ?thesis using keeps fails(1) by simp
  next
    case succeeds
    have d2: "mget d2 n = mget (ms_dir s) n" if "n \<noteq> ?name" "n \<noteq> ?tmp" "n \<noteq> ''latest.json.tmp''" "n \<noteq> ''latest.json''" for n
      using that e1(1) [of n] e2(1) [of n] by simp
    have top: "n \<le> ?name" if "mget d2 n \<noteq> None" "snapshot_file n" for n
    proof (cases "n = ?name \<or> n = ?tmp \<or> n = ''latest.json.tmp'' \<or> n = ''latest.json''")
      case False
      then have "mget (ms_dir s) n \<noteq> None" using d2 [of n] that(1) by simp
      then show ?thesis using old [of n] that(2) by simp
    qed (use that(2) in auto)
    have "mget d2 ?name = Some (SnapFile (pack ?p))" using e2(1) [of ?name] e1(2) succeeds(2) by simp
    then have kept: "mget (pruneOld fl d2) ?name = Some (SnapFile (pack ?p))" using pruneOld_effect(2) [of ?name d2 fl] top by simp
    have "mget (pruneOld fl d2) ''latest.json'' = Some (ManifestFile mf)" using pruneOld_effect(2) [of "''latest.json''" d2 fl] e2(2) succeeds(3) by simp
    then show ?thesis
      using kept top pruneOld_effect(1) [of fl d2] unfolding published_ok_def succeeds(1)
      by (auto simp: manifest_of_def mf_def intro!: exI [of _ "trim_right_slashes (ms_baseURL s)"] exI [of _ ?p] exI [of _ now])
  qed
qed

text \<open>C24: however the generations of a snapshotter fail, at any of their file operations, the manifest it serves
  names a snapshot it serves too: a client that asks for the path in the manifest with zstd accepted
  gets the snapshot of that generation, with the number of nodes and the size the manifest says. The clock
  must move forward, also past the snapshots an earlier process left.\<close>

theorem manifest_names_served_snapshot:
  assumes "published_ok pack size_of t s" and "sorted_wrt (<) (t # map (fst \<circ> snd) runs)" and "\<forall>run\<in>set runs. fst (snd run) < 253200000000"
    and "ServeManifest True (snapshot_run pack size_of runs s) = OkReply f"
  shows "\<exists>mf p origin path. f = ManifestFile mf \<and> mf_URL mf = origin @ path
    \<and> ServeSnapshot True ''zstd'' path (snapshot_run pack size_of runs s) = OkReply (SnapFile (pack p))
    \<and> mf_NodeCount mf = length (sp_Tuples p) \<and> mf_CompressedSize mf = size_of (pack p) \<and> mf_GeneratedAt mf = sp_GeneratedAt p"
proof -
  have "\<exists>t'. published_ok pack size_of t' (snapshot_run pack size_of runs s)"
    using assms(1-3)
  proof (induction runs arbitrary: t s)
    case Nil
    then show ?case by (auto simp: snapshot_run_def)
  next
    case (Cons run runs)
    obtain fl now nodes where run: "run = (fl, now, nodes)" by (cases run)
    have "published_ok pack size_of now (snd (generateOnce pack size_of fl now nodes s))"
      using Cons.prems run by (intro generateOnce_published [where t = t]) auto
    from Cons.IH [OF this] Cons.prems run show ?case by (simp add: snapshot_run_def)
  qed
  then obtain mf origin p t' where mf: "f = ManifestFile mf" "manifest_of pack size_of (ms_dir (snapshot_run pack size_of runs s)) mf origin p t'"
    using assms(4) by (auto simp: published_ok_def ServeManifest_def split: option.splits)
  let ?path = "''/api/snapshots/map-'' @ stamp t' @ ''.json''"
  have name: "(''map-'' @ stamp t' @ ''.json'') @ ''.zst'' = snap_name (stamp t')" by (simp add: snap_name_def)
  have "ServeSnapshot True ''zstd'' ?path (snapshot_run pack size_of runs s) = OkReply (SnapFile (pack p))"
    using mf(2) unfolding ServeSnapshot_def base_name_snapshot Let_def name
    by (simp add: manifest_of_def has_prefix_def has_suffix_def)
  then show ?thesis using mf unfolding manifest_of_def by blast
qed

text \<open>When the clock moves back, pruning removes the snapshot just published: \<open>pruneOld\<close> goes by name and
  does not look at the name it is told to keep.\<close>

definition no_faults :: faults where
  "no_faults = \<lparr>no_mkdir = False, no_write = False, no_rename = False, no_manifest_write = False, no_manifest_rename = False,
     no_readdir = False, no_remove = (\<lambda>_. False)\<rparr>"

definition ex_snapshotter :: "nat list \<Rightarrow> nat MapSnapshotter" where
  "ex_snapshotter ts = \<lparr>ms_dir = fold (\<lambda>t d. mput d (snap_name (stamp t)) (SnapFile 0)) ts mempty, ms_baseURL = ''https://x'', ms_manifest = None\<rparr>"

lemma ex_published: "published_ok pack size_of 0 (ex_snapshotter [])"
  by (simp add: published_ok_def ex_snapshotter_def)

lemma manifest_names_served_snapshot_witness:
  "\<exists>f. ServeManifest True (snapshot_run (\<lambda>p. length (sp_Tuples p)) (\<lambda>z. z) [(no_faults, 5, [])] (ex_snapshotter [])) = OkReply f
     \<and> (\<exists>mf. f = ManifestFile mf \<and> mf_NodeCount mf = 0)"
proof -
  let ?s = "snapshot_run (\<lambda>p. length (sp_Tuples p)) (\<lambda>z. z) [(no_faults, 5, [])] (ex_snapshotter [])"
  have "\<exists>mf. mget (ms_dir ?s) ''latest.json'' = Some (ManifestFile mf) \<and> mf_NodeCount mf = 0"
    by (simp add: snapshot_run_def generateOnce_def no_faults_def publish_def rename_file_def Let_def mget_mput pruneOld_effect(2))
  then obtain mf0 where "mget (ms_dir ?s) ''latest.json'' = Some (ManifestFile mf0)" and mf0: "mf_NodeCount mf0 = 0" by blast
  then have f: "ServeManifest True ?s = OkReply (ManifestFile mf0)" by (simp add: ServeManifest_def)
  have "published_ok (\<lambda>p. length (sp_Tuples p)) (\<lambda>z. z) 0 (ex_snapshotter [])" by (rule ex_published)
  from manifest_names_served_snapshot [OF this _ _ f] obtain mf where "ManifestFile mf0 = ManifestFile mf" by auto
  then show ?thesis using f mf0 by blast
qed


lemma clock_back_prunes_current:
  assumes "a < b" "b < c" "c < 253200000000"
  shows "mget (ms_dir (snd (generateOnce pack size_of no_faults a nodes (ex_snapshotter [b, c])))) (snap_name (stamp a)) = None"
proof -
  have l: "snap_name (stamp a) < snap_name (stamp b)" "snap_name (stamp b) < snap_name (stamp c)" "snap_name (stamp a) < snap_name (stamp c)"
    using assms by (auto intro: snap_name_less)
  have "\<exists>d. ms_dir (snd (generateOnce pack size_of no_faults a nodes (ex_snapshotter [b, c]))) = pruneOld no_faults d
     \<and> {m. mget d m \<noteq> None \<and> snapshot_file m} = {snap_name (stamp a), snap_name (stamp b), snap_name (stamp c)}"
    apply (simp add: generateOnce_def no_faults_def publish_def rename_file_def Let_def mget_mput)
    apply (rule exI, rule conjI, rule refl)
    using l by (auto simp: mget_mput mget_mdel ex_snapshotter_def split: if_splits)
  then obtain d where d: "ms_dir (snd (generateOnce pack size_of no_faults a nodes (ex_snapshotter [b, c]))) = pruneOld no_faults d"
    "{m. mget d m \<noteq> None \<and> snapshot_file m} = {snap_name (stamp a), snap_name (stamp b), snap_name (stamp c)}" by blast
  have "sort (filter snapshot_file (mkeys d)) = [snap_name (stamp a), snap_name (stamp b), snap_name (stamp c)]"
  proof (rule sorted_distinct_set_unique)
    show "set (sort (filter snapshot_file (mkeys d))) = set [snap_name (stamp a), snap_name (stamp b), snap_name (stamp c)]"
      using d(2) by (auto simp: mkeys_set)
  qed (use l mkeys_distinct [of d] in \<open>auto simp: less_imp_le\<close>)
  then show ?thesis unfolding d(1) by (simp add: pruneOld_def no_faults_def Let_def mget_mdel)
qed

end
