(* ===== verification/Lifecycle.thy ===== *)
theory Lifecycle
  imports Tangleveil LinkDatabase ImportedTables Flags LinkPersist
begin

text \<open>
  The process (main.go): its start from a configuration with every fatal error, the restoration of
  the stored state, the background jobs and flush loops as steps that interleave in any order, each
  flush split where others may run (between taking a batch and its save), the final flush, and the
  next start from the databases left behind. HTTP answers, opened databases and failed reads are
  inputs of the start; the databases of a run are those of Database, ImportedTables and LinkDatabase.
\<close>

subsection \<open>The process\<close>

record Process =
  pc_sys :: System
  pc_cat :: Store
  pc_tv :: TangleveilCollector
  pc_imported :: ImportRegistry
  pc_flagger :: "Flagger option"
  pc_db :: "ImportDB option"
  pc_links_db :: LinkDB
  pc_linksRestored :: bool
  pc_backfill :: "string list"
  pc_nodeBatch :: "NodeRecord list"
  pc_advertBatch :: "AdvertObservation list"
  pc_linkBatch :: "LinkRecord list"
  pc_observerBatch :: "ObserverRecord list"

text \<open>\<open>int64(d.Seconds())\<close>.\<close>

definition whole_seconds :: "duration \<Rightarrow> int" where
  "whole_seconds d = go_div d seconds"

subsection \<open>Start\<close>

text \<open>Which reads of the stored state fail: each failure is only a warning.\<close>

record loadErrors =
  le_counters :: bool
  le_nodes :: bool
  le_observers :: bool
  le_imported :: bool

definition restoreCounters :: "loadErrors \<Rightarrow> ImportDB \<Rightarrow> Store \<Rightarrow> Store" where
  "restoreCounters le d store = (let states = db_Load (idb_core d) in
     if le_counters le then store else if mlen states > 0 then store_Restore states store else store)"

text \<open>The registry with the stored rows, the keys to backfill, and the database with its row gauge.\<close>

definition restoreNodes :: "loadErrors \<Rightarrow> ImportDB \<Rightarrow> NodeRegistry \<Rightarrow> NodeRegistry \<times> string list \<times> ImportDB" where
  "restoreNodes le d registry = (let nodes = LoadNodes (idb_core d) in
     if le_nodes le then (registry, [], d)
     else if length nodes > 0
       then (nodes_Restore nodes mempty registry, map nod_PubKey nodes, setLoadedNodeCount (int (length nodes)) d)
     else (registry, [], d))"

definition restoreObservers :: "loadErrors \<Rightarrow> ImportDB \<Rightarrow> ObserverRegistry \<Rightarrow> ObserverRegistry" where
  "restoreObservers le d observers = (let obs = LoadObservers (idb_core d) in
     if le_observers le then observers else if length obs > 0 then observers_Restore obs observers else observers)"

definition restoreImported :: "loadErrors \<Rightarrow> ImportDB \<Rightarrow> ImportRegistry \<Rightarrow> ImportRegistry \<times> ImportDB" where
  "restoreImported le d imported = (let imp = LoadImportedNodes d in
     if le_imported le then (imported, d)
     else if length imp > 0 then (imports_Replace imp imported, setImportedNodeCount (int (length imp)) d)
     else (imported, d))"

record bootInput =
  bi_config :: AppConfig
  bi_networks :: "(int \<times> json option) option"
  bi_opened :: "(ImportDB \<times> LinkDB) option"
  bi_errors :: loadErrors
  bi_sources :: "json option"
  bi_areas :: "(int \<times> geojsonFeature list option) option"
  bi_runtime :: "string list"

text \<open>The fatal errors, in the order the code can meet them.\<close>

datatype fatalError = NoTangleveil | NoNetworks | UnknownNetwork string | DuplicateMetric | NoLinksDB | DatabaseNotOpened | NoStream

definition freshSystem :: "AppConfig \<Rightarrow> Store \<Rightarrow> metrics \<Rightarrow> System" where
  "freshSystem cfg store m =
     \<lparr>sy_heap = sto_heap store, sy_nodes = SetAdvertHook True (newNodeRegistry defaultAdvertsPerNode),
      sy_observers = newObserverRegistry, sy_links = newLinkRegistry (real_of_int (cf_LinkHalfLife cfg) / real_of_int seconds),
      sy_metrics = InitMetrics store m, sy_feed = []\<rparr>"

definition freshFlagger :: "AppConfig \<Rightarrow> (int \<times> geojsonFeature list option) option \<Rightarrow> Flagger option" where
  "freshFlagger cfg reply = (if cf_NetworkAreaURL cfg = '''' then None
     else Some (NewFlagger (Some (case LoadNetworkAreas reply of None \<Rightarrow> mempty | Some byNet \<Rightarrow> areas_Replace byNet mempty)) (cf_FarFromNetworkKM cfg)))"

text \<open>The database part of the start: nothing without a path, else both databases and the stored state.\<close>

definition openState :: "bootInput \<Rightarrow> Store \<Rightarrow> System \<Rightarrow> fatalError + (System \<times> ImportRegistry \<times> (ImportDB option \<times> LinkDB) \<times> string list)" where
  "openState bi store st =
     (if cf_DBPath (bi_config bi) = '''' then Inr (st, newImportRegistry, (None, \<lparr>ld_links = mempty, ld_nets = mempty\<rparr>), [])
      else if cf_LinksDBPath (bi_config bi) = '''' then Inl NoLinksDB
      else case bi_opened bi of None \<Rightarrow> Inl DatabaseNotOpened
        | Some (d, ld) \<Rightarrow>
            (let d = initStats d;
                 store = restoreCounters (bi_errors bi) d store;
                 (registry, backfill, d) = restoreNodes (bi_errors bi) d (sy_nodes st);
                 observers = restoreObservers (bi_errors bi) d (sy_observers st);
                 (imported, d) = restoreImported (bi_errors bi) d newImportRegistry
             in Inr (st\<lparr>sy_heap := sto_heap store, sy_nodes := registry, sy_observers := observers\<rparr>,
                     imported, (Some d, ld), backfill)))"

definition boot :: "(json \<Rightarrow> string) \<Rightarrow> (string \<Rightarrow> url option) \<Rightarrow> bootInput \<Rightarrow> fatalError + Process" where
  "boot sprint parse bi =
     (let cfg = bi_config bi in
      if cf_TangleveilURL cfg = '''' then Inl NoTangleveil
      else case LoadNetworks sprint (bi_networks bi) of None \<Rightarrow> Inl NoNetworks
      | Some configs \<Rightarrow>
         (let store = NewStore configs; networkFilter = networkIDSet (cf_NetworkIDs cfg) in
          case ValidateNetworkFilter networkFilter store of Some i \<Rightarrow> Inl (UnknownNetwork i)
          | None \<Rightarrow>
             (case NewMetrics (bi_runtime bi) of None \<Rightarrow> Inl DuplicateMetric | Some m \<Rightarrow>
             (case openState bi store (freshSystem cfg store m) of Inl e \<Rightarrow> Inl e
              | Inr (st, imported, (db, ld), backfill) \<Rightarrow>
                 (case NewTangleveilCollector parse (cf_TangleveilURL cfg) (bi_sources bi) (current_store store st) networkFilter True True True of
                    None \<Rightarrow> Inl NoStream
                  | Some tv \<Rightarrow> Inr
                     \<lparr>pc_sys = st, pc_cat = store, pc_tv = tv, pc_imported = imported, pc_flagger = freshFlagger cfg (bi_areas bi),
                      pc_db = db, pc_links_db = ld, pc_linksRestored = (db = None), pc_backfill = backfill,
                      pc_nodeBatch = [], pc_advertBatch = [], pc_linkBatch = [], pc_observerBatch = []\<rparr>)))))"

subsection \<open>Jobs\<close>

definition on_sys :: "(System \<Rightarrow> System) \<Rightarrow> Process \<Rightarrow> Process" where
  "on_sys f p = p\<lparr>pc_sys := f (pc_sys p)\<rparr>"

definition on_store :: "(Store \<Rightarrow> Store) \<Rightarrow> Process \<Rightarrow> Process" where
  "on_store f p = on_sys (\<lambda>st. st\<lparr>sy_heap := sto_heap (f (current_store (pc_cat p) st))\<rparr>) p"

text \<open>The background restoration of adverts and links; a failed read is a warning, and the links then count
  as restored.\<close>

definition backfillAdverts :: "bool \<Rightarrow> Process \<Rightarrow> Process" where
  "backfillAdverts reads p = (case pc_db p of None \<Rightarrow> p
     | Some d \<Rightarrow> if pc_backfill p = [] then p
         else (if reads then on_sys (\<lambda>st. st\<lparr>sy_nodes := AttachRecentAdverts
                   (LoadRecentAdverts (pc_backfill p) defaultAdvertsPerNode (idb_core d)) (sy_nodes st)\<rparr>) p else p)\<lparr>pc_backfill := []\<rparr>)"

definition restoreLinks :: "bool \<Rightarrow> Process \<Rightarrow> Process" where
  "restoreLinks reads p = (if pc_linksRestored p then p
     else (if reads then on_sys (\<lambda>st. st\<lparr>sy_links := links_Restore (LoadLinks (pc_links_db p)) (sy_links st)\<rparr>) p else p)\<lparr>pc_linksRestored := True\<rparr>)"

definition sweepAll :: "AppConfig \<Rightarrow> unix_time \<Rightarrow> Process \<Rightarrow> Process" where
  "sweepAll cfg now p =
     on_sys (\<lambda>st. st\<lparr>sy_links := registry_sweep now (whole_seconds (cf_DedupWindow cfg)) (sy_links st)\<rparr>)
       (on_store (store_sweep now (whole_seconds (cf_DedupWindow cfg)) (whole_seconds (cf_ObserverTTL cfg))) p)"

definition flagNodes :: "unix_time \<Rightarrow> Process \<Rightarrow> Process" where
  "flagNodes now p = (case pc_flagger p of None \<Rightarrow> p
     | Some f \<Rightarrow> (case scanOnce now f (sy_nodes (pc_sys p)) of (r, f, _) \<Rightarrow>
         (on_sys (\<lambda>st. st\<lparr>sy_nodes := r\<rparr>) p)\<lparr>pc_flagger := Some f\<rparr>))"

text \<open>One tick of \<open>refreshNetworkAreas\<close>; a failed download keeps the polygons.\<close>

definition refreshAreas :: "(int \<times> geojsonFeature list option) option \<Rightarrow> Process \<Rightarrow> Process" where
  "refreshAreas reply p = (case (pc_flagger p, LoadNetworkAreas reply) of
     (Some f, Some byNet) \<Rightarrow> p\<lparr>pc_flagger := Some (f\<lparr>fl_areas := map_option (areas_Replace byNet) (fl_areas f)\<rparr>)\<rparr>
   | _ \<Rightarrow> p)"

definition syncDirectory ::
  "(ImportedNode \<Rightarrow> string) \<Rightarrow> (historyRow list \<Rightarrow> int) \<Rightarrow> unix_time \<Rightarrow> httpReply option \<Rightarrow> bool \<Rightarrow> bool \<Rightarrow> Process \<Rightarrow> Process option" where
  "syncDirectory sig alloc now reply saves records p = do {
     (_, ir, db) \<leftarrow> syncOnce reply
         (\<lambda>ns d. case SaveImportedNodes saves ns now d of (ok, d') \<Rightarrow> if ok then Some d' else None)
         (\<lambda>ns d. case SaveImportedNodeHistory sig alloc records ns now d of (ok, d') \<Rightarrow> if ok then Some d' else None)
         (pc_imported p) (pc_db p);
     Some (p\<lparr>pc_imported := ir, pc_db := db\<rparr>) }"

subsection \<open>Flushes\<close>

text \<open>\<open>metrics.observeDBFlush\<close> after a save that took \<open>dur\<close> seconds.\<close>

definition flushed_metrics :: "string \<Rightarrow> nat \<Rightarrow> float64 \<Rightarrow> bool \<Rightarrow> System \<Rightarrow> System" where
  "flushed_metrics what rows dur ok st = st\<lparr>sy_metrics := observeDBFlush what (int rows) dur (\<not> ok) (sy_metrics st)\<rparr>"

definition flushCounters :: "unix_time \<Rightarrow> float64 \<Rightarrow> bool \<Rightarrow> Process \<Rightarrow> Process" where
  "flushCounters now dur commits p = (case pc_db p of None \<Rightarrow> p
     | Some d \<Rightarrow>
        (let counters = store_Export (current_store (pc_cat p) (pc_sys p)) in
         case db_Save commits counters now (idb_core d) of (ok, core) \<Rightarrow>
           (on_sys (flushed_metrics ''counters'' (mlen counters) dur ok) p)\<lparr>pc_db := Some (d\<lparr>idb_core := core\<rparr>)\<rparr>))"

text \<open>A flush of nodes: its first half takes the dirty rows, its second saves them or puts them back. A
  second flush does not start before the first has ended.\<close>

definition takeNodes :: "Process \<Rightarrow> Process" where
  "takeNodes p = (if pc_db p = None \<or> pc_nodeBatch p \<noteq> [] then p
     else (case nodes_TakeDirty (sy_nodes (pc_sys p)) of (dirty, r) \<Rightarrow>
       (on_sys (\<lambda>st. st\<lparr>sy_nodes := r\<rparr>) p)\<lparr>pc_nodeBatch := dirty\<rparr>))"

definition saveNodes :: "unix_time \<Rightarrow> float64 \<Rightarrow> bool \<Rightarrow> Process \<Rightarrow> Process" where
  "saveNodes now dur commits p = (case pc_db p of None \<Rightarrow> p
     | Some d \<Rightarrow> if pc_nodeBatch p = [] then p
         else (case SaveNodes commits (pc_nodeBatch p) now (idb_core d) of (ok, core) \<Rightarrow>
           (let p = on_sys (flushed_metrics ''nodes'' (length (pc_nodeBatch p)) dur ok) p
            in if ok then p\<lparr>pc_db := Some (setLoadedNodeCount (int (nodes_Count (sy_nodes (pc_sys p)))) (d\<lparr>idb_core := core\<rparr>)), pc_nodeBatch := []\<rparr>
               else (on_sys (\<lambda>st. st\<lparr>sy_nodes := nodes_Requeue (pc_nodeBatch p) (sy_nodes st)\<rparr>) p)
                      \<lparr>pc_db := Some (d\<lparr>idb_core := core\<rparr>), pc_nodeBatch := []\<rparr>)))"

definition readAdverts :: "Process \<Rightarrow> Process" where
  "readAdverts p = (if pc_db p = None \<or> pc_advertBatch p \<noteq> [] then p
     else p\<lparr>pc_advertBatch := PendingAdverts (sy_nodes (pc_sys p))\<rparr>)"

definition appendAdverts :: "float64 \<Rightarrow> bool \<Rightarrow> Process \<Rightarrow> Process" where
  "appendAdverts dur commits p = (case pc_db p of None \<Rightarrow> p
     | Some d \<Rightarrow> if pc_advertBatch p = [] then p
         else (case AppendAdverts commits (pc_advertBatch p) (idb_core d) of (ok, core) \<Rightarrow>
           (let p = on_sys (flushed_metrics ''adverts'' (length (pc_advertBatch p)) dur ok) p;
                p = (if ok then on_sys (\<lambda>st. st\<lparr>sy_nodes := ClearPending (length (pc_advertBatch p)) (sy_nodes st)\<rparr>) p else p)
            in p\<lparr>pc_db := Some (d\<lparr>idb_core := core\<rparr>), pc_advertBatch := []\<rparr>)))"

text \<open>Links are flushed only once the stored ones are restored.\<close>

definition takeLinks :: "Process \<Rightarrow> Process" where
  "takeLinks p = (if pc_db p = None \<or> \<not> pc_linksRestored p \<or> pc_linkBatch p \<noteq> [] then p
     else (case links_TakeDirty (sy_links (pc_sys p)) of (dirty, r) \<Rightarrow>
       (on_sys (\<lambda>st. st\<lparr>sy_links := r\<rparr>) p)\<lparr>pc_linkBatch := dirty\<rparr>))"

definition saveLinks :: "float64 \<Rightarrow> bool \<Rightarrow> Process \<Rightarrow> Process" where
  "saveLinks dur commits p =
     (if pc_linkBatch p = [] then p
      else (case SaveLinks commits (pc_linkBatch p) (pc_links_db p) of (ok, ld) \<Rightarrow>
        (let p = on_sys (flushed_metrics ''links'' (length (pc_linkBatch p)) dur ok) p;
             p = (if ok then p else on_sys (\<lambda>st. st\<lparr>sy_links := links_Requeue (pc_linkBatch p) (sy_links st)\<rparr>) p)
         in p\<lparr>pc_links_db := ld, pc_linkBatch := []\<rparr>)))"

definition takeObservers :: "Process \<Rightarrow> Process" where
  "takeObservers p = (if pc_db p = None \<or> pc_observerBatch p \<noteq> [] then p
     else (case observers_TakeDirty (sy_observers (pc_sys p)) of (dirty, r) \<Rightarrow>
       (on_sys (\<lambda>st. st\<lparr>sy_observers := r\<rparr>) p)\<lparr>pc_observerBatch := dirty\<rparr>))"

definition saveObservers :: "unix_time \<Rightarrow> float64 \<Rightarrow> bool \<Rightarrow> Process \<Rightarrow> Process" where
  "saveObservers now dur commits p = (case pc_db p of None \<Rightarrow> p
     | Some d \<Rightarrow> if pc_observerBatch p = [] then p
         else (case SaveObservers commits (pc_observerBatch p) now (idb_core d) of (ok, core) \<Rightarrow>
           (let p = on_sys (flushed_metrics ''observers'' (length (pc_observerBatch p)) dur ok) p;
                p = (if ok then p else on_sys (\<lambda>st. st\<lparr>sy_observers := observers_Requeue (pc_observerBatch p) (sy_observers st)\<rparr>) p)
            in p\<lparr>pc_db := Some (d\<lparr>idb_core := core\<rparr>), pc_observerBatch := []\<rparr>)))"

subsection \<open>Steps\<close>

datatype processStep =
    Message unix_time "json option"
  | Dialed unix_time
  | Dropped string
  | Reroute "json option"
  | Catalogue refresh_input
  | Sync unix_time "httpReply option" bool bool
  | SweepTick unix_time
  | FlagTick unix_time
  | AreasTick "(int \<times> geojsonFeature list option) option"
  | Backfill bool
  | LinkRestore bool
  | CounterFlush unix_time float64 bool
  | NodeTake
  | NodeSave unix_time float64 bool
  | AdvertRead
  | AdvertAppend float64 bool
  | LinkTake
  | LinkSave float64 bool
  | ObserverTake
  | ObserverSave unix_time float64 bool

text \<open>The code outside the repository a run uses: the packet decoder, the printing of JSON values, the publish
  signature and the row id of the history.\<close>

record outside =
  ou_M :: meshpkt
  ou_sprint :: "json \<Rightarrow> string"
  ou_parse :: "string \<Rightarrow> url option"
  ou_sig :: "ImportedNode \<Rightarrow> string"
  ou_alloc :: "historyRow list \<Rightarrow> int"

text \<open>\<open>None\<close> is a panic, of the packet handler or the directory import.\<close>

primrec process_step :: "outside \<Rightarrow> AppConfig \<Rightarrow> processStep \<Rightarrow> Process \<Rightarrow> Process option" where
  "process_step X cfg (Message now data) p = do {
     st \<leftarrow> tv_handle (ou_M X) (pc_tv p) (now, data) (pc_sys p); Some (p\<lparr>pc_sys := st\<rparr>) }"
| "process_step X cfg (Dialed now) p = Some (on_sys (fold (markConnected now) (routesSnapshot (pc_tv p))) p)"
| "process_step X cfg (Dropped err) p = Some (on_sys (markAllDisconnected err (pc_tv p) \<circ> markAllDisconnected '''' (pc_tv p)) p)"
| "process_step X cfg (Reroute body) p = Some (p\<lparr>pc_tv := refreshed_routes body (current_store (pc_cat p) (pc_sys p)) (pc_tv p)\<rparr>)"
| "process_step X cfg (Catalogue rf) p =
     (case refresh_tick (ou_sprint X) (networkIDSet (cf_NetworkIDs cfg)) rf (pc_tv p, pc_cat p, pc_sys p) of
        (t, s, st) \<Rightarrow> Some (p\<lparr>pc_tv := t, pc_cat := s, pc_sys := st\<rparr>))"
| "process_step X cfg (Sync now reply saves records) p =
     (if cf_ImportURL cfg = '''' then Some p else syncDirectory (ou_sig X) (ou_alloc X) now reply saves records p)"
| "process_step X cfg (SweepTick now) p = Some (sweepAll cfg now p)"
| "process_step X cfg (FlagTick now) p = Some (flagNodes now p)"
| "process_step X cfg (AreasTick reply) p = Some (refreshAreas reply p)"
| "process_step X cfg (Backfill reads) p = Some (backfillAdverts reads p)"
| "process_step X cfg (LinkRestore reads) p = Some (restoreLinks reads p)"
| "process_step X cfg (CounterFlush now dur commits) p = Some (flushCounters now dur commits p)"
| "process_step X cfg NodeTake p = Some (takeNodes p)"
| "process_step X cfg (NodeSave now dur commits) p = Some (saveNodes now dur commits p)"
| "process_step X cfg AdvertRead p = Some (readAdverts p)"
| "process_step X cfg (AdvertAppend dur commits) p = Some (appendAdverts dur commits p)"
| "process_step X cfg LinkTake p = Some (takeLinks p)"
| "process_step X cfg (LinkSave dur commits) p = Some (saveLinks dur commits p)"
| "process_step X cfg ObserverTake p = Some (takeObservers p)"
| "process_step X cfg (ObserverSave now dur commits) p = Some (saveObservers now dur commits p)"

primrec process_run :: "outside \<Rightarrow> AppConfig \<Rightarrow> processStep list \<Rightarrow> Process \<Rightarrow> Process option" where
  "process_run X cfg [] p = Some p"
| "process_run X cfg (x # xs) p = do { p \<leftarrow> process_step X cfg x p; process_run X cfg xs p }"

text \<open>The final flush of the loops at the end of the context, one loop after the other.\<close>

definition final_flush :: "unix_time \<Rightarrow> processStep list" where
  "final_flush now = [CounterFlush now 0 True, NodeTake, NodeSave now 0 True, AdvertRead, AdvertAppend 0 True,
     LinkTake, LinkSave 0 True, ObserverTake, ObserverSave now 0 True]"

end
