(* ===== verification/Restart.thy ===== *)
theory Restart
  imports Lifecycle
begin

text \<open>
  What survives a restart: over any number of lives of the process, each ended by a final flush, with
  failed saves in between and steps in any order, the node rows, the observers and the advert
  history are those of all adverts and reports ever heard. The laws of the flush queues
  (FlushLoop, DirtyMap) are applied to the tables of the database through what the tables promise
  (\<open>upsert_table\<close> in Database). Also what is lost when the flush is not awaited or a read fails.
\<close>

subsection \<open>The advert of a message\<close>

definition decodedAdvert :: "meshpkt \<Rightarrow> wsPacket \<Rightarrow> advInfo option" where
  "decodedAdvert M p = do {
     raw \<leftarrow> hex_decode (to_lower (trim_space (wp_RawHex p)));
     pkt \<leftarrow> (if raw = [] then None else DecodePacket M raw);
     if pi_Type pkt \<noteq> PayloadAdvert M then None else DecodeAdvertPayload M (pi_Payload pkt) }"

definition frameAdvert :: "meshpkt \<Rightarrow> unix_time \<Rightarrow> Collector \<Rightarrow> json option \<Rightarrow> System \<Rightarrow> AdvertObservation list" where
  "frameAdvert M now col data st = (case frame_packet data of None \<Rightarrow> []
     | Some p \<Rightarrow> if col_nodes col \<and> payloadType p = Some (PayloadAdvert M)
         then (case decodedAdvert M p of None \<Rightarrow> []
           | Some adv \<Rightarrow> [advertObservation col p (to_lower (trim_space (wp_Hash p))) (to_lower (trim_space (wp_RawHex p))) now adv st])
         else [])"

definition messageAdvert :: "meshpkt \<Rightarrow> TangleveilCollector \<Rightarrow> unix_time \<Rightarrow> json option \<Rightarrow> System \<Rightarrow> AdvertObservation list" where
  "messageAdvert M t now data st = (case Option.bind data dec_tvEnvelope of None \<Rightarrow> []
     | Some env \<Rightarrow> (case te_Payload env of None \<Rightarrow> []
       | Some payload \<Rightarrow> (case mget (tv_routes t) (te_Source env) of None \<Rightarrow> []
         | Some col \<Rightarrow> frameAdvert M now col (Some payload) st)))"

definition hear :: "AdvertObservation list \<Rightarrow> NodeRegistry \<Rightarrow> NodeRegistry" where
  "hear as r = fold (\<lambda>a r. snd (nodes_Observe a r)) as r"

lemma hear_simps [simp]: "hear [] r = r" "hear [a] r = snd (nodes_Observe a r)"
  by (simp_all add: hear_def)

lemma collectAdvert_nodes:
  "sy_nodes (collectAdvert M col p hash now st) = hear (case decodedAdvert M p of None \<Rightarrow> []
     | Some adv \<Rightarrow> [advertObservation col p hash (to_lower (trim_space (wp_RawHex p))) now adv st]) (sy_nodes st)"
  by (auto simp: collectAdvert_def decodedAdvert_def decode_error_def Let_def split: option.splits list.splits prod.splits)

lemma network_Observe_names:
  "network_Observe n a ev h = Some h' \<Longrightarrow> h_networks h' = h_networks h \<and> h_analyzers h' = h_analyzers h"
  by (auto simp: network_Observe_def observe_at_def on_counter_def split: option.splits bind_splits)

lemma feed_parts [simp]:
  "sy_nodes (feedObservers col p now st) = sy_nodes st" "sy_nodes (feedLinks M col p hash now st) = sy_nodes st"
  "sy_observers (feedLinks M col p hash now st) = sy_observers st" "sy_observers (feedNodes M col p hash now st) = sy_observers st"
  by (auto simp: feedObservers_def feedLinks_def feedNodes_def collectAdvert_def decode_error_def Let_def
      split: option.split list.split prod.split)

lemma feedObservers_reports: "\<exists>us. length us \<le> 1 \<and> sy_observers (feedObservers col p now st) = fold observers_Observe us (sy_observers st)"
proof (cases "col_observers col")
  case True
  then show ?thesis by (intro exI [of _ "[\<lparr>oa_ObserverID = wp_ObserverID p, oa_Name = wp_ObserverName p,
             oa_NetworkID = networkID col st, oa_At = now\<rparr>]"]) (simp add: feedObservers_def)
qed (auto simp: feedObservers_def intro: exI [of _ "[]"])

lemma advertObservation_cong:
  "h_networks (sy_heap st) = h_networks (sy_heap st') \<Longrightarrow> h_analyzers (sy_heap st) = h_analyzers (sy_heap st') \<Longrightarrow>
   advertObservation col p hash raw now adv st = advertObservation col p hash raw now adv st'"
  by (simp add: advertObservation_def networkID_def analyzerName_def)

lemma handle_registries:
  assumes "handle M now col data st = Some st'"
  shows "sy_nodes st' = hear (frameAdvert M now col data st) (sy_nodes st)"
    and "\<exists>us. length us \<le> 1 \<and> sy_observers st' = fold observers_Observe us (sy_observers st)"
proof -
  have "sy_nodes st' = hear (frameAdvert M now col data st) (sy_nodes st)
    \<and> (\<exists>us. length us \<le> 1 \<and> sy_observers st' = fold observers_Observe us (sy_observers st))"
  proof (cases "frame_packet data")
    case None
    from rejected_frame [OF this, of M now col st] None assms show ?thesis
      by (auto simp: frameAdvert_def intro: exI [of _ "[]"])
  next
    case (Some p)
    let ?hash = "to_lower (trim_space (wp_Hash p))" and ?ev = "packetEvent M now p"
    let ?st0 = "st\<lparr>sy_metrics := setAnalyzerLastPacket (networkID col st) (analyzerName col st) now
               (recordPacket (networkID col st) (ev_PayloadType ?ev) (sy_metrics st))\<rparr>"
    have "\<exists>h. network_Observe (col_net col) (col_az col) ?ev (sy_heap st) = Some h
      \<and> st' = feedNodes M col p ?hash now (feedLinks M col p ?hash now (feedObservers col p now (?st0\<lparr>sy_heap := h\<rparr>)))"
      using Some assms
      by (auto simp: handle_def handlePacket_def frame_packet_def Let_def split: bind_splits option.splits if_splits)
    then obtain h where h: "network_Observe (col_net col) (col_az col) ?ev (sy_heap st) = Some h"
      "st' = feedNodes M col p ?hash now (feedLinks M col p ?hash now (feedObservers col p now (?st0\<lparr>sy_heap := h\<rparr>)))" by blast
    let ?st2 = "feedLinks M col p ?hash now (feedObservers col p now (?st0\<lparr>sy_heap := h\<rparr>))"
    have "advertObservation col p ?hash raw now adv ?st2 = advertObservation col p ?hash raw now adv st" for raw adv
      using network_Observe_names [OF h(1)] by (intro advertObservation_cong) simp_all
    then have "sy_nodes st' = hear (frameAdvert M now col data st) (sy_nodes st)"
      using Some by (simp add: h(2) feedNodes_def [of _ _ _ _ _ ?st2] collectAdvert_nodes frameAdvert_def split: option.split)
    then show ?thesis using feedObservers_reports [of col p now "?st0\<lparr>sy_heap := h\<rparr>"] by (simp add: h(2))
  qed
  then show "sy_nodes st' = hear (frameAdvert M now col data st) (sy_nodes st)"
    and "\<exists>us. length us \<le> 1 \<and> sy_observers st' = fold observers_Observe us (sy_observers st)" by blast+
qed

lemma message_registries:
  assumes "tv_handle M t (now, data) st = Some st'"
  shows "sy_nodes st' = hear (messageAdvert M t now data st) (sy_nodes st)"
    and "\<exists>us. length us \<le> 1 \<and> sy_observers st' = fold observers_Observe us (sy_observers st)"
  using assms handle_registries
  by (fastforce simp: tv_handle_def messageAdvert_def decode_error_def split: option.splits intro: exI [of _ "[]"])+

subsection \<open>What a step leaves alone\<close>

lemma mark_registries [simp]:
  "sy_nodes (fold (markConnected now) cols st) = sy_nodes st" "sy_observers (fold (markConnected now) cols st) = sy_observers st"
  "sy_nodes (markAllDisconnected err t st) = sy_nodes st" "sy_observers (markAllDisconnected err t st) = sy_observers st"
proof -
  have "sy_nodes (fold (markConnected now) cols st) = sy_nodes st \<and> sy_observers (fold (markConnected now) cols st) = sy_observers st"
    by (induction cols arbitrary: st) (simp_all add: markConnected_def on_system_heap_def Let_def)
  moreover have "sy_nodes (fold (markDisconnected err) cols st) = sy_nodes st
      \<and> sy_observers (fold (markDisconnected err) cols st) = sy_observers st" for cols
    by (induction cols arbitrary: st) (simp_all add: markDisconnected_def on_system_heap_def Let_def)
  ultimately show "sy_nodes (fold (markConnected now) cols st) = sy_nodes st" "sy_observers (fold (markConnected now) cols st) = sy_observers st"
    "sy_nodes (markAllDisconnected err t st) = sy_nodes st" "sy_observers (markAllDisconnected err t st) = sy_observers st"
    by (simp_all add: markAllDisconnected_def)
qed

lemma refresh_tick_registries:
  "refresh_tick sprint flt rf (t, s, st) = (t', s', st') \<Longrightarrow> sy_nodes st' = sy_nodes st \<and> sy_observers st' = sy_observers st"
  by (auto simp: refresh_tick_def Let_def split: option.splits if_splits)

lemma exec_all_keeps:
  "(\<And>x d d'. exec x d = Some d' \<Longrightarrow> f d' = f d) \<Longrightarrow> exec_all exec xs d = Some d' \<Longrightarrow> f d' = f d"
proof (induction xs arbitrary: d)
  case (Cons x xs)
  then show ?case by (fastforce split: bind_splits)
qed simp

lemma transaction_keeps:
  assumes "\<And>x d d'. exec x d = Some d' \<Longrightarrow> f d' = f d"
  shows "f (snd (transaction commits (exec_all exec xs) d)) = f d"
  using exec_all_keeps [of exec f, OF assms] by (auto simp: transaction_def split: option.split)

lemma save_keeps:
  "db_nodes (snd (db_Save c states now core)) = db_nodes core" "db_adverts (snd (db_Save c states now core)) = db_adverts core"
  "db_observers (snd (db_Save c states now core)) = db_observers core"
  "db_adverts (snd (SaveNodes c ns now core)) = db_adverts core" "db_observers (snd (SaveNodes c ns now core)) = db_observers core"
  "db_nodes (snd (SaveObservers c obs now core)) = db_nodes core" "db_adverts (snd (SaveObservers c obs now core)) = db_adverts core"
  unfolding db_Save_def SaveNodes_def SaveObservers_def
  by (rule transaction_keeps; auto simp: save_counter_def save_node_def save_observer_def split: prod.splits bind_splits)+

lemma append_keeps:
  "db_nodes (snd (AppendAdverts c as core)) = db_nodes core" "db_observers (snd (AppendAdverts c as core)) = db_observers core"
proof -
  have "db_nodes (snd (transaction c (exec_all insert_advert as) core)) = db_nodes core"
    "db_observers (snd (transaction c (exec_all insert_advert as) core)) = db_observers core"
    by (rule transaction_keeps; auto simp: insert_advert_def)+
  then show "db_nodes (snd (AppendAdverts c as core)) = db_nodes core" "db_observers (snd (AppendAdverts c as core)) = db_observers core"
    by (auto simp: AppendAdverts_def split: prod.split bool.split)
qed

text \<open>The tables the core registries are stored in.\<close>

definition core_tables :: "ImportDB \<Rightarrow> (string, nodeRow) gomap \<times> advertRow list \<times> (string, observerRow) gomap" where
  "core_tables d = (db_nodes (idb_core d), db_adverts (idb_core d), db_observers (idb_core d))"

lemma stats_tables [simp]:
  "core_tables (initStats d) = core_tables d" "core_tables (setLoadedNodeCount n d) = core_tables d"
  "core_tables (setImportedNodeCount n d) = core_tables d" "core_tables (refreshImportedNodeCount d) = core_tables d"
  "core_tables (refreshImportedNodeHistoryCount d) = core_tables d"
  by (simp_all add: core_tables_def initStats_def setLoadedNodeCount_def setImportedNodeCount_def
      refreshImportedNodeCount_def refreshImportedNodeHistoryCount_def upd_stats_def)

lemma mirror_tables:
  "core_tables (snd (SaveImportedNodes c ns now d)) = core_tables d"
  "core_tables (snd (SaveImportedNodeHistory sig alloc c ns now d)) = core_tables d"
proof -
  have "core_tables (snd (transaction c (exec_all (save_imported now) ns) d)) = core_tables d"
    by (rule transaction_keeps) (auto simp: save_imported_def core_tables_def split: if_splits)
  moreover have "core_tables (snd (transaction c (exec_all (save_history sig alloc now) ns) d)) = core_tables d"
    by (rule transaction_keeps) (auto simp: save_history_def core_tables_def Let_def split: if_splits)
  ultimately show "core_tables (snd (SaveImportedNodes c ns now d)) = core_tables d"
    "core_tables (snd (SaveImportedNodeHistory sig alloc c ns now d)) = core_tables d"
    by (auto simp: SaveImportedNodes_def SaveImportedNodeHistory_def split: prod.split bool.split)
qed

lemma sync_tables:
  assumes "syncDirectory sig alloc now reply saves records p = Some p'"
  shows "map_option core_tables (pc_db p') = map_option core_tables (pc_db p)"
proof -
  have s: "SaveImportedNodes c ns now d = (ok, d') \<Longrightarrow> core_tables d' = core_tables d"
    "SaveImportedNodeHistory sig alloc c ns now d = (ok, d') \<Longrightarrow> core_tables d' = core_tables d" for c ns d ok d'
    using mirror_tables [where d = d and c = c and now = now] by (metis snd_conv)+
  show ?thesis using assms
    by (auto simp: syncDirectory_def syncOnce_def Let_def dest!: s split: bind_splits sum.splits option.splits prod.splits if_splits)
qed

lemma sync_rest:
  "syncDirectory sig alloc now reply saves records p = Some p' \<Longrightarrow> pc_sys p' = pc_sys p \<and> pc_nodeBatch p' = pc_nodeBatch p
     \<and> pc_advertBatch p' = pc_advertBatch p \<and> pc_observerBatch p' = pc_observerBatch p"
  by (auto simp: syncDirectory_def split: bind_splits prod.splits)

subsection \<open>The process as write-behind queues\<close>

text \<open>The adverts a step hears.\<close>

definition stepAdverts :: "outside \<Rightarrow> processStep \<Rightarrow> Process \<Rightarrow> AdvertObservation list" where
  "stepAdverts X x p = (case x of Message now data \<Rightarrow> messageAdvert (ou_M X) (pc_tv p) now data (pc_sys p) | _ \<Rightarrow> [])"

definition node_rows :: "Process \<Rightarrow> string \<Rightarrow> NodeRecord option" where
  "node_rows p = (case pc_db p of None \<Rightarrow> (\<lambda>_. None) | Some d \<Rightarrow> node_at (idb_core d))"

definition observer_rows :: "Process \<Rightarrow> string \<Rightarrow> ObserverRecord option" where
  "observer_rows p = (case pc_db p of None \<Rightarrow> (\<lambda>_. None) | Some d \<Rightarrow> observer_at (idb_core d))"

definition node_view :: "Process \<Rightarrow> (NodeRegistry, string, NodeRecord) flushState" where
  "node_view p = \<lparr>fs_reg = sy_nodes (pc_sys p), fs_db = node_rows p, fs_batch = pc_nodeBatch p\<rparr>"

definition observer_view :: "Process \<Rightarrow> (ObserverRegistry, string, ObserverRecord) flushState" where
  "observer_view p = \<lparr>fs_reg = sy_observers (pc_sys p), fs_db = observer_rows p, fs_batch = pc_observerBatch p\<rparr>"

abbreviation observer_key :: "ObserverRecord \<Rightarrow> string" where
  "observer_key \<equiv> canonObserverID \<circ> or_ObserverID"

abbreviation node_steps :: "nodeOp flushOp list \<Rightarrow> (NodeRegistry, string, NodeRecord) flushState \<Rightarrow> (NodeRegistry, string, NodeRecord) flushState" where
  "node_steps \<equiv> flush_run node_step nodes_TakeDirty nodes_Requeue nod_PubKey"

abbreviation observer_steps :: "ObserverActivity flushOp list \<Rightarrow> (ObserverRegistry, string, ObserverRecord) flushState
    \<Rightarrow> (ObserverRegistry, string, ObserverRecord) flushState" where
  "observer_steps \<equiv> flush_run observers_Observe observers_TakeDirty observers_Requeue observer_key"

text \<open>The adverts among the operations of a run of the node queue.\<close>

definition ops_adverts :: "nodeOp flushOp list \<Rightarrow> AdvertObservation list" where
  "ops_adverts ops = concat (map (\<lambda>x. case x of Update u \<Rightarrow> adverts_of [u] | _ \<Rightarrow> []) ops)"

lemma same_tables:
  assumes "map_option core_tables (pc_db p') = map_option core_tables (pc_db p)"
  shows "node_rows p' = node_rows p" "observer_rows p' = observer_rows p" "pc_db p' = None \<longleftrightarrow> pc_db p = None"
  using assms
  by (auto simp: node_rows_def observer_rows_def core_tables_def node_at_def observer_at_def fun_eq_iff split: option.splits)

definition overviews :: "Process \<Rightarrow> bool" where
  "overviews p \<longleftrightarrow> pc_db p \<noteq> None \<and> (\<forall>n\<in>set (pc_nodeBatch p). overview n = n)"

lemma taken_overviews: "n \<in> set (fst (nodes_TakeDirty r)) \<Longrightarrow> overview n = n"
  by (auto simp: nodes_TakeDirty_def dirty_rows_iff split: if_splits)

lemma takeNodes_view:
  assumes "overviews p"
  shows "node_view (takeNodes p) = node_steps [Take] (node_view p) \<and> overviews (takeNodes p) \<and> observer_view (takeNodes p) = observer_view p"
  using assms taken_overviews [of _ "sy_nodes (pc_sys p)"]
  by (auto simp: takeNodes_def node_view_def overviews_def on_sys_def node_rows_def observer_view_def observer_rows_def split: prod.split)

lemma saveNodes_ok:
  assumes "overviews p" "\<forall>n\<in>set (pc_nodeBatch p). uint (nod_AdvertCount n) < 2 ^ 63"
  shows "node_view (saveNodes now dur True p) = node_steps [SaveOk] (node_view p)"
proof (cases "pc_nodeBatch p = []")
  case True
  then show ?thesis by (simp add: saveNodes_def node_view_def db_save_def split: option.split)
next
  case False
  obtain d where d: "pc_db p = Some d" using assms by (auto simp: overviews_def)
  have ob: "map overview (pc_nodeBatch p) = pc_nodeBatch p" using assms by (simp add: overviews_def map_idI)
  obtain core where core: "SaveNodes True (pc_nodeBatch p) now (idb_core d) = (True, core)"
      "node_at core = db_save nod_PubKey (pc_nodeBatch p) (node_at (idb_core d))"
    using node_table.saved [of "pc_nodeBatch p" now "idb_core d"] assms(2) by (auto simp: SaveNodes_def ob)
  show ?thesis using False core by (simp add: saveNodes_def d node_view_def node_rows_def on_sys_def flushed_metrics_def
          setLoadedNodeCount_def upd_stats_def node_at_def fun_eq_iff)
qed

lemma saveNodes_view:
  assumes "overviews p"
  shows "(\<exists>ops. node_view (saveNodes now dur c p) = node_steps ops (node_view p) \<and> ops_adverts ops = [])
    \<and> overviews (saveNodes now dur c p) \<and> observer_view (saveNodes now dur c p) = observer_view p"
proof -
  obtain d where d: "pc_db p = Some d" using assms by (auto simp: overviews_def)
  let ?b = "pc_nodeBatch p"
  have "db_observers (snd (SaveNodes c ?b now (idb_core d))) = db_observers (idb_core d)" by (rule save_keeps)
  then have rest: "overviews (saveNodes now dur c p) \<and> observer_view (saveNodes now dur c p) = observer_view p"
    using assms by (auto simp: saveNodes_def d overviews_def observer_view_def observer_rows_def on_sys_def flushed_metrics_def
          setLoadedNodeCount_def upd_stats_def observer_at_def Let_def fun_eq_iff split: prod.split)
  show ?thesis
  proof (cases "c \<and> (\<forall>n\<in>set ?b. uint (nod_AdvertCount n) < 2 ^ 63)")
    case True
    then show ?thesis using saveNodes_ok [OF assms, of now dur] rest
      by (auto simp: ops_adverts_def intro!: exI [of _ "[SaveOk]"])
  next
    case False
    then have core: "SaveNodes c ?b now (idb_core d) = (False, idb_core d)"
      unfolding SaveNodes_def by (intro node_table.rolled_back) auto
    have "node_view (saveNodes now dur c p) = node_steps (if ?b = [] then [] else [SaveFail]) (node_view p)"
      using core by (simp add: saveNodes_def d node_view_def node_rows_def on_sys_def flushed_metrics_def)
    then show ?thesis using rest by (auto simp: ops_adverts_def intro!: exI [of _ "if ?b = [] then [] else [SaveFail]"])
  qed
qed

lemma db_save_cong: "(\<And>v. v \<in> set b \<Longrightarrow> key v = key' v) \<Longrightarrow> db_save key b db = db_save key' b db"
  unfolding db_save_def by (rule fold_cong) auto

lemma saveObservers_ok:
  assumes "overviews p" and canonical: "\<forall>v\<in>set (pc_observerBatch p). canonical_row v"
    and fits: "\<forall>v\<in>set (pc_observerBatch p). uint (or_Observations v) < 2 ^ 63"
  shows "observer_view (saveObservers now dur True p) = observer_steps [SaveOk] (observer_view p)"
proof (cases "pc_observerBatch p = []")
  case True
  then show ?thesis by (simp add: saveObservers_def observer_view_def db_save_def split: option.split)
next
  case False
  obtain d where d: "pc_db p = Some d" using assms by (auto simp: overviews_def)
  have key: "db_save or_ObserverID (pc_observerBatch p) db = db_save observer_key (pc_observerBatch p) db" for db
    by (rule db_save_cong) (use canonical in \<open>auto simp: canonical_row_def\<close>)
  obtain core where core: "SaveObservers True (pc_observerBatch p) now (idb_core d) = (True, core)"
      "observer_at core = db_save or_ObserverID (pc_observerBatch p) (observer_at (idb_core d))"
    using observer_table.saved [of "pc_observerBatch p" now "idb_core d"] fits by (auto simp: SaveObservers_def)
  show ?thesis using False core by (simp add: saveObservers_def d observer_view_def observer_rows_def on_sys_def flushed_metrics_def key)
qed

lemma saveObservers_view:
  assumes "overviews p" and canonical: "\<forall>v\<in>set (pc_observerBatch p). canonical_row v"
  shows "(\<exists>ops. observer_view (saveObservers now dur c p) = observer_steps ops (observer_view p))
    \<and> overviews (saveObservers now dur c p) \<and> node_view (saveObservers now dur c p) = node_view p"
proof -
  obtain d where d: "pc_db p = Some d" using assms by (auto simp: overviews_def)
  let ?b = "pc_observerBatch p"
  have "db_nodes (snd (SaveObservers c ?b now (idb_core d))) = db_nodes (idb_core d)" by (rule save_keeps)
  then have rest: "overviews (saveObservers now dur c p) \<and> node_view (saveObservers now dur c p) = node_view p"
    using assms(1) by (auto simp: saveObservers_def d overviews_def node_view_def node_rows_def on_sys_def flushed_metrics_def
          node_at_def fun_eq_iff Let_def split: prod.split)
  show ?thesis
  proof (cases "c \<and> (\<forall>v\<in>set ?b. uint (or_Observations v) < 2 ^ 63)")
    case True
    with rest saveObservers_ok [OF assms, of now dur] show ?thesis by metis
  next
    case False
    then have core: "SaveObservers c ?b now (idb_core d) = (False, idb_core d)"
      unfolding SaveObservers_def by (intro observer_table.rolled_back) auto
    have "observer_view (saveObservers now dur c p) = observer_steps (if ?b = [] then [] else [SaveFail]) (observer_view p)"
      using core by (simp add: saveObservers_def d observer_view_def observer_rows_def on_sys_def flushed_metrics_def)
    with rest show ?thesis by blast
  qed
qed

lemma takeObservers_view:
  assumes "overviews p"
  shows "observer_view (takeObservers p) = observer_steps [Take] (observer_view p) \<and> overviews (takeObservers p)
    \<and> node_view (takeObservers p) = node_view p"
  using assms by (auto simp: takeObservers_def node_view_def overviews_def on_sys_def node_rows_def observer_view_def
      observer_rows_def split: prod.split)

lemma appendAdverts_view:
  assumes "overviews p"
  shows "(\<exists>ops. node_view (appendAdverts dur c p) = node_steps ops (node_view p) \<and> ops_adverts ops = [])
    \<and> overviews (appendAdverts dur c p) \<and> observer_view (appendAdverts dur c p) = observer_view p"
proof -
  obtain d where d: "pc_db p = Some d" using assms by (auto simp: overviews_def)
  let ?b = "pc_advertBatch p"
  obtain ok core where core: "AppendAdverts c ?b (idb_core d) = (ok, core)" by fastforce
  have keeps: "db_nodes core = db_nodes (idb_core d)" "db_observers core = db_observers (idb_core d)"
    using append_keeps [of c ?b "idb_core d"] by (simp_all add: core)
  have "node_view (appendAdverts dur c p) = node_steps (if ?b \<noteq> [] \<and> ok then [Update (Cleared (length ?b))] else []) (node_view p)"
    using keeps by (simp add: appendAdverts_def d core node_view_def node_rows_def on_sys_def flushed_metrics_def node_at_def Let_def fun_eq_iff)
  moreover have "ops_adverts (if ?b \<noteq> [] \<and> ok then [Update (Cleared (length ?b))] else []) = []" by (simp add: ops_adverts_def)
  moreover have "overviews (appendAdverts dur c p) \<and> observer_view (appendAdverts dur c p) = observer_view p"
    using keeps assms by (auto simp: appendAdverts_def d core overviews_def observer_view_def observer_rows_def on_sys_def
        flushed_metrics_def observer_at_def Let_def fun_eq_iff)
  ultimately show ?thesis by blast
qed

lemma hear_steps:
  "node_steps (map (Update \<circ> Heard) as) st = st\<lparr>fs_reg := hear as (fs_reg st)\<rparr>" "ops_adverts (map (Update \<circ> Heard) as) = as"
proof -
  show "node_steps (map (Update \<circ> Heard) as) st = st\<lparr>fs_reg := hear as (fs_reg st)\<rparr>"
    by (induction as arbitrary: st) (simp_all add: hear_def)
  show "ops_adverts (map (Update \<circ> Heard) as) = as"
    by (induction as) (simp_all add: ops_adverts_def)
qed

lemma report_steps: "observer_steps (map Update us) st = st\<lparr>fs_reg := fold observers_Observe us (fs_reg st)\<rparr>"
  by (induction us arbitrary: st) simp_all

lemma scan_flags: "\<exists>d. fst (scanOnce now f r) = snd (ApplyFlags d r) \<or> fst (scanOnce now f r) = r"
  by (auto simp: scanOnce_def Let_def split: option.split prod.split) (metis snd_conv)

lemma flagNodes_view:
  assumes "overviews p"
  shows "(\<exists>ops. node_view (flagNodes now p) = node_steps ops (node_view p) \<and> ops_adverts ops = [])
    \<and> overviews (flagNodes now p) \<and> observer_view (flagNodes now p) = observer_view p"
proof -
  obtain ops where "node_view (flagNodes now p) = node_steps ops (node_view p)" "ops_adverts ops = []"
  proof (cases "pc_flagger p")
    case None
    then show ?thesis using that [of "[]"] by (simp add: flagNodes_def ops_adverts_def)
  next
    case (Some f)
    have fst: "sy_nodes (pc_sys (flagNodes now p)) = fst (scanOnce now f (sy_nodes (pc_sys p)))"
      "pc_db (flagNodes now p) = pc_db p" "pc_nodeBatch (flagNodes now p) = pc_nodeBatch p"
      by (auto simp: flagNodes_def Some on_sys_def split: prod.split)
    obtain d where "fst (scanOnce now f (sy_nodes (pc_sys p))) = snd (ApplyFlags d (sy_nodes (pc_sys p)))
        \<or> fst (scanOnce now f (sy_nodes (pc_sys p))) = sy_nodes (pc_sys p)" using scan_flags by blast
    then show ?thesis using that [of "[Update (Flagged d)]"] that [of "[]"]
      by (auto simp: node_view_def fst node_rows_def ops_adverts_def)
  qed
  moreover have "overviews (flagNodes now p) \<and> observer_view (flagNodes now p) = observer_view p"
    using assms by (auto simp: flagNodes_def overviews_def observer_view_def observer_rows_def on_sys_def split: option.split prod.split)
  ultimately show ?thesis by blast
qed

lemma backfill_view:
  assumes "overviews p"
  shows "(\<exists>ops. node_view (backfillAdverts reads p) = node_steps ops (node_view p) \<and> ops_adverts ops = [])
    \<and> overviews (backfillAdverts reads p) \<and> observer_view (backfillAdverts reads p) = observer_view p"
proof -
  obtain d where d: "pc_db p = Some d" using assms by (auto simp: overviews_def)
  let ?recent = "LoadRecentAdverts (pc_backfill p) defaultAdvertsPerNode (idb_core d)"
  have "node_view (backfillAdverts reads p) = node_steps (if pc_backfill p \<noteq> [] \<and> reads then [Update (Attached ?recent)] else []) (node_view p)"
    by (simp add: backfillAdverts_def d node_view_def node_rows_def on_sys_def)
  moreover have "ops_adverts (if pc_backfill p \<noteq> [] \<and> reads then [Update (Attached ?recent)] else []) = []" by (simp add: ops_adverts_def)
  moreover have "overviews (backfillAdverts reads p) \<and> observer_view (backfillAdverts reads p) = observer_view p"
    using assms by (auto simp: backfillAdverts_def d overviews_def observer_view_def observer_rows_def on_sys_def)
  ultimately show ?thesis by blast
qed

lemma process_step_views:
  assumes step: "process_step X cfg x p = Some p'" and ov: "overviews p"
    and canonical: "\<forall>v\<in>set (pc_observerBatch p). canonical_row v"
  shows "(\<exists>ops. node_view p' = node_steps ops (node_view p) \<and> ops_adverts ops = stepAdverts X x p)
    \<and> (\<exists>ops. observer_view p' = observer_steps ops (observer_view p)) \<and> overviews p'"
proof -
  have nil: "ops_adverts [] = []" by (simp add: ops_adverts_def)
  have quiet: ?thesis if "stepAdverts X x p = []" "node_view p' = node_view p \<and> observer_view p' = observer_view p \<and> overviews p'"
    using that nil by (metis flush_run.simps(1))
  have same: "node_view p' = node_view p \<and> observer_view p' = observer_view p \<and> overviews p'"
    if "sy_nodes (pc_sys p') = sy_nodes (pc_sys p)" "sy_observers (pc_sys p') = sy_observers (pc_sys p)"
      "map_option core_tables (pc_db p') = map_option core_tables (pc_db p)" "pc_nodeBatch p' = pc_nodeBatch p"
      "pc_observerBatch p' = pc_observerBatch p"
    using that ov same_tables [OF that(3)] by (simp add: node_view_def observer_view_def overviews_def)
  show ?thesis
  proof (cases x)
    case (Message now data)
    then obtain st where st: "tv_handle (ou_M X) (pc_tv p) (now, data) (pc_sys p) = Some st" "p' = p\<lparr>pc_sys := st\<rparr>"
      using step by (auto split: bind_splits)
    let ?as = "messageAdvert (ou_M X) (pc_tv p) now data (pc_sys p)"
    obtain us where "sy_observers st = fold observers_Observe us (sy_observers (pc_sys p))"
      using message_registries(2) [OF st(1)] by blast
    then have "observer_view p' = observer_steps (map Update us) (observer_view p)"
      by (simp add: report_steps observer_view_def st(2) observer_rows_def)
    moreover have "node_view p' = node_steps (map (Update \<circ> Heard) ?as) (node_view p)"
      using message_registries(1) [OF st(1)] by (simp add: hear_steps node_view_def st(2) node_rows_def)
    moreover have "overviews p'" using ov by (simp add: overviews_def st(2))
    moreover have "ops_adverts (map (Update \<circ> Heard) ?as) = stepAdverts X x p" by (simp add: hear_steps stepAdverts_def Message)
    ultimately show ?thesis by blast
  next
    case (Catalogue rf)
    then have "node_view p' = node_view p \<and> observer_view p' = observer_view p \<and> overviews p'"
      using step by (intro same) (auto dest: refresh_tick_registries split: prod.splits)
    then show ?thesis by (intro quiet) (simp_all add: Catalogue stepAdverts_def)
  next
    case (Sync now reply saves records)
    then have "node_view p' = node_view p \<and> observer_view p' = observer_view p \<and> overviews p'"
      using step by (intro same) (auto dest: sync_tables sync_rest split: if_splits)
    then show ?thesis by (intro quiet) (simp_all add: Sync stepAdverts_def)
  next
    case (FlagTick now)
    then show ?thesis using step flagNodes_view [OF ov] nil by (auto simp: stepAdverts_def intro: exI [of _ "[]"])
  next
    case (Backfill reads)
    then show ?thesis using step backfill_view [OF ov] nil by (auto simp: stepAdverts_def intro: exI [of _ "[]"])
  next
    case NodeTake
    then show ?thesis using step takeNodes_view [OF ov] by (auto simp: stepAdverts_def ops_adverts_def intro: exI [of _ "[]"] exI [of _ "[Take]"])
  next
    case (NodeSave now dur c)
    then show ?thesis using step saveNodes_view [OF ov] by (auto simp: stepAdverts_def intro: exI [of _ "[]"])
  next
    case (AdvertAppend dur c)
    then show ?thesis using step appendAdverts_view [OF ov] by (auto simp: stepAdverts_def intro: exI [of _ "[]"])
  next
    case ObserverTake
    then show ?thesis using step takeObservers_view [OF ov] nil by (auto simp: stepAdverts_def intro: exI [of _ "[]"] exI [of _ "[Take]"])
  next
    case (ObserverSave now dur c)
    then show ?thesis using step saveObservers_view [OF ov canonical] nil by (auto simp: stepAdverts_def intro: exI [of _ "[]"])
  next
    case (CounterFlush now dur c)
    have "map_option core_tables (pc_db p') = map_option core_tables (pc_db p)"
      using step CounterFlush save_keeps(1-3) [of c _ now]
      by (auto simp: flushCounters_def Let_def core_tables_def split: option.splits prod.splits) (metis snd_conv)+
    then have "node_view p' = node_view p \<and> observer_view p' = observer_view p \<and> overviews p'"
      using step CounterFlush by (intro same) (auto simp: flushCounters_def Let_def on_sys_def flushed_metrics_def split: option.splits prod.splits)
    then show ?thesis by (intro quiet) (simp_all add: CounterFlush stepAdverts_def)
  qed (rule quiet, simp add: stepAdverts_def, rule same;
      use step in \<open>auto simp: on_sys_def on_store_def sweepAll_def refreshAreas_def restoreLinks_def
        readAdverts_def takeLinks_def saveLinks_def flushed_metrics_def Let_def split: option.splits prod.splits if_splits\<close>)+
qed

subsection \<open>The advert history\<close>

definition advert_view :: "Process \<Rightarrow> advertRow list option \<times> AdvertObservation list \<times> AdvertObservation list" where
  "advert_view p = (map_option (\<lambda>d. db_adverts (idb_core d)) (pc_db p), nr_pending (sy_nodes (pc_sys p)), pc_advertBatch p)"

definition adverts_kept :: "AdvertObservation list \<Rightarrow> Process \<Rightarrow> bool" where
  "adverts_kept as p \<longleftrightarrow> (\<exists>rows pending batch. advert_view p = (Some rows, pending, batch) \<and> ids_ok rows
     \<and> map load_advert rows @ pending = filter (\<lambda>a. ao_PubKey a \<noteq> '''') as \<and> (\<exists>later. pending = batch @ later))"

lemma pending_hear [simp]: "nr_pending (hear as r) = nr_pending r @ filter (\<lambda>a. ao_PubKey a \<noteq> '''') as"
proof -
  have "nr_pending (fold (\<lambda>a r. snd (nodes_Observe a r)) as r) = nr_pending r @ filter (\<lambda>a. ao_PubKey a \<noteq> '''') as"
  proof (induction as arbitrary: r)
    case (Cons a as)
    show ?case using Cons.IH [of "snd (nodes_Observe a r)"] by simp
  qed simp
  then show ?thesis by (simp add: hear_def)
qed

lemma pending_flush [simp]:
  "nr_pending (snd (nodes_TakeDirty r)) = nr_pending r" "nr_pending (nodes_Requeue b r) = nr_pending r"
  "nr_nodes (snd (nodes_TakeDirty r)) = nr_nodes r" "nr_nodes (nodes_Requeue b r) = nr_nodes r"
  "nr_maxAdverts (snd (nodes_TakeDirty r)) = nr_maxAdverts r" "nr_maxAdverts (nodes_Requeue b r) = nr_maxAdverts r"
  by (simp_all add: nodes_TakeDirty_def nodes_Requeue_def)

lemma pending_scan: "nr_pending (fst (scanOnce now f r)) = nr_pending r"
proof -
  have "ApplyFlags d r = (c, r') \<Longrightarrow> nr_pending r' = nr_pending r" for d c r'
    using ApplyFlags_eq(5) [of d r] by simp
  then show ?thesis by (auto simp: scanOnce_def Let_def split: option.split prod.split)
qed

lemma append_view:
  assumes "adverts_kept as p"
  shows "adverts_kept as (appendAdverts dur c p)"
proof -
  obtain d later where d: "pc_db p = Some d" "ids_ok (db_adverts (idb_core d))"
    "map load_advert (db_adverts (idb_core d)) @ nr_pending (sy_nodes (pc_sys p)) = filter (\<lambda>a. ao_PubKey a \<noteq> '''') as"
    "nr_pending (sy_nodes (pc_sys p)) = pc_advertBatch p @ later"
    using assms by (auto simp: adverts_kept_def advert_view_def)
  let ?b = "pc_advertBatch p"
  obtain ok core where core: "AppendAdverts c ?b (idb_core d) = (ok, core)" by fastforce
  have ok: "ok = c \<or> ?b = []" using insert_adverts [OF d(2), of ?b] core
    by (cases c; cases "?b = []") (auto simp: AppendAdverts_def transaction_def)
  note eff = AppendAdverts_effect(1,2) [OF d(2), of c ?b, unfolded core snd_conv]
  show ?thesis
  proof (cases "?b = []")
    case True
    then show ?thesis using assms by (simp add: appendAdverts_def d(1))
  next
    case False
    have "advert_view (appendAdverts dur c p) = (Some (db_adverts core), (if c then later else nr_pending (sy_nodes (pc_sys p))), [])"
      using False ok by (simp add: appendAdverts_def d(1,4) core advert_view_def on_sys_def flushed_metrics_def Let_def)
    then show ?thesis using eff d(3,4) False ok by (auto simp: adverts_kept_def)
  qed
qed

lemma adverts_kept_step:
  assumes step: "process_step X cfg x p = Some p'" and kept: "adverts_kept as p"
  shows "adverts_kept (as @ stepAdverts X x p) p'"
proof -
  have quiet: ?thesis if "stepAdverts X x p = []" "advert_view p' = advert_view p"
    using that kept by (simp add: adverts_kept_def)
  have tables: "map_option (\<lambda>d. db_adverts (idb_core d)) (pc_db q) = map_option (\<lambda>d. db_adverts (idb_core d)) (pc_db p)"
    if "map_option core_tables (pc_db q) = map_option core_tables (pc_db p)" for q
    using that by (cases "pc_db q"; cases "pc_db p") (auto simp: core_tables_def)
  show ?thesis
  proof (cases x)
    case (Message now data)
    then obtain st where st: "tv_handle (ou_M X) (pc_tv p) (now, data) (pc_sys p) = Some st" "p' = p\<lparr>pc_sys := st\<rparr>"
      using step by (auto split: bind_splits)
    show ?thesis using kept message_registries(1) [OF st(1)]
      by (auto simp: adverts_kept_def advert_view_def st(2) stepAdverts_def Message)
  next
    case AdvertRead
    then show ?thesis using step kept
      by (auto simp: adverts_kept_def advert_view_def readAdverts_def stepAdverts_def PendingAdverts_def split: if_splits)
  next
    case (AdvertAppend dur c)
    then show ?thesis using step append_view [OF kept] by (auto simp: stepAdverts_def)
  next
    case (Catalogue rf)
    then show ?thesis using step by (intro quiet) (auto simp: stepAdverts_def advert_view_def dest: refresh_tick_registries split: prod.splits)
  next
    case (Sync now reply saves records)
    then show ?thesis using step by (intro quiet) (auto simp: stepAdverts_def advert_view_def dest: tables [OF sync_tables] sync_rest split: if_splits)
  next
    case (FlagTick now)
    have "nr_pending (sy_nodes (pc_sys (flagNodes now p))) = nr_pending (sy_nodes (pc_sys p))"
      using pending_scan [of now _ "sy_nodes (pc_sys p)"]
      by (auto simp: flagNodes_def on_sys_def split: option.split prod.split) (metis fst_conv)
    then show ?thesis using step FlagTick
      by (intro quiet) (auto simp: stepAdverts_def advert_view_def flagNodes_def on_sys_def split: option.splits prod.splits)
  next
    case (CounterFlush now dur c)
    then show ?thesis using step save_keeps(2) [of c _ now]
      by (intro quiet) (auto simp: stepAdverts_def advert_view_def flushCounters_def on_sys_def flushed_metrics_def Let_def
          split: option.splits prod.splits, metis snd_conv)
  next
    case (NodeSave now dur c)
    have "map_option (\<lambda>d. db_adverts (idb_core d)) (pc_db (saveNodes now dur c p)) = map_option (\<lambda>d. db_adverts (idb_core d)) (pc_db p)"
      using save_keeps(4) [of c "pc_nodeBatch p" now]
      by (auto simp: saveNodes_def on_sys_def flushed_metrics_def Let_def setLoadedNodeCount_def upd_stats_def split: option.splits prod.splits)
        (metis snd_conv)+
    then show ?thesis using step NodeSave
      by (intro quiet) (auto simp: stepAdverts_def advert_view_def saveNodes_def on_sys_def flushed_metrics_def Let_def split: option.splits prod.splits)
  next
    case (ObserverSave now dur c)
    have "map_option (\<lambda>d. db_adverts (idb_core d)) (pc_db (saveObservers now dur c p)) = map_option (\<lambda>d. db_adverts (idb_core d)) (pc_db p)"
      using save_keeps(7) [of c "pc_observerBatch p" now]
      by (auto simp: saveObservers_def on_sys_def flushed_metrics_def Let_def split: option.splits prod.splits) (metis snd_conv)+
    then show ?thesis using step ObserverSave
      by (intro quiet) (auto simp: stepAdverts_def advert_view_def saveObservers_def on_sys_def flushed_metrics_def Let_def split: option.splits prod.splits)
  qed (rule quiet, simp add: stepAdverts_def;
      use step Attach_rel in \<open>auto simp: advert_view_def on_sys_def on_store_def sweepAll_def refreshAreas_def restoreLinks_def backfillAdverts_def
        takeNodes_def takeLinks_def saveLinks_def takeObservers_def flushed_metrics_def Let_def nodes_TakeDirty_def
        split: option.splits prod.splits if_splits\<close>)+
qed

subsection \<open>The rows\<close>

text \<open>A row without its rolling list and flags, and the rows of the adverts heard.\<close>

abbreviation bare :: "NodeRecord \<Rightarrow> NodeRecord" where
  "bare n \<equiv> n\<lparr>nod_LatestAdverts := [], nod_Flags := []\<rparr>"

definition heard_row :: "AdvertObservation list \<Rightarrow> string \<Rightarrow> NodeRecord option" where
  "heard_row as pk = (if pk = '''' \<or> heard pk as = [] then None else Some (bare (summary (nat defaultAdvertsPerNode) (heard pk as))))"

definition rows_heard :: "AdvertObservation list \<Rightarrow> NodeRegistry \<Rightarrow> bool" where
  "rows_heard as r \<longleftrightarrow> nr_maxAdverts r = nat defaultAdvertsPerNode \<and> (\<forall>pk. map_option bare (mget (nr_nodes r) pk) = heard_row as pk)"

lemma bare_overview: "overview n = overview m \<Longrightarrow> bare n = bare m"
  by (cases n; cases m) (simp add: overview_def)

lemma bare_overviews: "map_option overview x = map_option overview y \<Longrightarrow> map_option bare x = map_option bare y"
  by (cases x; cases y; clarsimp simp del: NodeRecord.simps; erule bare_overview)

lemma bare_note: "bare n = bare m \<Longrightarrow> bare (noteAdvert cap a n) = bare (noteAdvert cap a m)"
  by (cases n; cases m) (simp add: noteAdvert_eq)

lemma rows_heard_Observe:
  assumes "rows_heard as r"
  shows "rows_heard (as @ [a]) (snd (nodes_Observe a r))"
proof -
  let ?cap = "nat defaultAdvertsPerNode"
  have cap: "nr_maxAdverts r = ?cap" "0 < ?cap" and row: "\<And>pk. map_option bare (mget (nr_nodes r) pk) = heard_row as pk"
    using assms by (auto simp: rows_heard_def defaultAdvertsPerNode_def)
  have "map_option bare (mget (nr_nodes (snd (nodes_Observe a r))) pk) = heard_row (as @ [a]) pk" for pk
  proof (cases "pk = ao_PubKey a \<and> pk \<noteq> ''''")
    case False
    then show ?thesis using row [of pk] by (auto simp: mget_nodes_Observe heard_row_def heard_snoc)
  next
    case True
    then have hs: "heard pk (as @ [a]) = heard pk as @ [a]" by (simp add: heard_snoc)
    show ?thesis
    proof (cases "mget (nr_nodes r) pk")
      case None
      then have "heard pk as = []" using row [of pk] True by (simp add: heard_row_def split: if_splits)
      then show ?thesis using True None by (auto simp: mget_nodes_Observe heard_row_def heard_snoc cap(1) summary_first [OF cap(2)])
    next
      case (Some n)
      then have h: "heard pk as \<noteq> []" "bare n = bare (summary ?cap (heard pk as))"
        using row [of pk] by (auto simp: heard_row_def split: if_splits)
      have "bare (noteAdvert ?cap a n) = bare (summary ?cap (heard pk as @ [a]))"
        using bare_note [OF h(2), of ?cap a] summary_snoc [OF h(1), of ?cap a] by simp
      then show ?thesis using True Some by (auto simp: mget_nodes_Observe heard_row_def heard_snoc cap(1))
    qed
  qed
  then show ?thesis using cap by (simp add: rows_heard_def)
qed

lemma rows_heard_step:
  assumes "rows_heard as (fs_reg st)"
  shows "rows_heard (as @ ops_adverts [x]) (fs_reg (flush_step node_step nodes_TakeDirty nodes_Requeue nod_PubKey x st))"
proof (cases x)
  case (Update u)
  show ?thesis
  proof (cases u)
    case (Heard a)
    then show ?thesis using rows_heard_Observe [OF assms] Update by (simp add: ops_adverts_def)
  next
    case (Flagged d)
    have "map_option bare (mget (nr_nodes (snd (ApplyFlags d r))) pk) = map_option bare (mget (nr_nodes r) pk)" for pk r
      by (auto simp: ApplyFlags_eq split: option.split)
    then show ?thesis using assms Update Flagged by (simp add: ops_adverts_def rows_heard_def ApplyFlags_eq)
  next
    case (Attached recent)
    have "map_option bare (mget (nr_nodes (AttachRecentAdverts recent r)) pk) = map_option bare (mget (nr_nodes r) pk)" for pk r
      by (rule bare_overviews) (use Attach_rel [of recent r pk] in blast)
    then show ?thesis using assms Update Attached Attach_rel [of recent "fs_reg st"] by (simp add: ops_adverts_def rows_heard_def)
  next
    case (Cleared n)
    then show ?thesis using assms Update by (simp add: ops_adverts_def rows_heard_def)
  qed
qed (use assms in \<open>simp_all add: ops_adverts_def rows_heard_def\<close>)

lemma ops_adverts_Cons: "ops_adverts (x # ops) = ops_adverts [x] @ ops_adverts ops"
  by (simp add: ops_adverts_def)

lemma rows_heard_run:
  "rows_heard as (fs_reg st) \<Longrightarrow> rows_heard (as @ ops_adverts ops) (fs_reg (node_steps ops st))"
proof (induction ops arbitrary: as st)
  case (Cons x ops)
  from Cons.IH [OF rows_heard_step [OF Cons.prems, of x]] show ?case by (simp add: ops_adverts_Cons [of x ops])
qed (simp add: ops_adverts_def)

subsection \<open>Nothing stored that is not live\<close>

lemma node_row_grows:
  assumes "node_flush.row_val s k \<noteq> None"
  shows "node_flush.row_val (node_step u s) k \<noteq> None"
proof (cases u)
  case (Attached recent)
  then show ?thesis using assms Attach_rel [of recent s k] by (auto simp: node_flush.row_val_def)
qed (use assms in \<open>auto simp: node_flush.row_val_def mget_nodes_Observe ApplyFlags_eq ClearPending_def split: option.splits\<close>)

lemma observer_row_grows: "observer_flush.row_val s k \<noteq> None \<Longrightarrow> observer_flush.row_val (observers_Observe u s) k \<noteq> None"
  by (auto simp: observer_flush.row_val_def observers_Observe_def Let_def mget_mput split: option.splits)

subsection \<open>Lives\<close>

text \<open>What holds of the process between steps: nothing of the registries is lost, and the rows are those of the
  adverts heard.\<close>

definition kept :: "AdvertObservation list \<Rightarrow> Process \<Rightarrow> bool" where
  "kept as p \<longleftrightarrow> overviews p \<and> node_flush.fq.no_loss (node_view p) \<and> observer_flush.fq.no_loss (observer_view p)
     \<and> node_flush.fq.covered (node_view p) \<and> observer_flush.fq.covered (observer_view p)
     \<and> observer_flush.fq.rows_ok (observer_view p) \<and> adverts_kept as p \<and> rows_heard as (sy_nodes (pc_sys p))"

lemma kept_step:
  assumes step: "process_step X cfg x p = Some p'" and kept: "kept as p"
  shows "kept (as @ stepAdverts X x p) p'"
proof -
  have can: "\<forall>v\<in>set (pc_observerBatch p). canonical_row v"
    using kept by (simp add: kept_def observer_flush.fq.rows_ok_def observer_view_def)
  have ov: "overviews p" using kept by (simp add: kept_def)
  from process_step_views [OF step ov can]
  obtain nops rops where n: "node_view p' = node_steps nops (node_view p)" "ops_adverts nops = stepAdverts X x p"
    and ob: "observer_view p' = observer_steps rops (observer_view p)" and ov': "overviews p'" by blast
  have "node_flush.fq.no_loss (node_view p')"
    unfolding n by (rule node_flush.fq.no_loss_run) (use kept in \<open>simp_all add: kept_def\<close>)
  moreover have "observer_flush.fq.no_loss (observer_view p')" "observer_flush.fq.rows_ok (observer_view p')"
    unfolding ob using kept by (auto simp: kept_def intro: observer_flush.fq.no_loss_run observer_flush.fq.rows_ok_run)
  moreover have "node_flush.fq.covered (node_view p')"
    unfolding n by (rule node_flush.fq.covered_run) (use kept node_row_grows in \<open>auto simp: kept_def\<close>)
  moreover have "observer_flush.fq.covered (observer_view p')"
    unfolding ob by (rule observer_flush.fq.covered_run) (use kept observer_row_grows in \<open>auto simp: kept_def\<close>)
  moreover have "rows_heard (as @ stepAdverts X x p) (sy_nodes (pc_sys p'))"
    using rows_heard_run [of as "node_view p" nops] kept by (simp add: n [symmetric]) (simp add: node_view_def kept_def)
  ultimately show ?thesis using ov' adverts_kept_step [OF step] kept by (simp add: kept_def)
qed

subsection \<open>The final flush\<close>

definition flushed_process :: "unix_time \<Rightarrow> Process \<Rightarrow> Process" where
  "flushed_process now p = saveObservers now 0 True (takeObservers (saveLinks 0 True (takeLinks (appendAdverts 0 True
     (readAdverts (saveNodes now 0 True (takeNodes (flushCounters now 0 True p))))))))"

lemma final_flush_run: "process_run X cfg (final_flush now) p = Some (flushed_process now p)"
  by (simp add: final_flush_def flushed_process_def)

text \<open>The flushes leave the rows alone, each table but the one they save, and the batches of the others.\<close>

lemmas flush_defs = flushCounters_def takeNodes_def saveNodes_def readAdverts_def appendAdverts_def takeLinks_def
  saveLinks_def takeObservers_def saveObservers_def

lemma flush_nodes [simp]:
  "nr_nodes (sy_nodes (pc_sys (flushCounters now dur c p))) = nr_nodes (sy_nodes (pc_sys p))"
  "nr_nodes (sy_nodes (pc_sys (takeNodes p))) = nr_nodes (sy_nodes (pc_sys p))"
  "nr_nodes (sy_nodes (pc_sys (saveNodes now dur c p))) = nr_nodes (sy_nodes (pc_sys p))"
  "nr_nodes (sy_nodes (pc_sys (readAdverts p))) = nr_nodes (sy_nodes (pc_sys p))"
  "nr_nodes (sy_nodes (pc_sys (appendAdverts dur c p))) = nr_nodes (sy_nodes (pc_sys p))"
  "nr_nodes (sy_nodes (pc_sys (takeLinks p))) = nr_nodes (sy_nodes (pc_sys p))"
  "nr_nodes (sy_nodes (pc_sys (saveLinks dur c p))) = nr_nodes (sy_nodes (pc_sys p))"
  "nr_nodes (sy_nodes (pc_sys (takeObservers p))) = nr_nodes (sy_nodes (pc_sys p))"
  "nr_nodes (sy_nodes (pc_sys (saveObservers now dur c p))) = nr_nodes (sy_nodes (pc_sys p))"
  by (auto simp: flush_defs on_sys_def flushed_metrics_def Let_def nodes_TakeDirty_def split: option.split prod.split)

lemma flush_observers [simp]:
  "sy_observers (pc_sys (flushCounters now dur c p)) = sy_observers (pc_sys p)"
  "sy_observers (pc_sys (takeNodes p)) = sy_observers (pc_sys p)"
  "sy_observers (pc_sys (saveNodes now dur c p)) = sy_observers (pc_sys p)"
  "sy_observers (pc_sys (readAdverts p)) = sy_observers (pc_sys p)"
  "sy_observers (pc_sys (appendAdverts dur c p)) = sy_observers (pc_sys p)"
  "sy_observers (pc_sys (takeLinks p)) = sy_observers (pc_sys p)"
  "sy_observers (pc_sys (saveLinks dur c p)) = sy_observers (pc_sys p)"
  "obs_observers (sy_observers (pc_sys (takeObservers p))) = obs_observers (sy_observers (pc_sys p))"
  "obs_observers (sy_observers (pc_sys (saveObservers now dur c p))) = obs_observers (sy_observers (pc_sys p))"
  by (auto simp: flush_defs on_sys_def flushed_metrics_def Let_def observers_TakeDirty_def observers_Requeue_def split: option.split prod.split)

lemma flush_batches [simp]:
  "pc_nodeBatch (flushCounters now dur c p) = pc_nodeBatch p" "pc_observerBatch (flushCounters now dur c p) = pc_observerBatch p"
  "pc_observerBatch (takeNodes p) = pc_observerBatch p" "pc_observerBatch (saveNodes now dur c p) = pc_observerBatch p"
  "pc_observerBatch (readAdverts p) = pc_observerBatch p" "pc_observerBatch (appendAdverts dur c p) = pc_observerBatch p"
  "pc_observerBatch (takeLinks p) = pc_observerBatch p" "pc_observerBatch (saveLinks dur c p) = pc_observerBatch p"
  "pc_advertBatch (flushCounters now dur c p) = pc_advertBatch p" "pc_advertBatch (takeNodes p) = pc_advertBatch p"
  "pc_advertBatch (saveNodes now dur c p) = pc_advertBatch p"
  "pc_advertBatch (takeLinks p) = pc_advertBatch p" "pc_advertBatch (saveLinks dur c p) = pc_advertBatch p"
  "pc_advertBatch (takeObservers p) = pc_advertBatch p" "pc_advertBatch (saveObservers now dur c p) = pc_advertBatch p"
  by (auto simp: flush_defs on_sys_def flushed_metrics_def Let_def split: option.split prod.split)

definition node_table_of :: "Process \<Rightarrow> (string, nodeRow) gomap option" where
  "node_table_of p = map_option (\<lambda>d. db_nodes (idb_core d)) (pc_db p)"

definition observer_table_of :: "Process \<Rightarrow> (string, observerRow) gomap option" where
  "observer_table_of p = map_option (\<lambda>d. db_observers (idb_core d)) (pc_db p)"

lemma rows_of_table:
  "node_table_of p = node_table_of q \<Longrightarrow> node_rows p = node_rows q"
  "observer_table_of p = observer_table_of q \<Longrightarrow> observer_rows p = observer_rows q"
  by (auto simp: node_table_of_def observer_table_of_def node_rows_def observer_rows_def node_at_def observer_at_def fun_eq_iff
      split: option.splits)

lemma core_kept:
  "db_Save c states now core = (ok, core') \<Longrightarrow> db_nodes core' = db_nodes core \<and> db_observers core' = db_observers core"
  "SaveNodes c ns now core = (ok, core') \<Longrightarrow> db_observers core' = db_observers core"
  "SaveObservers c obs now core = (ok, core') \<Longrightarrow> db_nodes core' = db_nodes core"
  "AppendAdverts c as core = (ok, core') \<Longrightarrow> db_nodes core' = db_nodes core \<and> db_observers core' = db_observers core"
  using save_keeps [of c _ now core] append_keeps [of c as core] by (metis snd_conv)+

lemma flush_tables [simp]:
  "node_table_of (flushCounters now dur c p) = node_table_of p" "observer_table_of (flushCounters now dur c p) = observer_table_of p"
  "node_table_of (takeNodes p) = node_table_of p" "observer_table_of (takeNodes p) = observer_table_of p"
  "observer_table_of (saveNodes now dur c p) = observer_table_of p"
  "node_table_of (readAdverts p) = node_table_of p" "observer_table_of (readAdverts p) = observer_table_of p"
  "node_table_of (appendAdverts dur c p) = node_table_of p" "observer_table_of (appendAdverts dur c p) = observer_table_of p"
  "node_table_of (takeLinks p) = node_table_of p" "observer_table_of (takeLinks p) = observer_table_of p"
  "node_table_of (saveLinks dur c p) = node_table_of p" "observer_table_of (saveLinks dur c p) = observer_table_of p"
  "node_table_of (takeObservers p) = node_table_of p" "observer_table_of (takeObservers p) = observer_table_of p"
  "node_table_of (saveObservers now dur c p) = node_table_of p"
  by (auto simp: node_table_of_def observer_table_of_def flush_defs on_sys_def flushed_metrics_def Let_def setLoadedNodeCount_def
      upd_stats_def core_kept split: option.split prod.split)

definition counts_fit :: "Process \<Rightarrow> bool" where
  "counts_fit p \<longleftrightarrow> (\<forall>pk n. mget (nr_nodes (sy_nodes (pc_sys p))) pk = Some n \<longrightarrow> uint (nod_AdvertCount n) < 2 ^ 63)
     \<and> (\<forall>i ob. mget (obs_observers (sy_observers (pc_sys p))) i = Some ob \<longrightarrow> uint (or_Observations ob) < 2 ^ 63)"

lemma kept_flush:
  assumes "kept as p"
  shows "kept as (flushCounters now dur c p)" "kept as (takeNodes p)" "kept as (saveNodes now dur c p)"
    "kept as (readAdverts p)" "kept as (appendAdverts dur c p)" "kept as (takeLinks p)" "kept as (saveLinks dur c p)"
    "kept as (takeObservers p)" "kept as (saveObservers now dur c p)"
proof -
  have one: "kept as q" if "process_step X cfg x p = Some q" "stepAdverts X x p = []" for X cfg x q
    using kept_step [OF that(1) assms] that(2) by simp
  show "kept as (flushCounters now dur c p)" by (rule one [where x = "CounterFlush now dur c"]) (simp_all add: stepAdverts_def)
  show "kept as (takeNodes p)" by (rule one [where x = NodeTake]) (simp_all add: stepAdverts_def)
  show "kept as (saveNodes now dur c p)" by (rule one [where x = "NodeSave now dur c"]) (simp_all add: stepAdverts_def)
  show "kept as (readAdverts p)" by (rule one [where x = AdvertRead]) (simp_all add: stepAdverts_def)
  show "kept as (appendAdverts dur c p)" by (rule one [where x = "AdvertAppend dur c"]) (simp_all add: stepAdverts_def)
  show "kept as (takeLinks p)" by (rule one [where x = LinkTake]) (simp_all add: stepAdverts_def)
  show "kept as (saveLinks dur c p)" by (rule one [where x = "LinkSave dur c"]) (simp_all add: stepAdverts_def)
  show "kept as (takeObservers p)" by (rule one [where x = ObserverTake]) (simp_all add: stepAdverts_def)
  show "kept as (saveObservers now dur c p)" by (rule one [where x = "ObserverSave now dur c"]) (simp_all add: stepAdverts_def)
qed

lemma fully_flushed:
  assumes "kept as p" "pc_nodeBatch p = []" "counts_fit p"
  shows "node_rows (flushed_process now p) = node_flush.row_val (sy_nodes (pc_sys p))"
proof
  fix k
  let ?q0 = "flushCounters now 0 True p"
  let ?q1 = "takeNodes ?q0"
  let ?q2 = "saveNodes now 0 True ?q1"
  have k0: "kept as ?q0" and k1: "kept as ?q1" and k2: "kept as ?q2" using assms(1) by (simp_all add: kept_flush)
  have view1: "node_view ?q1 = node_steps [Take] (node_view ?q0)"
    using takeNodes_view [of ?q0] k0 by (simp add: kept_def)
  have inv: "node_flush.row_inv (fs_reg (node_view ?q0))" using k0 node_flush.fq.no_lossD(1) by (auto simp: kept_def)
  have "uint (nod_AdvertCount n) < 2 ^ 63" if "n \<in> set (pc_nodeBatch ?q1)" for n
  proof -
    have "pc_nodeBatch ?q1 = fst (nodes_TakeDirty (sy_nodes (pc_sys ?q0)))"
      using assms(2) arg_cong [OF view1, of fs_batch] by (simp add: node_view_def)
    then have "node_flush.row_val (sy_nodes (pc_sys p)) (nod_PubKey n) = Some n"
      using that node_flush.grabbed [OF inv, of n] by (simp add: node_view_def node_flush.row_val_def)
    then show ?thesis using assms(3) by (auto simp: counts_fit_def overview_def node_flush.row_val_def)
  qed
  then have view2: "node_view ?q2 = flush_step node_step nodes_TakeDirty nodes_Requeue nod_PubKey SaveOk
      (flush_step node_step nodes_TakeDirty nodes_Requeue nod_PubKey Take (node_view ?q0))"
    using saveNodes_ok [of ?q1 now 0] k1 by (simp add: kept_def view1)
  have rows: "node_rows (flushed_process now p) = node_rows ?q2"
    by (rule rows_of_table) (simp add: flushed_process_def)
  have val: "node_flush.row_val (sy_nodes (pc_sys ?q2)) = node_flush.row_val (sy_nodes (pc_sys p))"
    "node_flush.row_val (sy_nodes (pc_sys ?q0)) = node_flush.row_val (sy_nodes (pc_sys p))"
    by (simp_all add: node_flush.row_val_def fun_eq_iff)
  show "node_rows (flushed_process now p) k = node_flush.row_val (sy_nodes (pc_sys p)) k"
  proof (cases "node_flush.row_val (sy_nodes (pc_sys p)) k")
    case None
    then show ?thesis using k2 val unfolding rows by (auto simp: kept_def node_flush.fq.covered_def node_view_def)
  next
    case (Some v)
    have "fs_db (node_view ?q2) k = Some v"
      unfolding view2 using node_flush.fq.flushed [of "node_view ?q0" "[]" k v] k0 assms(2) Some val
      by (simp add: kept_def node_view_def)
    then show ?thesis using Some by (simp add: rows node_view_def)
  qed
qed

lemma fully_flushed_observers:
  assumes "kept as p" "pc_observerBatch p = []" "counts_fit p"
  shows "observer_rows (flushed_process now p) = mget (obs_observers (sy_observers (pc_sys p)))"
proof
  fix k
  let ?q0 = "saveLinks 0 True (takeLinks (appendAdverts 0 True (readAdverts (saveNodes now 0 True (takeNodes (flushCounters now 0 True p))))))"
  let ?q1 = "takeObservers ?q0"
  let ?q2 = "saveObservers now 0 True ?q1"
  have q2: "flushed_process now p = ?q2" by (simp add: flushed_process_def)
  have k0: "kept as ?q0" and k1: "kept as ?q1" and k2: "kept as ?q2" using assms(1) by (simp_all add: kept_flush)
  have view1: "observer_view ?q1 = observer_steps [Take] (observer_view ?q0)"
    using takeObservers_view [of ?q0] k0 by (simp add: kept_def)
  have inv: "observer_flush.row_inv (fs_reg (observer_view ?q0))" using k0 observer_flush.fq.no_lossD(1) by (auto simp: kept_def)
  have val: "observer_flush.row_val (sy_observers (pc_sys ?q2)) = mget (obs_observers (sy_observers (pc_sys p)))"
    "observer_flush.row_val (sy_observers (pc_sys ?q0)) = mget (obs_observers (sy_observers (pc_sys p)))"
    by (simp_all add: observer_flush.row_val_def fun_eq_iff option.map_ident)
  have "uint (or_Observations v) < 2 ^ 63" if "v \<in> set (pc_observerBatch ?q1)" for v
  proof -
    have "pc_observerBatch ?q1 = fst (observers_TakeDirty (sy_observers (pc_sys ?q0)))"
      using assms(2) arg_cong [OF view1, of fs_batch] by (simp add: observer_view_def)
    then have "observer_flush.row_val (sy_observers (pc_sys ?q0)) (observer_key v) = Some v"
      using that observer_flush.grabbed [OF inv, of v] by (simp add: observer_view_def)
    then show ?thesis using assms(3) unfolding val by (auto simp: counts_fit_def)
  qed
  moreover have "\<forall>v\<in>set (pc_observerBatch ?q1). canonical_row v"
    using k1 by (simp add: kept_def observer_flush.fq.rows_ok_def observer_view_def)
  ultimately have view2: "observer_view ?q2 = flush_step observers_Observe observers_TakeDirty observers_Requeue observer_key SaveOk
      (flush_step observers_Observe observers_TakeDirty observers_Requeue observer_key Take (observer_view ?q0))"
    using saveObservers_ok [of ?q1 now 0] k1 by (simp add: kept_def view1)
  show "observer_rows (flushed_process now p) k = mget (obs_observers (sy_observers (pc_sys p))) k"
  proof (cases "mget (obs_observers (sy_observers (pc_sys p))) k")
    case None
    then show ?thesis using k2 val unfolding q2 by (auto simp: kept_def observer_flush.fq.covered_def observer_view_def)
  next
    case (Some v)
    have "fs_db (observer_view ?q2) k = Some v"
      unfolding view2 using observer_flush.fq.flushed [of "observer_view ?q0" "[]" k v] k0 assms(2) Some val
      by (simp add: kept_def observer_view_def)
    then show ?thesis using Some by (simp add: q2 observer_view_def)
  qed
qed

lemma flush_pending [simp]:
  "nr_pending (sy_nodes (pc_sys (takeLinks p))) = nr_pending (sy_nodes (pc_sys p))"
  "nr_pending (sy_nodes (pc_sys (saveLinks dur c p))) = nr_pending (sy_nodes (pc_sys p))"
  "nr_pending (sy_nodes (pc_sys (takeObservers p))) = nr_pending (sy_nodes (pc_sys p))"
  "nr_pending (sy_nodes (pc_sys (saveObservers now dur c p))) = nr_pending (sy_nodes (pc_sys p))"
  by (auto simp: flush_defs on_sys_def flushed_metrics_def Let_def split: option.split prod.split)

text \<open>What a process leaves in the database after its final flush: exactly the rows of its registries and
  the history of all adverts with a key.\<close>

definition settled :: "AdvertObservation list \<Rightarrow> ImportDB \<Rightarrow> bool" where
  "settled as d \<longleftrightarrow> ids_ok (db_adverts (idb_core d))
     \<and> map load_advert (db_adverts (idb_core d)) = filter (\<lambda>a. ao_PubKey a \<noteq> '''') as
     \<and> (\<forall>pk. map_option bare (node_at (idb_core d) pk) = heard_row as pk)
     \<and> (\<forall>i ob. observer_at (idb_core d) i = Some ob \<longrightarrow> canonical_row ob)"

lemma settled_empty: "settled [] emptyImportDB"
  by (simp add: settled_def emptyImportDB_def emptyDB_def ids_ok_def node_at_def observer_at_def heard_row_def heard_def)

definition idle :: "Process \<Rightarrow> bool" where
  "idle p \<longleftrightarrow> pc_nodeBatch p = [] \<and> pc_advertBatch p = [] \<and> pc_observerBatch p = [] \<and> pc_linkBatch p = []"

lemma nothing_pending:
  assumes "kept as p" "pc_advertBatch p = []"
  shows "nr_pending (sy_nodes (pc_sys (appendAdverts 0 True (readAdverts p)))) = []"
proof -
  obtain d where d: "pc_db p = Some d" using assms(1) by (auto simp: kept_def overviews_def)
  let ?b = "nr_pending (sy_nodes (pc_sys p))"
  obtain ok core where core: "AppendAdverts True ?b (idb_core d) = (ok, core)" by fastforce
  have "ids_ok (db_adverts (idb_core d))" using assms(1) d by (auto simp: kept_def adverts_kept_def advert_view_def)
  from insert_adverts [OF this, of ?b] have ok using core by (auto simp: AppendAdverts_def transaction_def split: if_splits)
  then show ?thesis using assms(2) core
    by (simp add: appendAdverts_def readAdverts_def d on_sys_def flushed_metrics_def PendingAdverts_def Let_def)
qed

lemma flushed_settled:
  assumes kept: "kept as p" and idle: "idle p" and fit: "counts_fit p"
  shows "\<exists>d. pc_db (flushed_process now p) = Some d \<and> settled as d
    \<and> node_at (idb_core d) = node_flush.row_val (sy_nodes (pc_sys p))
    \<and> observer_at (idb_core d) = mget (obs_observers (sy_observers (pc_sys p)))"
proof -
  let ?f = "flushed_process now p"
  have k: "kept as ?f" using kept by (simp add: flushed_process_def kept_flush)
  then obtain d where d: "pc_db ?f = Some d" by (auto simp: kept_def overviews_def)
  have nodes: "node_at (idb_core d) = node_flush.row_val (sy_nodes (pc_sys p))"
    using fully_flushed [of as p now] kept idle fit d by (simp add: node_rows_def idle_def)
  have obs: "observer_at (idb_core d) = mget (obs_observers (sy_observers (pc_sys p)))"
    using fully_flushed_observers [of as p now] kept idle fit d by (simp add: observer_rows_def idle_def)
  have "nr_pending (sy_nodes (pc_sys ?f)) = []"
    using nothing_pending [of as "saveNodes now 0 True (takeNodes (flushCounters now 0 True p))"] kept idle
    by (simp add: flushed_process_def kept_flush idle_def)
  then have adverts: "ids_ok (db_adverts (idb_core d))"
    "map load_advert (db_adverts (idb_core d)) = filter (\<lambda>a. ao_PubKey a \<noteq> '''') as"
    using k d by (auto simp: kept_def adverts_kept_def advert_view_def)
  have "map_option bare (node_at (idb_core d) pk) = heard_row as pk" for pk
    using kept by (auto simp: nodes node_flush.row_val_def kept_def rows_heard_def overview_def option.map_comp comp_def)
  moreover have "canonical_row ob" if "observer_at (idb_core d) i = Some ob" for i ob
    using k d that unfolding kept_def observer_flush.fq.rows_ok_def by (auto simp: observer_view_def observer_rows_def)
  ultimately show ?thesis using d nodes obs adverts by (simp add: settled_def)
qed

subsection \<open>The next start\<close>

lemma boot_state:
  assumes "boot sprint parse bi = Inr p"
  shows "\<exists>store m st imp db ld bk. openState bi store (freshSystem (bi_config bi) store m) = Inr (st, imp, (db, ld), bk)
    \<and> pc_sys p = st \<and> pc_db p = db \<and> pc_backfill p = bk \<and> idle p"
  using assms by (fastforce simp: boot_def Let_def idle_def split: if_splits option.splits sum.splits prod.splits)

lemma find_LoadNodes: "find (\<lambda>n. nod_PubKey n = pk) (LoadNodes db) = node_at db pk"
proof (cases "node_at db pk")
  case None
  then show ?thesis using LoadNodes_iff [of _ db] by (auto simp: find_None_iff)
next
  case (Some n)
  then have "nod_PubKey n = pk" by (auto simp: node_at_def load_node_def)
  then show ?thesis using Some LoadNodes_iff [of n db] find_unique [of n "LoadNodes db" nod_PubKey] load_keys_distinct(1) by simp
qed

lemma node_at_overview: "node_at db pk = Some n \<Longrightarrow> overview n = n \<and> nod_PubKey n = pk"
  by (auto simp: node_at_def load_node_def overview_def)

lemma restore_keeps [simp]:
  "nr_pending (nodes_Restore ns recent r) = nr_pending r" "nr_maxAdverts (nodes_Restore ns recent r) = nr_maxAdverts r"
proof -
  have "nr_pending (restoreNode recent n r) = nr_pending r" for n r by (simp add: restoreNode_def Let_def)
  then show "nr_pending (nodes_Restore ns recent r) = nr_pending r" "nr_maxAdverts (nodes_Restore ns recent r) = nr_maxAdverts r"
    unfolding nodes_Restore_def by (induction ns arbitrary: r) simp_all
qed

lemma restoreNodes_result:
  assumes "restoreNodes le d r0 = (r, bk, d')" "\<not> le_nodes le" "nr_nodes r0 = mempty"
  shows "mget (nr_nodes r) pk = node_at (idb_core d) pk" "nr_pending r = nr_pending r0"
    "nr_maxAdverts r = nr_maxAdverts r0" "bk = map nod_PubKey (LoadNodes (idb_core d))" "core_tables d' = core_tables d"
proof -
  let ?ns = "LoadNodes (idb_core d)"
  have r: "r = nodes_Restore ?ns mempty r0" "bk = map nod_PubKey ?ns" "core_tables d' = core_tables d"
    using assms(1,2) by (auto simp: restoreNodes_def Let_def nodes_Restore_def split: if_splits)
  have "nr_nodes (nodes_Restore ns mempty r0) = put_rows nod_PubKey ns (nr_nodes r0)" for ns
    unfolding nodes_Restore_def by (induction ns arbitrary: r0) (simp_all add: restoreNode_def Let_def)
  then show "mget (nr_nodes r) pk = node_at (idb_core d) pk"
    using mget_put_rows [OF load_keys_distinct(1), of "idb_core d" "nr_nodes r0" pk]
    by (simp add: r(1) assms(3) find_LoadNodes split: option.splits)
qed (use assms in \<open>auto simp: restoreNodes_def Let_def split: if_splits\<close>)

lemma restored_observers:
  assumes "\<And>i ob. observer_at db i = Some ob \<Longrightarrow> canonical_row ob"
  shows "mget (obs_observers (observers_Restore (LoadObservers db) newObserverRegistry)) i = observer_at db i"
proof -
  have can: "\<forall>ob\<in>set (LoadObservers db). canonical_row ob" using assms LoadObservers_iff by blast
  then have key: "map observer_key (LoadObservers db) = map or_ObserverID (LoadObservers db)" by (simp add: canonical_row_def)
  show ?thesis
  proof (cases "observer_at db i")
    case None
    have "spelled i (LoadObservers db) = []"
      using None can LoadObservers_iff [of _ db] by (fastforce simp: spelled_def filter_empty_conv canonical_row_def)
    then show ?thesis using None restored_ok_run [of i "LoadObservers db"] by (auto simp: restored_ok_def split: option.splits)
  next
    case (Some ob)
    then have i: "or_ObserverID ob = i" by (auto simp: observer_at_def load_observer_def)
    then have ob: "ob \<in> set (LoadObservers db)" using Some LoadObservers_iff by simp
    have "find (\<lambda>ob'. observer_key ob' = observer_key ob) (LoadObservers db) = Some ob"
      by (rule find_unique [OF ob]) (unfold key, rule load_keys_distinct(2))
    moreover have "observer_key ob = i" using can ob i by (auto simp: canonical_row_def)
    ultimately show ?thesis using find_spelled [OF can, unfolded key, OF load_keys_distinct(2)] Some by simp
  qed
qed

lemma boot_kept:
  assumes boot: "boot sprint parse bi = Inr p" and opened: "bi_opened bi = Some (d, ld)" "cf_DBPath (bi_config bi) \<noteq> ''''"
    and reads: "\<not> le_nodes (bi_errors bi)" "\<not> le_observers (bi_errors bi)" and settled: "settled as d"
  shows "kept as p" "idle p"
    "\<And>pk. mget (nr_nodes (sy_nodes (pc_sys p))) pk = node_at (idb_core d) pk"
    "mget (obs_observers (sy_observers (pc_sys p))) = observer_at (idb_core d)"
    "pc_backfill p = map nod_PubKey (LoadNodes (idb_core d))" "map_option core_tables (pc_db p) = Some (core_tables d)"
proof -
  obtain store m st imp db ld' bk where os: "openState bi store (freshSystem (bi_config bi) store m) = Inr (st, imp, (db, ld'), bk)"
    "pc_sys p = st" "pc_db p = db" "pc_backfill p = bk" "idle p"
    using boot_state [OF boot] by blast
  let ?r0 = "SetAdvertHook True (newNodeRegistry defaultAdvertsPerNode)" and ?d = "initStats d"
  obtain r bk' d1 where r: "restoreNodes (bi_errors bi) ?d ?r0 = (r, bk', d1)" by (metis prod_cases3)
  obtain imp' d2 where i: "restoreImported (bi_errors bi) d1 newImportRegistry = (imp', d2)" by fastforce
  have st: "sy_nodes st = r" "sy_observers st = restoreObservers (bi_errors bi) d1 newObserverRegistry" "db = Some d2" "bk = bk'"
    using os(1) opened r i by (auto simp: openState_def Let_def freshSystem_def split: if_splits)
  have core: "node_at (idb_core ?d) = node_at (idb_core d)" "observer_at (idb_core ?d) = observer_at (idb_core d)"
    "LoadNodes (idb_core ?d) = LoadNodes (idb_core d)"
    by (simp_all add: initStats_def upd_stats_def node_at_def observer_at_def LoadNodes_def fun_eq_iff)
  have empty: "nr_nodes ?r0 = mempty" "nr_pending ?r0 = []" "nr_maxAdverts ?r0 = nat defaultAdvertsPerNode"
    by (simp_all add: SetAdvertHook_def newNodeRegistry_def defaultAdvertsPerNode_def)
  note res = restoreNodes_result [OF r reads(1) empty(1)]
  show tables: "map_option core_tables (pc_db p) = Some (core_tables d)"
    using i res(5) by (auto simp: os st restoreImported_def Let_def split: if_splits)
  show nodes: "mget (nr_nodes (sy_nodes (pc_sys p))) pk = node_at (idb_core d) pk" for pk
    using res(1) by (simp add: os st core)
  have can: "canonical_row ob" if "observer_at (idb_core d) i = Some ob" for i ob
    using settled that by (auto simp: settled_def)
  have d1: "observer_at (idb_core d1) = observer_at (idb_core d)"
    using res(5) by (simp add: core_tables_def observer_at_def fun_eq_iff initStats_def upd_stats_def)
  have "restoreObservers (bi_errors bi) d1 newObserverRegistry = observers_Restore (LoadObservers (idb_core d1)) newObserverRegistry"
    using reads(2) by (auto simp: restoreObservers_def Let_def observers_Restore_def)
  then show obs: "mget (obs_observers (sy_observers (pc_sys p))) = observer_at (idb_core d)"
    using restored_observers [of "idb_core d1"] can by (auto simp: os st d1 fun_eq_iff)
  show "pc_backfill p = map nod_PubKey (LoadNodes (idb_core d))" by (simp add: os st res(4) core)
  show "idle p" by (rule os(5))
  obtain d3 where d3: "pc_db p = Some d3" "core_tables d3 = core_tables d" using tables by auto
  then have rows: "node_rows p = node_at (idb_core d)" "observer_rows p = observer_at (idb_core d)"
    by (auto simp: node_rows_def observer_rows_def core_tables_def node_at_def observer_at_def fun_eq_iff)
  have id: "or_ObserverID ob = i" if "observer_at (idb_core d) i = Some ob" for i ob
    using that by (auto simp: observer_at_def load_observer_def)
  have "nod_PubKey n = pk" if "mget (nr_nodes (sy_nodes (pc_sys p))) pk = Some n" for pk n
    using nodes [of pk] node_at_overview [of "idb_core d" pk n] that by simp
  then have nflush: "node_flush.row_inv (sy_nodes (pc_sys p))" by (simp add: node_flush.row_inv_def keyed_def)
  have oflush: "observer_flush.row_inv (sy_observers (pc_sys p))"
    using can id by (auto simp: observer_flush.row_inv_def keyed_def obs canonical_row_def)
  have "map_option overview (node_at (idb_core d) pk) = node_at (idb_core d) pk" for pk
    by (cases "node_at (idb_core d) pk") (auto dest: node_at_overview)
  then have nval: "node_flush.row_val (sy_nodes (pc_sys p)) = node_at (idb_core d)"
    and oval: "observer_flush.row_val (sy_observers (pc_sys p)) = observer_at (idb_core d)"
    using nodes by (simp_all add: node_flush.row_val_def observer_flush.row_val_def obs fun_eq_iff option.map_ident)
  have batches: "pc_nodeBatch p = []" "pc_observerBatch p = []" "pc_advertBatch p = []" using os(5) by (simp_all add: idle_def)
  have "overviews p" using d3(1) batches by (simp add: overviews_def)
  moreover have "node_flush.fq.no_loss (node_view p)"
    by (rule node_flush.fq.no_lossI) (simp_all add: node_view_def nflush nval rows batches)
  moreover have "observer_flush.fq.no_loss (observer_view p)"
    by (rule observer_flush.fq.no_lossI) (simp_all add: observer_view_def oflush oval rows batches)
  moreover have "node_flush.fq.covered (node_view p)" "observer_flush.fq.covered (observer_view p)"
    by (simp_all add: node_flush.fq.covered_def observer_flush.fq.covered_def node_view_def observer_view_def nval oval rows batches)
  moreover have "observer_flush.fq.rows_ok (observer_view p)"
    using can id by (auto simp: observer_flush.fq.rows_ok_def observer_view_def rows batches canonical_row_def)
  moreover have "adverts_kept as p"
    using settled d3 batches by (auto simp: adverts_kept_def advert_view_def os st res(2) empty(2) settled_def core_tables_def)
  moreover have "rows_heard as (sy_nodes (pc_sys p))"
    using settled res(3) nodes by (simp add: rows_heard_def settled_def os st empty(3))
  ultimately show "kept as p" by (simp add: kept_def)
qed

text \<open>The backfill gives every restored row the newest adverts of the history.\<close>

lemma attach_entries:
  assumes "distinct (map fst es)"
  shows "mget (nr_nodes (fold (\<lambda>(k, v). attachAdverts k v) es r)) pk = (case map_of es pk of None \<Rightarrow> mget (nr_nodes r) pk
     | Some adv \<Rightarrow> map_option (\<lambda>n. if nod_LatestAdverts n \<noteq> [] \<or> adv = [] then n
         else n\<lparr>nod_LatestAdverts := take (nr_maxAdverts r) adv\<rparr>) (mget (nr_nodes r) pk))"
  using assms
proof (induction es arbitrary: r)
  case (Cons e es)
  obtain k v where e: "e = (k, v)" by fastforce
  have m: "nr_maxAdverts (attachAdverts k v r) = nr_maxAdverts r" using attachAdverts_rel [of k v r] by blast
  have one: "mget (nr_nodes (attachAdverts k v r)) j = (if j = k then map_option (\<lambda>n. if nod_LatestAdverts n \<noteq> [] \<or> v = [] then n
      else n\<lparr>nod_LatestAdverts := take (nr_maxAdverts r) v\<rparr>) (mget (nr_nodes r) k) else mget (nr_nodes r) j)" for j
    by (auto simp: attachAdverts_def mget_mput split: option.split)
  have "map_of es k = None" using Cons.prems by (simp add: e map_of_eq_None_iff)
  then show ?case using Cons.IH [of "attachAdverts k v r", unfolded m one] Cons.prems
    by (cases "pk = k") (simp_all add: e split: option.split)
qed simp

lemma mget_Attach:
  "mget (nr_nodes (AttachRecentAdverts recent r)) pk = (case mget recent pk of None \<Rightarrow> mget (nr_nodes r) pk
     | Some adv \<Rightarrow> map_option (\<lambda>n. if nod_LatestAdverts n \<noteq> [] \<or> adv = [] then n
         else n\<lparr>nod_LatestAdverts := take (nr_maxAdverts r) adv\<rparr>) (mget (nr_nodes r) pk))"
  using attach_entries [of "mentries recent" r pk] mkeys_distinct [of recent]
  by (simp add: AttachRecentAdverts_def mrange_def mkeys_def mget_eq_map_of)

lemma recent_of_key:
  assumes "pk \<noteq> ''''" and "\<forall>r\<in>set rows. aw_pubkey r = pk" and "mget out pk = None"
  shows "mget (fold (\<lambda>r out. mput out (aw_pubkey r)
               ((case mget out (aw_pubkey r) of Some as \<Rightarrow> as | None \<Rightarrow> []) @ [load_advert r])) rows out) k
    = (if k = pk \<and> rows \<noteq> [] then Some (map load_advert rows) else mget out k)"
proof -
  have "mget (fold (\<lambda>r out. mput out (aw_pubkey r)
               ((case mget out (aw_pubkey r) of Some as \<Rightarrow> as | None \<Rightarrow> []) @ [load_advert r])) rows out) k
    = (if k = pk \<and> rows \<noteq> [] then Some ((case mget out pk of Some as \<Rightarrow> as | None \<Rightarrow> []) @ map load_advert rows) else mget out k)" for out
    using assms(2) by (induction rows arbitrary: out) (auto simp: mget_mput)
  then show ?thesis using assms(3) by simp
qed

lemma mget_LoadRecentAdverts:
  assumes "distinct pks" "'''' \<notin> set pks" "0 < n"
  shows "mget (LoadRecentAdverts pks n db) pk =
    (let rows = newest_first n (filter (\<lambda>r. aw_pubkey r = pk) (db_adverts db))
     in if pk \<in> set pks \<and> rows \<noteq> [] then Some (map load_advert rows) else None)"
proof -
  let ?rows = "\<lambda>k. newest_first n (filter (\<lambda>r. aw_pubkey r = k) (db_adverts db))"
  let ?step = "\<lambda>pubkey out. if pubkey = '''' then out
        else fold (\<lambda>r out. mput out (aw_pubkey r)
               ((case mget out (aw_pubkey r) of Some as \<Rightarrow> as | None \<Rightarrow> []) @ [load_advert r])) (?rows pubkey) out"
  have own: "\<forall>r\<in>set (?rows k). aw_pubkey r = k" for k
    by (auto simp: newest_first_def dest: in_set_takeD)
  have "mget (fold ?step pks out) pk = (if pk \<in> set pks \<and> ?rows pk \<noteq> [] then Some (map load_advert (?rows pk)) else mget out pk)"
    if "\<forall>k\<in>set pks. mget out k = None" for out
    using assms(1,2) that
  proof (induction pks arbitrary: out)
    case (Cons k ks)
    have st: "mget (?step k out) j = (if j = k \<and> ?rows k \<noteq> [] then Some (map load_advert (?rows k)) else mget out j)" for j
      using recent_of_key [OF _ own, of k out j] Cons.prems by auto
    have "\<forall>j\<in>set ks. mget (?step k out) j = None" using Cons.prems unfolding st by auto
    then have "mget (fold ?step ks (?step k out)) pk = (if pk \<in> set ks \<and> ?rows pk \<noteq> [] then Some (map load_advert (?rows pk)) else mget (?step k out) pk)"
      using Cons.IH [of "?step k out"] Cons.prems(1,2) by simp
    then show ?case unfolding st using Cons.prems(1) by auto
  qed simp
  from this [of mempty] show ?thesis using assms(3) by (auto simp: LoadRecentAdverts_def Let_def)
qed

subsection \<open>Many lives\<close>

text \<open>A start on databases whose rows could be read.\<close>

definition clean_start :: "bootInput \<Rightarrow> ImportDB \<Rightarrow> bool" where
  "clean_start bi d \<longleftrightarrow> map_option fst (bi_opened bi) = Some d \<and> cf_DBPath (bi_config bi) \<noteq> ''''
     \<and> \<not> le_nodes (bi_errors bi) \<and> \<not> le_observers (bi_errors bi)"

text \<open>A process in its first or a later life, and the adverts heard in all lives: each life but the last ended
  with the final flush, no other flush running.\<close>

inductive alive :: "outside \<Rightarrow> AdvertObservation list \<Rightarrow> Process \<Rightarrow> bool" for X where
  first: "clean_start bi emptyImportDB \<Longrightarrow> boot (ou_sprint X) (ou_parse X) bi = Inr p \<Longrightarrow> alive X [] p"
| work: "alive X as p \<Longrightarrow> process_step X cfg x p = Some p' \<Longrightarrow> alive X (as @ stepAdverts X x p) p'"
| again: "alive X as p \<Longrightarrow> idle p \<Longrightarrow> counts_fit p \<Longrightarrow> process_run X cfg (final_flush now) p = Some q \<Longrightarrow> pc_db q = Some d
    \<Longrightarrow> clean_start bi d \<Longrightarrow> boot (ou_sprint X) (ou_parse X) bi = Inr p' \<Longrightarrow> alive X as p'"

lemma clean_kept:
  assumes "clean_start bi d" "boot sprint parse bi = Inr p" "settled as d"
  shows "kept as p"
  using assms boot_kept(1) [of sprint parse bi p d _ as] by (auto simp: clean_start_def)

lemma alive_kept: "alive X as p \<Longrightarrow> kept as p"
proof (induction rule: alive.induct)
  case (first bi p)
  then show ?case using clean_kept settled_empty by blast
next
  case (work as p cfg x p')
  then show ?case by (intro kept_step)
next
  case (again as p cfg now q d bi p')
  then have "settled as d" using flushed_settled [of as p now] by (auto simp: final_flush_run)
  then show ?case using again clean_kept by blast
qed

lemma stored_history:
  assumes "settled as d" "pk \<noteq> ''''"
  shows "map load_advert (filter (\<lambda>r. aw_pubkey r = pk) (db_adverts (idb_core d))) = heard pk as"
proof -
  have "map load_advert (filter (\<lambda>r. aw_pubkey r = pk) (db_adverts (idb_core d)))
      = filter (\<lambda>a. ao_PubKey a = pk) (map load_advert (db_adverts (idb_core d)))"
    by (simp add: filter_map comp_def load_advert_def)
  also have "\<dots> = heard pk as"
    using assms by (auto simp: settled_def heard_def intro: filter_cong)
  finally show ?thesis .
qed

lemma backfilled:
  assumes boot: "boot sprint parse bi = Inr p" and clean: "clean_start bi d" and settled: "settled as d"
  shows "mget (nr_nodes (sy_nodes (pc_sys (backfillAdverts True p)))) pk
    = map_option (\<lambda>n. n\<lparr>nod_LatestAdverts := take (nat defaultAdvertsPerNode) (rev (heard pk as))\<rparr>) (node_at (idb_core d) pk)"
proof -
  obtain ld where "bi_opened bi = Some (d, ld)" using clean by (auto simp: clean_start_def)
  from boot_kept [OF boot this _ _ _ settled] clean
  have kept: "kept as p" and nodes: "mget (nr_nodes (sy_nodes (pc_sys p))) k = node_at (idb_core d) k"
    and bk: "pc_backfill p = map nod_PubKey (LoadNodes (idb_core d))" and tables: "map_option core_tables (pc_db p) = Some (core_tables d)" for k
    by (auto simp: clean_start_def)
  obtain d' where d': "pc_db p = Some d'" "db_adverts (idb_core d') = db_adverts (idb_core d)"
    using tables by (auto simp: core_tables_def)
  let ?ns = "LoadNodes (idb_core d)" and ?n = defaultAdvertsPerNode
  have cap: "nr_maxAdverts (sy_nodes (pc_sys p)) = nat ?n" using kept by (simp add: kept_def rows_heard_def)
  have row: "k \<noteq> '''' \<and> heard k as \<noteq> []" if "node_at (idb_core d) k = Some n" for k n
    using settled that by (force simp: settled_def heard_row_def split: if_splits)
  have "'''' \<notin> set (map nod_PubKey ?ns)" using row [of "''''"] LoadNodes_iff [of _ "idb_core d"] by fastforce
  note recent = mget_LoadRecentAdverts [OF load_keys_distinct(1) this, of ?n "idb_core d'" pk]
  show ?thesis
  proof (cases "node_at (idb_core d) pk")
    case None
    then show ?thesis using nodes [of pk] Attach_rel [of _ "sy_nodes (pc_sys p)" pk]
      by (auto simp: backfillAdverts_def d' on_sys_def)
  next
    case (Some n)
    have n: "nod_PubKey n = pk" "nod_LatestAdverts n = []"
      using node_at_overview [OF Some] by (auto simp: overview_def) (metis NodeRecord.select_convs(13) NodeRecord.surjective NodeRecord.update_convs(13))
    then have mem: "pk \<in> set (map nod_PubKey ?ns)" using Some LoadNodes_iff [of n "idb_core d"] by force
    have pk: "pk \<noteq> ''''" "heard pk as \<noteq> []" using row [OF Some] by auto
    let ?rows = "filter (\<lambda>r. aw_pubkey r = pk) (db_adverts (idb_core d))"
    have own: "map load_advert (newest_first ?n ?rows) = take (nat ?n) (rev (heard pk as))"
      using stored_history [OF settled pk(1)]
      by (simp add: newest_first_def defaultAdvertsPerNode_def take_map [symmetric] rev_map [symmetric])
    moreover have "newest_first ?n ?rows \<noteq> []" using own pk(2) by (auto simp: defaultAdvertsPerNode_def)
    ultimately have "mget (LoadRecentAdverts (map nod_PubKey ?ns) ?n (idb_core d')) pk = Some (take (nat ?n) (rev (heard pk as)))"
      using recent mem by (simp add: d'(2) defaultAdvertsPerNode_def Let_def)
    then show ?thesis using mem pk(2) nodes [of pk] n(2)
      by (auto simp: backfillAdverts_def d'(1) on_sys_def bk mget_Attach cap Some defaultAdvertsPerNode_def)
  qed
qed

text \<open>C3: After the final flush and the next start on readable databases the registries are as before: every
  node row is back, flags included, with the newest adverts ever heard of the node (at most
  \<open>defaultAdvertsPerNode\<close>) once the backfill has run, and every observer; and no other row. This holds over any
  number of lives of the process, with failed saves in between.\<close>

lemma restart_keeps_registries:
  assumes alive: "alive X as p" and idle: "idle p" "counts_fit p" and flush: "process_run X cfg (final_flush now) p = Some q"
    and db: "pc_db q = Some d" and start: "clean_start bi d" "boot (ou_sprint X) (ou_parse X) bi = Inr p'"
  shows "mget (nr_nodes (sy_nodes (pc_sys (backfillAdverts True p')))) pk
      = map_option (\<lambda>n. n\<lparr>nod_LatestAdverts := take (nat defaultAdvertsPerNode) (rev (heard pk as))\<rparr>)
          (mget (nr_nodes (sy_nodes (pc_sys p))) pk)
    \<and> mget (obs_observers (sy_observers (pc_sys p'))) i = mget (obs_observers (sy_observers (pc_sys p))) i"
proof -
  obtain ld where ld: "bi_opened bi = Some (d, ld)" using start by (auto simp: clean_start_def)
  have "settled as d" and rows: "node_at (idb_core d) = node_flush.row_val (sy_nodes (pc_sys p))"
    "observer_at (idb_core d) = mget (obs_observers (sy_observers (pc_sys p)))"
    using flushed_settled [OF alive_kept [OF alive] idle, of now] flush db by (auto simp: final_flush_run)
  from backfilled [OF start(2,1) this(1), of pk] boot_kept(4) [OF start(2) ld _ _ _ this(1)] start(1)
  show ?thesis by (simp add: rows clean_start_def node_flush.row_val_def overview_def option.map_comp comp_def)
qed

lemma settled_cong: "core_tables d = core_tables d' \<Longrightarrow> settled as d \<longleftrightarrow> settled as d'"
  by (auto simp: settled_def core_tables_def node_at_def observer_at_def)

text \<open>C4: In every life of the process and at every moment of it a node row holds, its rolling list and flags
  aside, exactly the summary of all adverts ever heard of its key, and the stored history together with the
  adverts not yet appended is the sequence of all adverts with a key ever heard.\<close>

lemma rows_summarise_all_lives:
  assumes "alive X as p"
  shows "map_option bare (mget (nr_nodes (sy_nodes (pc_sys p))) pk) = heard_row as pk
    \<and> (\<exists>d. pc_db p = Some d \<and>
         map load_advert (db_adverts (idb_core d)) @ nr_pending (sy_nodes (pc_sys p)) = filter (\<lambda>a. ao_PubKey a \<noteq> '''') as)"
  using alive_kept [OF assms] by (auto simp: kept_def rows_heard_def adverts_kept_def advert_view_def)

subsection \<open>Examples\<close>

definition ex_start :: "ImportDB \<Rightarrow> bootInput" where
  "ex_start d = \<lparr>bi_config = DefaultAppConfig\<lparr>cf_DBPath := ''db'', cf_LinksDBPath := ''links''\<rparr>,
     bi_networks = Some (200, Some (JArr ex_catalogue)), bi_opened = Some (d, \<lparr>ld_links = mempty, ld_nets = mempty\<rparr>),
     bi_errors = \<lparr>le_counters = True, le_nodes = False, le_observers = False, le_imported = False\<rparr>,
     bi_sources = Some (JArr [JObj [(''id'', JStr ''s1''), (''mapping'', JStr ''cz:0'')]]), bi_areas = None, bi_runtime = [''go_goroutines'']\<rparr>"

definition ex_parse :: "string \<Rightarrow> url option" where
  "ex_parse s = Some \<lparr>u_Scheme = ''wss'', u_Host = s, u_Path = '''', u_RawQuery = ''''\<rparr>"

definition ex_boot_store :: Store where
  "ex_boot_store = NewStore [\<lparr>nc_ID = ''cz'', nc_Name = '''', nc_Analyzers = [\<lparr>ac_Name = '''', ac_URL = ''u''\<rparr>],
           nc_Countries = [''CZ''], nc_Regions = [''EU868'']\<rparr>]"

definition ex_boot_tv :: TangleveilCollector where
  "ex_boot_tv = \<lparr>tv_only = mempty, tv_nodes = True, tv_obs = True, tv_links = True, tv_routes = mput mempty ''s1'' (ex_col 0)\<rparr>"

lemma ex_collector: "NewTangleveilCollector ex_parse url (bi_sources (ex_start d)) ex_boot_store mempty True True True = Some ex_boot_tv"
  by code_simp

lemma ex_boots:
  "\<exists>p. boot ex_sprint ex_parse (ex_start d) = Inr p \<and> pc_tv p = ex_boot_tv \<and> sy_heap (pc_sys p) = sto_heap ex_boot_store"
proof -
  have net: "networkIDSet [] = mempty" by code_simp
  have cur: "current_store ex_boot_store st = ex_boot_store" if "sy_heap st = sto_heap ex_boot_store" for st
    using that by (simp add: current_store_def)
  have nets: "LoadNetworks ex_sprint (bi_networks (ex_start d)) = Some [\<lparr>nc_ID = ''cz'', nc_Name = '''',
      nc_Analyzers = [\<lparr>ac_Name = '''', ac_URL = ''u''\<rparr>], nc_Countries = [''CZ''], nc_Regions = [''EU868'']\<rparr>]"
    using ex_catalogue_parsed by (simp add: LoadNetworks_def ex_start_def)
  obtain m where m: "NewMetrics (bi_runtime (ex_start d)) = Some m"
    using NewMetrics_succeeds [of "bi_runtime (ex_start d)"] by (auto simp: ex_start_def has_prefix_def)
  have "case openState (ex_start d) ex_boot_store (freshSystem (bi_config (ex_start d)) ex_boot_store m) of
      Inl e \<Rightarrow> False | Inr (st, rest) \<Rightarrow> sy_heap st = sto_heap ex_boot_store"
    by (simp add: openState_def ex_start_def DefaultAppConfig_def restoreCounters_def Let_def split_beta)
  then obtain st imp db ld bk where st: "sy_heap st = sto_heap ex_boot_store"
    "openState (ex_start d) ex_boot_store (freshSystem (bi_config (ex_start d)) ex_boot_store m) = Inr (st, imp, (db, ld), bk)"
    by (auto split: sum.splits prod.splits)
  have cfg: "cf_TangleveilURL (bi_config (ex_start d)) \<noteq> ''''" "cf_NetworkIDs (bi_config (ex_start d)) = []"
    by (simp_all add: ex_start_def DefaultAppConfig_def)
  have val: "ValidateNetworkFilter mempty ex_boot_store = None" by code_simp
  show ?thesis
    using st(1) by (simp add: boot_def cfg nets net ex_boot_store_def [symmetric] val m st(2) cur [OF st(1)] ex_collector)
qed

definition ex_outside :: outside where
  "ex_outside = \<lparr>ou_M = ex_meshpkt\<lparr>DecodePacket := \<lambda>raw. Some \<lparr>pi_Type = 4, pi_PathHashSize = 1, pi_HopCount = 0, pi_Path = [], pi_Payload = raw\<rparr>,
       DecodeAdvertPayload := \<lambda>pub. Some \<lparr>adv_PublicKey = pub, adv_Name = ''roof'', adv_NodeType = 2, adv_HasGPS = False,
         adv_Lat = 0, adv_Lon = 0, adv_Timestamp = 3\<rparr>\<rparr>,
     ou_sprint = ex_sprint, ou_parse = ex_parse, ou_sig = \<lambda>n. '''', ou_alloc = \<lambda>hs. int (length hs)\<rparr>"

definition ex_message :: "json option" where
  "ex_message = Some (JObj [(''source'', JStr ''s1''), (''payload'', JObj [(''type'', JStr ''packet''),
     (''data'', JObj [(''hash'', JStr ''h''), (''raw_hex'', JStr ''ab''), (''payload_type'', JNum 4)])])])"

definition ex_advert :: AdvertObservation where
  "ex_advert = \<lparr>ao_Hash = ''h'', ao_RawHex = ''ab'', ao_PubKey = ''ab'', ao_Name = ''roof'', ao_NodeType = 2, ao_HasGPS = False,
     ao_Lat = 0, ao_Lon = 0, ao_AdvertTime = 3, ao_At = 5, ao_NetworkID = ''cz'', ao_AnalyzerName = '''', ao_ObserverID = '''', ao_ObserverName = ''''\<rparr>"

lemma ex_heard:
  assumes "pc_tv p = ex_boot_tv" "sy_heap (pc_sys p) = sto_heap ex_boot_store"
  shows "stepAdverts ex_outside (Message 5 ex_message) p = [ex_advert]"
proof -
  have "messageAdvert (ou_M ex_outside) ex_boot_tv 5 ex_message st = [ex_advert]" 
    if "sy_heap st = sto_heap ex_boot_store" for st
    unfolding messageAdvert_def frameAdvert_def advertObservation_def networkID_def analyzerName_def that
    by code_simp
  then show ?thesis using assms by (simp add: stepAdverts_def)
qed

lemma ex_works:
  assumes "pc_tv p = ex_boot_tv" "sy_heap (pc_sys p) = sto_heap ex_boot_store"
  shows "\<exists>st. tv_handle (ou_M ex_outside) (pc_tv p) (5, ex_message) (pc_sys p) = Some st"
proof -
  let ?frame = "Some (JObj [(''type'', JStr ''packet''),
     (''data'', JObj [(''hash'', JStr ''h''), (''raw_hex'', JStr ''ab''), (''payload_type'', JNum 4)])])"
  have env: "Option.bind ex_message dec_tvEnvelope = Some \<lparr>te_Source = ''s1'', te_Payload = ?frame\<rparr>"
    by code_simp
  have route: "mget (tv_routes ex_boot_tv) ''s1'' = Some (ex_col 0)" by (simp add: ex_boot_tv_def gomap)
  have "(case frame_event (ou_M ex_outside) 5 ?frame of None \<Rightarrow> Some (sto_heap ex_boot_store)
      | Some ev \<Rightarrow> network_Observe (col_net (ex_col 0)) (col_az (ex_col 0)) ev (sto_heap ex_boot_store)) \<noteq> None"
    by code_simp
  then have "map_option sy_heap (handle (ou_M ex_outside) 5 (ex_col 0) ?frame (pc_sys p)) \<noteq> None"
    unfolding handle_heap assms(2) by simp
  then show ?thesis using assms(1) by (auto simp: tv_handle_def env route)
qed

text \<open>A life that heard one advert.\<close>

lemma ex_life:
  "\<exists>p. alive ex_outside [ex_advert] p \<and> idle p \<and> counts_fit p \<and> map_option core_tables (pc_db p) = Some (core_tables emptyImportDB)"
proof -
  obtain p where p: "boot ex_sprint ex_parse (ex_start emptyImportDB) = Inr p" "pc_tv p = ex_boot_tv"
    "sy_heap (pc_sys p) = sto_heap ex_boot_store" using ex_boots by blast
  have clean: "clean_start (ex_start d) d" for d by (simp add: clean_start_def ex_start_def)
  have first: "alive ex_outside [] p" 
    using alive.first [OF clean] p(1) by (simp add: ex_outside_def)
  obtain st where handled: "tv_handle (ou_M ex_outside) (pc_tv p) (5, ex_message) (pc_sys p) = Some st" using ex_works p by blast
  let ?q = "p\<lparr>pc_sys := st\<rparr>"
  have st: "process_step ex_outside DefaultAppConfig (Message 5 ex_message) p = Some ?q" by (simp add: handled)
  have al: "alive ex_outside [ex_advert] ?q" using alive.work [OF first st] ex_heard p by simp
  have "bi_opened (ex_start emptyImportDB) = Some (emptyImportDB, \<lparr>ld_links = mempty, ld_nets = mempty\<rparr>)"
     "cf_DBPath (bi_config (ex_start emptyImportDB)) \<noteq> ''''"
     "\<not> le_nodes (bi_errors (ex_start emptyImportDB))" "\<not> le_observers (bi_errors (ex_start emptyImportDB))"
    by (simp_all add: ex_start_def)
  note bk = boot_kept [OF p(1) this settled_empty]
  have "idle ?q" using bk(2) by (simp add: idle_def)
  moreover have "uint (nod_AdvertCount n) < 2 ^ 63" if "mget (nr_nodes (sy_nodes st)) pk = Some n" for pk n
  proof -
    have "map_option bare (mget (nr_nodes (sy_nodes st)) pk) = heard_row [ex_advert] pk"
      using alive_kept [OF al] by (simp add: kept_def rows_heard_def)
    then have "bare n = bare (summary (nat defaultAdvertsPerNode) [ex_advert])"
      using that by (auto simp: heard_row_def heard_def split: if_splits)
    from arg_cong [OF this, of nod_AdvertCount] show ?thesis by (simp add: summary_def Let_def)
  qed
  moreover have "uint (or_Observations ob) < 2 ^ 63" if "mget (obs_observers (sy_observers st)) i = Some ob" for i ob
  proof -
    from message_registries(2) [OF handled] obtain us where "length us \<le> 1" "sy_observers st = fold observers_Observe us (sy_observers (pc_sys p))"
      by blast
    moreover have "mget (obs_observers (sy_observers (pc_sys p))) = (\<lambda>_. None)"
      using bk(4) by (auto simp: observer_at_def emptyImportDB_def emptyDB_def)
    ultimately show ?thesis using that
      by (cases us) (auto simp: observers_Observe_def noteActivity_def newObserver_def Let_def mget_mput split: if_splits)
  qed
  ultimately have "idle ?q \<and> counts_fit ?q \<and> map_option core_tables (pc_db ?q) = Some (core_tables emptyImportDB)"
    using bk(6) by (simp add: counts_fit_def)
  then show ?thesis using al by blast
qed

lemma rows_summarise_all_lives_witness:
  "\<exists>p n. alive ex_outside [ex_advert] p \<and> mget (nr_nodes (sy_nodes (pc_sys p))) ''ab'' = Some n \<and> nod_Name n = ''roof''"
proof -
  obtain p where p: "alive ex_outside [ex_advert] p" using ex_life by blast
  have "heard_row [ex_advert] ''ab'' = Some (bare (summary (nat defaultAdvertsPerNode) [ex_advert]))"
    by (simp add: heard_row_def heard_def ex_advert_def)
  with conjunct1 [OF rows_summarise_all_lives [OF p, of "''ab''"]]
  obtain n where n: "mget (nr_nodes (sy_nodes (pc_sys p))) ''ab'' = Some n" "bare n = bare (summary (nat defaultAdvertsPerNode) [ex_advert])"
    by auto
  from arg_cong [OF n(2), of nod_Name] have "nod_Name n = ''roof''"
    by (simp add: summary_def Let_def last_of_def ex_advert_def)
  then show ?thesis using p n(1) by blast
qed

lemma restart_keeps_registries_witness:
  "\<exists>p p' n. alive ex_outside [ex_advert] p \<and> mget (nr_nodes (sy_nodes (pc_sys p))) ''ab'' = Some n
     \<and> alive ex_outside [ex_advert] p' \<and> mget (nr_nodes (sy_nodes (pc_sys (backfillAdverts True p')))) ''ab'' = Some (n\<lparr>nod_LatestAdverts := [ex_advert]\<rparr>)"
proof -
  obtain p where p: "alive ex_outside [ex_advert] p" "idle p" "counts_fit p" using ex_life by blast
  note flushed = final_flush_run [of ex_outside DefaultAppConfig 9 p]
  obtain d where d: "pc_db (flushed_process 9 p) = Some d"
    using flushed_settled [OF alive_kept [OF p(1)] p(2,3), of 9] by blast
  have clean: "clean_start (ex_start d) d" by (simp add: clean_start_def ex_start_def)
  obtain p' where boot: "boot (ou_sprint ex_outside) (ou_parse ex_outside) (ex_start d) = Inr p'"
    using ex_boots [of d] by (auto simp: ex_outside_def)
  have again: "alive ex_outside [ex_advert] p'" by (rule alive.again [OF p flushed d clean boot])
  have "map_option bare (mget (nr_nodes (sy_nodes (pc_sys p))) ''ab'') \<noteq> None"
    using alive_kept [OF p(1)] by (simp add: kept_def rows_heard_def heard_row_def heard_def ex_advert_def)
  then obtain n where n: "mget (nr_nodes (sy_nodes (pc_sys p))) ''ab'' = Some n" by auto
  have "mget (nr_nodes (sy_nodes (pc_sys (backfillAdverts True p')))) ''ab'' = Some (n\<lparr>nod_LatestAdverts := [ex_advert]\<rparr>)"
    using conjunct1 [OF restart_keeps_registries [OF p flushed d clean boot, of "''ab''"]] n
    by (simp add: heard_def ex_advert_def defaultAdvertsPerNode_def)
  then show ?thesis using p(1) n again by blast
qed

subsection \<open>What is lost\<close>

text \<open>A failed read of the stored nodes is only a warning, and the registry starts empty: the next committed flush
  of a node overwrites its stored row, whatever it counted, by a row of one advert.\<close>

lemma failed_load_overwrites:
  assumes boot: "boot sprint parse bi = Inr p" and opened: "bi_opened bi = Some (d, ld)" "cf_DBPath (bi_config bi) \<noteq> ''''"
    and failed: "le_nodes (bi_errors bi)"
    and step: "process_step X cfg (Message now data) p = Some p1"
    and heard: "stepAdverts X (Message now data) p = [a]" "ao_PubKey a \<noteq> ''''"
  shows "\<exists>n. node_rows (saveNodes now' dur True (takeNodes p1)) (ao_PubKey a) = Some n \<and> nod_AdvertCount n = 1"
proof -
  obtain store m st imp db ld' bk where os: "openState bi store (freshSystem (bi_config bi) store m) = Inr (st, imp, (db, ld'), bk)"
    "pc_sys p = st" "pc_db p = db" "pc_backfill p = bk" "idle p"
    using boot_state [OF boot] by blast
  have reg: "sy_nodes (pc_sys p) = SetAdvertHook True (newNodeRegistry defaultAdvertsPerNode)" and "pc_db p \<noteq> None"
    using os opened failed by (auto simp: openState_def restoreNodes_def Let_def freshSystem_def split: if_splits prod.splits) (metis System.select_convs(2) option.distinct(1))+
  then have ov: "overviews p" and b: "pc_nodeBatch p = []" using os(5) by (simp_all add: overviews_def idle_def)
  obtain st' where st': "tv_handle (ou_M X) (pc_tv p) (now, data) (pc_sys p) = Some st'" "p1 = p\<lparr>pc_sys := st'\<rparr>"
    using step by (auto split: bind_splits)
  have nodes: "sy_nodes st' = snd (nodes_Observe a (sy_nodes (pc_sys p)))"
    using message_registries(1) [OF st'(1)] heard by (simp add: stepAdverts_def)
  have ov1: "overviews p1" using ov by (simp add: overviews_def st'(2))
  have view: "node_view p1 = node_steps [Update (Heard a)] (node_view p)"
    by (simp add: node_view_def st'(2) nodes node_rows_def)
  have none: "mget (nr_nodes (sy_nodes (pc_sys p))) k = None" for k by (simp add: reg SetAdvertHook_def newNodeRegistry_def)
  have row: "node_flush.row_val (sy_nodes (pc_sys p1)) k = (if k = ao_PubKey a
      then Some (overview (noteAdvert (nr_maxAdverts (sy_nodes (pc_sys p))) a (newNode a))) else None)" for k
    using heard(2) none by (auto simp: node_flush.row_val_def st'(2) nodes mget_nodes_Observe)
  have one: "nod_AdvertCount (overview (noteAdvert cap a (newNode a))) = 1" for cap
    by (simp add: overview_def noteAdvert_eq newNode_def)
  have nl: "node_flush.fq.no_loss (node_view p)"
    by (rule node_flush.fq.no_lossI) (simp_all add: node_view_def node_flush.row_val_def node_flush.row_inv_def keyed_def none b)
  have inv: "node_flush.row_inv (fs_reg (node_view p1))"
    unfolding view using node_flush.fq.no_lossD(1) [OF node_flush.fq.no_loss_run [OF nl, of "[Update (Heard a)]"]] by simp
  have batch: "pc_nodeBatch (takeNodes p1) = fst (nodes_TakeDirty (sy_nodes (pc_sys p1)))"
    using b ov1 by (auto simp: takeNodes_def overviews_def st'(2) split: prod.split)
  have "\<forall>n\<in>set (pc_nodeBatch (takeNodes p1)). uint (nod_AdvertCount n) < 2 ^ 63"
  proof
    fix n assume "n \<in> set (pc_nodeBatch (takeNodes p1))"
    then have "node_flush.row_val (sy_nodes (pc_sys p1)) (nod_PubKey n) = Some n"
      using node_flush.grabbed [OF inv, of n] by (simp add: batch node_view_def)
    then have "n = overview (noteAdvert (nr_maxAdverts (sy_nodes (pc_sys p))) a (newNode a))" by (simp add: row split: if_splits)
    then show "uint (nod_AdvertCount n) < 2 ^ 63" using one by simp
  qed
  then have saved: "node_view (saveNodes now' dur True (takeNodes p1)) = flush_step node_step nodes_TakeDirty nodes_Requeue nod_PubKey SaveOk
      (flush_step node_step nodes_TakeDirty nodes_Requeue nod_PubKey Take (node_steps [Update (Heard a)] (node_view p)))"
    using saveNodes_ok [of "takeNodes p1" now' dur] takeNodes_view [OF ov1] by (simp add: view)
  have "fs_db (node_view (saveNodes now' dur True (takeNodes p1))) (ao_PubKey a)
      = Some (overview (noteAdvert (nr_maxAdverts (sy_nodes (pc_sys p))) a (newNode a)))"
    unfolding saved by (rule node_flush.fq.flushed [OF nl])
      (insert row [of "ao_PubKey a"], simp_all add: view [symmetric], simp_all add: node_view_def b st'(2) nodes)
  then show ?thesis using one by (simp add: node_view_def)
qed

text \<open>A \<open>null\<close> entry in the directory ends the process.\<close>

lemma null_entry_ends_process:
  assumes "cf_ImportURL cfg \<noteq> ''''"
  shows "process_step X cfg (Sync now (Some \<lparr>hr_status = 200, hr_gzip = False, hr_gunzip_ok = True, hr_body = Some (JArr [JNull])\<rparr>)
    saves records) p = None"
proof -
  have "fetch (Some \<lparr>hr_status = 200, hr_gzip = False, hr_gunzip_ok = True, hr_body = Some (JArr [JNull])\<rparr>) = None"
    by (simp add: fetch_def dec_imported_ptr_def)
  then show ?thesis using assms by (simp add: syncDirectory_def syncOnce_def)
qed

text \<open>On a signal nothing waits for the flush loops: \<open>main\<close> returns, and closes the databases, as soon as the
  listener is closed, so the final flush may be cut after any of its steps, or before its first.\<close>

definition shutdown_run :: "outside \<Rightarrow> AppConfig \<Rightarrow> unix_time \<Rightarrow> nat \<Rightarrow> Process \<Rightarrow> Process option" where
  "shutdown_run X cfg now n p = process_run X cfg (take n (final_flush now)) p"

lemma final_flush_may_be_lost:
  "\<exists>p q d p'. alive ex_outside [ex_advert] p \<and> mget (nr_nodes (sy_nodes (pc_sys p))) ''ab'' \<noteq> None
     \<and> shutdown_run ex_outside DefaultAppConfig 9 0 p = Some q \<and> pc_db q = Some d \<and> clean_start (ex_start d) d
     \<and> boot ex_sprint ex_parse (ex_start d) = Inr p' \<and> mget (nr_nodes (sy_nodes (pc_sys p'))) ''ab'' = None"
proof -
  obtain p where p: "alive ex_outside [ex_advert] p" "map_option core_tables (pc_db p) = Some (core_tables emptyImportDB)"
    using ex_life by blast
  then obtain d where d: "pc_db p = Some d" "core_tables d = core_tables emptyImportDB" by auto
  have "settled [] d"
    using settled_empty by (rule settled_cong [OF d(2), THEN iffD2])
  moreover have clean: "clean_start (ex_start d) d" by (simp add: clean_start_def ex_start_def)
  moreover obtain p' where boot: "boot ex_sprint ex_parse (ex_start d) = Inr p'" using ex_boots by blast
  ultimately have "kept [] p'" using clean_kept by blast
  then have "mget (nr_nodes (sy_nodes (pc_sys p'))) ''ab'' = None" by (simp add: kept_def rows_heard_def heard_row_def heard_def)
  moreover have "map_option bare (mget (nr_nodes (sy_nodes (pc_sys p))) ''ab'') \<noteq> None"
    using alive_kept [OF p(1)] by (simp add: kept_def rows_heard_def heard_row_def heard_def ex_advert_def)
  ultimately show ?thesis using p(1) d(1) clean boot by (auto simp: shutdown_run_def)
qed

end
