(* ===== verification/MetricCalls.thy ===== *)
theory MetricCalls
  imports Restart
begin

text \<open>
  The calls to the Prometheus client over a run of the process: each fits the declaration of its metric in
  \<open>NewMetrics\<close> (telemetry.go), so none of them panics.
\<close>

lemma feed_metrics_ok:
  assumes "calls_ok (sy_metrics st)"
  shows "calls_ok (sy_metrics (feedObservers col p now st))" "calls_ok (sy_metrics (feedLinks M col p hash now st))"
    "calls_ok (sy_metrics (feedNodes M col p hash now st))"
  using assms
  by (auto simp: feedObservers_def feedLinks_def feedNodes_def collectAdvert_def decode_error_def Let_def
      split: option.split list.split prod.split)

lemma handle_metrics_ok:
  "handle M now col data st = Some st' \<Longrightarrow> calls_ok (sy_metrics st) \<Longrightarrow> calls_ok (sy_metrics st')"
  by (auto simp: handle_def handlePacket_def decode_error_def Let_def intro!: feed_metrics_ok
      split: bind_splits option.splits if_splits)

lemma tv_handle_metrics_ok:
  "tv_handle M t msg st = Some st' \<Longrightarrow> calls_ok (sy_metrics st) \<Longrightarrow> calls_ok (sy_metrics st')"
  by (auto simp: tv_handle_def decode_error_def dest: handle_metrics_ok split: prod.splits option.splits)

lemma fold_metrics_ok:
  "(\<And>x st. calls_ok (sy_metrics st) \<Longrightarrow> calls_ok (sy_metrics (f x st))) \<Longrightarrow> calls_ok (sy_metrics st) \<Longrightarrow> calls_ok (sy_metrics (fold f xs st))"
  by (induction xs arbitrary: st) simp_all

lemma mark_metrics_ok:
  "calls_ok (sy_metrics st) \<Longrightarrow> calls_ok (sy_metrics (fold (markConnected now) cols st))"
  "calls_ok (sy_metrics st) \<Longrightarrow> calls_ok (sy_metrics (markAllDisconnected err t st))"
  unfolding markAllDisconnected_def
  by (rule fold_metrics_ok, auto simp: markConnected_def markDisconnected_def on_system_heap_def Let_def)+

lemma refresh_metrics_ok:
  "refresh_tick sprint flt rf (t, s, st) = (t', s', st') \<Longrightarrow> calls_ok (sy_metrics st) \<Longrightarrow> calls_ok (sy_metrics st')"
  by (auto simp: refresh_tick_def Let_def split: option.splits if_splits)

lemma process_step_metrics_ok:
  assumes "process_step X cfg x p = Some p'" "calls_ok (sy_metrics (pc_sys p))"
  shows "calls_ok (sy_metrics (pc_sys p'))"
  using assms
  by (cases x)
    (auto simp: on_sys_def on_store_def sweepAll_def flagNodes_def refreshAreas_def backfillAdverts_def restoreLinks_def syncDirectory_def
      flushCounters_def takeNodes_def saveNodes_def readAdverts_def appendAdverts_def takeLinks_def saveLinks_def takeObservers_def
      saveObservers_def flushed_metrics_def Let_def intro!: mark_metrics_ok intro: tv_handle_metrics_ok refresh_metrics_ok
      split: bind_splits option.splits prod.splits if_splits)

lemma boot_metrics_ok:
  assumes "boot sprint parse bi = Inr p"
  shows "calls_ok (sy_metrics (pc_sys p))"
proof -
  obtain store m st imp db bk where os: "openState bi store (freshSystem (bi_config bi) store m) = Inr (st, imp, db, bk)"
    "pc_sys p = st" "NewMetrics (bi_runtime bi) = Some m"
    using assms by (fastforce simp: boot_def Let_def split: if_splits option.splits sum.splits prod.splits)
  have "calls_ok m" using os(3) by (auto simp: NewMetrics_def calls_ok_def split: bind_splits)
  then have "calls_ok (sy_metrics (freshSystem (bi_config bi) store m))" by (simp add: freshSystem_def)
  moreover have "openState bi store s0 = Inr (st, imp, db, bk) \<Longrightarrow> sy_metrics st = sy_metrics s0" for s0
    by (auto simp: openState_def Let_def split: if_splits option.splits prod.splits)
  ultimately show ?thesis using os(1,2) by simp
qed



end
