(* ===== verification/Schema.thy ===== *)
theory Schema
  imports LinkDatabase ImportedTables
begin

text \<open>
  Opening the databases (OpenDB in db.go): schema scripts and migrations, any driver call of which may
  fail. A table is its columns and its rows (from column to SQL literal), an index the columns it is on; \<open>CREATE\<close> and
  \<open>ALTER\<close> are modelled as documented by SQLite for these statements. Every statement commits on its own, so
  a failed or killed start leaves the files between two of them.
\<close>

subsection \<open>Statements\<close>

record sqlTable =
  tb_columns :: "string list"
  tb_rows :: "(string, string) gomap list"

record sqlFile =
  sf_tables :: "(string, sqlTable) gomap"
  sf_indexes :: "(string, string \<times> string list) gomap"

datatype sqlStmt = CreateTable string "string list" | CreateIndex string string "string list"
  | AddColumn string string string | DropColumn string string

text \<open>The default of a column declaration.\<close>

fun decl_default :: "string \<Rightarrow> string" where
  "decl_default [] = ''NULL''"
| "decl_default (c # s) = (if has_prefix (c # s) ''DEFAULT '' then drop 8 (c # s) else decl_default s)"

text \<open>\<open>IF NOT EXISTS\<close> leaves an existing table or index as it is.\<close>

primrec exec_stmt :: "sqlStmt \<Rightarrow> sqlFile \<Rightarrow> sqlFile option" where
  "exec_stmt (CreateTable t cs) f = Some (case mget (sf_tables f) t of Some _ \<Rightarrow> f
     | None \<Rightarrow> f\<lparr>sf_tables := mput (sf_tables f) t \<lparr>tb_columns = cs, tb_rows = []\<rparr>\<rparr>)"
| "exec_stmt (CreateIndex i t cs) f = (case mget (sf_indexes f) i of Some _ \<Rightarrow> Some f
     | None \<Rightarrow> (case mget (sf_tables f) t of None \<Rightarrow> None
       | Some tb \<Rightarrow> if set cs \<subseteq> set (tb_columns tb) then Some (f\<lparr>sf_indexes := mput (sf_indexes f) i (t, cs)\<rparr>) else None))"
| "exec_stmt (AddColumn t c decl) f = (case mget (sf_tables f) t of None \<Rightarrow> None
     | Some tb \<Rightarrow> if c \<in> set (tb_columns tb) then None
         else Some (f\<lparr>sf_tables := mput (sf_tables f) t
           \<lparr>tb_columns = tb_columns tb @ [c], tb_rows = map (\<lambda>r. mput r c (decl_default decl)) (tb_rows tb)\<rparr>\<rparr>))"
| "exec_stmt (DropColumn t c) f = (case mget (sf_tables f) t of None \<Rightarrow> None
     | Some tb \<Rightarrow> if c \<notin> set (tb_columns tb) \<or> (\<exists>(i, t', cs)\<in>set (mentries (sf_indexes f)). t' = t \<and> c \<in> set cs) then None
         else Some (f\<lparr>sf_tables := mput (sf_tables f) t
           \<lparr>tb_columns = filter (\<lambda>c'. c' \<noteq> c) (tb_columns tb), tb_rows = map (\<lambda>r. mdel r c) (tb_rows tb)\<rparr>\<rparr>))"

definition counterSchema :: "sqlStmt list" where
  "counterSchema =
    [CreateTable ''counters'' [''scope'', ''observations'', ''unique_packets'', ''last_packet_at'', ''payload_types'', ''observers'',
       ''nodes'', ''updated_at''],
     CreateTable ''nodes'' [''pubkey'', ''name'', ''node_type'', ''has_gps'', ''lat'', ''lon'', ''first_advert_at'', ''last_advert_at'',
       ''advert_count'', ''networks'', ''observer_id'', ''observer_name'', ''updated_at''],
     CreateTable ''adverts'' [''id'', ''hash'', ''raw_hex'', ''pubkey'', ''name'', ''node_type'', ''has_gps'', ''lat'', ''lon'', ''advert_time'',
       ''received_at'', ''network_id'', ''analyzer_name'', ''observer_id'', ''observer_name''],
     CreateIndex ''idx_adverts_pubkey'' ''adverts'' [''pubkey'', ''id''],
     CreateTable ''observers'' [''observer_id'', ''name'', ''first_seen'', ''last_seen'', ''observations'', ''networks'', ''updated_at''],
     CreateTable ''imported_nodes'' [''public_key'', ''type'', ''adv_name'', ''last_advert'', ''last_advert_at'', ''adv_lat'', ''adv_lon'',
       ''inserted_date'', ''updated_date'', ''params'', ''link'', ''source'', ''inserted_by'', ''updated_by'', ''synced_at''],
     CreateTable ''imported_node_history'' [''id'', ''public_key'', ''sig'', ''type'', ''adv_name'', ''last_advert'', ''last_advert_at'',
       ''adv_lat'', ''adv_lon'', ''inserted_date'', ''updated_date'', ''params'', ''link'', ''source'', ''inserted_by'', ''updated_by'',
       ''first_captured_at'', ''last_captured_at''],
     CreateIndex ''idx_imported_history_pubkey'' ''imported_node_history'' [''public_key'', ''first_captured_at'']]"

definition linkSchema :: "sqlStmt list" where
  "linkSchema =
    [CreateTable ''links'' [''node_a'', ''node_b'', ''packet_count'', ''first_seen'', ''last_seen'', ''activity_score'', ''score_updated_at''],
     CreateIndex ''idx_links_node_b'' ''links'' [''node_b''],
     CreateTable ''link_networks'' [''node_a'', ''node_b'', ''network_id'', ''first_seen'', ''last_seen'']]"

subsection \<open>Driver calls\<close>

datatype dbName = Core | Links

text \<open>The files, the open handles, and which of the next driver calls fail; once the list is used up none does.\<close>

record dbOpening =
  op_files :: "dbName \<Rightarrow> sqlFile"
  op_handles :: "dbName list"
  op_faults :: "bool list"

definition driver :: "(dbOpening \<Rightarrow> bool \<times> dbOpening) \<Rightarrow> dbOpening \<Rightarrow> bool \<times> dbOpening" where
  "driver call w = (case op_faults w of [] \<Rightarrow> call w
     | fault # fs \<Rightarrow> if fault then (False, w\<lparr>op_faults := fs\<rparr>) else call (w\<lparr>op_faults := fs\<rparr>))"

definition sql_Open :: "dbName \<Rightarrow> dbOpening \<Rightarrow> bool \<times> dbOpening" where
  "sql_Open db = driver (\<lambda>w. (True, w\<lparr>op_handles := db # op_handles w\<rparr>))"

definition sql_Close :: "dbName \<Rightarrow> dbOpening \<Rightarrow> dbOpening" where
  "sql_Close db w = w\<lparr>op_handles := remove1 db (op_handles w)\<rparr>"

definition sql_Exec :: "dbName \<Rightarrow> sqlStmt \<Rightarrow> dbOpening \<Rightarrow> bool \<times> dbOpening" where
  "sql_Exec db s = driver (\<lambda>w. case exec_stmt s (op_files w db) of None \<Rightarrow> (False, w)
     | Some f \<Rightarrow> (True, w\<lparr>op_files := (op_files w)(db := f)\<rparr>))"

primrec exec_script :: "dbName \<Rightarrow> sqlStmt list \<Rightarrow> dbOpening \<Rightarrow> bool \<times> dbOpening" where
  "exec_script db [] w = (True, w)"
| "exec_script db (s # ss) w = (case sql_Exec db s w of (ok, w) \<Rightarrow> if ok then exec_script db ss w else (False, w))"

text \<open>A query that needs a table with some columns.\<close>

definition sql_Query :: "dbName \<Rightarrow> string \<Rightarrow> string list \<Rightarrow> dbOpening \<Rightarrow> bool \<times> dbOpening" where
  "sql_Query db t cs = driver (\<lambda>w. (case mget (sf_tables (op_files w db)) t of None \<Rightarrow> False
     | Some tb \<Rightarrow> set cs \<subseteq> set (tb_columns tb), w))"

text \<open>\<open>PRAGMA table_info\<close> has no row for a table that does not exist; \<open>None\<close> is an error.\<close>

definition columnExists :: "dbName \<Rightarrow> string \<Rightarrow> string \<Rightarrow> dbOpening \<Rightarrow> bool option \<times> dbOpening" where
  "columnExists db t c w = (case driver (\<lambda>w. (True, w)) w of (ok, w) \<Rightarrow>
     (if ok then Some (case mget (sf_tables (op_files w db)) t of None \<Rightarrow> False | Some tb \<Rightarrow> c \<in> set (tb_columns tb)) else None, w))"

definition ensureColumn :: "dbName \<Rightarrow> string \<Rightarrow> string \<Rightarrow> string \<Rightarrow> dbOpening \<Rightarrow> bool \<times> dbOpening" where
  "ensureColumn db t c decl w = (case columnExists db t c w of
     (None, w) \<Rightarrow> (False, w)
   | (Some ok, w) \<Rightarrow> if ok then (True, w) else sql_Exec db (AddColumn t c decl) w)"

definition dropColumnIfExists :: "dbName \<Rightarrow> string \<Rightarrow> string \<Rightarrow> dbOpening \<Rightarrow> bool \<times> dbOpening" where
  "dropColumnIfExists db t c w = (case columnExists db t c w of
     (None, w) \<Rightarrow> (False, w)
   | (Some ok, w) \<Rightarrow> if \<not> ok then (True, w) else sql_Exec db (DropColumn t c) w)"

subsection \<open>Opening\<close>

datatype openStep = OpenHandle dbName | Script dbName "sqlStmt list" | Ensure dbName string string string
  | DropIfExists dbName string string | StatsQuery dbName string "string list"

primrec exec_step :: "openStep \<Rightarrow> dbOpening \<Rightarrow> bool \<times> dbOpening" where
  "exec_step (OpenHandle db) = sql_Open db"
| "exec_step (Script db ss) = exec_script db ss"
| "exec_step (Ensure db t c decl) = ensureColumn db t c decl"
| "exec_step (DropIfExists db t c) = dropColumnIfExists db t c"
| "exec_step (StatsQuery db t cs) = sql_Query db t cs"

text \<open>The declarations of the added columns; \<open>q\<close> is the SQL quote.\<close>

definition quoted :: "string \<Rightarrow> string" where
  "quoted s = (let q = CHR 0x27 in q # s @ [q])"

definition textDecl :: string where
  "textDecl = ''TEXT NOT NULL DEFAULT '' @ quoted ''''"

definition listDecl :: string where
  "listDecl = ''TEXT NOT NULL DEFAULT '' @ quoted ''[]''"

definition objectDecl :: string where
  "objectDecl = ''TEXT NOT NULL DEFAULT '' @ quoted ''{}''"

definition intDecl :: string where
  "intDecl = ''INTEGER NOT NULL DEFAULT 0''"

definition realDecl :: string where
  "realDecl = ''REAL NOT NULL DEFAULT 0''"

definition coreMigrations :: "(string \<times> string \<times> string) list" where
  "coreMigrations = [(''adverts'', ''hash'', textDecl), (''adverts'', ''raw_hex'', textDecl), (''adverts'', ''analyzer_name'', textDecl),
     (''nodes'', ''flags'', listDecl)]"

definition linkMigrations :: "(string \<times> string) list" where
  "linkMigrations = [(''last_hash_ab'', textDecl), (''last_hash_ba'', textDecl), (''dir_ab'', intDecl), (''dir_ba'', intDecl),
     (''last_snr'', realDecl), (''has_snr'', intDecl), (''snrs_ab'', listDecl), (''snrs_ba'', listDecl),
     (''low_confidence_count'', intDecl), (''geo'', textDecl), (''sources'', objectDecl)]"

definition networkMigrations :: "(string \<times> string) list" where
  "networkMigrations = [(''packet_count'', intDecl), (''dir_ab'', intDecl), (''dir_ba'', intDecl), (''last_hash_ab'', textDecl),
     (''last_hash_ba'', textDecl), (''low_confidence_count'', intDecl)]"

definition initStats_queries :: "(string \<times> string list) list" where
  "initStats_queries = [(''nodes'', []), (''imported_nodes'', []), (''adverts'', [''id'']), (''imported_node_history'', [''id''])]"

text \<open>Each step of \<open>OpenDB\<close> with the handles closed when it fails and the prefix of the error.\<close>

definition openSteps :: "(openStep \<times> dbName list \<times> string) list" where
  "openSteps =
     [(OpenHandle Core, [], ''''), (Script Core counterSchema, [Core], ''init schema'')]
   @ map (\<lambda>(t, c, decl). (Ensure Core t c decl, [Core], ''migrate '' @ t @ ''.'' @ c)) coreMigrations
   @ [(OpenHandle Links, [Core], ''''), (Script Links linkSchema, [Core, Links], ''init link schema'')]
   @ map (\<lambda>(c, decl). (Ensure Links ''links'' c decl, [Core, Links], ''migrate links.'' @ c)) linkMigrations
   @ [(DropIfExists Links ''links'' ''last_hash'', [Core, Links], ''migrate links.last_hash'')]
   @ map (\<lambda>(c, decl). (Ensure Links ''link_networks'' c decl, [Core, Links], ''migrate link_networks.'' @ c)) networkMigrations
   @ map (\<lambda>(t, cs). (StatsQuery Core t cs, [Core, Links], ''init stats'')) initStats_queries"

primrec run_steps :: "(openStep \<times> dbName list \<times> string) list \<Rightarrow> dbOpening \<Rightarrow> string option \<times> dbOpening" where
  "run_steps [] w = (None, w)"
| "run_steps (s # ss) w = (case s of (x, opened, msg) \<Rightarrow> (case exec_step x w of (ok, w) \<Rightarrow>
     if ok then run_steps ss w else (Some msg, fold sql_Close opened w)))"

definition OpenDB :: "dbOpening \<Rightarrow> string option \<times> dbOpening" where
  "OpenDB = run_steps openSteps"

text \<open>\<open>Close\<close> closes both handles, whatever the first answers.\<close>

definition db_Close :: "dbOpening \<Rightarrow> dbOpening" where
  "db_Close w = sql_Close Links (sql_Close Core w)"

subsection \<open>What the driver calls change\<close>

lemma driver_cases:
  assumes "driver call w = (ok, w')"
  obtains "\<not> ok" "\<exists>fs. w' = w\<lparr>op_faults := fs\<rparr>" | fs where "call (w\<lparr>op_faults := fs\<rparr>) = (ok, w')"
proof (cases "op_faults w")
  case Nil
  then have same: "w\<lparr>op_faults := []\<rparr> = w" by (cases w) simp
  have "call (w\<lparr>op_faults := []\<rparr>) = (ok, w')" unfolding same using assms Nil by (simp add: driver_def)
  then show ?thesis by (rule that(2))
qed (use assms that in \<open>auto simp: driver_def split: if_splits\<close>)

lemma driver_no_faults [simp]: "op_faults w = [] \<Longrightarrow> driver call w = call w"
  by (simp add: driver_def)

text \<open>The statements a step may execute.\<close>

primrec stmts_of :: "openStep \<Rightarrow> (dbName \<times> sqlStmt) list" where
  "stmts_of (OpenHandle db) = []"
| "stmts_of (Script db ss) = map (Pair db) ss"
| "stmts_of (Ensure db t c decl) = [(db, AddColumn t c decl)]"
| "stmts_of (DropIfExists db t c) = [(db, DropColumn t c)]"
| "stmts_of (StatsQuery db t cs) = []"

definition openStmts :: "(dbName \<times> sqlStmt) list" where
  "openStmts = concat (map (\<lambda>(x, _, _). stmts_of x) openSteps)"

text \<open>A relation between the files before and after every statement holds between those before and after the
  opening, however far it came.\<close>

locale file_relation =
  fixes R :: "(dbName \<Rightarrow> sqlFile) \<Rightarrow> (dbName \<Rightarrow> sqlFile) \<Rightarrow> bool" and stmt_ok :: "dbName \<Rightarrow> sqlStmt \<Rightarrow> bool"
  assumes rel_refl: "R F F"
    and rel_trans: "R F G \<Longrightarrow> R G H \<Longrightarrow> R F H"
    and rel_exec: "stmt_ok db s \<Longrightarrow> exec_stmt s (F db) = Some f \<Longrightarrow> R F (F(db := f))"
begin

lemma rel_Exec: "sql_Exec db s w = (ok, w') \<Longrightarrow> stmt_ok db s \<Longrightarrow> R (op_files w) (op_files w')"
  unfolding sql_Exec_def by (erule driver_cases) (auto simp: rel_refl rel_exec split: option.splits)

lemma rel_script: "exec_script db ss w = (ok, w') \<Longrightarrow> \<forall>s\<in>set ss. stmt_ok db s \<Longrightarrow> R (op_files w) (op_files w')"
proof (induction ss arbitrary: w)
  case (Cons s ss)
  obtain ok1 w1 where w1: "sql_Exec db s w = (ok1, w1)" by fastforce
  then have "R (op_files w) (op_files w1)" using rel_Exec Cons.prems by simp
  then show ?case using Cons.prems w1 Cons.IH [of w1] rel_trans by (auto split: if_splits)
qed (simp add: rel_refl)

lemma columnExists_files: "columnExists db t c w = (r, w') \<Longrightarrow> op_files w' = op_files w \<and> op_handles w' = op_handles w"
  unfolding columnExists_def by (auto split: prod.splits elim!: driver_cases)

lemma rel_step: "exec_step x w = (ok, w') \<Longrightarrow> \<forall>(db, s)\<in>set (stmts_of x). stmt_ok db s \<Longrightarrow> R (op_files w) (op_files w')"
proof (cases x)
  case (OpenHandle db)
  then show "exec_step x w = (ok, w') \<Longrightarrow> R (op_files w) (op_files w')"
    by (auto simp: sql_Open_def rel_refl elim!: driver_cases)
next
  case (Script db ss)
  then show "exec_step x w = (ok, w') \<Longrightarrow> \<forall>(db, s)\<in>set (stmts_of x). stmt_ok db s \<Longrightarrow> R (op_files w) (op_files w')"
    using rel_script by auto
next
  case (Ensure db t c decl)
  then show "exec_step x w = (ok, w') \<Longrightarrow> \<forall>(db, s)\<in>set (stmts_of x). stmt_ok db s \<Longrightarrow> R (op_files w) (op_files w')"
    using rel_refl by (auto simp: ensureColumn_def split: prod.splits option.splits if_splits dest!: columnExists_files rel_Exec)
next
  case (DropIfExists db t c)
  then show "exec_step x w = (ok, w') \<Longrightarrow> \<forall>(db, s)\<in>set (stmts_of x). stmt_ok db s \<Longrightarrow> R (op_files w) (op_files w')"
    using rel_refl by (auto simp: dropColumnIfExists_def split: prod.splits option.splits if_splits dest!: columnExists_files rel_Exec)
next
  case (StatsQuery db t cs)
  then show "exec_step x w = (ok, w') \<Longrightarrow> R (op_files w) (op_files w')"
    by (auto simp: sql_Query_def rel_refl elim!: driver_cases)
qed

lemma close_files [simp]: "op_files (fold sql_Close dbs w) = op_files w"
  by (induction dbs arbitrary: w) (simp_all add: sql_Close_def)

lemma rel_steps:
  "run_steps xs w = (r, w') \<Longrightarrow> \<forall>(x, _, _)\<in>set xs. \<forall>(db, s)\<in>set (stmts_of x). stmt_ok db s \<Longrightarrow> R (op_files w) (op_files w')"
proof (induction xs arbitrary: w)
  case (Cons a xs)
  obtain x opened msg where a: "a = (x, opened, msg)" by (cases a)
  obtain ok w1 where w1: "exec_step x w = (ok, w1)" by fastforce
  have "R (op_files w) (op_files w1)" using rel_step [OF w1] Cons.prems(2) by (auto simp: a)
  then show ?case using Cons.prems Cons.IH [of w1] w1 rel_trans by (auto simp: a split: if_splits)
qed (simp add: rel_refl)

lemma rel_OpenDB: "OpenDB w = (r, w') \<Longrightarrow> \<forall>(db, s)\<in>set openStmts. stmt_ok db s \<Longrightarrow> R (op_files w) (op_files w')"
  unfolding OpenDB_def openStmts_def by (erule rel_steps) fastforce

end

subsection \<open>Stored rows\<close>

text \<open>Every table is kept with its rows, of which only the column \<open>last_hash\<close> may go.\<close>

definition table_kept :: "sqlTable \<Rightarrow> sqlTable \<Rightarrow> bool" where
  "table_kept tb tb' \<longleftrightarrow> (let cs = set (tb_columns tb) - {''last_hash''} in cs \<subseteq> set (tb_columns tb')
     \<and> list_all2 (\<lambda>r r'. \<forall>c\<in>cs. mget r' c = mget r c) (tb_rows tb) (tb_rows tb'))"

definition files_kept :: "(dbName \<Rightarrow> sqlFile) \<Rightarrow> (dbName \<Rightarrow> sqlFile) \<Rightarrow> bool" where
  "files_kept F G \<longleftrightarrow> (\<forall>db t tb. mget (sf_tables (F db)) t = Some tb \<longrightarrow>
     (\<exists>tb'. mget (sf_tables (G db)) t = Some tb' \<and> table_kept tb tb'))"

definition keeps_data :: "dbName \<Rightarrow> sqlStmt \<Rightarrow> bool" where
  "keeps_data db s \<longleftrightarrow> (case s of DropColumn t c \<Rightarrow> c = ''last_hash'' | _ \<Rightarrow> True)"

lemma column_kept: "table_kept tb tb' \<Longrightarrow> c \<in> set (tb_columns tb) \<Longrightarrow> c \<noteq> ''last_hash''
    \<Longrightarrow> list_all2 (\<lambda>r r'. mget r' c = mget r c) (tb_rows tb) (tb_rows tb')"
  by (simp add: table_kept_def Let_def list_all2_conv_all_nth)

lemma table_kept_refl: "table_kept tb tb"
  by (simp add: table_kept_def Let_def list_all2_same)

lemma table_kept_trans: "table_kept a b \<Longrightarrow> table_kept b c \<Longrightarrow> table_kept a c"
  unfolding table_kept_def Let_def by (simp add: list_all2_conv_all_nth subset_iff)

interpretation kept: file_relation files_kept keeps_data
proof
  show "files_kept F F" for F by (simp add: files_kept_def table_kept_refl)
  show "files_kept F G \<Longrightarrow> files_kept G H \<Longrightarrow> files_kept F H" for F G H
    unfolding files_kept_def using table_kept_trans by meson
  show "files_kept F (F(db := f))" if "keeps_data db s" "exec_stmt s (F db) = Some f" for db s F f
  proof -
    have "\<exists>tb'. mget (sf_tables f) t = Some tb' \<and> table_kept tb tb'" if tb: "mget (sf_tables (F db)) t = Some tb" for t tb
      using \<open>exec_stmt s (F db) = Some f\<close> \<open>keeps_data db s\<close> tb
      by (cases s) (auto simp: keeps_data_def table_kept_refl mget_mput table_kept_def Let_def list_all2_conv_all_nth gomap
          split: option.splits if_splits)
    then show ?thesis by (auto simp: files_kept_def table_kept_refl)
  qed
qed

subsection \<open>Usable files\<close>

text \<open>The columns the tables had in their first release, before the columns the migrations add.\<close>

primrec first_release :: "dbName \<Rightarrow> (string \<times> string list) list" where
  "first_release Core =
    [(''counters'', [''scope'', ''observations'', ''unique_packets'', ''last_packet_at'', ''payload_types'', ''observers'', ''nodes'',
       ''updated_at'']),
     (''nodes'', [''pubkey'', ''name'', ''node_type'', ''has_gps'', ''lat'', ''lon'', ''first_advert_at'', ''last_advert_at'', ''advert_count'',
       ''networks'', ''observer_id'', ''observer_name'', ''updated_at'']),
     (''adverts'', [''id'', ''pubkey'', ''name'', ''node_type'', ''has_gps'', ''lat'', ''lon'', ''advert_time'', ''received_at'', ''network_id'',
       ''observer_id'', ''observer_name'']),
     (''observers'', [''observer_id'', ''name'', ''first_seen'', ''last_seen'', ''observations'', ''networks'', ''updated_at'']),
     (''imported_nodes'', [''public_key'', ''type'', ''adv_name'', ''last_advert'', ''last_advert_at'', ''adv_lat'', ''adv_lon'',
       ''inserted_date'', ''updated_date'', ''params'', ''link'', ''source'', ''inserted_by'', ''updated_by'', ''synced_at'']),
     (''imported_node_history'', [''id'', ''public_key'', ''sig'', ''type'', ''adv_name'', ''last_advert'', ''last_advert_at'', ''adv_lat'',
       ''adv_lon'', ''inserted_date'', ''updated_date'', ''params'', ''link'', ''source'', ''inserted_by'', ''updated_by'',
       ''first_captured_at'', ''last_captured_at''])]"
| "first_release Links =
    [(''links'', [''node_a'', ''node_b'', ''packet_count'', ''first_seen'', ''last_seen'', ''activity_score'', ''score_updated_at'']),
     (''link_networks'', [''node_a'', ''node_b'', ''network_id'', ''first_seen'', ''last_seen''])]"

declare first_release.simps [simp del]

primrec schema_of :: "dbName \<Rightarrow> sqlStmt list" where
  "schema_of Core = counterSchema"
| "schema_of Links = linkSchema"

text \<open>Files of this or an earlier release: a table that exists has the columns of its first release, and no index is on
  \<open>last_hash\<close>. Empty files are usable.\<close>

definition usable :: "(dbName \<Rightarrow> sqlFile) \<Rightarrow> bool" where
  "usable F \<longleftrightarrow> (\<forall>db. (\<forall>t cs tb. (t, cs) \<in> set (first_release db) \<longrightarrow> mget (sf_tables (F db)) t = Some tb \<longrightarrow> set cs \<subseteq> set (tb_columns tb))
     \<and> (\<forall>i t cs. mget (sf_indexes (F db)) i = Some (t, cs) \<longrightarrow> ''last_hash'' \<notin> set cs))"

primrec keeps_usable :: "dbName \<Rightarrow> sqlStmt \<Rightarrow> bool" where
  "keeps_usable db (CreateTable t cs) = list_all (\<lambda>(t', cs'). t' = t \<longrightarrow> set cs' \<subseteq> set cs) (first_release db)"
| "keeps_usable db (CreateIndex i t cs) = (''last_hash'' \<notin> set cs)"
| "keeps_usable db (AddColumn t c decl) = True"
| "keeps_usable db (DropColumn t c) = (c = ''last_hash'' \<and> list_all (\<lambda>(t', cs'). ''last_hash'' \<notin> set cs') (first_release db))"

interpretation compat: file_relation "\<lambda>F G. usable F \<longrightarrow> usable G" keeps_usable
proof
  show "usable F \<longrightarrow> usable (F(db := f))" if ok: "keeps_usable db s" and ex: "exec_stmt s (F db) = Some f" for db s F f
  proof
    assume us: "usable F"
    have base: "set cs \<subseteq> set (tb_columns tb)" if "(t, cs) \<in> set (first_release db)" "mget (sf_tables f) t = Some tb" for t cs tb
      using that ok ex us by (cases s) (fastforce simp: usable_def list_all_iff mget_mput split: option.splits if_splits)+
    have "''last_hash'' \<notin> set cs" if "mget (sf_indexes f) i = Some (t, cs)" for i t cs
      using that ok ex us by (cases s) (fastforce simp: usable_def mget_mput split: option.splits if_splits)+
    with base us show "usable (F(db := f))" unfolding usable_def by (metis fun_upd_apply)
  qed
qed auto

subsection \<open>Facts a step establishes\<close>

datatype schemaFact = TableThere dbName string | IndexThere dbName string | ColumnThere dbName string string
  | ColumnGone dbName string string

primrec holds :: "schemaFact \<Rightarrow> (dbName \<Rightarrow> sqlFile) \<Rightarrow> bool" where
  "holds (TableThere db t) F = (mget (sf_tables (F db)) t \<noteq> None)"
| "holds (IndexThere db i) F = (mget (sf_indexes (F db)) i \<noteq> None)"
| "holds (ColumnThere db t c) F = (\<exists>tb. mget (sf_tables (F db)) t = Some tb \<and> c \<in> set (tb_columns tb))"
| "holds (ColumnGone db t c) F = (\<forall>tb. mget (sf_tables (F db)) t = Some tb \<longrightarrow> c \<notin> set (tb_columns tb))"

definition kills :: "dbName \<Rightarrow> sqlStmt \<Rightarrow> schemaFact \<Rightarrow> bool" where
  "kills db s x = (case (s, x) of
     (CreateTable t cs, ColumnGone db' t' c) \<Rightarrow> db' = db \<and> t' = t \<and> c \<in> set cs
   | (AddColumn t c decl, ColumnGone db' t' c') \<Rightarrow> db' = db \<and> t' = t \<and> c' = c
   | (DropColumn t c, ColumnThere db' t' c') \<Rightarrow> db' = db \<and> t' = t \<and> c' = c
   | _ \<Rightarrow> False)"

lemma fact_kept: "\<not> kills db s x \<Longrightarrow> exec_stmt s (F db) = Some f \<Longrightarrow> holds x F \<Longrightarrow> holds x (F(db := f))"
  by (cases s; cases x) (auto simp: kills_def mget_mput split: option.splits if_splits)

definition stmt_facts :: "dbName \<Rightarrow> sqlStmt \<Rightarrow> schemaFact list" where
  "stmt_facts db s = (case s of CreateTable t cs \<Rightarrow> [TableThere db t] | CreateIndex i t cs \<Rightarrow> [IndexThere db i]
     | AddColumn t c decl \<Rightarrow> [ColumnThere db t c] | DropColumn t c \<Rightarrow> [ColumnGone db t c])"

text \<open>What a step leaves true when it succeeds, and what it does on usable files.\<close>

primrec step_facts :: "openStep \<Rightarrow> schemaFact list" where
  "step_facts (OpenHandle db) = []"
| "step_facts (Script db ss) = concat (map (stmt_facts db) ss)"
| "step_facts (Ensure db t c decl) = [ColumnThere db t c]"
| "step_facts (DropIfExists db t c) = [ColumnGone db t c]"
| "step_facts (StatsQuery db t cs) = TableThere db t # map (ColumnThere db t) cs"

definition base_facts :: "dbName \<Rightarrow> sqlStmt \<Rightarrow> schemaFact list" where
  "base_facts db s = (case s of CreateTable t cs \<Rightarrow> (case map_of (first_release db) t of None \<Rightarrow> [] | Some cs \<Rightarrow> map (ColumnThere db t) cs) | _ \<Rightarrow> [])"

primrec step_base :: "openStep \<Rightarrow> schemaFact list" where
  "step_base (OpenHandle db) = []"
| "step_base (Script db ss) = concat (map (base_facts db) ss)"
| "step_base (Ensure db t c decl) = []"
| "step_base (DropIfExists db t c) = []"
| "step_base (StatsQuery db t cs) = []"

definition openFacts :: "schemaFact list" where
  "openFacts = concat (map (\<lambda>(x, _, _). step_facts x @ step_base x) openSteps)"

text \<open>No statement of the opening undoes what a step establishes.\<close>

definition spares :: "dbName \<Rightarrow> sqlStmt \<Rightarrow> bool" where
  "spares db s \<longleftrightarrow> list_all (\<lambda>x. \<not> kills db s x) openFacts"

interpretation facts: file_relation "\<lambda>F G. \<forall>x\<in>set openFacts. holds x F \<longrightarrow> holds x G" spares
  by unfold_locales (auto simp: spares_def list_all_iff intro: fact_kept)

lemma base_columns_schema:
  assumes "(t, cs) \<in> set (first_release db)"
  shows "\<exists>cs'. CreateTable t cs' \<in> set (schema_of db) \<and> set cs \<subseteq> set cs'"
proof -
  have "list_all (\<lambda>(t, cs). list_ex (\<lambda>s. case s of CreateTable t' cs' \<Rightarrow> t' = t \<and> set cs \<subseteq> set cs' | _ \<Rightarrow> False) (schema_of db)) (first_release db)"
  proof (cases db)
    case Core
    show ?thesis unfolding Core by code_simp
  next
    case Links
    show ?thesis unfolding Links by code_simp
  qed
  then obtain s where s: "s \<in> set (schema_of db)" "case s of CreateTable t' cs' \<Rightarrow> t' = t \<and> set cs \<subseteq> set cs' | _ \<Rightarrow> False"
    using assms unfolding list_all_iff list_ex_iff by blast
  show ?thesis by (cases s) (use s in auto)
qed

lemma created_once: "CreateTable t cs \<in> set (schema_of db) \<Longrightarrow> CreateTable t cs' \<in> set (schema_of db) \<Longrightarrow> cs' = cs"
  by (cases db) (auto simp: counterSchema_def linkSchema_def)

lemma no_last_hash: "CreateTable t cs \<in> set (schema_of db) \<Longrightarrow> ''last_hash'' \<notin> set cs"
  by (cases db) (auto simp: counterSchema_def linkSchema_def)

lemma open_statements:
  assumes "(db, s) \<in> set openStmts"
  shows "s \<in> set (schema_of db) \<or> (\<exists>t c decl. s = AddColumn t c decl \<and> c \<noteq> ''last_hash'') \<or> (\<exists>t. s = DropColumn t ''last_hash'')"
  using assms by (auto simp: openStmts_def openSteps_def coreMigrations_def linkMigrations_def networkMigrations_def)

lemma open_facts: "x \<in> set openFacts \<Longrightarrow> (case x of ColumnThere db t c \<Rightarrow> c \<noteq> ''last_hash'' | ColumnGone db t c \<Rightarrow> c = ''last_hash'' | _ \<Rightarrow> True)"
proof -
  have "list_all (\<lambda>x. case x of ColumnThere db t c \<Rightarrow> c \<noteq> ''last_hash'' | ColumnGone db t c \<Rightarrow> c = ''last_hash'' | _ \<Rightarrow> True) openFacts"
    by code_simp
  then show "x \<in> set openFacts \<Longrightarrow> (case x of ColumnThere db t c \<Rightarrow> c \<noteq> ''last_hash'' | ColumnGone db t c \<Rightarrow> c = ''last_hash'' | _ \<Rightarrow> True)"
    by (simp add: list_all_iff)
qed

lemma open_statements_ok:
  assumes "(db, s) \<in> set openStmts"
  shows "spares db s" "keeps_usable db s" "keeps_data db s"
proof -
  have base: "''last_hash'' \<notin> set cs" if "(t, cs) \<in> set (first_release db)" for t cs
    using base_columns_schema [OF that] no_last_hash by blast
  have created: "set cs' \<subseteq> set cs" if "CreateTable t cs \<in> set (schema_of db)" "(t, cs') \<in> set (first_release db)" for t cs cs'
    using base_columns_schema [OF that(2)] created_once [OF that(1)] by blast
  have index: "''last_hash'' \<notin> set cs" if "CreateIndex i t cs \<in> set (schema_of db)" for i t cs
    using that by (cases db) (auto simp: counterSchema_def linkSchema_def)
  have creates: "AddColumn t c decl \<notin> set (schema_of db)" "DropColumn t c \<notin> set (schema_of db)" for t c decl
    by (cases db; simp add: counterSchema_def linkSchema_def)+
  have "\<not> kills db s x" if "x \<in> set openFacts" for x
    using open_statements [OF assms] open_facts [OF that] no_last_hash [of _ _ db] creates
    by (cases s; cases x) (auto simp: kills_def)
  then show "spares db s" by (simp add: spares_def list_all_iff)
  show "keeps_usable db s" using open_statements [OF assms] base created index creates
    by (cases s) (auto simp: list_all_iff dest: subsetD [OF created])
  show "keeps_data db s" using open_statements [OF assms] creates by (cases s) (auto simp: keeps_data_def)
qed

subsection \<open>A step that succeeds\<close>

lemma Exec_success:
  assumes "sql_Exec db s w = (True, w')"
  obtains f where "exec_stmt s (op_files w db) = Some f" "op_files w' = (op_files w)(db := f)"
  using assms unfolding sql_Exec_def by (elim driver_cases) (auto split: option.splits)

lemma executed_facts:
  assumes "sql_Exec db s w = (True, w')"
  shows "x \<in> set (stmt_facts db s) \<Longrightarrow> holds x (op_files w')"
    and "x \<in> set (base_facts db s) \<Longrightarrow> s \<in> set (schema_of db) \<Longrightarrow> usable (op_files w') \<Longrightarrow> holds x (op_files w')"
proof -
  from assms obtain f where f: "exec_stmt s (op_files w db) = Some f" "op_files w' = (op_files w)(db := f)" by (rule Exec_success)
  then show there: "x \<in> set (stmt_facts db s) \<Longrightarrow> holds x (op_files w')" for x
    by (cases s) (auto simp: stmt_facts_def mget_mput split: option.splits if_splits)
  show "x \<in> set (base_facts db s) \<Longrightarrow> s \<in> set (schema_of db) \<Longrightarrow> usable (op_files w') \<Longrightarrow> holds x (op_files w')"
  proof (cases s)
    case (CreateTable t cs)
    assume x: "x \<in> set (base_facts db s)" and s: "s \<in> set (schema_of db)" and us: "usable (op_files w')"
    obtain tb where tb: "mget (sf_tables (op_files w' db)) t = Some tb"
      using there [of "TableThere db t"] by (auto simp: CreateTable stmt_facts_def)
    obtain first where first: "map_of (first_release db) t = Some first" "\<exists>c\<in>set first. x = ColumnThere db t c"
      using x by (cases "map_of (first_release db) t") (auto simp: base_facts_def CreateTable)
    have "set first \<subseteq> set (tb_columns tb)" using us tb map_of_SomeD [OF first(1)] unfolding usable_def by blast
    then show "holds x (op_files w')" using first(2) tb by auto
  qed (simp_all add: base_facts_def)
qed

definition step_ok :: "openStep \<Rightarrow> bool" where
  "step_ok x \<longleftrightarrow> set (step_facts x @ step_base x) \<subseteq> set openFacts \<and> set (stmts_of x) \<subseteq> set openStmts
     \<and> (\<forall>db ss. x = Script db ss \<longrightarrow> set ss \<subseteq> set (schema_of db))"

lemma open_steps_ok: "(x, opened, msg) \<in> set openSteps \<Longrightarrow> step_ok x"
  by (force simp: step_ok_def openFacts_def openStmts_def openSteps_def)

lemma script_established:
  assumes "exec_script db ss w = (True, w')"
    and "\<forall>s\<in>set ss. (db, s) \<in> set openStmts \<and> s \<in> set (schema_of db) \<and> set (stmt_facts db s @ base_facts db s) \<subseteq> set openFacts"
    and "s \<in> set ss"
  shows "(\<forall>x\<in>set (stmt_facts db s). holds x (op_files w'))
    \<and> (usable (op_files w) \<longrightarrow> (\<forall>x\<in>set (base_facts db s). holds x (op_files w')))"
  using assms
proof (induction ss arbitrary: w)
  case (Cons s1 ss)
  obtain w1 where w1: "sql_Exec db s1 w = (True, w1)" "exec_script db ss w1 = (True, w')"
    using Cons.prems(1) by (auto split: prod.splits if_splits)
  have us: "usable (op_files w) \<Longrightarrow> usable (op_files w1)"
    using compat.rel_Exec [OF w1(1)] open_statements_ok(2) Cons.prems(2) by simp
  have keep: "\<forall>x\<in>set openFacts. holds x (op_files w1) \<longrightarrow> holds x (op_files w')"
    by (rule facts.rel_script [OF w1(2)]) (use open_statements_ok(1) Cons.prems(2) in simp)
  show ?case
  proof (cases "s = s1")
    case True
    then show ?thesis using keep executed_facts [OF w1(1)] us Cons.prems(2) by (auto simp: subset_iff)
  next
    case False
    then show ?thesis using Cons.IH [OF w1(2)] Cons.prems(2,3) us by auto
  qed
qed simp

lemma step_established:
  assumes "exec_step x w = (True, w')" "step_ok x"
  shows "y \<in> set (step_facts x) \<Longrightarrow> holds y (op_files w')"
    and "y \<in> set (step_base x) \<Longrightarrow> usable (op_files w) \<Longrightarrow> holds y (op_files w')"
proof -
  have script: "(\<forall>y\<in>set (stmt_facts db s). holds y (op_files w')) \<and> (usable (op_files w) \<longrightarrow> (\<forall>y\<in>set (base_facts db s). holds y (op_files w')))"
    if "x = Script db ss" "s \<in> set ss" for db ss s
    by (rule script_established [of db ss w w' s]) (use assms that in \<open>auto simp: step_ok_def\<close>)
  have ensured: "holds (ColumnThere db t c) (op_files w')" if "x = Ensure db t c decl" for db t c decl
    using assms(1) that
    by (auto simp: ensureColumn_def columnExists_def stmt_facts_def elim!: driver_cases
        dest!: executed_facts(1) [where x = "ColumnThere db t c"] split: prod.splits option.splits if_splits)
  have dropped: "holds (ColumnGone db t c) (op_files w')" if "x = DropIfExists db t c" for db t c
    using assms(1) that
    by (auto simp: dropColumnIfExists_def columnExists_def stmt_facts_def elim!: driver_cases
        dest!: executed_facts(1) [where x = "ColumnGone db t c"] split: prod.splits option.splits if_splits)
  have counted: "holds (TableThere db t) (op_files w') \<and> (\<forall>c\<in>set cs. holds (ColumnThere db t c) (op_files w'))"
    if "x = StatsQuery db t cs" for db t cs
    using assms(1) that by (auto simp: sql_Query_def elim!: driver_cases split: option.splits)
  show "y \<in> set (step_facts x) \<Longrightarrow> holds y (op_files w')"
    using script ensured dropped counted by (cases x) fastforce+
  show "y \<in> set (step_base x) \<Longrightarrow> usable (op_files w) \<Longrightarrow> holds y (op_files w')"
    using script by (cases x) auto
qed

lemma run_established:
  assumes "run_steps xs w = (None, w')" "\<forall>(x, _, _)\<in>set xs. step_ok x" "(x, opened, msg) \<in> set xs"
  shows "(\<forall>y\<in>set (step_facts x). holds y (op_files w')) \<and> (usable (op_files w) \<longrightarrow> (\<forall>y\<in>set (step_base x). holds y (op_files w')))"
  using assms
proof (induction xs arbitrary: w)
  case (Cons a xs)
  obtain x1 opened1 msg1 where a: "a = (x1, opened1, msg1)" by (cases a)
  obtain w1 where w1: "exec_step x1 w = (True, w1)" "run_steps xs w1 = (None, w')"
    using Cons.prems(1) by (auto simp: a split: prod.splits if_splits)
  have ok: "step_ok x1" using Cons.prems(2) by (simp add: a)
  have stmts: "\<forall>(db, s)\<in>set (stmts_of x). (db, s) \<in> set openStmts" if "(x, opened, msg) \<in> set (a # xs)" for x opened msg
    using Cons.prems(2) that by (fastforce simp: step_ok_def)
  have us: "usable (op_files w) \<Longrightarrow> usable (op_files w1)"
    using compat.rel_step [OF w1(1)] open_statements_ok(2) stmts [of x1 opened1 msg1] by (auto simp: a)
  have keep: "\<forall>y\<in>set openFacts. holds y (op_files w1) \<longrightarrow> holds y (op_files w')"
    by (rule facts.rel_steps [OF w1(2)]) (use stmts open_statements_ok(1) in fastforce)
  show ?case
  proof (cases "x = x1")
    case True
    then show ?thesis using keep step_established [OF w1(1) ok] ok by (auto simp: step_ok_def subset_iff)
  next
    case False
    then show ?thesis using Cons.IH [OF w1(2)] Cons.prems(2,3) us by (auto simp: a)
  qed
qed simp

lemma OpenDB_established:
  assumes "OpenDB w = (None, w')"
  shows "(x, opened, msg) \<in> set openSteps \<Longrightarrow> y \<in> set (step_facts x) \<Longrightarrow> holds y (op_files w')"
    and "usable (op_files w) \<Longrightarrow> y \<in> set openFacts \<Longrightarrow> holds y (op_files w')"
proof -
  have ok: "\<forall>(x, _, _)\<in>set openSteps. step_ok x" using open_steps_ok by auto
  note est = run_established [OF assms [unfolded OpenDB_def] ok]
  show "(x, opened, msg) \<in> set openSteps \<Longrightarrow> y \<in> set (step_facts x) \<Longrightarrow> holds y (op_files w')" using est by blast
  assume us: "usable (op_files w)" and y: "y \<in> set openFacts"
  then obtain x opened msg where "(x, opened, msg) \<in> set openSteps" "y \<in> set (step_facts x @ step_base x)"
    by (fastforce simp: openFacts_def)
  then show "holds y (op_files w')" using est us by auto
qed

subsection \<open>Without faults\<close>

lemma no_faults_stay: "op_faults w = [] \<Longrightarrow> exec_step x w = (ok, w') \<Longrightarrow> op_faults w' = []"
proof -
  have one: "op_faults w = [] \<Longrightarrow> sql_Exec db s w = (ok, w') \<Longrightarrow> op_faults w' = []" for db s w w' ok
    by (auto simp: sql_Exec_def split: option.splits)
  have "op_faults w = [] \<Longrightarrow> exec_script db ss w = (ok, w') \<Longrightarrow> op_faults w' = []" for db ss
    by (induction ss arbitrary: w) (auto dest: one split: prod.splits if_splits)
  then show "op_faults w = [] \<Longrightarrow> exec_step x w = (ok, w') \<Longrightarrow> op_faults w' = []"
    by (cases x) (auto simp: sql_Open_def sql_Query_def ensureColumn_def dropColumnIfExists_def columnExists_def
        dest: one split: prod.splits option.splits if_splits)
qed

lemma no_faults_run: "op_faults w = [] \<Longrightarrow> run_steps xs w = (None, w') \<Longrightarrow> op_faults w' = []"
  by (induction xs arbitrary: w) (auto dest: no_faults_stay split: prod.splits if_splits)

text \<open>Whether no statement of a step can fail but for a fault, given facts that hold.\<close>

primrec script_ready :: "dbName \<Rightarrow> sqlStmt list \<Rightarrow> schemaFact list \<Rightarrow> bool" where
  "script_ready db [] K = True"
| "script_ready db (s # ss) K = (case s of
     CreateTable t cs \<Rightarrow> script_ready db ss (stmt_facts db s @ base_facts db s @ K)
   | CreateIndex i t cs \<Rightarrow> TableThere db t \<in> set K \<and> list_all (\<lambda>c. ColumnThere db t c \<in> set K) cs \<and> script_ready db ss K
   | _ \<Rightarrow> False)"

primrec step_ready :: "openStep \<Rightarrow> schemaFact list \<Rightarrow> bool" where
  "step_ready (OpenHandle db) K = True"
| "step_ready (Script db ss) K = script_ready db ss K"
| "step_ready (Ensure db t c decl) K = (TableThere db t \<in> set K)"
| "step_ready (DropIfExists db t c) K = (c = ''last_hash'')"
| "step_ready (StatsQuery db t cs) K = (TableThere db t \<in> set K \<and> list_all (\<lambda>c. ColumnThere db t c \<in> set K) cs)"

primrec steps_ready :: "(openStep \<times> dbName list \<times> string) list \<Rightarrow> schemaFact list \<Rightarrow> bool" where
  "steps_ready [] K = True"
| "steps_ready (a # xs) K = (case a of (x, _, _) \<Rightarrow> step_ready x K \<and> steps_ready xs (step_facts x @ step_base x @ K))"

lemma index_created:
  assumes "holds (TableThere db t) F" "\<forall>c\<in>set cs. holds (ColumnThere db t c) F"
  shows "exec_stmt (CreateIndex i t cs) (F db) \<noteq> None"
  using assms by (auto split: option.split)

lemma script_succeeds:
  assumes "op_faults w = []" "usable (op_files w)" "\<forall>y\<in>set K. holds y (op_files w) \<and> y \<in> set openFacts" "script_ready db ss K"
    and "\<forall>s\<in>set ss. (db, s) \<in> set openStmts \<and> s \<in> set (schema_of db) \<and> set (stmt_facts db s @ base_facts db s) \<subseteq> set openFacts"
  shows "\<exists>w'. exec_script db ss w = (True, w')"
  using assms
proof (induction ss arbitrary: w K)
  case (Cons s ss)
  let ?K = "case s of CreateTable t cs \<Rightarrow> stmt_facts db s @ base_facts db s @ K | _ \<Rightarrow> K"
  have "exec_stmt s (op_files w db) \<noteq> None"
  proof (cases s)
    case (CreateIndex i t cs)
    then have "TableThere db t \<in> set K" "\<forall>c\<in>set cs. ColumnThere db t c \<in> set K" using Cons.prems(4) by (auto simp: list_all_iff)
    then show ?thesis unfolding CreateIndex using Cons.prems(3) by (intro index_created) blast+
  qed (use Cons.prems(4) in auto)
  then obtain w1 where w1: "sql_Exec db s w = (True, w1)" "op_faults w1 = []"
    using Cons.prems(1) by (auto simp: sql_Exec_def)
  have us: "usable (op_files w1)"
    using compat.rel_Exec [OF w1(1)] open_statements_ok(2) Cons.prems(2,5) by simp
  have keep: "\<forall>y\<in>set openFacts. holds y (op_files w) \<longrightarrow> holds y (op_files w1)"
    by (rule facts.rel_Exec [OF w1(1)]) (use open_statements_ok(1) Cons.prems(5) in simp)
  have "\<forall>y\<in>set ?K. holds y (op_files w1) \<and> y \<in> set openFacts"
    using keep Cons.prems(3,5) executed_facts [OF w1(1)] us by (cases s) (auto simp: subset_iff)
  moreover have "script_ready db ss ?K" using Cons.prems(4) by (cases s) auto
  ultimately show ?case using Cons.IH [OF w1(2) us] Cons.prems(5) w1(1) by simp
qed simp

lemma step_succeeds:
  assumes "op_faults w = []" "usable (op_files w)" "\<forall>y\<in>set K. holds y (op_files w) \<and> y \<in> set openFacts" "step_ready x K" "step_ok x"
  shows "\<exists>w'. exec_step x w = (True, w')"
proof (cases x)
  case (Script db ss)
  then show ?thesis using script_succeeds [OF assms(1-3), of db ss] assms(4,5) by (force simp: step_ok_def)
next
  case (DropIfExists db t c)
  have "\<not> (\<exists>(i, t', cs)\<in>set (mentries (sf_indexes (op_files w db))). t' = t \<and> ''last_hash'' \<in> set cs)"
    using assms(2) unfolding usable_def by (auto simp: mentries_iff)
  then show ?thesis using assms(1,4) by (auto simp: DropIfExists dropColumnIfExists_def columnExists_def sql_Exec_def split: option.split)
next
  case (StatsQuery db t cs)
  then have "TableThere db t \<in> set K" "\<forall>c\<in>set cs. ColumnThere db t c \<in> set K" using assms(4) by (auto simp: list_all_iff)
  then have "holds (TableThere db t) (op_files w)" "\<forall>c\<in>set cs. holds (ColumnThere db t c) (op_files w)"
    using assms(3) by blast+
  then show ?thesis using assms(1) by (auto simp: StatsQuery sql_Query_def)
next
  case (Ensure db t c decl)
  then have "holds (TableThere db t) (op_files w)" using assms(3,4) by auto
  then show ?thesis using assms(1) by (auto simp: Ensure ensureColumn_def columnExists_def sql_Exec_def split: option.split)
qed (use assms in \<open>auto simp: sql_Open_def\<close>)

lemma steps_succeed:
  assumes "op_faults w = []" "usable (op_files w)" "\<forall>y\<in>set K. holds y (op_files w) \<and> y \<in> set openFacts" "steps_ready xs K"
    and "\<forall>(x, _, _)\<in>set xs. step_ok x"
  shows "\<exists>w'. run_steps xs w = (None, w')"
  using assms
proof (induction xs arbitrary: w K)
  case (Cons a xs)
  obtain x opened msg where a: "a = (x, opened, msg)" by (cases a)
  have ok: "step_ok x" using Cons.prems(5) by (simp add: a)
  obtain w1 where w1: "exec_step x w = (True, w1)"
    using step_succeeds [OF Cons.prems(1-3) _ ok] Cons.prems(4) by (auto simp: a)
  have stmts: "\<forall>(db, s)\<in>set (stmts_of x). (db, s) \<in> set openStmts" using ok by (auto simp: step_ok_def)
  have us: "usable (op_files w1)"
    using compat.rel_step [OF w1] stmts open_statements_ok(2) Cons.prems(2) by auto
  have keep: "\<forall>y\<in>set openFacts. holds y (op_files w) \<longrightarrow> holds y (op_files w1)"
    by (rule facts.rel_step [OF w1]) (use stmts open_statements_ok(1) in auto)
  have "\<forall>y\<in>set (step_facts x @ step_base x @ K). holds y (op_files w1) \<and> y \<in> set openFacts"
    using keep step_established [OF w1 ok] ok Cons.prems(2,3) by (auto simp: step_ok_def subset_iff)
  then have "\<exists>w'. run_steps xs w1 = (None, w')"
    by (rule Cons.IH [OF no_faults_stay [OF Cons.prems(1) w1] us]) (use Cons.prems(4,5) in \<open>simp_all add: a\<close>)
  then show ?case by (simp add: a w1)
qed simp

lemma open_ready: "steps_ready openSteps []"
  by code_simp

lemma OpenDB_succeeds: "op_faults w = [] \<Longrightarrow> usable (op_files w) \<Longrightarrow> \<exists>w'. OpenDB w = (None, w')"
  unfolding OpenDB_def by (rule steps_succeed [of w "[]"]) (use open_ready open_steps_ok in auto)

subsection \<open>Opening again\<close>

primrec opens :: "openStep \<Rightarrow> dbName list \<Rightarrow> dbName list" where
  "opens (OpenHandle db) hs = db # hs"
| "opens (Script db ss) hs = hs"
| "opens (Ensure db t c decl) hs = hs"
| "opens (DropIfExists db t c) hs = hs"
| "opens (StatsQuery db t cs) hs = hs"

lemma settled_stmt:
  assumes "op_faults w = []" "s \<in> set (schema_of db)" "\<forall>y\<in>set (stmt_facts db s). holds y (op_files w)"
  shows "sql_Exec db s w = (True, w)"
  using assms by (cases s; cases db) (auto simp: sql_Exec_def stmt_facts_def counterSchema_def linkSchema_def)

lemma settled_step:
  assumes "op_faults w = []" "step_ok x" "\<forall>y\<in>set (step_facts x). holds y (op_files w)"
  shows "exec_step x w = (True, w\<lparr>op_handles := opens x (op_handles w)\<rparr>)"
proof (cases x)
  case (Script db ss)
  then have "set ss \<subseteq> set (schema_of db)" "\<forall>s\<in>set ss. \<forall>y\<in>set (stmt_facts db s). holds y (op_files w)"
    using assms(2,3) by (auto simp: step_ok_def)
  then have "exec_script db ss w = (True, w)" by (induction ss) (simp_all add: settled_stmt [OF assms(1)])
  then show ?thesis by (simp add: Script)
next
  case (DropIfExists db t c)
  then show ?thesis using assms(1,3) by (auto simp: dropColumnIfExists_def columnExists_def split: option.split)
qed (use assms in \<open>auto simp: sql_Open_def sql_Query_def ensureColumn_def columnExists_def\<close>)

lemma settled_run:
  assumes "op_faults w = []" "\<forall>(x, _, _)\<in>set xs. step_ok x \<and> (\<forall>y\<in>set (step_facts x). holds y (op_files w))"
  shows "run_steps xs w = (None, w\<lparr>op_handles := fold (\<lambda>a. opens (fst a)) xs (op_handles w)\<rparr>)"
  using assms
proof (induction xs arbitrary: w)
  case (Cons a xs)
  obtain x opened msg where a: "a = (x, opened, msg)" by (cases a)
  have "exec_step x w = (True, w\<lparr>op_handles := opens x (op_handles w)\<rparr>)"
    using settled_step [OF Cons.prems(1)] Cons.prems(2) by (simp add: a)
  then show ?case using Cons.IH [of "w\<lparr>op_handles := opens x (op_handles w)\<rparr>"] Cons.prems by (simp add: a)
qed simp

text \<open>Which handles are open before each step, and that an error closes exactly them.\<close>

primrec closes_all :: "(openStep \<times> dbName list \<times> string) list \<Rightarrow> dbName list \<Rightarrow> bool" where
  "closes_all [] hs = True"
| "closes_all (a # xs) hs = (case a of (x, opened, _) \<Rightarrow> opened = rev hs \<and> distinct hs \<and> closes_all xs (opens x hs))"

lemma open_closes_all: "closes_all openSteps [] \<and> fold (\<lambda>a. opens (fst a)) openSteps [] = [Links, Core]"
  by code_simp

lemma step_handles: "exec_step x w = (ok, w') \<Longrightarrow> op_handles w' = (if ok then opens x (op_handles w) else op_handles w)"
proof -
  have one: "sql_Exec db s w = (ok, w') \<Longrightarrow> op_handles w' = op_handles w" for db s w w' ok
    unfolding sql_Exec_def by (erule driver_cases) (auto split: option.splits)
  have "exec_script db ss w = (ok, w') \<Longrightarrow> op_handles w' = op_handles w" for db ss
    by (induction ss arbitrary: w) (auto dest: one split: prod.splits if_splits)
  then show "exec_step x w = (ok, w') \<Longrightarrow> op_handles w' = (if ok then opens x (op_handles w) else op_handles w)"
    by (cases x) (auto simp: sql_Open_def sql_Query_def ensureColumn_def dropColumnIfExists_def columnExists_def
        elim!: driver_cases dest!: one split: prod.splits option.splits if_splits)
qed

lemma close_handles [simp]: "op_handles (fold sql_Close dbs w) = fold remove1 dbs (op_handles w)"
  by (induction dbs arbitrary: w) (simp_all add: sql_Close_def)

lemma remove_opened: "distinct hs \<Longrightarrow> fold remove1 (rev hs) (hs @ H) = H"
proof (induction hs arbitrary: H)
  case (Cons h hs)
  have "h \<notin> set xs \<Longrightarrow> fold remove1 xs (h # l) = h # fold remove1 xs l" for xs l
    by (induction xs arbitrary: l) auto
  then show ?case using Cons by simp
qed simp

lemma run_handles:
  assumes "run_steps xs w = (r, w')" "op_handles w = hs @ H" "closes_all xs hs"
  shows "op_handles w' = (if r = None then fold (\<lambda>a. opens (fst a)) xs hs @ H else H)"
  using assms
proof (induction xs arbitrary: w hs)
  case (Cons a xs)
  obtain x opened msg where a: "a = (x, opened, msg)" by (cases a)
  obtain ok w1 where w1: "exec_step x w = (ok, w1)" by fastforce
  have "opens x (hs @ H) = opens x hs @ H" by (cases x) simp_all
  then show ?case using Cons.prems Cons.IH [of w1 "opens x hs"] step_handles [OF w1] w1 remove_opened
    by (auto simp: a split: if_splits)
qed simp

text \<open>An opening that fails, at whatever driver call, leaves no handle open; one that succeeds leaves both.\<close>

theorem open_leaks_no_handle:
  "case OpenDB w of (r, w') \<Rightarrow> op_handles w' = (if r = None then [Links, Core] @ op_handles w else op_handles w)"
  using run_handles [of openSteps w _ _ "[]" "op_handles w"] open_closes_all by (auto simp: OpenDB_def split: prod.split)

subsection \<open>Migration\<close>

text \<open>The columns the statements of db.go name.\<close>

definition statement_columns :: "(dbName \<times> string \<times> string list) list" where
  "statement_columns =
    [(Core, ''counters'', [''scope'', ''observations'', ''unique_packets'', ''last_packet_at'', ''payload_types'', ''observers'', ''nodes'',
       ''updated_at'']),
     (Core, ''nodes'', [''pubkey'', ''name'', ''node_type'', ''has_gps'', ''lat'', ''lon'', ''first_advert_at'', ''last_advert_at'',
       ''advert_count'', ''networks'', ''observer_id'', ''observer_name'', ''flags'', ''updated_at'']),
     (Core, ''adverts'', [''id'', ''hash'', ''raw_hex'', ''pubkey'', ''name'', ''node_type'', ''has_gps'', ''lat'', ''lon'', ''advert_time'',
       ''received_at'', ''network_id'', ''analyzer_name'', ''observer_id'', ''observer_name'']),
     (Core, ''observers'', [''observer_id'', ''name'', ''first_seen'', ''last_seen'', ''observations'', ''networks'', ''updated_at'']),
     (Core, ''imported_nodes'', [''public_key'', ''type'', ''adv_name'', ''last_advert'', ''last_advert_at'', ''adv_lat'', ''adv_lon'',
       ''inserted_date'', ''updated_date'', ''params'', ''link'', ''source'', ''inserted_by'', ''updated_by'', ''synced_at'']),
     (Core, ''imported_node_history'', [''id'', ''public_key'', ''sig'', ''type'', ''adv_name'', ''last_advert'', ''last_advert_at'',
       ''adv_lat'', ''adv_lon'', ''inserted_date'', ''updated_date'', ''params'', ''link'', ''source'', ''inserted_by'', ''updated_by'',
       ''first_captured_at'', ''last_captured_at'']),
     (Links, ''links'', [''node_a'', ''node_b'', ''packet_count'', ''first_seen'', ''last_seen'', ''activity_score'', ''score_updated_at'',
       ''last_hash_ab'', ''last_hash_ba'', ''dir_ab'', ''dir_ba'', ''snrs_ab'', ''snrs_ba'', ''low_confidence_count'', ''geo'', ''sources'']),
     (Links, ''link_networks'', [''node_a'', ''node_b'', ''network_id'', ''first_seen'', ''last_seen'', ''packet_count'', ''dir_ab'', ''dir_ba'',
       ''last_hash_ab'', ''last_hash_ba'', ''low_confidence_count''])]"

lemma statement_facts: "list_all (\<lambda>(db, t, cs). TableThere db t \<in> set openFacts \<and> list_all (\<lambda>c. ColumnThere db t c \<in> set openFacts) cs) statement_columns"
  by (simp add: statement_columns_def openFacts_def openSteps_def counterSchema_def linkSchema_def coreMigrations_def linkMigrations_def
      networkMigrations_def initStats_queries_def stmt_facts_def base_facts_def first_release.simps)

text \<open>The files after any number of starts, the driver calls of each failing as its list says.\<close>

primrec after_starts :: "bool list list \<Rightarrow> (dbName \<Rightarrow> sqlFile) \<Rightarrow> dbName \<Rightarrow> sqlFile" where
  "after_starts [] F = F"
| "after_starts (faults # fss) F =
     after_starts fss (op_files (snd (OpenDB \<lparr>op_files = F, op_handles = [], op_faults = faults\<rparr>)))"

lemma after_starts_kept: "files_kept F (after_starts fss F) \<and> (usable F \<longrightarrow> usable (after_starts fss F))"
proof (induction fss arbitrary: F)
  case (Cons faults fss)
  let ?w = "\<lparr>op_files = F, op_handles = [], op_faults = faults\<rparr>"
  obtain r w' where w': "OpenDB ?w = (r, w')" by fastforce
  have "files_kept F (op_files w')" "usable F \<longrightarrow> usable (op_files w')"
    using kept.rel_OpenDB [OF w'] compat.rel_OpenDB [OF w'] open_statements_ok by fastforce+
  then show ?case using Cons.IH [of "op_files w'"] kept.rel_trans w' by auto
qed (simp add: kept.rel_refl)

lemma OpenDB_again:
  assumes "OpenDB w = (None, w')" "op_faults w' = []"
  shows "OpenDB (w'\<lparr>op_handles := []\<rparr>) = (None, w'\<lparr>op_handles := [Links, Core]\<rparr>)"
proof -
  have "\<forall>(x, _, _)\<in>set openSteps. step_ok x \<and> (\<forall>y\<in>set (step_facts x). holds y (op_files (w'\<lparr>op_handles := []\<rparr>)))"
    using open_steps_ok OpenDB_established(1) [OF assms(1)] by fastforce
  from settled_run [OF _ this] show ?thesis using assms(2) open_closes_all by (simp add: OpenDB_def)
qed

text \<open>C11: From the files of any earlier release and after any starts that failed or were killed anywhere, a start without
  faults succeeds; then every column a statement names exists, no stored table or row is lost and no value
  changed, the column \<open>last_hash\<close> aside, and opening again changes nothing.\<close>

theorem migration_recovers:
  assumes "usable F"
  shows "\<exists>w'. OpenDB \<lparr>op_files = after_starts fss F, op_handles = [], op_faults = []\<rparr> = (None, w')
    \<and> (\<forall>(db, t, cs)\<in>set statement_columns. \<exists>tb. mget (sf_tables (op_files w' db)) t = Some tb \<and> set cs \<subseteq> set (tb_columns tb))
    \<and> files_kept F (op_files w') \<and> OpenDB (w'\<lparr>op_handles := []\<rparr>) = (None, w')"
proof -
  let ?w = "\<lparr>op_files = after_starts fss F, op_handles = [], op_faults = []\<rparr>"
  have F: "files_kept F (op_files ?w)" "usable (op_files ?w)" using after_starts_kept [of F fss] assms by simp_all
  obtain w' where w': "OpenDB ?w = (None, w')" using OpenDB_succeeds [of ?w] F(2) by auto
  have kept: "files_kept F (op_files w')"
    using kept.rel_trans [OF F(1) kept.rel_OpenDB [OF w']] open_statements_ok by fastforce
  have "\<exists>tb. mget (sf_tables (op_files w' db)) t = Some tb \<and> set cs \<subseteq> set (tb_columns tb)"
    if "(db, t, cs) \<in> set statement_columns" for db t cs
  proof -
    have facts: "TableThere db t \<in> set openFacts" "\<forall>c\<in>set cs. ColumnThere db t c \<in> set openFacts"
      using statement_facts that by (auto simp: list_all_iff)
    then obtain tb where tb: "mget (sf_tables (op_files w' db)) t = Some tb"
      using OpenDB_established(2) [OF w' F(2), of "TableThere db t"] by auto
    have "c \<in> set (tb_columns tb)" if "c \<in> set cs" for c
      using OpenDB_established(2) [OF w' F(2), of "ColumnThere db t c"] facts(2) that tb by auto
    then show ?thesis using tb by blast
  qed
  moreover have "op_faults w' = []"
    using no_faults_run [of ?w openSteps] w' by (simp add: OpenDB_def)
  moreover have "op_handles w' = [Links, Core]"
    using run_handles [of openSteps ?w None w' "[]" "[]"] w' open_closes_all by (simp add: OpenDB_def)
  ultimately show ?thesis using w' kept OpenDB_again [OF w'] by auto
qed

text \<open>A links file of the release that had \<open>last_hash\<close>, with one row, and an adverts table without hashes.\<close>

definition ex_files :: "dbName \<Rightarrow> sqlFile" where
  "ex_files db = (case db of
     Core \<Rightarrow> \<lparr>sf_tables = mput mempty ''adverts'' \<lparr>tb_columns = [''id'', ''pubkey'', ''name'', ''node_type'', ''has_gps'', ''lat'', ''lon'',
       ''advert_time'', ''received_at'', ''network_id'', ''observer_id'', ''observer_name''], tb_rows = []\<rparr>, sf_indexes = mempty\<rparr>
   | Links \<Rightarrow> \<lparr>sf_tables = mput mempty ''links'' \<lparr>tb_columns = [''node_a'', ''node_b'', ''packet_count'', ''first_seen'', ''last_seen'',
       ''activity_score'', ''score_updated_at'', ''last_hash''],
       tb_rows = [mput (mput mempty ''node_a'' ''aa'') ''last_hash'' ''h'']\<rparr>, sf_indexes = mempty\<rparr>)"

lemma ex_files_usable: "usable ex_files"
proof -
  have "set cs \<subseteq> set (tb_columns tb)" if "(t, cs) \<in> set (first_release db)" "mget (sf_tables (ex_files db)) t = Some tb" for db t cs tb
    using that by (cases db) (auto simp: ex_files_def mget_mput first_release.simps split: if_splits)
  then show ?thesis by (auto simp: usable_def ex_files_def split: dbName.splits)
qed

lemma migration_recovers_witness:
  "\<exists>w' tb r. OpenDB \<lparr>op_files = after_starts [[False, False, True], [False]] ex_files, op_handles = [], op_faults = []\<rparr> = (None, w')
     \<and> mget (sf_tables (op_files w' Links)) ''links'' = Some tb \<and> ''geo'' \<in> set (tb_columns tb)
     \<and> tb_rows tb = [r] \<and> mget r ''node_a'' = Some ''aa''"
proof -
  from migration_recovers [OF ex_files_usable, of "[[False, False, True], [False]]"]
  obtain w' where w': "OpenDB \<lparr>op_files = after_starts [[False, False, True], [False]] ex_files, op_handles = [], op_faults = []\<rparr> = (None, w')"
    and cols: "\<forall>(db, t, cs)\<in>set statement_columns. \<exists>tb. mget (sf_tables (op_files w' db)) t = Some tb \<and> set cs \<subseteq> set (tb_columns tb)"
    and kept: "files_kept ex_files (op_files w')" by blast
  from cols obtain tb where tb: "mget (sf_tables (op_files w' Links)) ''links'' = Some tb" "''geo'' \<in> set (tb_columns tb)"
    by (auto simp: statement_columns_def)
  let ?old = "the (mget (sf_tables (ex_files Links)) ''links'')"
  have old: "mget (sf_tables (ex_files Links)) ''links'' = Some ?old" by (simp add: ex_files_def mget_mput)
  have "table_kept ?old tb" using kept old tb(1) unfolding files_kept_def by fastforce
  moreover have "''node_a'' \<in> set (tb_columns ?old)" by (simp add: ex_files_def mget_mput)
  ultimately have "list_all2 (\<lambda>r r'. mget r' ''node_a'' = mget r ''node_a'') (tb_rows ?old) (tb_rows tb)"
    by (rule column_kept) simp
  moreover have "tb_rows ?old = [mput (mput mempty ''node_a'' ''aa'') ''last_hash'' ''h'']" by (simp add: ex_files_def mget_mput)
  ultimately obtain r where "tb_rows tb = [r]" "mget r ''node_a'' = Some ''aa''"
    by (auto simp: list_all2_Cons1 mget_mput)
  then show ?thesis using w' tb by blast
qed

end
