(* ===== verification/Spec2Isabelle.thy ===== *)
theory Spec2Isabelle
  imports PacketMetrics Route LiveHub NodeRegistry ObserverRegistry NetworkAreas Flags ImportedNodes MapQuery
    NetworkConfig Settings NetworkStore Telemetry Ingest Tangleveil Database LinkDatabase ImportedTables
    ServerStats ServerSearch ServerPrefixes ServerNodes ServerLinks ServerRoutes Snapshot
    Lifecycle Restart MetricCalls Schema
begin

text \<open>
  A verification development for meshcore-ninja-api, the service that reads packets of MeshCore
  analyzers from one multiplexed WebSocket, keeps counters, nodes, observers and links in memory,
  persists them to SQLite with a write-behind flush, and serves them over HTTP.

  How the program fits together. main.go reads the settings (app_config.go) and the catalogue (config.go),
  opens two SQLite databases (db.go), restores the stored state and starts the jobs. tangleveil.go routes
  each message to the collector of its source; collector.go decodes it and feeds the counters (store.go,
  metrics.go), the observers (observers.go), the link registry (links.go) and, for adverts, the nodes
  (nodes.go), whose hook feeds the live hub (live.go). Jobs refresh the catalogue, sweep, scan the nodes
  against coverage areas (flags.go, netareas.go), mirror an external directory (importer.go), write
  snapshots (snapshot.go), and flush each collection to the databases. server.go, prefixes.go, mapquery.go
  and route.go answer the requests; telemetry.go counts.

  Theories, in the order of their imports.
  \<^item> GoPrelude, GoStrings, GoSort, GoJson, GoTime: what the code uses of the language and its library (maps
    with an arbitrary range order, strings on ASCII, \<open>sort.Slice\<close>, JSON decoding, civil dates).
  \<^item> RateWindow, DedupWindow, PacketMetrics: metrics.go. The ring buffer of seconds refines a list of
    event times; the counter counts distinct hashes and (observer, hash) pairs.
  \<^item> LinkKeys, LinkRecords, LinkRegistry, LinkWalk, LinkPersist, LinkViews: links.go. Keys, link records,
    the sharded registry, the walk over a resolved path, persistence, views.
  \<^item> FlushLoop, DirtyMap: the flush loops of main.go with TakeDirty and Requeue as locales: no update is
    lost by failed saves. Links, nodes and observers interpret them.
  \<^item> MinHeap, RouteSearch, Route, Geo: route.go and the distance of mapquery.go.
  \<^item> NodeRegistry, ObserverRegistry, ImportedNodes, MapQuery: the registries and their queries.
  \<^item> NetworkAreas, Flags: coverage areas and the flagging scan.
  \<^item> LiveHub: the live feed, with bounded client queues.
  \<^item> NetworkConfig, Settings: the catalogue and the configuration.
  \<^item> NetworkStore: networks, analyzers and counters on an explicit heap, because a refresh decides by
    copying pointers which counters survive.
  \<^item> Telemetry, Ingest, Tangleveil: the metrics, the packet path from a message to the registries, and the
    reconnect loop with the catalogue refresh.
  \<^item> Database, LinkDatabase, ImportedTables: the tables of db.go as maps from primary keys, with
    transactions that commit or roll back; they implement the saves of the flush loop and give back what
    was saved. Schema: OpenDB with its migrations, any driver call of which may fail.
  \<^item> ServerStats, ServerSearch, ServerPrefixes, ServerNodes, ServerLinks, ServerRoutes: the handlers of
    server.go and prefixes.go as functions from the request and the server state to status and body, and
    the dispatch with its middleware.
  \<^item> Snapshot: snapshot.go, with every file operation failing or not.
  \<^item> Lifecycle, Restart, MetricCalls: main.go. The start, the jobs and flushes as steps in any order, the
    final flush and the next start; what survives any number of lives, what is lost; and that no call to
    the metrics client panics.

  Model. A Go struct is a record, a map an association list of distinct keys, a mutex a step, a pointer
  shared between components an index into a heap, a run-time panic \<open>None\<close>. int64 times are integers,
  uint64 counts are 64-bit words, float64 is the real numbers: rounding, infinities and NaN are not
  modelled, so equalities of distances, costs and scores are exact only up to it. Strings are ASCII. Two
  goroutines interleave as steps: a flush is two steps, so others run between taking a batch and saving it.

  Loops. The search loop, the walks and every range loop are total functions; the loop of \<open>Run\<close> is a
  function of the list of its rounds, which ends when the context does, so that no fuel is used anywhere.

  Not modelled: HTTP and WebSocket transport with its deadlines and pings, gzip and zstd streams, the JSON
  text of answers, SQL parsing and locking inside SQLite, the Prometheus client, signals, tickers and
  logging. These are the standard library or third-party packages; what they return to the modelled code
  is an argument or an input of it, and their failures are values of that input. Errors of single row
  reads after a query has started are covered only where they end a start (\<open>loadErrors\<close> of Lifecycle).
\<close>

end
